(* ===== verification/Prelude.thy ===== *)
theory Prelude
  imports Main "HOL-Library.Word"
begin

text \<open>
  Shared material of the development: the width of \<^verbatim>\<open>std::size_t\<close> and its wrap-around
  arithmetic, the address and byte types of the buffer model, and the generic lemmas on
  lists that several components use. Sizes are natural numbers below \<open>2 ^ 64\<close>; where the
  source adds or subtracts without a guard of its own, the model uses \<open>size_add\<close> and
  \<open>size_sub\<close>, which wrap as the machine does.
\<close>

named_theorems addrs_simps \<open>how an operation changes the bytes a buffer sequence denotes\<close>
named_theorems wf_intros \<open>preservation of well-formedness by an operation\<close>

type_synonym addr = nat
type_synonym byte = "8 word"
type_synonym memory = "addr \<Rightarrow> byte"

definition size_max :: nat where
  "size_max = 2 ^ 64 - 1"

definition size_add :: "nat \<Rightarrow> nat \<Rightarrow> nat" where
  "size_add a b = (a + b) mod 2 ^ 64"

definition size_sub :: "nat \<Rightarrow> nat \<Rightarrow> nat" where
  "size_sub a b = (a + 2 ^ 64 - b) mod 2 ^ 64"

lemma size_add_exact [simp]: "a + b \<le> size_max \<Longrightarrow> size_add a b = a + b"
  by (simp add: size_add_def size_max_def)

lemma size_sub_exact [simp]:
  assumes "b \<le> a" and "a \<le> size_max"
  shows "size_sub a b = a - b"
proof -
  have "a + 2 ^ 64 - b = (a - b) + 2 ^ 64" using assms(1) by simp
  moreover have "a - b < 2 ^ 64" using assms(2) by (simp add: size_max_def)
  ultimately show ?thesis by (simp only: size_sub_def mod_add_self2 mod_less)
qed

lemma size_add_le_max: "size_add a b \<le> size_max"
  by (simp add: size_add_def size_max_def less_Suc_eq_le [symmetric])

lemma size_sub_underflow: "size_sub 0 1 = size_max"
  by (simp add: size_sub_def size_max_def)

lemma size_sub_zero [simp]: "a \<le> size_max \<Longrightarrow> size_sub a 0 = a"
  by simp

text \<open>Prefixes of an interval of addresses.\<close>

lemma take_upt_shift: "take k [i..<i + n] = [i..<i + min k n]"
  by (cases "k \<le> n") (auto simp: min_def)

text \<open>Splitting a bounded transfer after its first \<open>a\<close> units.\<close>

lemma min_add_step:
  fixes x y z :: nat
  assumes "a \<le> x" "a \<le> y" "a \<le> z"
  shows "a + min (x - a) (min (y - a) (z - a)) = min x (min y z)"
  using assms by (auto simp: min_def)

text \<open>A range inside a prefix is the same range of the whole list.\<close>

lemma take_drop_prefix:
  assumes "m = take (length m) xs" and "n \<le> length m - f"
  shows "take n (drop f m) = take n (drop f xs)"
proof -
  have "take n (drop f m) = take n (take (length m - f) (drop f xs))"
    by (subst assms(1)) (simp add: drop_take)
  also have "\<dots> = take n (drop f xs)" using assms(2) by (simp add: min_def)
  finally show ?thesis .
qed

end
