(* ===== verification/Buffers.thy ===== *)
theory Buffers
  imports Prelude
begin

text \<open>
  The buffer vocabulary of \<^verbatim>\<open>include/boost/capy/buffers.hpp\<close>, \<^verbatim>\<open>buffers/buffer_copy.hpp\<close>,
  \<^verbatim>\<open>buffers/front.hpp\<close> and \<^verbatim>\<open>buffers/make_buffer.hpp\<close>. A buffer is an address and a size; the
  two classes \<^verbatim>\<open>mutable_buffer\<close> and \<^verbatim>\<open>const_buffer\<close> have the same members and differ only in
  whether the bytes may be written, so one record stands for both. A buffer sequence is the
  list its iterators walk. \<open>addrs\<close> is the abstraction every other theory of the buffer group
  uses: the addresses a sequence denotes, in order.
\<close>

section \<open>Buffers\<close>

record mutable_buffer =
  buf_p :: addr
  buf_n :: nat

type_synonym const_buffer = mutable_buffer

definition mk_buffer :: "addr \<Rightarrow> nat \<Rightarrow> mutable_buffer" where
  "mk_buffer data sz = \<lparr>buf_p = data, buf_n = sz\<rparr>"

definition empty_buffer :: mutable_buffer where
  "empty_buffer = \<lparr>buf_p = 0, buf_n = 0\<rparr>"

definition mutable_plus_assign :: "mutable_buffer \<Rightarrow> nat \<Rightarrow> mutable_buffer" where
  "mutable_plus_assign b n =
     (let n' = (if n > buf_n b then buf_n b else n)
      in b\<lparr>buf_p := buf_p b + n', buf_n := buf_n b - n'\<rparr>)"

definition const_from_mutable :: "mutable_buffer \<Rightarrow> const_buffer" where
  "const_from_mutable b = mk_buffer (buf_p b) (buf_n b)"

definition const_plus_assign :: "const_buffer \<Rightarrow> nat \<Rightarrow> const_buffer" where
  "const_plus_assign b n =
     (let n' = (if n > buf_n b then buf_n b else n)
      in b\<lparr>buf_p := buf_p b + n', buf_n := buf_n b - n'\<rparr>)"

section \<open>Sizes of sequences\<close>

fun buffer_size_loop :: "nat \<Rightarrow> const_buffer list \<Rightarrow> nat" where
  "buffer_size_loop n [] = n"
| "buffer_size_loop n (b # bs) = buffer_size_loop (size_add n (buf_n b)) bs"

definition buffer_size :: "const_buffer list \<Rightarrow> nat" where
  "buffer_size bs = buffer_size_loop 0 bs"

fun buffer_empty :: "const_buffer list \<Rightarrow> bool" where
  "buffer_empty [] = True"
| "buffer_empty (b # bs) = (if buf_n b \<noteq> 0 then False else buffer_empty bs)"

fun length_impl :: "nat \<Rightarrow> const_buffer list \<Rightarrow> nat" where
  "length_impl n [] = n"
| "length_impl n (b # bs) = length_impl (size_add n 1) bs"

definition buffer_length :: "const_buffer list \<Rightarrow> nat" where
  "buffer_length bs = length_impl 0 bs"

fun front :: "mutable_buffer list \<Rightarrow> mutable_buffer" where
  "front [] = empty_buffer"
| "front (b # bs) = b"

section \<open>Copying between sequences\<close>

definition memcpy :: "addr \<Rightarrow> addr \<Rightarrow> nat \<Rightarrow> memory \<Rightarrow> memory" where
  "memcpy d s n m = (\<lambda>a. if d \<le> a \<and> a < d + n then m (s + (a - d)) else m a)"

definition copy_amount :: "const_buffer \<Rightarrow> mutable_buffer \<Rightarrow> nat \<Rightarrow> nat \<Rightarrow> nat" where
  "copy_amount b0 b1 at_most tot =
     (let n = buf_n b0;
          n = (if n > buf_n b1 then buf_n b1 else n)
      in if n > at_most - tot then at_most - tot else n)"

function buffer_copy_loop ::
  "nat \<Rightarrow> nat \<Rightarrow> nat \<Rightarrow> nat \<Rightarrow> const_buffer list \<Rightarrow> mutable_buffer list \<Rightarrow> memory \<Rightarrow> nat \<times> memory"
where
  "buffer_copy_loop at_most tot pos0 pos1 (s # src) (d # dest) m =
     (if tot < at_most then
        let b0 = const_plus_assign s pos0;
            b1 = mutable_plus_assign d pos1;
            amount = copy_amount b0 b1 at_most tot;
            m' = (if amount \<noteq> 0 then memcpy (buf_p b1) (buf_p b0) amount m else m);
            tot' = tot + amount;
            (dest', pos1') = (if amount = buf_n b1 then (dest, 0) else (d # dest, pos1 + amount));
            (src', pos0') = (if amount = buf_n b0 then (src, 0) else (s # src, pos0 + amount))
        in buffer_copy_loop at_most tot' pos0' pos1' src' dest' m'
      else (tot, m))"
| "buffer_copy_loop at_most tot pos0 pos1 [] dest m = (tot, m)"
| "buffer_copy_loop at_most tot pos0 pos1 (s # src) [] m = (tot, m)"
  by pat_completeness auto
termination
  by (relation "measure (\<lambda>(at_most, tot, pos0, pos1, src, dest, m).
        length src + length dest + (at_most - tot))")
     (auto simp: copy_amount_def Let_def split: if_splits)

declare buffer_copy_loop.simps(1) [simp del]

definition buffer_copy ::
  "mutable_buffer list \<Rightarrow> const_buffer list \<Rightarrow> nat \<Rightarrow> memory \<Rightarrow> nat \<times> memory" where
  "buffer_copy dest src at_most m = buffer_copy_loop at_most 0 0 0 src dest m"

definition make_buffer :: "addr \<Rightarrow> nat \<Rightarrow> mutable_buffer" where
  "make_buffer data sz = mk_buffer data sz"

definition make_buffer_max :: "addr \<Rightarrow> nat \<Rightarrow> nat \<Rightarrow> mutable_buffer" where
  "make_buffer_max data sz max_size =
     mk_buffer data (if sz < max_size then sz else max_size)"

section \<open>The bytes a sequence denotes\<close>

definition baddrs :: "mutable_buffer \<Rightarrow> addr list" where
  "baddrs b = [buf_p b..<buf_p b + buf_n b]"

definition addrs :: "mutable_buffer list \<Rightarrow> addr list" where
  "addrs bs = concat (map baddrs bs)"

definition wf_buffers :: "mutable_buffer list \<Rightarrow> bool" where
  "wf_buffers bs \<longleftrightarrow> length (addrs bs) \<le> size_max"

lemma length_baddrs [simp]: "length (baddrs b) = buf_n b"
  by (simp add: baddrs_def)

lemma addrs_Nil [simp]: "addrs [] = []"
  and addrs_Cons [simp]: "addrs (b # bs) = baddrs b @ addrs bs"
  and addrs_append [simp]: "addrs (xs @ ys) = addrs xs @ addrs ys"
  by (simp_all add: addrs_def)

lemma wf_buffers_Cons: "wf_buffers (b # bs) \<Longrightarrow> buf_n b \<le> size_max \<and> wf_buffers bs"
  by (simp add: wf_buffers_def)

lemma wf_buffers_drop [wf_intros]: "wf_buffers bs \<Longrightarrow> wf_buffers (drop k bs)"
  by (induction bs arbitrary: k) (auto simp: drop_Cons wf_buffers_Cons split: nat.splits)

lemma wf_buffers_take [wf_intros]: "wf_buffers bs \<Longrightarrow> wf_buffers (take k bs)"
proof -
  have "length (addrs bs) = length (addrs (take k bs)) + length (addrs (drop k bs))"
    by (metis addrs_append append_take_drop_id length_append)
  then show "wf_buffers bs \<Longrightarrow> wf_buffers (take k bs)" by (simp add: wf_buffers_def)
qed

lemma last_le_addrs: "bs \<noteq> [] \<Longrightarrow> buf_n (last bs) \<le> length (addrs bs)"
  by (induction bs) (auto intro: trans_le_add2)

lemma const_plus_assign_eq_mutable: "const_plus_assign = mutable_plus_assign"
  by (intro ext) (simp add: const_plus_assign_def mutable_plus_assign_def)

lemma baddrs_plus_assign [addrs_simps]: "baddrs (mutable_plus_assign b n) = drop n (baddrs b)"
  by (auto simp: mutable_plus_assign_def baddrs_def Let_def)

lemma buf_n_plus_assign [simp]: "buf_n (mutable_plus_assign b n) = buf_n b - n"
  by (simp add: mutable_plus_assign_def Let_def)

lemma buf_p_plus_assign: "n \<le> buf_n b \<Longrightarrow> buf_p (mutable_plus_assign b n) = buf_p b + n"
  by (simp add: mutable_plus_assign_def Let_def)

lemma buffer_size_loop_exact:
  "n + length (addrs bs) \<le> size_max \<Longrightarrow> buffer_size_loop n bs = n + length (addrs bs)"
  by (induction n bs rule: buffer_size_loop.induct) auto

lemma buffer_size_exact [simp]: "wf_buffers bs \<Longrightarrow> buffer_size bs = length (addrs bs)"
  by (simp add: buffer_size_def buffer_size_loop_exact wf_buffers_def)

lemma buffer_empty_iff: "buffer_empty bs \<longleftrightarrow> addrs bs = []"
  by (induction bs rule: buffer_empty.induct) (auto simp: baddrs_def)

lemma length_impl_exact: "n + length bs \<le> size_max \<Longrightarrow> length_impl n bs = n + length bs"
  by (induction n bs rule: length_impl.induct) auto

section \<open>Correctness of buffer_copy\<close>

lemma memcpy_outside: "a \<notin> set [d..<d + n] \<Longrightarrow> memcpy d s n m a = m a"
  by (auto simp: memcpy_def)

lemma memcpy_copies: "map (memcpy d s n m) [d..<d + n] = map m [s..<s + n]"
  by (rule nth_equalityI) (auto simp: memcpy_def)

text \<open>
  The specification of a copy: the first \<open>k\<close> addresses of \<open>ds\<close> now hold what the first \<open>k\<close>
  addresses of \<open>ss\<close> held before, and no other address changed.
\<close>

definition copied :: "nat \<Rightarrow> addr list \<Rightarrow> addr list \<Rightarrow> memory \<Rightarrow> memory \<Rightarrow> bool" where
  "copied k ds ss m m' \<longleftrightarrow>
     map m' (take k ds) = map m (take k ss) \<and> (\<forall>a. a \<notin> set (take k ds) \<longrightarrow> m' a = m a)"

lemma copied_0 [simp]: "copied 0 ds ss m m' \<longleftrightarrow> m' = m"
  by (auto simp: copied_def)

lemma copied_split:
  assumes "copied k ds ss m m1"
    and "copied j (drop k ds) (drop k ss) m1 m2"
    and "distinct ds" and "set ds \<inter> set ss = {}"
  shows "copied (k + j) ds ss m m2"
proof -
  have d1: "set (take k ds) \<inter> set (take j (drop k ds)) = {}"
    using assms(3) by (metis append_take_drop_id distinct_append disjoint_iff in_set_takeD)
  have d2: "set (take k ds) \<inter> set (take j (drop k ss)) = {}"
    using assms(4) by (meson disjoint_iff in_set_dropD in_set_takeD)
  have "map m2 (take k ds) = map m1 (take k ds)"
    using assms(2) d1 by (simp add: copied_def disjoint_iff)
  also have "\<dots> = map m (take k ss)"
    using assms(1) unfolding copied_def by blast
  finally have e1: "map m2 (take k ds) = map m (take k ss)" .
  have e2: "map m1 (take j (drop k ss)) = map m (take j (drop k ss))"
    using assms(1) d2 by (auto simp: copied_def disjoint_iff)
  show ?thesis
    using assms(1,2) e1 e2 by (auto simp: copied_def take_add)
qed

text \<open>The two positions of the loop stay inside the buffers they point into.\<close>

definition pos_ok :: "nat \<Rightarrow> mutable_buffer list \<Rightarrow> bool" where
  "pos_ok pos bs \<longleftrightarrow> (case bs of [] \<Rightarrow> pos = 0 | b # _ \<Rightarrow> pos \<le> buf_n b)"

lemma advance_addrs:
  assumes "pos \<le> buf_n b" and "a \<le> buf_n b - pos"
    and "(bs', pos') = (if a = buf_n b - pos then (bs, 0) else (b # bs, pos + a))"
  shows "drop pos' (addrs bs') = drop a (drop pos (addrs (b # bs)))"
  using assms by (auto split: if_splits simp: add.commute)

lemma advance_pos_ok:
  assumes "pos \<le> buf_n b" and "a \<le> buf_n b - pos"
    and "(bs', pos') = (if a = buf_n b - pos then (bs, 0) else (b # bs, pos + a))"
  shows "pos_ok pos' bs'"
  using assms by (auto simp: pos_ok_def split: if_splits list.splits)

lemma take_within_buffer:
  assumes "pos \<le> buf_n b" and "a \<le> buf_n b - pos"
  shows "take a (drop pos (addrs (b # bs))) = [buf_p b + pos..<buf_p b + pos + a]"
  using assms by (simp add: baddrs_def)

lemma copy_amount_eq: "copy_amount b0 b1 at_most tot = min (buf_n b0) (min (buf_n b1) (at_most - tot))"
  by (simp add: copy_amount_def Let_def)

lemma memcpy_within_buffers:
  assumes "pos0 \<le> buf_n s" "a \<le> buf_n s - pos0" "pos1 \<le> buf_n d" "a \<le> buf_n d - pos1"
  shows "copied a (drop pos1 (addrs (d # dest))) (drop pos0 (addrs (s # src))) m
           (if a \<noteq> 0 then memcpy (buf_p d + pos1) (buf_p s + pos0) a m else m)"
  unfolding copied_def take_within_buffer [OF assms(1,2)] take_within_buffer [OF assms(3,4)]
  using memcpy_copies memcpy_outside by auto

text \<open>
  One iteration, seen from the two address lists: it copies \<open>a\<close> bytes and continues on the
  lists with \<open>a\<close> addresses fewer, closer to the end of a sequence or to the byte limit.
\<close>

lemma buffer_copy_loop_step:
  assumes run: "tot < at_most" and p: "pos0 \<le> buf_n s" "pos1 \<le> buf_n d"
  obtains a pos0' pos1' src' dest' m1 where
    "a = min (buf_n s - pos0) (min (buf_n d - pos1) (at_most - tot))"
    "buffer_copy_loop at_most tot pos0 pos1 (s # src) (d # dest) m =
       buffer_copy_loop at_most (tot + a) pos0' pos1' src' dest' m1"
    "drop pos0' (addrs src') = drop a (drop pos0 (addrs (s # src)))" "pos_ok pos0' src'"
    "drop pos1' (addrs dest') = drop a (drop pos1 (addrs (d # dest)))" "pos_ok pos1' dest'"
    "copied a (drop pos1 (addrs (d # dest))) (drop pos0 (addrs (s # src))) m m1"
    "length src' + length dest' + (at_most - (tot + a)) < length (s # src) + length (d # dest) + (at_most - tot)"
proof -
  define a where "a = copy_amount (mutable_plus_assign s pos0) (mutable_plus_assign d pos1) at_most tot"
  obtain src' pos0' where s': "(src', pos0') = (if a = buf_n s - pos0 then (src, 0) else (s # src, pos0 + a))"
    by metis
  obtain dest' pos1' where d': "(dest', pos1') = (if a = buf_n d - pos1 then (dest, 0) else (d # dest, pos1 + a))"
    by metis
  define m1 where "m1 = (if a \<noteq> 0 then memcpy (buf_p d + pos1) (buf_p s + pos0) a m else m)"
  have a: "a = min (buf_n s - pos0) (min (buf_n d - pos1) (at_most - tot))"
    by (simp add: a_def copy_amount_eq)
  note am = a_def [symmetric]
  have le: "a \<le> buf_n s - pos0" "a \<le> buf_n d - pos1" unfolding a by linarith+
  have eq: "buffer_copy_loop at_most tot pos0 pos1 (s # src) (d # dest) m =
      buffer_copy_loop at_most (tot + a) pos0' pos1' src' dest' m1"
    unfolding buffer_copy_loop.simps(1) Let_def am const_plus_assign_eq_mutable buf_n_plus_assign
      buf_p_plus_assign [OF p(1)] buf_p_plus_assign [OF p(2)] m1_def s' [symmetric] d' [symmetric]
    using run by simp
  have less: "length src' + length dest' + (at_most - (tot + a))
      < length (s # src) + length (d # dest) + (at_most - tot)"
  proof -
    have "a = buf_n s - pos0 \<or> a = buf_n d - pos1 \<or> a = at_most - tot" unfolding a by linarith
    then show ?thesis using s' d' run by (elim disjE) (simp_all split: if_splits)
  qed
  show thesis
    by (rule that [OF a eq advance_addrs [OF p(1) le(1) s'] advance_pos_ok [OF p(1) le(1) s']
          advance_addrs [OF p(2) le(2) d'] advance_pos_ok [OF p(2) le(2) d'] _ less])
       (simp only: m1_def memcpy_within_buffers [OF p(1) le(1) p(2) le(2)])
qed

lemma buffer_copy_loop_correct:
  assumes "pos_ok pos0 src" and "pos_ok pos1 dest" and "tot \<le> at_most"
    and "distinct (drop pos1 (addrs dest))"
    and "set (drop pos1 (addrs dest)) \<inter> set (drop pos0 (addrs src)) = {}"
    and "buffer_copy_loop at_most tot pos0 pos1 src dest m = (tot', m')"
  shows "\<exists>k. k = min (at_most - tot) (min (length (drop pos0 (addrs src))) (length (drop pos1 (addrs dest))))
    \<and> tot' = tot + k \<and> copied k (drop pos1 (addrs dest)) (drop pos0 (addrs src)) m m'"
  using assms
proof (induction "length src + length dest + (at_most - tot)"
    arbitrary: tot pos0 pos1 src dest m rule: less_induct)
  case less
  consider "src = [] \<or> dest = [] \<or> tot = at_most"
    | s src1 d dest1 where "src = s # src1" "dest = d # dest1" "tot < at_most"
    using less.prems(3) by (meson list.exhaust le_neq_implies_less)
  then show ?case
  proof cases
    case 1
    with less.prems show ?thesis
      by (cases src; cases dest) (auto simp: pos_ok_def buffer_copy_loop.simps(1))
  next
    case 2
    with less.prems(1,2) have p: "pos0 \<le> buf_n s" "pos1 \<le> buf_n d" by (simp_all add: pos_ok_def)
    obtain a pos0' pos1' src' dest' m1 where st:
      "a = min (buf_n s - pos0) (min (buf_n d - pos1) (at_most - tot))"
      "buffer_copy_loop at_most tot pos0 pos1 src dest m =
         buffer_copy_loop at_most (tot + a) pos0' pos1' src' dest' m1"
      "drop pos0' (addrs src') = drop a (drop pos0 (addrs src))" "pos_ok pos0' src'"
      "drop pos1' (addrs dest') = drop a (drop pos1 (addrs dest))" "pos_ok pos1' dest'"
      "copied a (drop pos1 (addrs dest)) (drop pos0 (addrs src)) m m1"
      "length src' + length dest' + (at_most - (tot + a)) < length src + length dest + (at_most - tot)"
      using buffer_copy_loop_step [OF 2(3) p] unfolding 2 by metis
    have len: "a \<le> length (drop pos0 (addrs src))" "a \<le> length (drop pos1 (addrs dest))" "a \<le> at_most - tot"
      using p unfolding 2 st(1) length_drop addrs_Cons length_append length_baddrs by linarith+
    have dj: "distinct (drop pos1' (addrs dest'))"
        "set (drop pos1' (addrs dest')) \<inter> set (drop pos0' (addrs src')) = {}"
      unfolding st(3,5) using less.prems(4,5) by (auto simp del: drop_drop dest: in_set_dropD simp: disjoint_iff)
    obtain k where k: "k = min (at_most - (tot + a))
          (min (length (drop pos0' (addrs src'))) (length (drop pos1' (addrs dest'))))"
        "tot' = tot + a + k" "copied k (drop pos1' (addrs dest')) (drop pos0' (addrs src')) m1 m'"
      using less.hyps [OF st(8) st(4,6) _ dj] less.prems(3) len(3) less.prems(6) [unfolded st(2)]
      by (metis le_diff_conv2 add.commute)
    have "copied (a + k) (drop pos1 (addrs dest)) (drop pos0 (addrs src)) m m'"
      using copied_split [OF st(7) _ less.prems(4,5)] k(3) unfolding st(3,5) .
    moreover have "a + k = min (at_most - tot)
        (min (length (drop pos0 (addrs src))) (length (drop pos1 (addrs dest))))"
      using k(1) min_add_step [OF len(3,1,2)]
      unfolding st(3,5) length_drop [of a] diff_diff_left [symmetric] by simp
    ultimately show ?thesis using k(2) by (intro exI [of _ "a + k"]) simp
  qed
qed

lemma buffer_copy_copied:
  assumes "distinct (addrs dest)" and "set (addrs dest) \<inter> set (addrs src) = {}"
    and "buffer_copy dest src at_most m = (n, m')"
  shows "n = min at_most (min (length (addrs src)) (length (addrs dest))) \<and> copied n (addrs dest) (addrs src) m m'"
proof -
  have "pos_ok 0 src" "pos_ok 0 dest" by (simp_all add: pos_ok_def split: list.splits)
  with assms show ?thesis
    using buffer_copy_loop_correct [of 0 src 0 dest 0 at_most m n m'] by (auto simp: buffer_copy_def)
qed

text \<open>
  C36. \<^verbatim>\<open>buffer_copy\<close> on sequences whose target bytes are distinct and disjoint from the source:
  it returns the minimum of the limit and the two sizes, the first that many target bytes now
  hold the first that many source bytes in order, across whatever buffer boundaries the two
  sequences have, and no other byte of memory changed.
\<close>

theorem buffer_copy_correct:
  assumes "distinct (addrs dest)" and "set (addrs dest) \<inter> set (addrs src) = {}"
    and "buffer_copy dest src at_most m = (n, m')"
  shows "n = min at_most (min (length (addrs src)) (length (addrs dest)))
    \<and> map m' (take n (addrs dest)) = map m (take n (addrs src))
    \<and> (\<forall>a. a \<notin> set (take n (addrs dest)) \<longrightarrow> m' a = m a)"
  by (rule buffer_copy_copied [OF assms, unfolded copied_def])

theorem buffer_copy_correct_witness:
  "fst (buffer_copy [mk_buffer 100 2, mk_buffer 200 3] [mk_buffer 0 4] 10 (\<lambda>a. of_nat a)) = 4
   \<and> map (snd (buffer_copy [mk_buffer 100 2, mk_buffer 200 3] [mk_buffer 0 4] 10 (\<lambda>a. of_nat a)))
        [100, 101, 200, 201] = [0, 1, 2, 3]"
proof -
  let ?d = "[mk_buffer 100 2, mk_buffer 200 3]" and ?s = "[mk_buffer 0 4]"
  let ?r = "buffer_copy ?d ?s 10 (\<lambda>a. of_nat a)"
  have d: "addrs ?d = [100, 101, 200, 201, 202]" and s: "addrs ?s = [0, 1, 2, 3]"
    by (simp_all add: mk_buffer_def baddrs_def upt_rec)
  have dd: "distinct (addrs ?d)" and dj: "set (addrs ?d) \<inter> set (addrs ?s) = {}"
    unfolding d s by simp_all
  obtain n m' where r: "?r = (n, m')" by (cases ?r)
  note c = buffer_copy_correct [OF dd dj r, unfolded d s]
  have n: "n = 4" using c by simp
  from c have "map m' (take n [100, 101, 200, 201, 202]) = map of_nat (take n [0, 1, 2, 3])" by blast
  with n r show ?thesis by simp
qed

end
