(* ===== verification/Slices.thy ===== *)
theory Slices
  imports Buffers
begin

text \<open>
  Byte ranges of buffer sequences: \<^verbatim>\<open>detail/slice_of.hpp\<close>, \<^verbatim>\<open>buffers/buffer_slice.hpp\<close> and
  \<^verbatim>\<open>buffers/consuming_buffers.hpp\<close>. An iterator into the underlying sequence is its index, so
  \<open>sl_first\<close> and \<open>sl_last\<close> are the positions of \<^verbatim>\<open>first_\<close> and \<^verbatim>\<open>last_\<close>. The results say which
  bytes a slice denotes: \<open>take\<close> and \<open>drop\<close> on the addresses of the sequence.
\<close>

section \<open>slice_of\<close>

record slice_of =
  sl_seq :: "mutable_buffer list"
  sl_first :: nat
  sl_last :: nat
  sl_front_skip :: nat
  sl_back_skip :: nat

definition adjust :: "mutable_buffer \<Rightarrow> nat \<Rightarrow> nat \<Rightarrow> mutable_buffer" where
  "adjust b front_n back_n =
     mk_buffer (buf_p b + front_n) (size_sub (size_sub (buf_n b) front_n) back_n)"

definition slice_deref :: "slice_of \<Rightarrow> nat \<Rightarrow> mutable_buffer" where
  "slice_deref sl cur =
     (let front_n = (if cur = sl_first sl then sl_front_skip sl else 0);
          back_n = (if cur + 1 = sl_last sl then sl_back_skip sl else 0)
      in adjust (sl_seq sl ! cur) front_n back_n)"

definition slice_list :: "slice_of \<Rightarrow> mutable_buffer list" where
  "slice_list sl = map (slice_deref sl) [sl_first sl..<sl_last sl]"

fun slice_skip :: "nat \<Rightarrow> mutable_buffer list \<Rightarrow> nat \<Rightarrow> nat \<times> nat" where
  "slice_skip i [] skip = (i, 0)"
| "slice_skip i (b # bs) skip =
     (if skip < buf_n b then (i, skip) else slice_skip (i + 1) bs (skip - buf_n b))"

fun slice_walk :: "nat \<Rightarrow> mutable_buffer list \<Rightarrow> nat \<Rightarrow> nat \<Rightarrow> nat \<times> nat" where
  "slice_walk i [] left cursor_front = (i, 0)"
| "slice_walk i (b # bs) left cursor_front =
     (if left > 0 then
        let avail = size_sub (buf_n b) cursor_front
        in if left \<le> avail then (i + 1, avail - left)
           else slice_walk (i + 1) bs (left - avail) 0
      else (i, 0))"

definition slice_of_range :: "mutable_buffer list \<Rightarrow> nat \<Rightarrow> nat \<Rightarrow> slice_of" where
  "slice_of_range bs offset len =
     (let (first, front) = slice_skip 0 bs offset;
          whole = \<lparr>sl_seq = bs, sl_first = first, sl_last = length bs,
                   sl_front_skip = front, sl_back_skip = 0\<rparr>
      in if first = length bs then whole
         else if len = size_max then whole
         else let (lst, back) = slice_walk first (drop first bs) len front
              in whole\<lparr>sl_last := lst, sl_back_skip := back\<rparr>)"

definition slice_of_iters :: "mutable_buffer list \<Rightarrow> nat \<Rightarrow> nat \<Rightarrow> nat \<Rightarrow> nat \<Rightarrow> slice_of" where
  "slice_of_iters bs first lst front_skip back_skip =
     \<lparr>sl_seq = bs, sl_first = first, sl_last = lst,
      sl_front_skip = front_skip, sl_back_skip = back_skip\<rparr>"

definition buffer_slice_single :: "mutable_buffer \<Rightarrow> nat \<Rightarrow> nat \<Rightarrow> mutable_buffer" where
  "buffer_slice_single seq offset len =
     (let b = mutable_plus_assign seq offset
      in if len < buf_n b then mk_buffer (buf_p b) len else b)"

definition buffer_slice :: "mutable_buffer list \<Rightarrow> nat \<Rightarrow> nat \<Rightarrow> slice_of" where
  "buffer_slice seq offset len = slice_of_range seq offset len"

section \<open>consuming_buffers\<close>

record consuming_buffers =
  cb_seq :: "mutable_buffer list"
  cb_first :: nat
  cb_last :: nat
  cb_front_skip :: nat

definition consuming_init :: "mutable_buffer list \<Rightarrow> consuming_buffers" where
  "consuming_init s = \<lparr>cb_seq = s, cb_first = 0, cb_last = length s, cb_front_skip = 0\<rparr>"

definition consuming_data :: "consuming_buffers \<Rightarrow> slice_of" where
  "consuming_data cb = slice_of_iters (cb_seq cb) (cb_first cb) (cb_last cb) (cb_front_skip cb) 0"

function consume :: "consuming_buffers \<Rightarrow> nat \<Rightarrow> consuming_buffers" where
  "consume cb n =
     (if n > 0 \<and> cb_first cb < cb_last cb then
        let avail = size_sub (buf_n (cb_seq cb ! cb_first cb)) (cb_front_skip cb)
        in if n < avail then cb\<lparr>cb_front_skip := cb_front_skip cb + n\<rparr>
           else consume (cb\<lparr>cb_first := cb_first cb + 1, cb_front_skip := 0\<rparr>) (n - avail)
      else cb)"
  by pat_completeness auto
termination
  by (relation "measure (\<lambda>(cb, n). cb_last cb - cb_first cb)") auto

declare consume.simps [simp del]

section \<open>The bytes of a slice\<close>

text \<open>
  A slice is well formed when its iterators are ordered inside the sequence and its two trims
  fit the buffers they apply to, together when these are one buffer.
\<close>

definition wf_slice :: "slice_of \<Rightarrow> bool" where
  "wf_slice sl \<longleftrightarrow>
     wf_buffers (sl_seq sl) \<and> sl_first sl \<le> sl_last sl \<and> sl_last sl \<le> length (sl_seq sl) \<and>
     (sl_first sl < sl_last sl \<longrightarrow>
        sl_front_skip sl \<le> buf_n (sl_seq sl ! sl_first sl) \<and>
        sl_back_skip sl \<le> buf_n (sl_seq sl ! (sl_last sl - 1)) \<and>
        (sl_first sl + 1 = sl_last sl \<longrightarrow>
           sl_front_skip sl + sl_back_skip sl \<le> buf_n (sl_seq sl ! sl_first sl)))"

lemma wf_buffers_nth: "wf_buffers bs \<Longrightarrow> i < length bs \<Longrightarrow> buf_n (bs ! i) \<le> size_max"
  by (induction bs arbitrary: i) (auto dest: wf_buffers_Cons simp: nth_Cons split: nat.splits)

lemma baddrs_adjust:
  assumes "f + k \<le> buf_n b" and "buf_n b \<le> size_max"
  shows "baddrs (adjust b f k) = take (buf_n b - f - k) (drop f (baddrs b))"
  using assms by (simp add: adjust_def mk_buffer_def baddrs_def)

text \<open>The same view as a recursion over the covered buffers, for the proofs.\<close>

fun trim :: "nat \<Rightarrow> nat \<Rightarrow> mutable_buffer list \<Rightarrow> mutable_buffer list" where
  "trim f k [] = []"
| "trim f k [b] = [adjust b f k]"
| "trim f k (b # c # bs) = adjust b f 0 # trim 0 k (c # bs)"

lemma length_trim [simp]: "length (trim f k bs) = length bs"
  by (induction f k bs rule: trim.induct) auto

lemma trim_nth:
  "i < length bs \<Longrightarrow>
     trim f k bs ! i = adjust (bs ! i) (if i = 0 then f else 0) (if i + 1 = length bs then k else 0)"
  by (induction f k bs arbitrary: i rule: trim.induct) (auto simp: nth_Cons split: nat.splits)

lemma slice_list_trim:
  assumes "wf_slice sl"
  shows "slice_list sl =
    trim (sl_front_skip sl) (sl_back_skip sl) (drop (sl_first sl) (take (sl_last sl) (sl_seq sl)))"
  using assms
  by (intro nth_equalityI) (auto simp: slice_list_def slice_deref_def Let_def trim_nth wf_slice_def)

lemma addrs_trim:
  assumes "wf_buffers bs" and "bs \<noteq> []" and "f \<le> buf_n (hd bs)" and "k \<le> buf_n (last bs)"
    and "length bs = 1 \<Longrightarrow> f + k \<le> buf_n (hd bs)"
  shows "addrs (trim f k bs) = take (length (addrs bs) - f - k) (drop f (addrs bs))"
  using assms
proof (induction f k bs rule: trim.induct)
  case (2 f k b)
  then show ?case by (simp add: baddrs_adjust wf_buffers_def)
next
  case (3 f k b c bs)
  have "k \<le> length (addrs (c # bs))"
    using "3.prems"(4) last_le_addrs [of "c # bs"] by simp
  moreover have wf: "wf_buffers (c # bs)" using "3.prems"(1) wf_buffers_Cons by blast
  moreover have "addrs (trim 0 k (c # bs)) = take (length (addrs (c # bs)) - k) (addrs (c # bs))"
    using "3.IH" [OF wf] "3.prems"(4) by (cases bs) simp_all
  ultimately show ?case
    using 3 by (simp add: baddrs_adjust wf_buffers_def)
qed simp

text \<open>The bytes of a slice: those of the covered buffers, without the two trims.\<close>

lemma addrs_slice_list:
  assumes "wf_slice sl" and "sl_first sl < sl_last sl"
    and "mid = addrs (drop (sl_first sl) (take (sl_last sl) (sl_seq sl)))"
  shows "addrs (slice_list sl) =
    take (length mid - sl_front_skip sl - sl_back_skip sl) (drop (sl_front_skip sl) mid)"
proof -
  let ?bs = "drop (sl_first sl) (take (sl_last sl) (sl_seq sl))"
  have "wf_buffers ?bs" "?bs \<noteq> []" "hd ?bs = sl_seq sl ! sl_first sl" "last ?bs = sl_seq sl ! (sl_last sl - 1)"
    using assms(1,2) by (auto simp: wf_slice_def hd_drop_conv_nth last_conv_nth wf_intros)
  then have "addrs (trim (sl_front_skip sl) (sl_back_skip sl) ?bs) =
      take (length mid - sl_front_skip sl - sl_back_skip sl) (drop (sl_front_skip sl) mid)"
    unfolding assms(3) using assms(1,2) by (intro addrs_trim) (auto simp: wf_slice_def)
  then show ?thesis using assms(1) by (simp add: slice_list_trim)
qed

lemma slice_skip_correct:
  assumes "slice_skip i bs skip = (j, f)"
  shows "i \<le> j \<and> j \<le> i + length bs \<and>
    (j < i + length bs \<longrightarrow> f < buf_n (bs ! (j - i)) \<and> length (addrs (take (j - i) bs)) + f = skip) \<and>
    (j = i + length bs \<longrightarrow> length (addrs bs) \<le> skip)"
  using assms
proof (induction i bs skip rule: slice_skip.induct)
  case (2 i b bs skip)
  show ?case
  proof (cases "skip < buf_n b")
    case True
    with 2 show ?thesis by auto
  next
    case False
    with 2 have "Suc i \<le> j" "j \<le> Suc i + length bs"
      "j < Suc i + length bs \<longrightarrow>
         f < buf_n (bs ! (j - Suc i)) \<and> length (addrs (take (j - Suc i) bs)) + f = skip - buf_n b"
      "j = Suc i + length bs \<longrightarrow> length (addrs bs) \<le> skip - buf_n b"
      by simp_all
    moreover from this(1) obtain k where "j = Suc i + k" by (auto simp: le_iff_add)
    ultimately show ?thesis using False by auto
  qed
qed simp

lemma slice_walk_correct:
  assumes "slice_walk i bs left cf = (j, k)" and "wf_buffers bs" and "bs \<noteq> [] \<Longrightarrow> cf \<le> buf_n (hd bs)"
    and "left > 0" and "bs \<noteq> []"
  shows "i < j \<and> j \<le> i + length bs \<and> k \<le> buf_n (bs ! (j - i - 1)) \<and>
    (j = i + 1 \<longrightarrow> cf + k \<le> buf_n (hd bs)) \<and>
    length (addrs (take (j - i) bs)) - cf - k = min left (length (addrs bs) - cf)"
  using assms
proof (induction i bs left cf rule: slice_walk.induct)
  case (2 i b bs left cf)
  have av: "size_sub (buf_n b) cf = buf_n b - cf" and wf: "wf_buffers bs"
    using "2.prems"(2,3) by (auto dest!: wf_buffers_Cons)
  consider "left \<le> buf_n b - cf" | "left > buf_n b - cf" "bs = []" | "left > buf_n b - cf" "bs \<noteq> []"
    by fastforce
  then show ?case
  proof cases
    case 3
    with "2.prems" have "slice_walk (i + 1) bs (left - (buf_n b - cf)) 0 = (j, k)" by (simp add: av)
    with "2.IH" [OF "2.prems"(4) refl] 3 av wf
    have IH: "Suc i < j" "j \<le> Suc i + length bs" "k \<le> buf_n (bs ! (j - Suc i - 1))"
        "length (addrs (take (j - Suc i) bs)) - k = min (left - (buf_n b - cf)) (length (addrs bs))"
      by simp_all
    then obtain n where n: "j = Suc (Suc i) + n" by (auto simp: less_iff_Suc_add)
    have "buf_n (bs ! n) \<le> length (addrs (take (Suc n) bs))"
      using last_le_addrs [of "take (Suc n) bs"] IH(2) n by (simp add: take_Suc_conv_app_nth)
    then show ?thesis using IH n 3 "2.prems"(3) by auto
  qed (use 2 av in \<open>auto simp: min_def\<close>)
qed simp

lemma addrs_take_prefix: "addrs (take k bs) = take (length (addrs (take k bs))) (addrs bs)"
  by (metis addrs_append append_eq_conv_conj append_take_drop_id)

lemma addrs_drop_suffix: "addrs (drop k bs) = drop (length (addrs (take k bs))) (addrs bs)"
  by (metis addrs_append append_eq_conv_conj append_take_drop_id)

lemma addrs_slice_within:
  assumes "wf_slice sl" and "sl_first sl < sl_last sl"
  shows "addrs (slice_list sl) =
    take (length (addrs (drop (sl_first sl) (take (sl_last sl) (sl_seq sl)))) - sl_front_skip sl - sl_back_skip sl)
      (drop (length (addrs (take (sl_first sl) (sl_seq sl))) + sl_front_skip sl) (addrs (sl_seq sl)))"
proof -
  let ?i = "sl_first sl" and ?j = "sl_last sl" and ?bs = "sl_seq sl"
  let ?mid = "addrs (drop ?i (take ?j ?bs))" and ?rest = "drop (length (addrs (take ?i ?bs))) (addrs ?bs)"
  have "?mid = take (length ?mid) ?rest"
    using addrs_take_prefix [of "?j - ?i" "drop ?i ?bs"] by (simp add: drop_take addrs_drop_suffix)
  from take_drop_prefix [OF this, of "length ?mid - sl_front_skip sl - sl_back_skip sl" "sl_front_skip sl"]
  show ?thesis unfolding addrs_slice_list [OF assms refl] by (simp add: add.commute)
qed

lemma slice_of_range_nonempty:
  assumes wf: "wf_buffers bs" and "slice_skip 0 bs off = (i, f)" and i: "i < length bs"
    and j: "i < j" "j \<le> length bs" and "k \<le> buf_n (bs ! (j - 1))" "j = i + 1 \<Longrightarrow> f + k \<le> buf_n (bs ! i)"
  shows "addrs (slice_list \<lparr>sl_seq = bs, sl_first = i, sl_last = j, sl_front_skip = f, sl_back_skip = k\<rparr>) =
    take (length (addrs (drop i (take j bs))) - f - k) (drop off (addrs bs))"
proof -
  have "wf_slice \<lparr>sl_seq = bs, sl_first = i, sl_last = j, sl_front_skip = f, sl_back_skip = k\<rparr>"
    using assms slice_skip_correct [OF assms(2)] by (auto simp: wf_slice_def)
  then show ?thesis
    using addrs_slice_within j slice_skip_correct [OF assms(2)] i by fastforce
qed

lemma slice_of_range_addrs:
  assumes "wf_buffers bs"
  shows "addrs (slice_list (slice_of_range bs off len)) =
    (if len = size_max then drop off (addrs bs) else take len (drop off (addrs bs)))"
proof -
  obtain i f where sk: "slice_skip 0 bs off = (i, f)" by fastforce
  note skc = slice_skip_correct [OF sk]
  consider "i = length bs" | "i < length bs" "len = size_max" | "i < length bs" "len \<noteq> size_max" "len = 0"
    | "i < length bs" "len \<noteq> size_max" "len > 0"
    using skc by fastforce
  then show ?thesis
  proof cases
    case 1
    with skc sk show ?thesis by (simp add: slice_of_range_def slice_list_def Let_def)
  next
    case 2
    have "length (addrs (drop i bs)) - f = length (drop off (addrs bs))"
      using skc 2 by (simp add: addrs_drop_suffix)
    with 2 sk skc assms show ?thesis
      by (simp add: slice_of_range_def Let_def slice_of_range_nonempty)
  next
    case 3
    with sk show ?thesis
      by (simp add: slice_of_range_def slice_list_def Let_def Cons_nth_drop_Suc [symmetric])
  next
    case 4
    obtain j k where w: "slice_walk i (drop i bs) len f = (j, k)" by fastforce
    have wc: "i < j" "j \<le> length bs" "k \<le> buf_n (bs ! (j - 1))" "j = i + 1 \<longrightarrow> f + k \<le> buf_n (bs ! i)"
        "length (addrs (drop i (take j bs))) - f - k = min len (length (addrs (drop i bs)) - f)"
      using slice_walk_correct [OF w wf_buffers_drop [OF assms]] 4 skc
      by (auto simp: hd_drop_conv_nth drop_take)
    have "length (addrs (drop i bs)) - f = length (drop off (addrs bs))"
      using skc 4 by (simp add: addrs_drop_suffix)
    then have "take (min len (length (addrs (drop i bs)) - f)) (drop off (addrs bs)) = take len (drop off (addrs bs))"
      by (simp add: min_def)
    with 4 sk w wc assms show ?thesis
      by (simp add: slice_of_range_def Let_def slice_of_range_nonempty)
  qed
qed

lemma buffer_slice_addrs [addrs_simps]:
  assumes "wf_buffers seq"
  shows "addrs (slice_list (buffer_slice seq offset len)) = take len (drop offset (addrs seq))"
  using assms slice_of_range_addrs [OF assms, of offset len]
  by (auto simp: buffer_slice_def wf_buffers_def)

text \<open>
  A slice denotes exactly the bytes asked for: \<^verbatim>\<open>buffer_slice(seq, offset, length)\<close> yields the
  \<open>length\<close> bytes of the sequence from byte \<open>offset\<close> on, clamped at the end of the sequence,
  whatever the boundaries of the buffers, and with the largest length it is the rest of the
  sequence. The sequence holds no more bytes than a \<^verbatim>\<open>std::size_t\<close> can count.
\<close>

theorem buffer_slice_correct:
  assumes "wf_buffers seq"
  shows "addrs (slice_list (buffer_slice seq offset len)) = take len (drop offset (addrs seq))"
  by (rule buffer_slice_addrs [OF assms])

theorem buffer_slice_correct_witness:
  "addrs (slice_list (buffer_slice [mk_buffer 10 3, mk_buffer 50 0, mk_buffer 20 4] 2 3)) = [12, 20, 21]"
proof -
  let ?s = "[mk_buffer 10 3, mk_buffer 50 0, mk_buffer 20 4]"
  have s: "addrs ?s = [10, 11, 12, 20, 21, 22, 23]"
    by (simp add: mk_buffer_def baddrs_def upt_rec)
  then have "wf_buffers ?s" by (simp add: wf_buffers_def size_max_def)
  from buffer_slice_correct [OF this, of 2 3] show ?thesis unfolding s by (simp add: numeral_eq_Suc)
qed

lemma buffer_slice_single_addrs [addrs_simps]:
  "baddrs (buffer_slice_single b offset len) = take len (drop offset (baddrs b))"
proof (cases "len < buf_n (mutable_plus_assign b offset)")
  case True
  then show ?thesis
    unfolding baddrs_plus_assign [symmetric]
    by (simp add: buffer_slice_single_def baddrs_def mk_buffer_def Let_def)
next
  case False
  then show ?thesis
    unfolding baddrs_plus_assign [symmetric] by (simp add: buffer_slice_single_def Let_def)
qed

section \<open>The bytes a consuming cursor still denotes\<close>

definition wf_consuming :: "consuming_buffers \<Rightarrow> bool" where
  "wf_consuming cb \<longleftrightarrow>
     wf_buffers (cb_seq cb) \<and> cb_first cb \<le> length (cb_seq cb) \<and> cb_last cb = length (cb_seq cb) \<and>
     (if cb_first cb < cb_last cb then cb_front_skip cb \<le> buf_n (cb_seq cb ! cb_first cb)
      else cb_front_skip cb = 0)"

definition consuming_bytes :: "consuming_buffers \<Rightarrow> addr list" where
  "consuming_bytes cb = addrs (slice_list (consuming_data cb))"

lemma consuming_bytes_eq:
  assumes "wf_consuming cb"
  shows "consuming_bytes cb = drop (cb_front_skip cb) (addrs (drop (cb_first cb) (cb_seq cb)))"
proof (cases "cb_first cb < cb_last cb")
  case True
  with assms have "wf_slice (consuming_data cb)"
    by (simp add: wf_slice_def wf_consuming_def consuming_data_def slice_of_iters_def)
  from addrs_slice_list [OF this _ refl] True assms show ?thesis
    by (simp add: consuming_bytes_def consuming_data_def slice_of_iters_def wf_consuming_def)
next
  case False
  with assms show ?thesis
    by (simp add: consuming_bytes_def consuming_data_def slice_of_iters_def slice_list_def wf_consuming_def)
qed

lemma consume_wf_bytes:
  assumes "wf_consuming cb"
  shows "wf_consuming (consume cb n) \<and> consuming_bytes (consume cb n) = drop n (consuming_bytes cb)"
  using assms
proof (induction cb n rule: consume.induct)
  case (1 cb n)
  let ?b = "cb_seq cb ! cb_first cb"
  show ?case
  proof (cases "n > 0 \<and> cb_first cb < cb_last cb")
    case False
    with "1.prems" show ?thesis
      by (subst (1 2) consume.simps) (auto simp: consuming_bytes_eq wf_consuming_def)
  next
    case True
    from "1.prems" True have b: "buf_n ?b \<le> size_max" "cb_front_skip cb \<le> buf_n ?b"
      and split: "drop (cb_first cb) (cb_seq cb) = ?b # drop (Suc (cb_first cb)) (cb_seq cb)"
      by (auto simp: wf_consuming_def wf_buffers_nth Cons_nth_drop_Suc)
    show ?thesis
    proof (cases "n < buf_n ?b - cb_front_skip cb")
      case less: True
      have "wf_consuming (cb\<lparr>cb_front_skip := cb_front_skip cb + n\<rparr>)"
        using "1.prems" True less by (simp add: wf_consuming_def)
      with less True b "1.prems" show ?thesis
        by (subst (1 2) consume.simps) (simp add: consuming_bytes_eq add.commute)
    next
      case more: False
      let ?cb = "cb\<lparr>cb_first := cb_first cb + 1, cb_front_skip := 0\<rparr>"
      have wf: "wf_consuming ?cb" using "1.prems" True by (simp add: wf_consuming_def)
      have "consume cb n = consume ?cb (n - (buf_n ?b - cb_front_skip cb))"
        using True more b by (subst consume.simps) simp
      with "1.IH" [OF True refl] more b wf show ?thesis
        using "1.prems" by (simp add: consuming_bytes_eq split)
    qed
  qed
qed

lemma consuming_init_wf: "wf_buffers s \<Longrightarrow> wf_consuming (consuming_init s)"
  by (cases s) (simp_all add: wf_consuming_def consuming_init_def)

lemma consuming_init_bytes [addrs_simps]: "wf_buffers s \<Longrightarrow> consuming_bytes (consuming_init s) = addrs s"
  by (simp add: consuming_bytes_eq consuming_init_wf) (simp add: consuming_init_def)

text \<open>
  C37. After any run of \<^verbatim>\<open>consume\<close> calls, the view \<^verbatim>\<open>data()\<close> gives denotes the original bytes
  less as many from the front as were consumed in total, across buffer boundaries and zero-size
  buffers, and empty once everything was consumed.
\<close>

theorem consuming_buffers_correct:
  assumes "wf_buffers s"
  shows "addrs (slice_list (consuming_data (foldl consume (consuming_init s) ns))) =
    drop (sum_list ns) (addrs s)"
proof -
  have "wf_consuming cb \<Longrightarrow>
      consuming_bytes (foldl consume cb ns) = drop (sum_list ns) (consuming_bytes cb)" for cb
    by (induction ns arbitrary: cb) (simp_all add: consume_wf_bytes add.commute)
  from this [OF consuming_init_wf [OF assms]] show ?thesis
    by (simp add: consuming_init_bytes [OF assms] consuming_bytes_def [symmetric])
qed

theorem consuming_buffers_correct_witness:
  "addrs (slice_list (consuming_data (foldl consume (consuming_init [mk_buffer 10 3, mk_buffer 20 4]) [2, 2, 1]))) =
     [22, 23]"
proof -
  let ?s = "[mk_buffer 10 3, mk_buffer 20 4]"
  have s: "addrs ?s = [10, 11, 12, 20, 21, 22, 23]"
    by (simp add: mk_buffer_def baddrs_def upt_rec)
  then have "wf_buffers ?s" by (simp add: wf_buffers_def size_max_def)
  from consuming_buffers_correct [OF this, of "[2, 2, 1]"] show ?thesis unfolding s by (simp add: numeral_eq_Suc)
qed

end
