(* ===== verification/Errors.thy ===== *)
theory Errors
  imports Prelude
begin

text \<open>
  Error codes, portable conditions and the exceptions the library throws: \<^verbatim>\<open>error.hpp\<close>,
  \<^verbatim>\<open>src/error.cpp\<close>, \<^verbatim>\<open>cond.hpp\<close>, \<^verbatim>\<open>src/cond.cpp\<close> and \<^verbatim>\<open>src/detail/except.cpp\<close>. An
  \<^verbatim>\<open>std::error_code\<close> is an integer with its category; comparing one with a condition asks both
  categories, as \<^verbatim>\<open>operator==\<close> of the standard library does. A category outside the library
  (\<open>other_cat\<close>) keeps the standard's default mappings.
\<close>

section \<open>Enumerations and categories\<close>

datatype error = eof | canceled | test_failure | stream_truncated | timeout

fun error_value :: "error \<Rightarrow> int" where
  "error_value eof = 1"
| "error_value canceled = 2"
| "error_value test_failure = 3"
| "error_value stream_truncated = 4"
| "error_value timeout = 5"

datatype cond = cond_eof | cond_canceled | cond_stream_truncated | cond_timeout

fun cond_value :: "cond \<Rightarrow> int" where
  "cond_value cond_eof = 1"
| "cond_value cond_canceled = 2"
| "cond_value cond_stream_truncated = 3"
| "cond_value cond_timeout = 4"

datatype category = error_cat | cond_cat | generic_cat | other_cat nat

record error_code =
  ec_value :: int
  ec_category :: category

type_synonym error_condition = error_code

definition success :: error_code where
  "success = \<lparr>ec_value = 0, ec_category = other_cat 0\<rparr>"

definition failed :: "error_code \<Rightarrow> bool" where
  "failed ec \<longleftrightarrow> ec_value ec \<noteq> 0"

definition make_error_code :: "error \<Rightarrow> error_code" where
  "make_error_code ev = \<lparr>ec_value = error_value ev, ec_category = error_cat\<rparr>"

definition make_error_condition :: "cond \<Rightarrow> error_condition" where
  "make_error_condition ev = \<lparr>ec_value = cond_value ev, ec_category = cond_cat\<rparr>"

definition errc_operation_canceled :: error_condition where
  "errc_operation_canceled = \<lparr>ec_value = 125, ec_category = generic_cat\<rparr>"

definition errc_timed_out :: error_condition where
  "errc_timed_out = \<lparr>ec_value = 110, ec_category = generic_cat\<rparr>"

definition errc_invalid_argument :: error_code where
  "errc_invalid_argument = \<lparr>ec_value = 22, ec_category = generic_cat\<rparr>"

section \<open>The error category\<close>

definition error_message :: "int \<Rightarrow> string" where
  "error_message code =
     (if code = error_value eof then ''eof''
      else if code = error_value canceled then ''operation canceled''
      else if code = error_value test_failure then ''test failure''
      else if code = error_value stream_truncated then ''stream truncated''
      else if code = error_value timeout then ''timeout''
      else ''unknown'')"

definition error_default_condition :: "int \<Rightarrow> error_condition" where
  "error_default_condition code =
     (if code = error_value eof then make_error_condition cond_eof
      else if code = error_value canceled then errc_operation_canceled
      else if code = error_value stream_truncated then make_error_condition cond_stream_truncated
      else if code = error_value timeout then errc_timed_out
      else \<lparr>ec_value = code, ec_category = error_cat\<rparr>)"

definition default_error_condition :: "error_code \<Rightarrow> error_condition" where
  "default_error_condition ec =
     (case ec_category ec of error_cat \<Rightarrow> error_default_condition (ec_value ec) | _ \<Rightarrow> ec)"

section \<open>The condition category\<close>

definition cond_message :: "int \<Rightarrow> string" where
  "cond_message code =
     (if code = cond_value cond_eof then ''end of file''
      else if code = cond_value cond_canceled then ''operation canceled''
      else if code = cond_value cond_stream_truncated then ''stream truncated''
      else if code = cond_value cond_timeout then ''operation timed out''
      else ''unknown'')"

text \<open>
  Comparison with a condition of a category that keeps the standard's \<^verbatim>\<open>equivalent\<close>: equal
  categories and values, or the code's default condition is the condition.
\<close>

definition equals_plain_condition :: "error_code \<Rightarrow> error_condition \<Rightarrow> bool" where
  "equals_plain_condition ec ecn \<longleftrightarrow> default_error_condition ec = ecn \<or> ec = ecn"

definition cond_equivalent :: "error_code \<Rightarrow> int \<Rightarrow> bool" where
  "cond_equivalent ec condition =
     (if condition = cond_value cond_eof then ec = make_error_code eof
      else if condition = cond_value cond_canceled then
        (if ec = make_error_code canceled then True
         else if equals_plain_condition ec errc_operation_canceled then True else False)
      else if condition = cond_value cond_stream_truncated then ec = make_error_code stream_truncated
      else if condition = cond_value cond_timeout then
        (if ec = make_error_code timeout then True
         else if equals_plain_condition ec errc_timed_out then True else False)
      else False)"

definition code_equals_condition :: "error_code \<Rightarrow> error_condition \<Rightarrow> bool" where
  "code_equals_condition ec ecn \<longleftrightarrow>
     default_error_condition ec = ecn \<or>
     (if ec_category ecn = cond_cat then cond_equivalent ec (ec_value ecn) else ec = ecn)"

section \<open>Exceptions\<close>

datatype cpp_exception =
    bad_typeid | bad_alloc | invalid_argument string | length_error string | logic_error string
  | out_of_range string | runtime_error string | system_error error_code | stop_requested_exception | other_exception nat

definition throw_bad_typeid :: cpp_exception where "throw_bad_typeid = bad_typeid"
definition throw_bad_alloc :: cpp_exception where "throw_bad_alloc = bad_alloc"
definition throw_invalid_argument :: cpp_exception where
  "throw_invalid_argument = invalid_argument ''invalid argument''"
definition throw_invalid_argument_what :: "string \<Rightarrow> cpp_exception" where
  "throw_invalid_argument_what what = invalid_argument what"
definition throw_length_error :: cpp_exception where
  "throw_length_error = length_error ''length error''"
definition throw_length_error_what :: "string \<Rightarrow> cpp_exception" where
  "throw_length_error_what what = length_error what"
definition throw_logic_error :: cpp_exception where
  "throw_logic_error = logic_error ''logic error''"
definition throw_out_of_range :: cpp_exception where
  "throw_out_of_range = out_of_range ''out of range''"
definition throw_runtime_error :: "string \<Rightarrow> cpp_exception" where
  "throw_runtime_error what = runtime_error what"
definition throw_system_error :: "error_code \<Rightarrow> cpp_exception" where
  "throw_system_error ec = system_error ec"

section \<open>Which codes match which conditions\<close>

lemmas error_code_defs = make_error_code_def make_error_condition_def errc_operation_canceled_def
  errc_timed_out_def default_error_condition_def error_default_condition_def
  equals_plain_condition_def cond_equivalent_def code_equals_condition_def

lemma failed_make_error_code [simp]: "failed (make_error_code e)"
  by (cases e) (simp_all add: failed_def make_error_code_def)

lemma not_failed_success [simp]: "\<not> failed success"
  by (simp add: failed_def success_def)

lemma error_value_inj: "error_value a = error_value b \<longleftrightarrow> a = b"
  by (cases a; cases b) simp_all

text \<open>
  The portable comparison table. An error code of the library compares equal to a condition
  of the library exactly for the four matching pairs (\<^verbatim>\<open>test_failure\<close> matches none); it compares
  equal to the generic conditions exactly for \<^verbatim>\<open>canceled\<close> and \<^verbatim>\<open>timeout\<close>; and a generic code
  for cancellation or timeout, as an operating system reports it, matches the library's own
  condition.
\<close>

theorem error_condition_table:
  "(code_equals_condition (make_error_code e) (make_error_condition c) \<longleftrightarrow>
      (e, c) \<in> {(eof, cond_eof), (canceled, cond_canceled),
                 (stream_truncated, cond_stream_truncated), (timeout, cond_timeout)})
   \<and> (code_equals_condition (make_error_code e) errc_operation_canceled \<longleftrightarrow> e = canceled)
   \<and> (code_equals_condition (make_error_code e) errc_timed_out \<longleftrightarrow> e = timeout)
   \<and> (code_equals_condition errc_operation_canceled (make_error_condition c) \<longleftrightarrow> c = cond_canceled)
   \<and> (code_equals_condition errc_timed_out (make_error_condition c) \<longleftrightarrow> c = cond_timeout)"
  by (cases e; cases c) (simp_all add: error_code_defs)

end
