(* ===== verification/Buffer_Array.thy ===== *)
theory Buffer_Array
  imports Slices Errors
begin

text \<open>
  The two bounded windows over a buffer sequence: \<^verbatim>\<open>detail/buffer_array.hpp\<close>, which copies up to
  \<open>N\<close> non-empty descriptors, and \<^verbatim>\<open>buffers/buffer_param.hpp\<close>, which walks a sequence of any
  length in windows of \<^verbatim>\<open>max_iovec_\<close> descriptors. The union storage of both classes holds as many
  constructed slots as their counters say; the lists below are the constructed slots.
\<close>

section \<open>buffer_array\<close>

record buffer_array =
  ba_n :: nat
  ba_size :: nat
  ba_arr :: "mutable_buffer list"

definition ba_default :: buffer_array where
  "ba_default = \<lparr>ba_n = 0, ba_size = 0, ba_arr = []\<rparr>"

definition ba_emplace :: "buffer_array \<Rightarrow> mutable_buffer \<Rightarrow> buffer_array" where
  "ba_emplace ba b = ba\<lparr>ba_arr := ba_arr ba @ [b], ba_n := ba_n ba + 1, ba_size := size_add (ba_size ba) (buf_n b)\<rparr>"

definition ba_copy :: "buffer_array \<Rightarrow> buffer_array" where
  "ba_copy other = \<lparr>ba_n = ba_n other, ba_size = ba_size other,
     ba_arr = map (\<lambda>i. ba_arr other ! i) [0..<ba_n other]\<rparr>"

definition ba_of_buffer :: "mutable_buffer \<Rightarrow> buffer_array" where
  "ba_of_buffer b =
     (if buf_n b \<noteq> 0 then ba_default\<lparr>ba_arr := [b], ba_n := 1, ba_size := buf_n b\<rparr> else ba_default)"

fun ba_fill :: "nat \<Rightarrow> buffer_array \<Rightarrow> mutable_buffer list \<Rightarrow> buffer_array" where
  "ba_fill N ba [] = ba"
| "ba_fill N ba (b # bs) =
     (if ba_n ba < N then (if buf_n b \<noteq> 0 then ba_fill N (ba_emplace ba b) bs else ba_fill N ba bs)
      else ba)"

definition ba_of_seq :: "nat \<Rightarrow> mutable_buffer list \<Rightarrow> buffer_array" where
  "ba_of_seq N bs = ba_fill N ba_default bs"

fun ba_fill_in_place :: "nat \<Rightarrow> buffer_array \<Rightarrow> mutable_buffer list \<Rightarrow> cpp_exception + buffer_array" where
  "ba_fill_in_place N ba [] = Inr ba"
| "ba_fill_in_place N ba (b # bs) =
     (if buf_n b \<noteq> 0 then
        if ba_n ba \<ge> N then Inl throw_length_error else ba_fill_in_place N (ba_emplace ba b) bs
      else ba_fill_in_place N ba bs)"

definition ba_of_seq_in_place :: "nat \<Rightarrow> mutable_buffer list \<Rightarrow> cpp_exception + buffer_array" where
  "ba_of_seq_in_place N bs = ba_fill_in_place N ba_default bs"

definition ba_of_iters :: "nat \<Rightarrow> mutable_buffer list \<Rightarrow> nat \<Rightarrow> nat \<Rightarrow> buffer_array" where
  "ba_of_iters N bs first lst = ba_fill N ba_default (drop first (take lst bs))"

definition ba_of_iters_in_place :: "nat \<Rightarrow> mutable_buffer list \<Rightarrow> nat \<Rightarrow> nat \<Rightarrow> cpp_exception + buffer_array" where
  "ba_of_iters_in_place N bs first lst = ba_fill_in_place N ba_default (drop first (take lst bs))"

definition ba_to_span :: "buffer_array \<Rightarrow> mutable_buffer list" where
  "ba_to_span ba = take (ba_n ba) (ba_arr ba)"

definition ba_byte_size :: "buffer_array \<Rightarrow> nat" where
  "ba_byte_size ba = ba_size ba"

section \<open>buffer_param\<close>

definition max_iovec :: nat where
  "max_iovec = 16"

record buffer_param =
  bp_it :: "mutable_buffer list"
  bp_arr :: "mutable_buffer list"
  bp_size :: nat
  bp_pos :: nat

fun bp_refill_loop :: "mutable_buffer list \<Rightarrow> mutable_buffer list \<Rightarrow> nat \<Rightarrow> mutable_buffer list \<times> mutable_buffer list \<times> nat" where
  "bp_refill_loop [] arr sz = ([], arr, sz)"
| "bp_refill_loop (b # it) arr sz =
     (if sz < max_iovec then
        if buf_n b > 0 then bp_refill_loop it (arr @ [b]) (sz + 1) else bp_refill_loop it arr sz
      else (b # it, arr, sz))"

definition bp_refill :: "buffer_param \<Rightarrow> buffer_param" where
  "bp_refill bp =
     (let (it, arr, sz) = bp_refill_loop (bp_it bp) [] 0
      in \<lparr>bp_it = it, bp_arr = arr, bp_size = sz, bp_pos = 0\<rparr>)"

definition bp_init :: "mutable_buffer list \<Rightarrow> buffer_param" where
  "bp_init bs = bp_refill \<lparr>bp_it = bs, bp_arr = [], bp_size = 0, bp_pos = 0\<rparr>"

definition bp_data :: "buffer_param \<Rightarrow> mutable_buffer list \<times> buffer_param" where
  "bp_data bp =
     (let bp = (if bp_pos bp \<ge> bp_size bp then bp_refill bp else bp)
      in if bp_size bp = 0 then ([], bp)
         else (drop (bp_pos bp) (take (bp_size bp) (bp_arr bp)), bp))"

definition bp_more :: "buffer_param \<Rightarrow> bool" where
  "bp_more bp \<longleftrightarrow> bp_it bp \<noteq> []"

function bp_consume :: "buffer_param \<Rightarrow> nat \<Rightarrow> buffer_param" where
  "bp_consume bp n =
     (if n > 0 \<and> bp_pos bp < bp_size bp then
        let avail = buf_n (bp_arr bp ! bp_pos bp)
        in if n < avail then
             bp\<lparr>bp_arr := (bp_arr bp)[bp_pos bp := mutable_plus_assign (bp_arr bp ! bp_pos bp) n]\<rparr>
           else bp_consume (bp\<lparr>bp_pos := bp_pos bp + 1\<rparr>) (n - avail)
      else bp)"
  by pat_completeness auto
termination
  by (relation "measure (\<lambda>(bp, n). bp_size bp - bp_pos bp)") auto

declare bp_consume.simps [simp del]

section \<open>What a buffer_array holds\<close>

definition nonempty :: "mutable_buffer list \<Rightarrow> mutable_buffer list" where
  "nonempty bs = filter (\<lambda>b. buf_n b \<noteq> 0) bs"

lemma nonempty_simps [simp]:
  "nonempty [] = []"
  "nonempty (b # bs) = (if buf_n b \<noteq> 0 then b # nonempty bs else nonempty bs)"
  by (simp_all add: nonempty_def)

lemma addrs_nonempty [addrs_simps, simp]: "addrs (nonempty bs) = addrs bs"
  by (induction bs) (auto simp: baddrs_def)

definition wf_array :: "nat \<Rightarrow> buffer_array \<Rightarrow> bool" where
  "wf_array N ba \<longleftrightarrow> ba_n ba = length (ba_arr ba) \<and> ba_n ba \<le> N \<and>
     ba_size ba = length (addrs (ba_arr ba)) \<and> 0 \<notin> buf_n ` set (ba_arr ba)"

lemma wf_array_default [wf_intros]: "wf_array N ba_default"
  by (simp add: wf_array_def ba_default_def)

lemma wf_array_emplace [wf_intros]:
  "wf_array N ba \<Longrightarrow> ba_n ba < N \<Longrightarrow> buf_n b \<noteq> 0 \<Longrightarrow>
     length (addrs (ba_arr ba)) + buf_n b \<le> size_max \<Longrightarrow> wf_array N (ba_emplace ba b)"
  by (auto simp: wf_array_def ba_emplace_def)

lemma ba_fill_correct:
  assumes "wf_array N ba" and "length (addrs (ba_arr ba)) + length (addrs bs) \<le> size_max"
  shows "wf_array N (ba_fill N ba bs) \<and>
    ba_arr (ba_fill N ba bs) = ba_arr ba @ take (N - ba_n ba) (nonempty bs)"
  using assms
proof (induction N ba bs rule: ba_fill.induct)
  case (2 N ba b bs)
  then show ?case
    by (auto simp: wf_array_emplace ba_emplace_def wf_array_def Suc_diff_Suc [symmetric])
qed simp

lemma ba_fill_full: "\<not> ba_n ba < N \<Longrightarrow> ba_fill N ba bs = ba"
  by (cases bs) auto

lemma ba_fill_in_place_correct:
  assumes "wf_array N ba" and "length (addrs (ba_arr ba)) + length (addrs bs) \<le> size_max"
  shows "ba_fill_in_place N ba bs =
    (if ba_n ba + length (nonempty bs) \<le> N then Inr (ba_fill N ba bs) else Inl throw_length_error)"
  using assms
  by (induction N ba bs rule: ba_fill_in_place.induct)
     (auto simp: wf_array_emplace, auto simp: ba_emplace_def wf_array_def ba_fill_full)

lemma ba_of_seq_array:
  assumes "wf_buffers bs"
  shows "wf_array N (ba_of_seq N bs)" "ba_arr (ba_of_seq N bs) = take N (nonempty bs)" "ba_to_span (ba_of_seq N bs) = take N (nonempty bs)"
proof -
  have sz: "length (addrs (ba_arr ba_default)) + length (addrs bs) \<le> size_max"
    using assms by (simp add: wf_buffers_def ba_default_def)
  show wf: "wf_array N (ba_of_seq N bs)" and arr: "ba_arr (ba_of_seq N bs) = take N (nonempty bs)"
    using ba_fill_correct [OF wf_array_default sz] by (simp_all add: ba_of_seq_def ba_default_def)
  then show "ba_to_span (ba_of_seq N bs) = take N (nonempty bs)" by (metis ba_to_span_def order_refl take_all wf_array_def)
qed

text \<open>
  C38. Copying a sequence into a \<^verbatim>\<open>buffer_array\<close> of \<open>N\<close> slots: the truncating constructor keeps
  the first \<open>N\<close> non-empty descriptors, so the array denotes a prefix of the sequence's bytes
  and \<^verbatim>\<open>byte_size\<close> counts exactly these. The in-place constructor throws
  \<^verbatim>\<open>std::length_error\<close> exactly when there are more than \<open>N\<close> non-empty descriptors, and
  otherwise builds the same array, which then denotes every byte.
\<close>

theorem buffer_array_correct:
  assumes "wf_buffers bs"
  shows "ba_to_span (ba_of_seq N bs) = take N (nonempty bs)
    \<and> ba_byte_size (ba_of_seq N bs) = length (addrs (ba_to_span (ba_of_seq N bs)))
    \<and> (ba_of_seq_in_place N bs = Inl throw_length_error \<longleftrightarrow> N < length (nonempty bs))
    \<and> (\<forall>ba. ba_of_seq_in_place N bs = Inr ba \<longrightarrow> ba = ba_of_seq N bs \<and> addrs (ba_to_span ba) = addrs bs)"
proof -
  let ?ba = "ba_of_seq N bs"
  have sz: "length (addrs (ba_arr ba_default)) + length (addrs bs) \<le> size_max"
    using assms by (simp add: wf_buffers_def ba_default_def)
  note wf = ba_of_seq_array(1) [OF assms, of N] and arr = ba_of_seq_array(2) [OF assms, of N] and span = ba_of_seq_array(3) [OF assms, of N]
  have "ba_of_seq_in_place N bs = (if length (nonempty bs) \<le> N then Inr ?ba else Inl throw_length_error)"
    using ba_fill_in_place_correct [OF wf_array_default sz]
    by (simp add: ba_of_seq_in_place_def ba_of_seq_def ba_default_def)
  with span wf arr show ?thesis by (auto simp: ba_byte_size_def wf_array_def split: if_splits)
qed

theorem buffer_array_correct_witness:
  "ba_to_span (ba_of_seq 1 [mk_buffer 5 2, mk_buffer 9 0, mk_buffer 7 1]) = [mk_buffer 5 2]
   \<and> ba_of_seq_in_place 1 [mk_buffer 5 2, mk_buffer 9 0, mk_buffer 7 1] = Inl throw_length_error"
proof -
  let ?bs = "[mk_buffer 5 2, mk_buffer 9 0, mk_buffer 7 1]"
  have "wf_buffers ?bs" by (simp add: wf_buffers_def mk_buffer_def size_max_def)
  from buffer_array_correct [OF this, of 1] show ?thesis by (simp add: mk_buffer_def)
qed

section \<open>What a buffer_param still denotes\<close>

definition wf_param :: "buffer_param \<Rightarrow> bool" where
  "wf_param bp \<longleftrightarrow> bp_pos bp \<le> bp_size bp \<and> bp_size bp = length (bp_arr bp) \<and> bp_size bp \<le> max_iovec \<and>
     0 \<notin> buf_n ` set (drop (bp_pos bp) (bp_arr bp))"

definition param_bytes :: "buffer_param \<Rightarrow> addr list" where
  "param_bytes bp = addrs (drop (bp_pos bp) (bp_arr bp)) @ addrs (bp_it bp)"

lemma bp_refill_loop_correct:
  assumes "bp_refill_loop it arr sz = (it', arr', sz')" and "sz = length arr" and "sz \<le> max_iovec"
    and "0 \<notin> buf_n ` set arr"
  shows "sz' = length arr' \<and> sz' \<le> max_iovec \<and> 0 \<notin> buf_n ` set arr' \<and>
    addrs arr' @ addrs it' = addrs arr @ addrs it \<and> (arr' = [] \<longrightarrow> it' = [] \<and> addrs it = [])"
  using assms
  by (induction it arr sz rule: bp_refill_loop.induct)
     (auto simp: baddrs_def max_iovec_def split: if_splits)

lemma addrs_eq_Nil: "0 \<notin> buf_n ` set bs \<Longrightarrow> addrs bs = [] \<longleftrightarrow> bs = []"
  by (cases bs) (auto simp: baddrs_def)

lemma bp_refill_correct:
  assumes "wf_param bp"
  shows "wf_param (bp_refill bp) \<and> param_bytes (bp_refill bp) = addrs (bp_it bp) \<and>
    bp_pos (bp_refill bp) = 0 \<and> (bp_size (bp_refill bp) = 0 \<longleftrightarrow> addrs (bp_it bp) = [])"
proof -
  obtain it arr sz where r: "bp_refill_loop (bp_it bp) [] 0 = (it, arr, sz)" by (metis prod_cases3)
  from bp_refill_loop_correct [OF r] show ?thesis
    by (auto simp: bp_refill_def r wf_param_def param_bytes_def addrs_eq_Nil)
qed

lemma bp_init_correct: "wf_param (bp_init bs) \<and> param_bytes (bp_init bs) = addrs bs"
proof -
  have "wf_param \<lparr>bp_it = bs, bp_arr = [], bp_size = 0, bp_pos = 0\<rparr>" by (simp add: wf_param_def)
  from bp_refill_correct [OF this] show ?thesis by (simp add: bp_init_def)
qed

lemma bp_data_correct:
  assumes "wf_param bp" and "bp_data bp = (w, bp')"
  shows "wf_param bp' \<and> param_bytes bp' = param_bytes bp \<and> w = drop (bp_pos bp') (bp_arr bp') \<and>
    length w \<le> max_iovec \<and> (w = [] \<longleftrightarrow> param_bytes bp = [])"
proof -
  have "param_bytes bp = addrs (bp_it bp)" if "bp_pos bp \<ge> bp_size bp"
    using assms(1) that by (simp add: param_bytes_def wf_param_def)
  moreover have "param_bytes bp \<noteq> []" if "bp_pos bp < bp_size bp"
    using assms(1) that
    by (auto simp: param_bytes_def wf_param_def baddrs_def Cons_nth_drop_Suc [symmetric])
  ultimately show ?thesis
    using assms bp_refill_correct [OF assms(1)]
    by (auto simp: bp_data_def Let_def wf_param_def split: if_splits)
qed

lemma bp_consume_correct:
  assumes "wf_param bp"
  shows "wf_param (bp_consume bp n) \<and> bp_it (bp_consume bp n) = bp_it bp \<and>
    addrs (drop (bp_pos (bp_consume bp n)) (bp_arr (bp_consume bp n))) = drop n (addrs (drop (bp_pos bp) (bp_arr bp)))"
  using assms
proof (induction bp n rule: bp_consume.induct)
  case (1 bp n)
  let ?b = "bp_arr bp ! bp_pos bp"
  show ?case
  proof (cases "n > 0 \<and> bp_pos bp < bp_size bp")
    case False
    with "1.prems" show ?thesis by (subst (1 2 3 4) bp_consume.simps) (auto simp: wf_param_def)
  next
    case True
    with "1.prems" have split: "drop (bp_pos bp) (bp_arr bp) = ?b # drop (Suc (bp_pos bp)) (bp_arr bp)"
      by (simp add: wf_param_def Cons_nth_drop_Suc)
    show ?thesis
    proof (cases "n < buf_n ?b")
      case less: True
      let ?c = "mutable_plus_assign ?b n"
      have "drop (bp_pos bp) ((bp_arr bp)[bp_pos bp := ?c]) = ?c # drop (Suc (bp_pos bp)) (bp_arr bp)"
        using True "1.prems" by (simp add: wf_param_def drop_update_swap split)
      with True less split "1.prems" show ?thesis
        by (subst (1 2 3 4) bp_consume.simps) (auto simp: wf_param_def baddrs_plus_assign)
    next
      case more: False
      have wf: "wf_param (bp\<lparr>bp_pos := bp_pos bp + 1\<rparr>)"
        using "1.prems" True split by (auto simp: wf_param_def)
      have "bp_consume bp n = bp_consume (bp\<lparr>bp_pos := bp_pos bp + 1\<rparr>) (n - buf_n ?b)"
        using True more by (subst bp_consume.simps) simp
      with "1.IH" [OF True refl] more wf show ?thesis by (simp add: split)
    qed
  qed
qed

text \<open>
  Walking a sequence of any length through the windows of a \<^verbatim>\<open>buffer_param\<close>: a window holds at
  most \<^verbatim>\<open>max_iovec_\<close> descriptors, fetching it changes none of the remaining bytes, the window is
  a prefix of them and empty exactly when none remain, and \<^verbatim>\<open>consume(n)\<close> then removes the first
  \<open>n\<close> bytes of the window and never a byte behind it.
\<close>

theorem buffer_param_correct:
  assumes "wf_param bp" and "bp_data bp = (w, bp')"
  shows "length w \<le> max_iovec \<and> (w = [] \<longleftrightarrow> param_bytes bp = [])
    \<and> (\<exists>rest. param_bytes bp = addrs w @ rest
         \<and> param_bytes (bp_consume bp' n) = drop n (addrs w) @ rest)
    \<and> wf_param (bp_consume bp' n)"
  using bp_data_correct [OF assms] bp_consume_correct [of bp' n]
  by (auto simp: param_bytes_def)

theorem buffer_param_correct_witness:
  "param_bytes (bp_consume (snd (bp_data (bp_init [mk_buffer 5 2, mk_buffer 9 3]))) 3) = [10, 11]"
proof -
  let ?bp = "bp_init [mk_buffer 5 2, mk_buffer 9 3]"
  obtain w bp' where d: "bp_data ?bp = (w, bp')" by fastforce
  have w: "w = [mk_buffer 5 2, mk_buffer 9 3]"
    using d by (simp add: bp_init_def bp_refill_def bp_data_def max_iovec_def mk_buffer_def)
  have b: "param_bytes ?bp = [5, 6, 9, 10, 11]"
    by (simp add: bp_init_correct mk_buffer_def baddrs_def upt_rec)
  have a: "addrs w = [5, 6, 9, 10, 11]" by (simp add: w mk_buffer_def baddrs_def upt_rec)
  from buffer_param_correct [OF conjunct1 [OF bp_init_correct] d, of 3]
  have "param_bytes (bp_consume bp' 3) = drop 3 [5, 6, 9, 10, 11]" unfolding a b by auto
  then show ?thesis by (simp add: d)
qed

end
