(* ===== verification/Stream_IO.thy ===== *)
theory Stream_IO
  imports Slices Errors
begin

text \<open>
  The composed transfers \<^verbatim>\<open>read\<close>, \<^verbatim>\<open>read_at_least\<close>, \<^verbatim>\<open>write\<close>, \<^verbatim>\<open>write_at_least\<close> and
  \<^verbatim>\<open>write_now\<close> over any stream. A stream is a parameter: its state and its \<^verbatim>\<open>read_some\<close> or
  \<^verbatim>\<open>write_some\<close>, which awaits to an error code and a count, or throws. The locales state the
  semantic requirements that \<^verbatim>\<open>concept/read_stream.hpp\<close> and \<^verbatim>\<open>concept/write_stream.hpp\<close>
  document; the transfers are proved against them once, and \<open>Mock_Streams\<close> interprets them on the
  library's own test streams. A transfer loop has no bound of its own (a stream that reports
  success with no progress would never let it end), so the loops are partial functions whose
  value \<open>None\<close> is not returning, and the results say that they return.
\<close>

type_synonym 's read_result = "(cpp_exception \<times> 's \<times> memory) + (error_code \<times> nat \<times> 's \<times> memory)"
type_synonym 's read_op = "'s \<Rightarrow> mutable_buffer list \<Rightarrow> memory \<Rightarrow> 's read_result"
type_synonym 's write_result = "(cpp_exception \<times> 's) + (error_code \<times> nat \<times> 's)"
type_synonym 's write_op = "'s \<Rightarrow> const_buffer list \<Rightarrow> memory \<Rightarrow> 's write_result"

section \<open>read and read_at_least\<close>

partial_function (option) read_loop ::
  "'s read_op \<Rightarrow> nat \<Rightarrow> consuming_buffers \<Rightarrow> nat \<Rightarrow> 's \<Rightarrow> memory \<Rightarrow> 's read_result option"
where
  "read_loop read_some limit consuming total_read s m =
     (if total_read < limit then
        (case read_some s (slice_list (consuming_data consuming)) m of
           Inl e \<Rightarrow> Some (Inl e)
         | Inr (ec, n, s', m') \<Rightarrow>
             if failed ec \<and> size_add total_read n < limit
             then Some (Inr (ec, size_add total_read n, s', m'))
             else read_loop read_some limit (consume consuming n) (size_add total_read n) s' m')
      else Some (Inr (success, total_read, s, m)))"

definition capy_read :: "'s read_op \<Rightarrow> 's \<Rightarrow> mutable_buffer list \<Rightarrow> memory \<Rightarrow> 's read_result option" where
  "capy_read read_some s buffers m = read_loop read_some (buffer_size buffers) (consuming_init buffers) 0 s m"

definition read_at_least ::
  "'s read_op \<Rightarrow> 's \<Rightarrow> mutable_buffer list \<Rightarrow> nat \<Rightarrow> memory \<Rightarrow> 's read_result option" where
  "read_at_least read_some s buffers n m =
     (if n > buffer_size buffers then Some (Inr (errc_invalid_argument, 0, s, m))
      else read_loop read_some n (consuming_init buffers) 0 s m)"

section \<open>write and write_at_least\<close>

partial_function (option) write_loop ::
  "'s write_op \<Rightarrow> nat \<Rightarrow> consuming_buffers \<Rightarrow> nat \<Rightarrow> 's \<Rightarrow> memory \<Rightarrow> 's write_result option"
where
  "write_loop write_some limit consuming total_written s m =
     (if total_written < limit then
        (case write_some s (slice_list (consuming_data consuming)) m of
           Inl e \<Rightarrow> Some (Inl e)
         | Inr (ec, n, s') \<Rightarrow>
             if failed ec \<and> size_add total_written n < limit
             then Some (Inr (ec, size_add total_written n, s'))
             else write_loop write_some limit (consume consuming n) (size_add total_written n) s' m)
      else Some (Inr (success, total_written, s)))"

definition capy_write :: "'s write_op \<Rightarrow> 's \<Rightarrow> const_buffer list \<Rightarrow> memory \<Rightarrow> 's write_result option" where
  "capy_write write_some s buffers m = write_loop write_some (buffer_size buffers) (consuming_init buffers) 0 s m"

definition write_at_least ::
  "'s write_op \<Rightarrow> 's \<Rightarrow> const_buffer list \<Rightarrow> nat \<Rightarrow> memory \<Rightarrow> 's write_result option" where
  "write_at_least write_some s buffers n m =
     (if n > buffer_size buffers then Some (Inr (errc_invalid_argument, 0, s))
      else write_loop write_some n (consuming_init buffers) 0 s m)"

section \<open>write_now\<close>

text \<open>
  The loop that awaits each \<^verbatim>\<open>write_some\<close> (the whole body for GCC, the slow path elsewhere), the
  fast loop that runs while the awaitable is ready at once, and the two bodies of
  \<^verbatim>\<open>operator()\<close>. \<open>ready\<close> is what \<^verbatim>\<open>await_ready\<close> of the stream's awaitable returns.
\<close>

partial_function (option) write_now_slow ::
  "'s write_op \<Rightarrow> nat \<Rightarrow> consuming_buffers \<Rightarrow> nat \<Rightarrow> 's \<Rightarrow> memory \<Rightarrow> 's write_result option"
where
  "write_now_slow write_some total_size cb total_written s m =
     (if total_written < total_size then
        (case write_some s (slice_list (consuming_data cb)) m of
           Inl e \<Rightarrow> Some (Inl e)
         | Inr (ec, n, s') \<Rightarrow>
             if failed ec then Some (Inr (ec, size_add total_written n, s'))
             else write_now_slow write_some total_size (consume cb n) (size_add total_written n) s' m)
      else Some (Inr (success, total_written, s)))"

partial_function (option) write_now_fast ::
  "'s write_op \<Rightarrow> ('s \<Rightarrow> const_buffer list \<Rightarrow> bool) \<Rightarrow> nat \<Rightarrow> consuming_buffers \<Rightarrow> nat \<Rightarrow> 's \<Rightarrow> memory
     \<Rightarrow> 's write_result option"
where
  "write_now_fast write_some ready total_size cb total_written s m =
     (if total_written < total_size then
        if \<not> ready s (slice_list (consuming_data cb)) then write_now_slow write_some total_size cb total_written s m
        else (case write_some s (slice_list (consuming_data cb)) m of
           Inl e \<Rightarrow> Some (Inl e)
         | Inr (ec, n, s') \<Rightarrow>
             if failed ec then Some (Inr (ec, total_written, s'))
             else write_now_fast write_some ready total_size (consume cb n) (size_add total_written n) s' m)
      else Some (Inr (success, total_written, s)))"

definition write_now_gcc :: "'s write_op \<Rightarrow> 's \<Rightarrow> const_buffer list \<Rightarrow> memory \<Rightarrow> 's write_result option" where
  "write_now_gcc write_some s buffers m =
     write_now_slow write_some (buffer_size buffers) (consuming_init buffers) 0 s m"

definition write_now ::
  "'s write_op \<Rightarrow> ('s \<Rightarrow> const_buffer list \<Rightarrow> bool) \<Rightarrow> 's \<Rightarrow> const_buffer list \<Rightarrow> memory \<Rightarrow> 's write_result option" where
  "write_now write_some ready s buffers m =
     write_now_fast write_some ready (buffer_size buffers) (consuming_init buffers) 0 s m"

section \<open>The contract of a read stream\<close>

text \<open>
  \<open>ok\<close> is the stream's own invariant, \<open>own\<close> the memory it keeps to itself and \<open>inp\<close> the bytes it
  has still to deliver. On buffers with room a read that returns success delivered at least one
  byte, a contingency came with fewer bytes than the buffers hold, and the bytes were placed in
  order at the front of the buffers.
\<close>

locale read_stream_contract =
  fixes read_some :: "'s read_op"
    and ok :: "'s \<Rightarrow> bool"
    and own :: "addr set"
    and inp :: "'s \<Rightarrow> byte list"
  assumes ok_kept: "ok s \<Longrightarrow> read_some s bs m = Inr (ec, n, s', m') \<Longrightarrow> ok s'"
    and count: "ok s \<Longrightarrow> addrs bs \<noteq> [] \<Longrightarrow> wf_buffers bs \<Longrightarrow> distinct (addrs bs) \<Longrightarrow>
      set (addrs bs) \<inter> own = {} \<Longrightarrow> read_some s bs m = Inr (ec, n, s', m') \<Longrightarrow>
      n \<le> length (addrs bs) \<and> (if failed ec then n < length (addrs bs) else 1 \<le> n)"
    and placed: "ok s \<Longrightarrow> addrs bs \<noteq> [] \<Longrightarrow> wf_buffers bs \<Longrightarrow> distinct (addrs bs) \<Longrightarrow>
      set (addrs bs) \<inter> own = {} \<Longrightarrow> read_some s bs m = Inr (ec, n, s', m') \<Longrightarrow>
      inp s = map m' (take n (addrs bs)) @ inp s' \<and>
      (\<forall>a. a \<notin> own \<union> set (take n (addrs bs)) \<longrightarrow> m' a = m a)"
begin

text \<open>What a transfer that has placed the first \<open>tot\<close> of the addresses \<open>A\<close> goes on to do.\<close>

definition transferred ::
  "addr list \<Rightarrow> nat \<Rightarrow> nat \<Rightarrow> 's \<Rightarrow> memory \<Rightarrow> 's read_result \<Rightarrow> bool" where
  "transferred A limit tot s m r \<longleftrightarrow>
     (case r of Inl e \<Rightarrow> True
      | Inr (ec, n, s', m') \<Rightarrow> tot \<le> n \<and> n \<le> length A \<and> (failed ec \<longleftrightarrow> n < limit) \<and> ok s' \<and>
          inp s = map m' (take (n - tot) (drop tot A)) @ inp s' \<and>
          (\<forall>a. a \<notin> own \<union> set (take (n - tot) (drop tot A)) \<longrightarrow> m' a = m a))"

lemma transferred_start:
  "transferred A limit 0 s m r \<longleftrightarrow>
     (case r of Inl e \<Rightarrow> True
      | Inr (ec, n, s', m') \<Rightarrow> n \<le> length A \<and> (failed ec \<longleftrightarrow> n < limit) \<and> ok s' \<and>
          inp s = map m' (take n A) @ inp s' \<and> (\<forall>a. a \<notin> own \<union> set (take n A) \<longrightarrow> m' a = m a))"
  by (simp add: transferred_def split: sum.split)

lemma transferred_step:
  assumes "transferred A limit (tot + n) s1 m1 r" and "tot + n \<le> length A"
    and "inp s = map m1 (take n (drop tot A)) @ inp s1 \<and> (\<forall>a. a \<notin> own \<union> set (take n (drop tot A)) \<longrightarrow> m1 a = m a)"
    and "distinct A" "set A \<inter> own = {}"
  shows "transferred A limit tot s m r"
proof (cases r)
  case (Inr q)
  then obtain ec k s' m' where q: "r = Inr (ec, k, s', m')" by (cases q) auto
  with assms(1) have k: "tot + n \<le> k" "k \<le> length A"
    and m': "inp s1 = map m' (take (k - (tot + n)) (drop (tot + n) A)) @ inp s'"
      "\<forall>a. a \<notin> own \<union> set (take (k - (tot + n)) (drop (tot + n) A)) \<longrightarrow> m' a = m1 a"
    by (auto simp: transferred_def)
  have split: "take (k - tot) (drop tot A) = take n (drop tot A) @ take (k - (tot + n)) (drop (tot + n) A)"
    using k(1) take_add [of n "k - (tot + n)" "drop tot A"] by (simp add: add.commute)
  have "distinct (take (k - tot) (drop tot A))" using assms(4) by simp
  then have "set (take n (drop tot A)) \<inter> set (take (k - (tot + n)) (drop (tot + n) A)) = {}"
    unfolding split by simp
  moreover have "set (take n (drop tot A)) \<inter> own = {}"
    using assms(5) by (meson disjoint_iff in_set_dropD in_set_takeD)
  ultimately have "map m' (take n (drop tot A)) = map m1 (take n (drop tot A))"
    using m'(2) by (auto simp: disjoint_iff)
  then show ?thesis
    using assms(1,3) k m' q by (auto simp: transferred_def split)
qed (simp add: transferred_def)

lemma read_loop_correct:
  assumes "ok s" and "wf_consuming cb" and "consuming_bytes cb = drop tot A" and "tot \<le> length A"
    and "limit \<le> length A" and A: "length A \<le> size_max" "distinct A" "set A \<inter> own = {}"
  shows "\<exists>r. read_loop read_some limit cb tot s m = Some r \<and> transferred A limit tot s m r"
  using assms(1-5)
proof (induction "limit - tot" arbitrary: tot cb s m rule: less_induct)
  case less
  show ?case
  proof (cases "tot < limit")
    case False
    with less.prems show ?thesis by (subst read_loop.simps) (simp add: transferred_def)
  next
    case True
    let ?bs = "slice_list (consuming_data cb)"
    have bs: "addrs ?bs = drop tot A" using less.prems(3) by (simp add: consuming_bytes_def)
    have ne: "addrs ?bs \<noteq> []" "wf_buffers ?bs" "distinct (addrs ?bs)" "set (addrs ?bs) \<inter> own = {}"
      using True less.prems(5) A by (auto simp: bs wf_buffers_def dest: in_set_dropD)
    show ?thesis
    proof (cases "read_some s ?bs m")
      case (Inl e)
      with True show ?thesis by (subst read_loop.simps) (simp add: transferred_def)
    next
      case (Inr r)
      then obtain ec n s1 m1 where r: "read_some s ?bs m = Inr (ec, n, s1, m1)" by (cases r) auto
      note c = count [OF less.prems(1) ne r, unfolded bs]
        and p = placed [OF less.prems(1) ne r, unfolded bs]
        and ok1 = ok_kept [OF less.prems(1) r]
      have sum: "size_add tot n = tot + n" and le: "tot + n \<le> length A"
        using c less.prems(4) A(1) by auto
      show ?thesis
      proof (cases "failed ec \<and> tot + n < limit")
        case fail: True
        with True r sum le ok1 p show ?thesis by (subst read_loop.simps) (simp add: transferred_def)
      next
        case go: False
        then have n: "1 \<le> n \<or> limit \<le> tot + n" using c by (auto split: if_splits)
        have step: "read_loop read_some limit cb tot s m =
            read_loop read_some limit (consume cb n) (tot + n) s1 m1"
          using True r sum go by (subst read_loop.simps) auto
        have "wf_consuming (consume cb n)" "consuming_bytes (consume cb n) = drop (tot + n) A"
          using consume_wf_bytes [OF less.prems(2), of n] less.prems(3) by (simp_all add: add.commute)
        from less.hyps [OF _ ok1 this le less.prems(5), of m1] True n
        obtain q where "read_loop read_some limit (consume cb n) (tot + n) s1 m1 = Some q"
          "transferred A limit (tot + n) s1 m1 q" by fastforce
        then show ?thesis using step transferred_step [OF _ le p A(2,3)] by metis
      qed
    qed
  qed
qed

lemma capy_read_transferred:
  assumes "ok s" "wf_buffers bs" "distinct (addrs bs)" "set (addrs bs) \<inter> own = {}"
  shows "\<exists>r. capy_read read_some s bs m = Some r \<and> transferred (addrs bs) (length (addrs bs)) 0 s m r"
  using read_loop_correct [OF assms(1) consuming_init_wf [OF assms(2)] _ _ _ _ assms(3,4), of 0 "length (addrs bs)" m] assms(2)
  by (simp add: capy_read_def consuming_init_bytes) (simp add: wf_buffers_def)

lemma read_at_least_transferred:
  assumes "ok s" "wf_buffers bs" "distinct (addrs bs)" "set (addrs bs) \<inter> own = {}" "k \<le> length (addrs bs)"
  shows "\<exists>r. read_at_least read_some s bs k m = Some r \<and> transferred (addrs bs) k 0 s m r"
  using read_loop_correct [OF assms(1) consuming_init_wf [OF assms(2)] _ _ assms(5) _ assms(3,4), of 0 m] assms(2,5)
  by (simp add: read_at_least_def consuming_init_bytes) (simp add: wf_buffers_def)

end

section \<open>The contract of a write stream\<close>

text \<open>\<open>out\<close> is what the stream has sent on. The counts obey the rule of the read stream.\<close>

locale write_stream_contract =
  fixes write_some :: "'s write_op"
    and ok :: "'s \<Rightarrow> bool"
    and own :: "addr set"
    and out :: "'s \<Rightarrow> byte list"
  assumes ok_kept: "ok s \<Longrightarrow> write_some s bs m = Inr (ec, n, s') \<Longrightarrow> ok s'"
    and count: "ok s \<Longrightarrow> addrs bs \<noteq> [] \<Longrightarrow> wf_buffers bs \<Longrightarrow> set (addrs bs) \<inter> own = {} \<Longrightarrow> write_some s bs m = Inr (ec, n, s') \<Longrightarrow>
      n \<le> length (addrs bs) \<and> (if failed ec then n < length (addrs bs) else 1 \<le> n)"
    and sent: "ok s \<Longrightarrow> addrs bs \<noteq> [] \<Longrightarrow> wf_buffers bs \<Longrightarrow> set (addrs bs) \<inter> own = {} \<Longrightarrow> write_some s bs m = Inr (ec, n, s') \<Longrightarrow>
      out s' = out s @ map m (take n (addrs bs))"
begin

definition written :: "memory \<Rightarrow> addr list \<Rightarrow> nat \<Rightarrow> nat \<Rightarrow> 's \<Rightarrow> 's write_result \<Rightarrow> bool" where
  "written m A limit tot s r \<longleftrightarrow>
     (case r of Inl e \<Rightarrow> True
      | Inr (ec, n, s') \<Rightarrow> tot \<le> n \<and> n \<le> length A \<and> (failed ec \<longleftrightarrow> n < limit) \<and> ok s' \<and>
          out s' = out s @ map m (take (n - tot) (drop tot A)))"

lemma written_start:
  "written m A limit 0 s r \<longleftrightarrow>
     (case r of Inl e \<Rightarrow> True
      | Inr (ec, n, s') \<Rightarrow> n \<le> length A \<and> (failed ec \<longleftrightarrow> n < limit) \<and> ok s' \<and>
          out s' = out s @ map m (take n A))"
  by (simp add: written_def split: sum.split)

lemma written_step:
  assumes "written m A limit (tot + n) s1 r" and "out s1 = out s @ map m (take n (drop tot A))"
  shows "written m A limit tot s r"
proof (cases r)
  case (Inr q)
  then obtain ec k s' where q: "r = Inr (ec, k, s')" by (cases q) auto
  with assms(1) have k: "tot + n \<le> k" by (simp add: written_def)
  have "take (k - tot) (drop tot A) = take n (drop tot A) @ take (k - (tot + n)) (drop (tot + n) A)"
    using k take_add [of n "k - (tot + n)" "drop tot A"] by (simp add: add.commute)
  then show ?thesis using assms q k by (simp add: written_def)
qed (simp add: written_def)

text \<open>One round of a loop: the call made at offset \<open>tot\<close>, and the state the next round starts from.\<close>

lemma round:
  assumes "ok s" and "wf_consuming cb" and "consuming_bytes cb = drop tot A" and "tot < length A"
    and "length A \<le> size_max" "set A \<inter> own = {}" and r: "write_some s (slice_list (consuming_data cb)) m = Inr (ec, n, s1)"
  shows "size_add tot n = tot + n" "tot + n \<le> length A" "failed ec \<Longrightarrow> tot + n < length A"
    "\<not> failed ec \<Longrightarrow> 1 \<le> n" "ok s1" "out s1 = out s @ map m (take n (drop tot A))"
    "wf_consuming (consume cb n)" "consuming_bytes (consume cb n) = drop (tot + n) A"
proof -
  let ?bs = "slice_list (consuming_data cb)"
  have bs: "addrs ?bs = drop tot A" using assms(3) by (simp add: consuming_bytes_def)
  have ne: "addrs ?bs \<noteq> []" "wf_buffers ?bs" "set (addrs ?bs) \<inter> own = {}"
    using assms(4-6) by (auto simp: bs wf_buffers_def dest: in_set_dropD)
  note c = count [OF assms(1) ne r, unfolded bs]
  show "tot + n \<le> length A" "failed ec \<Longrightarrow> tot + n < length A" "\<not> failed ec \<Longrightarrow> 1 \<le> n"
    using c assms(4) by auto
  then show "size_add tot n = tot + n" using assms(5) by auto
  show "ok s1" by (rule ok_kept [OF assms(1) r])
  show "out s1 = out s @ map m (take n (drop tot A))" using sent [OF assms(1) ne r] by (simp add: bs)
  show "wf_consuming (consume cb n)" "consuming_bytes (consume cb n) = drop (tot + n) A"
    using consume_wf_bytes [OF assms(2), of n] assms(3) by (simp_all add: add.commute)
qed

lemma write_loop_correct:
  assumes "ok s" and "wf_consuming cb" and "consuming_bytes cb = drop tot A" and "tot \<le> length A"
    and A: "limit \<le> length A" "length A \<le> size_max" "set A \<inter> own = {}"
  shows "\<exists>r. write_loop write_some limit cb tot s m = Some r \<and> written m A limit tot s r"
  using assms(1-4)
proof (induction "limit - tot" arbitrary: tot cb s rule: less_induct)
  case less
  consider "\<not> tot < limit" | e where "tot < limit" "write_some s (slice_list (consuming_data cb)) m = Inl e"
    | ec n s1 where "tot < limit" "write_some s (slice_list (consuming_data cb)) m = Inr (ec, n, s1)"
    by (metis sumE prod_cases3)
  then show ?case
  proof cases
    case (3 ec n s1)
    then have "tot < length A" using A by simp
    note R = round [OF less.prems(1-3) this A(2,3) 3(2)]
    show ?thesis
    proof (cases "failed ec \<and> tot + n < limit")
      case True
      with 3 R(1,2,5,6) show ?thesis by (subst write_loop.simps) (simp add: written_def)
    next
      case False
      then have "limit - (tot + n) < limit - tot" using R(4) 3(1) by linarith
      from less.hyps [OF this R(5,7,8,2)] obtain q
        where "write_loop write_some limit (consume cb n) (tot + n) s1 m = Some q"
          "written m A limit (tot + n) s1 q" by blast
      then show ?thesis using 3 R(1,6) False written_step by (subst write_loop.simps) auto
    qed
  qed (use less.prems in \<open>subst write_loop.simps, simp add: written_def\<close>)+
qed

text \<open>
  Under the contract the awaiting loop of \<^verbatim>\<open>write_now\<close> is the loop of \<^verbatim>\<open>write\<close>, for a failing
  call never completes the transfer.
\<close>

lemma write_now_slow_eq:
  assumes "ok s" and "wf_consuming cb" and "consuming_bytes cb = drop tot A" and "tot \<le> length A"
    and A: "length A \<le> size_max" "set A \<inter> own = {}"
  shows "write_now_slow write_some (length A) cb tot s m = write_loop write_some (length A) cb tot s m"
  using assms(1-4)
proof (induction "length A - tot" arbitrary: tot cb s rule: less_induct)
  case less
  consider "\<not> tot < length A" | e where "write_some s (slice_list (consuming_data cb)) m = Inl e"
    | ec n s1 where "tot < length A" "write_some s (slice_list (consuming_data cb)) m = Inr (ec, n, s1)"
    by (metis sumE prod_cases3)
  then show ?case
  proof cases
    case (3 ec n s1)
    note R = round [OF less.prems(1-3) 3(1) A 3(2)]
    show ?thesis
    proof (cases "failed ec")
      case True
      with 3 R(1,3) show ?thesis by (subst write_now_slow.simps, subst write_loop.simps) simp
    next
      case False
      then have "length A - (tot + n) < length A - tot" using R(4) 3(1) by linarith
      from less.hyps [OF this R(5,7,8,2)] show ?thesis
        using 3 R(1) False by (subst write_now_slow.simps, subst write_loop.simps) simp
    qed
  qed (subst write_now_slow.simps, subst write_loop.simps, simp)+
qed

text \<open>
  The fast loop ends as the awaiting loop does, with the same error and the same stream; only the
  count it reports with an error may be short of what the stream took.
\<close>

definition same_but_count :: "'s write_result \<Rightarrow> 's write_result \<Rightarrow> bool" where
  "same_but_count r q \<longleftrightarrow> r = q \<or>
     (\<exists>ec n n' s'. q = Inr (ec, n, s') \<and> r = Inr (ec, n', s') \<and> failed ec \<and> n' \<le> n)"

lemma write_now_fast_slow:
  assumes "ok s" and "wf_consuming cb" and "consuming_bytes cb = drop tot A" and "tot \<le> length A"
    and A: "length A \<le> size_max" "set A \<inter> own = {}"
    and "write_now_slow write_some (length A) cb tot s m = Some q"
  shows "\<exists>r. write_now_fast write_some ready (length A) cb tot s m = Some r \<and> same_but_count r q"
  using assms(1-4,7)
proof (induction "length A - tot" arbitrary: tot cb s rule: less_induct)
  case less
  let ?bs = "slice_list (consuming_data cb)"
  consider "\<not> tot < length A" | "tot < length A" "\<not> ready s ?bs"
    | e where "tot < length A" "ready s ?bs" "write_some s ?bs m = Inl e"
    | ec n s1 where "tot < length A" "ready s ?bs" "write_some s ?bs m = Inr (ec, n, s1)"
    by (metis sumE prod_cases3)
  then show ?case
  proof cases
    case (4 ec n s1)
    note R = round [OF less.prems(1-3) 4(1) A 4(3)]
    note q = less.prems(5) [unfolded write_now_slow.simps [of _ _ cb]]
    show ?thesis
    proof (cases "failed ec")
      case True
      with 4 R(1) q show ?thesis
        by (subst write_now_fast.simps) (auto simp: same_but_count_def)
    next
      case False
      then have "length A - (tot + n) < length A - tot" using R(4) 4(1) by linarith
      moreover have "write_now_slow write_some (length A) (consume cb n) (tot + n) s1 m = Some q"
        using 4 R(1) q False by simp
      ultimately show ?thesis using less.hyps [OF _ R(5,7,8,2)] 4 R(1) False
        by (subst write_now_fast.simps) simp
    qed
  next
    case 1
    with less.prems(5) have "q = Inr (success, tot, s)" by (simp add: write_now_slow.simps [of _ _ cb])
    with 1 show ?thesis by (subst write_now_fast.simps) (simp add: same_but_count_def)
  next
    case 2
    with less.prems(5) show ?thesis by (subst write_now_fast.simps) (simp add: same_but_count_def)
  next
    case (3 e)
    with less.prems(5) have "q = Inl e" by (simp add: write_now_slow.simps [of _ _ cb])
    with 3 show ?thesis by (subst write_now_fast.simps) (simp add: same_but_count_def)
  qed
qed

lemma transfers_init:
  assumes "ok s" "wf_buffers bs" "set (addrs bs) \<inter> own = {}" "k \<le> length (addrs bs)"
  shows "\<exists>r. write_loop write_some k (consuming_init bs) 0 s m = Some r \<and> written m (addrs bs) k 0 s r"
  using write_loop_correct [OF assms(1) consuming_init_wf [OF assms(2)] _ _ assms(4) _ assms(3), of 0 m] assms(2)
  by (simp add: consuming_init_bytes) (simp add: wf_buffers_def)

lemma capy_write_written:
  assumes "ok s" "wf_buffers bs" "set (addrs bs) \<inter> own = {}"
  shows "\<exists>r. capy_write write_some s bs m = Some r \<and> written m (addrs bs) (length (addrs bs)) 0 s r"
  using transfers_init [OF assms order_refl] assms(2) by (simp add: capy_write_def)

lemma write_at_least_written:
  assumes "ok s" "wf_buffers bs" "set (addrs bs) \<inter> own = {}" "k \<le> length (addrs bs)"
  shows "\<exists>r. write_at_least write_some s bs k m = Some r \<and> written m (addrs bs) k 0 s r"
  using transfers_init [OF assms] assms(2,4) by (simp add: write_at_least_def)

lemma write_now_gcc_eq:
  assumes "ok s" "wf_buffers bs" "set (addrs bs) \<inter> own = {}"
  shows "write_now_gcc write_some s bs m = capy_write write_some s bs m"
  using write_now_slow_eq [OF assms(1) consuming_init_wf [OF assms(2)], of 0 "addrs bs" m] assms(2,3)
  by (simp add: consuming_init_bytes write_now_gcc_def capy_write_def) (simp add: wf_buffers_def)

lemma write_now_same:
  assumes "ok s" "wf_buffers bs" "set (addrs bs) \<inter> own = {}"
  shows "\<exists>r q. write_now write_some ready s bs m = Some r \<and> capy_write write_some s bs m = Some q \<and> same_but_count r q"
proof -
  obtain q where q: "capy_write write_some s bs m = Some q" using capy_write_written [OF assms] by blast
  then have "write_now_slow write_some (length (addrs bs)) (consuming_init bs) 0 s m = Some q"
    using write_now_gcc_eq [OF assms] assms(2) by (simp add: write_now_gcc_def)
  moreover have "length (addrs bs) \<le> size_max" using assms(2) by (simp add: wf_buffers_def)
  ultimately show ?thesis
    using q write_now_fast_slow [OF assms(1) consuming_init_wf [OF assms(2)] _ _, of 0 "addrs bs" m q ready] assms(2,3)
    by (simp add: consuming_init_bytes write_now_def)
qed

end

end
