(* ===== verification/Fuse.thy ===== *)
theory Fuse
  imports Errors
begin

text \<open>
  The failure-injection harness \<^verbatim>\<open>test::fuse\<close> (\<^verbatim>\<open>test/fuse.hpp\<close>). Copies of a fuse share
  one \<^verbatim>\<open>state\<close>, so the state is threaded through every call; a test body is a parameter that
  takes the state (and whatever it tests, \<open>'u\<close>) and either returns or throws. The round loop may
  run for ever on a body that has no last failure point, so it is a partial function.
\<close>

section \<open>The shared state and a failure point\<close>

record fuse_state =
  f_n :: nat
  f_i :: nat
  f_triggered :: bool
  f_throws :: bool
  f_stopped :: bool
  f_inert :: bool
  f_ec :: error_code
  f_loc :: nat
  f_ep :: "cpp_exception option"

definition fuse_init :: "error_code \<Rightarrow> fuse_state" where
  "fuse_init ec = \<lparr>f_n = size_max, f_i = 0, f_triggered = False, f_throws = False, f_stopped = False,
     f_inert = True, f_ec = ec, f_loc = 0, f_ep = None\<rparr>"

definition fuse_default :: fuse_state where
  "fuse_default = fuse_init (make_error_code test_failure)"

definition fuse_next_round :: "fuse_state \<Rightarrow> bool \<times> fuse_state" where
  "fuse_next_round s =
     (if f_n s = size_max then (True, s\<lparr>f_n := 0\<rparr>)
      else if f_triggered s then (True, s\<lparr>f_n := size_add (f_n s) 1, f_i := 0, f_triggered := False\<rparr>)
      else (False, s))"

definition maybe_fail :: "nat \<Rightarrow> fuse_state \<Rightarrow> (cpp_exception + error_code) \<times> fuse_state" where
  "maybe_fail loc s =
     (if f_inert s then (Inr success, s)
      else let s = (if f_i s < f_n s then s\<lparr>f_i := f_i s + 1\<rparr> else s) in
        if f_i s = f_n s then
          let s = s\<lparr>f_triggered := True, f_loc := loc\<rparr> in
          if f_throws s then (Inl (system_error (f_ec s)), s) else (Inr (f_ec s), s)
        else (Inr success, s))"

definition fuse_fail :: "nat \<Rightarrow> fuse_state \<Rightarrow> fuse_state" where
  "fuse_fail loc s = s\<lparr>f_loc := loc, f_stopped := True\<rparr>"

definition fuse_fail_ep :: "cpp_exception option \<Rightarrow> nat \<Rightarrow> fuse_state \<Rightarrow> fuse_state" where
  "fuse_fail_ep ep loc s = s\<lparr>f_ep := ep, f_loc := loc, f_stopped := True\<rparr>"

section \<open>Running a body\<close>

record fuse_result =
  r_loc :: nat
  r_ep :: "cpp_exception option"
  r_success :: bool

definition result_init :: fuse_result where
  "result_init = \<lparr>r_loc = 0, r_ep = None, r_success = True\<rparr>"

type_synonym 'u body = "fuse_state \<Rightarrow> 'u \<Rightarrow> cpp_exception option \<times> fuse_state \<times> 'u"

definition result_failure :: "fuse_state \<Rightarrow> fuse_result" where
  "result_failure s = \<lparr>r_loc = f_loc s, r_ep = f_ep s, r_success = False\<rparr>"

text \<open>
  What the handlers of a phase do with an exception of the body: phase 1 takes every exception
  for a failure, phase 2 lets pass the \<^verbatim>\<open>std::system_error\<close> that carries the fuse's own code.
\<close>

fun caught_is_failure :: "bool \<Rightarrow> fuse_state \<Rightarrow> cpp_exception option \<Rightarrow> bool" where
  "caught_is_failure exceptions s None = False"
| "caught_is_failure exceptions s (Some e) =
     (if exceptions then (case e of system_error code \<Rightarrow> code \<noteq> f_ec s | _ \<Rightarrow> True) else True)"

text \<open>The \<^verbatim>\<open>while(*this)\<close> loop of one phase: \<open>Inl\<close> is the early return with a failure.\<close>

partial_function (option) fuse_rounds ::
  "'u body \<Rightarrow> bool \<Rightarrow> fuse_state \<Rightarrow> 'u \<Rightarrow> ((fuse_result \<times> fuse_state \<times> 'u) + (fuse_state \<times> 'u)) option"
where
  "fuse_rounds fn exceptions s u =
     (case fuse_next_round s of (go, s) \<Rightarrow>
        if \<not> go then Some (Inr (s, u))
        else (case fn s u of (ex, s, u) \<Rightarrow>
          if caught_is_failure exceptions s ex then Some (Inl (result_failure s, s\<lparr>f_inert := True\<rparr>, u))
          else if f_stopped s then Some (Inl (result_failure s, s\<lparr>f_inert := True\<rparr>, u))
          else fuse_rounds fn exceptions s u))"

definition phase1_start :: "fuse_state \<Rightarrow> fuse_state" where
  "phase1_start s = s\<lparr>f_throws := False, f_inert := False, f_n := size_max\<rparr>"

definition phase2_start :: "fuse_state \<Rightarrow> fuse_state" where
  "phase2_start s = s\<lparr>f_throws := True, f_n := size_max, f_i := 0, f_triggered := False\<rparr>"

definition run_phases :: "'u body \<Rightarrow> fuse_state \<Rightarrow> 'u \<Rightarrow> (fuse_result \<times> fuse_state \<times> 'u) option" where
  "run_phases do_iter s u =
     (case fuse_rounds do_iter False (phase1_start s) u of
        None \<Rightarrow> None
      | Some (Inl r) \<Rightarrow> Some r
      | Some (Inr (s, u)) \<Rightarrow>
          (case fuse_rounds do_iter True (phase2_start s) u of
             None \<Rightarrow> None
           | Some (Inl r) \<Rightarrow> Some r
           | Some (Inr (s, u)) \<Rightarrow> Some (result_init, s\<lparr>f_inert := True\<rparr>, u)))"

text \<open>\<^verbatim>\<open>armed\<close> of a plain function writes the same two loops out again.\<close>

definition armed :: "'u body \<Rightarrow> fuse_state \<Rightarrow> 'u \<Rightarrow> (fuse_result \<times> fuse_state \<times> 'u) option" where
  "armed fn s u = run_phases fn s u"

definition inert_run :: "'u body \<Rightarrow> fuse_state \<Rightarrow> 'u \<Rightarrow> fuse_result \<times> fuse_state \<times> 'u" where
  "inert_run fn s u =
     (case fn (s\<lparr>f_inert := True\<rparr>) u of (ex, s, u) \<Rightarrow>
        (case ex of
           Some e \<Rightarrow> (\<lparr>r_loc = f_loc s, r_ep = Some e, r_success = False\<rparr>, s, u)
         | None \<Rightarrow> if f_stopped s then (result_failure s, s, u) else (result_init, s, u)))"

section \<open>What a run of a body covers\<close>

text \<open>
  A body with \<open>K\<close> failure points, seen from the fuse: started on the fuse of round \<open>n\<close> it reaches
  a point that fails exactly when it has one and \<open>n \<le> K\<close>, ends there (with the fuse's exception in
  the exception phase), and otherwise passes. \<open>eff\<close> is what it does to its own state in a phase and
  round. The rounds of a phase are then \<open>rounds_of K\<close>.
\<close>

definition hits :: "nat \<Rightarrow> nat \<Rightarrow> bool" where
  "hits K n \<longleftrightarrow> 0 < K \<and> n \<le> K"

definition rounds_of :: "nat \<Rightarrow> nat list" where
  "rounds_of K = (if K = 0 then [0] else [0..<K + 2])"

definition fuse_ready :: "bool \<Rightarrow> error_code \<Rightarrow> fuse_state \<Rightarrow> bool" where
  "fuse_ready throws ec s \<longleftrightarrow> \<not> f_inert s \<and> \<not> f_stopped s \<and> f_throws s = throws \<and> f_ec s = ec \<and> failed ec"

locale fuse_body =
  fixes fn :: "'u body" and K :: nat and eff :: "bool \<Rightarrow> nat \<Rightarrow> 'u \<Rightarrow> 'u"
  assumes round: "fuse_ready throws ec s \<Longrightarrow> \<not> f_triggered s \<Longrightarrow> f_i s = 0 \<Longrightarrow>
    \<exists>s'. fn s u = (if hits K (f_n s) \<and> throws then Some (system_error ec) else None, s', eff throws (f_n s) u)
      \<and> f_triggered s' = hits K (f_n s) \<and> f_n s' = f_n s \<and> fuse_ready throws ec s'"
begin

lemma rounds_step:
  assumes "fuse_ready throws ec s" "\<not> f_triggered s" "f_i s = 0" "f_n s < size_max"
    and "fuse_next_round s0 = (True, s)"
  obtains s' where "fuse_rounds fn throws s0 u = fuse_rounds fn throws s' (eff throws (f_n s) u)"
    "f_triggered s' = hits K (f_n s)" "f_n s' = f_n s" "fuse_ready throws ec s'"
proof -
  obtain s' where s': "fn s u = (if hits K (f_n s) \<and> throws then Some (system_error ec) else None, s', eff throws (f_n s) u)"
    "f_triggered s' = hits K (f_n s)" "f_n s' = f_n s" "fuse_ready throws ec s'"
    using round [OF assms(1-3)] by blast
  moreover have "fuse_rounds fn throws s0 u = fuse_rounds fn throws s' (eff throws (f_n s) u)"
    using s' assms(5) by (subst fuse_rounds.simps) (auto simp: fuse_ready_def)
  ultimately show thesis using that by blast
qed

lemma rounds_end:
  assumes "\<not> f_triggered s" "f_n s < size_max"
  shows "fuse_rounds fn throws s u = Some (Inr (s, u))"
  using assms by (subst fuse_rounds.simps) (simp add: fuse_next_round_def)

lemma rounds_from:
  assumes "fuse_ready throws ec s" "\<not> f_triggered s" "f_i s = 0" "f_n s \<le> K + 1" "0 < K" "K + 2 < size_max"
    and "fuse_next_round s0 = (True, s)"
  shows "\<exists>s'. fuse_rounds fn throws s0 u = Some (Inr (s', fold (eff throws) [f_n s..<K + 2] u))
    \<and> fuse_ready throws ec s'"
  using assms
proof (induction "K + 1 - f_n s" arbitrary: s s0 u)
  case 0
  then have n: "f_n s = K + 1" by simp
  obtain s' where s': "fuse_rounds fn throws s0 u = fuse_rounds fn throws s' (eff throws (f_n s) u)"
    "f_triggered s' = hits K (f_n s)" "f_n s' = f_n s" "fuse_ready throws ec s'"
    using rounds_step [OF 0(2-4) _ 0(8)] 0(7) n by (metis add_lessD1 add.assoc one_add_one)
  moreover have "\<not> hits K (f_n s)" using n by (simp add: hits_def)
  ultimately show ?case using rounds_end [of s'] n 0(7) by simp
next
  case (Suc d)
  then have n: "f_n s \<le> K" "f_n s < size_max" "f_n s + 1 < size_max" by linarith+
  obtain s' where s': "fuse_rounds fn throws s0 u = fuse_rounds fn throws s' (eff throws (f_n s) u)"
    "f_triggered s' = hits K (f_n s)" "f_n s' = f_n s" "fuse_ready throws ec s'"
    using rounds_step [OF Suc(3-5) n(2) Suc(9)] by blast
  let ?s1 = "s'\<lparr>f_n := f_n s + 1, f_i := 0, f_triggered := False\<rparr>"
  have "fuse_next_round s' = (True, ?s1)"
    using s' n Suc(7) by (simp add: fuse_next_round_def hits_def)
  moreover have "fuse_ready throws ec ?s1" using s'(4) by (simp add: fuse_ready_def)
  moreover have "d = K + 1 - f_n ?s1" "f_n ?s1 \<le> K + 1" using Suc(2) n by simp_all
  ultimately obtain s2 where s2: "fuse_rounds fn throws s' (eff throws (f_n s) u) =
      Some (Inr (s2, fold (eff throws) [f_n s + 1..<K + 2] (eff throws (f_n s) u)))" "fuse_ready throws ec s2"
    using Suc(1) [of ?s1 s' "eff throws (f_n s) u"] Suc(7,8) by auto
  moreover have "[f_n s..<K + 2] = f_n s # [f_n s + 1..<K + 2]" using n by (subst upt_rec) simp
  ultimately show ?case using s'(1) by (intro exI [of _ s2]) simp
qed

lemma phase_covers:
  assumes "fuse_ready throws ec s" "\<not> f_triggered s" "f_i s = 0" "f_n s = size_max" "K + 2 < size_max"
  shows "\<exists>s'. fuse_rounds fn throws s u = Some (Inr (s', fold (eff throws) (rounds_of K) u)) \<and> fuse_ready throws ec s'"
proof -
  let ?s = "s\<lparr>f_n := 0\<rparr>"
  have next0: "fuse_next_round s = (True, ?s)" using assms(4) by (simp add: fuse_next_round_def)
  have r: "fuse_ready throws ec ?s" "\<not> f_triggered ?s" "f_i ?s = 0"
    using assms by (simp_all add: fuse_ready_def)
  show ?thesis
  proof (cases "K = 0")
    case False
    then show ?thesis using rounds_from [OF r _ _ assms(5) next0] by (simp add: rounds_of_def)
  next
    case True
    have "f_n ?s < size_max" by (simp add: size_max_def)
    from rounds_step [OF r this next0, of u] obtain s' where s':
      "fuse_rounds fn throws s u = fuse_rounds fn throws s' (eff throws (f_n ?s) u)"
      "f_triggered s' = hits K (f_n ?s)" "f_n s' = f_n ?s" "fuse_ready throws ec s'" by blast
    then have "fuse_rounds fn throws s' (eff throws 0 u) = Some (Inr (s', eff throws 0 u))"
      using True by (intro rounds_end) (simp_all add: hits_def size_max_def)
    with s' True show ?thesis by (simp add: rounds_of_def)
  qed
qed

lemma armed_covers:
  assumes "failed ec" "K + 2 < size_max"
  shows "\<exists>s'. armed fn (fuse_init ec) u =
    Some (result_init, s', fold (eff True) (rounds_of K) (fold (eff False) (rounds_of K) u)) \<and> f_inert s'"
proof -
  let ?s1 = "phase1_start (fuse_init ec)"
  have "fuse_ready False ec ?s1" "\<not> f_triggered ?s1" "f_i ?s1 = 0" "f_n ?s1 = size_max"
    using assms(1) by (simp_all add: fuse_ready_def phase1_start_def fuse_init_def)
  from phase_covers [OF this assms(2), of u] obtain s' where
    1: "fuse_rounds fn False ?s1 u = Some (Inr (s', fold (eff False) (rounds_of K) u))" "fuse_ready False ec s'" by blast
  let ?s2 = "phase2_start s'"
  have "fuse_ready True ec ?s2" "\<not> f_triggered ?s2" "f_i ?s2 = 0" "f_n ?s2 = size_max"
    using 1(2) by (simp_all add: fuse_ready_def phase2_start_def)
  from phase_covers [OF this assms(2)] obtain s'' where
    "fuse_rounds fn True ?s2 (fold (eff False) (rounds_of K) u) =
       Some (Inr (s'', fold (eff True) (rounds_of K) (fold (eff False) (rounds_of K) u)))" by blast
  with 1(1) show ?thesis by (simp add: armed_def run_phases_def)
qed

end

text \<open>
  A body with \<open>K\<close> failure points one after the other, which gives up at the first that fails; its
  log holds, per round, how many points it passed.
\<close>

fun points_from :: "nat \<Rightarrow> nat \<Rightarrow> (nat list) body" where
  "points_from j 0 s log = (None, s, log @ [j])"
| "points_from j (Suc k) s log =
     (case maybe_fail j s of
        (Inl e, s) \<Rightarrow> (Some e, s, log @ [j])
      | (Inr ec, s) \<Rightarrow> if failed ec then (None, s, log @ [j]) else points_from (j + 1) k s log)"

definition passed :: "nat \<Rightarrow> nat \<Rightarrow> nat" where
  "passed K n = (if hits K n then n - 1 else K)"

lemma points_from_round:
  assumes "fuse_ready throws ec s" "\<not> f_triggered s" "f_i s = j" "j < f_n s \<or> (f_n s = 0 \<and> j = 0)"
  shows "\<exists>s'. points_from j k s log =
      (if 0 < k \<and> f_n s \<le> j + k \<and> throws then Some (system_error ec) else None, s',
       log @ [if 0 < k \<and> f_n s \<le> j + k then f_n s - 1 else j + k])
    \<and> f_triggered s' = (0 < k \<and> f_n s \<le> j + k) \<and> f_n s' = f_n s \<and> fuse_ready throws ec s'"
  using assms
proof (induction k arbitrary: j s)
  case 0
  then show ?case by simp
next
  case (Suc k)
  show ?case
  proof (cases "f_n s \<le> j + 1")
    case True
    then have "f_n s = 0 \<and> j = 0 \<or> f_n s = j + 1" using Suc.prems(4) by linarith
    then show ?thesis using Suc.prems True
      by (auto simp: maybe_fail_def fuse_ready_def Let_def)
  next
    case False
    have "points_from j (Suc k) s log = points_from (j + 1) k (s\<lparr>f_i := j + 1\<rparr>) log"
      using Suc.prems False by (auto simp: maybe_fail_def fuse_ready_def Let_def)
    then show ?thesis
      using Suc.IH [of "s\<lparr>f_i := j + 1\<rparr>" "j + 1"] Suc.prems False by (auto simp: fuse_ready_def)
  qed
qed

interpretation points: fuse_body "points_from 0 K" K "\<lambda>_ n log. log @ [passed K n]" for K
proof
  fix throws ec and s :: fuse_state and u
  assume "fuse_ready throws ec s" "\<not> f_triggered s" "f_i s = 0"
  moreover have "0 < f_n s \<or> (f_n s = 0 \<and> (0::nat) = 0)" by auto
  ultimately have "\<exists>s'. points_from 0 K s u =
      (if 0 < K \<and> f_n s \<le> 0 + K \<and> throws then Some (system_error ec) else None, s',
       u @ [if 0 < K \<and> f_n s \<le> 0 + K then f_n s - 1 else 0 + K])
    \<and> f_triggered s' = (0 < K \<and> f_n s \<le> 0 + K) \<and> f_n s' = f_n s \<and> fuse_ready throws ec s'"
    by (rule points_from_round)
  then show "\<exists>s'. points_from 0 K s u =
      (if hits K (f_n s) \<and> throws then Some (system_error ec) else None, s', u @ [passed K (f_n s)])
    \<and> f_triggered s' = hits K (f_n s) \<and> f_n s' = f_n s \<and> fuse_ready throws ec s'"
    by (simp only: hits_def passed_def conj_assoc add_0)
qed

text \<open>
  C40. \<^verbatim>\<open>armed\<close> on a fresh fuse ends and reports success on every body with \<open>K\<close> failure points; it
  ran the body in the rounds \<open>0\<close> to \<open>K + 1\<close> with error codes and then in the same rounds with
  exceptions (once per phase when the body has no failure point), and left the fuse inert.
\<close>

theorem armed_runs_every_round:
  assumes "fuse_body fn K eff" and "failed ec" and "K + 2 < size_max"
  shows "\<exists>s'. armed fn (fuse_init ec) u =
    Some (result_init, s', fold (eff True) (rounds_of K) (fold (eff False) (rounds_of K) u)) \<and> f_inert s'"
  using fuse_body.armed_covers [OF assms] .

theorem armed_runs_every_round_witness:
  "\<exists>s'. armed (points_from 0 2) (fuse_init (make_error_code test_failure)) [] =
    Some (result_init, s', [0, 0, 1, 2, 0, 0, 1, 2]) \<and> f_inert s'"
proof -
  have "rounds_of 2 = [0, 1, 2, 3]" by (simp add: rounds_of_def upt_rec)
  moreover have "failed (make_error_code test_failure)" by (simp add: failed_def make_error_code_def)
  ultimately show ?thesis
    using armed_runs_every_round [OF points.fuse_body_axioms, of "make_error_code test_failure" 2 "[]"]
    by (simp add: passed_def hits_def size_max_def)
qed

lemma points_from_spent:
  assumes "f_n s = 0" "0 < f_i s"
  shows "points_from j k s log = (None, s, log @ [j + k])"
  using assms by (induction k arbitrary: j) (auto simp: maybe_fail_def Let_def)

text \<open>
  A fuse that has been run before keeps the count \<^verbatim>\<open>i\<close> of the points its last round passed.
  On such a fuse the error-code phase of a further \<^verbatim>\<open>armed\<close> runs the body once and injects
  nothing; only the exception phase covers the failure points.
\<close>

theorem armed_again_skips_error_codes:
  assumes "0 < f_i s" "\<not> f_triggered s" "\<not> f_stopped s" "failed (f_ec s)" "K + 2 < size_max"
  shows "\<exists>s'. armed (points_from 0 K) s log = Some (result_init, s', log @ K # map (passed K) (rounds_of K))"
proof -
  let ?s1 = "phase1_start s\<lparr>f_n := 0\<rparr>"
  have end1: "fuse_rounds (points_from 0 K) False ?s1 (log @ [K]) = Some (Inr (?s1, log @ [K]))"
    using assms by (intro points.rounds_end) (simp_all add: phase1_start_def size_max_def)
  have "fuse_rounds (points_from 0 K) False (phase1_start s) log = Some (Inr (?s1, log @ [K]))"
    using assms end1 points_from_spent [of ?s1 0 K log]
    by (subst fuse_rounds.simps) (simp add: fuse_next_round_def phase1_start_def)
  moreover have "fuse_ready True (f_ec s) (phase2_start ?s1)"
    using assms by (simp add: fuse_ready_def phase1_start_def phase2_start_def)
  then obtain s' where "fuse_rounds (points_from 0 K) True (phase2_start ?s1) (log @ [K]) =
      Some (Inr (s', fold (\<lambda>n log. log @ [passed K n]) (rounds_of K) (log @ [K])))"
    using points.phase_covers [of True "f_ec s" "phase2_start ?s1" K "log @ [K]"] assms(5)
    by (auto simp: phase2_start_def)
  moreover have "fold (\<lambda>n log. log @ [passed K n]) ns l = l @ map (passed K) ns" for ns l
    by (induction ns arbitrary: l) simp_all
  ultimately show ?thesis by (simp add: armed_def run_phases_def)
qed

theorem armed_again_skips_error_codes_witness:
  "\<exists>s1 s2. armed (points_from 0 1) fuse_default [] = Some (result_init, s1, [0, 0, 1, 0, 0, 1])
    \<and> armed (points_from 0 1) s1 [] = Some (result_init, s2, [1, 0, 0, 1])"
proof -
  let ?ec = "make_error_code test_failure"
  let ?s = "(fuse_init ?ec)\<lparr>f_n := 2, f_i := 1, f_throws := True\<rparr>"
  have f: "failed ?ec" by (simp add: failed_def make_error_code_def)
  have "armed (points_from 0 1) fuse_default [] = Some (result_init, ?s, [0, 0, 1, 0, 0, 1])"
    using f by (simp add: armed_def run_phases_def fuse_rounds.simps [of "points_from 0 (Suc 0)"] fuse_next_round_def
        phase1_start_def phase2_start_def fuse_default_def fuse_init_def size_max_def maybe_fail_def)
  moreover have "map (passed 1) (rounds_of 1) = [0, 0, 1]"
    by (simp add: rounds_of_def upt_rec passed_def hits_def)
  then obtain s2 where "armed (points_from 0 1) ?s [] = Some (result_init, s2, [1, 0, 0, 1])"
    using armed_again_skips_error_codes [of ?s 1 "[]"] f by (auto simp: fuse_init_def size_max_def)
  ultimately show ?thesis by blast
qed

end
