(* ===== verification/Mock_Streams.thy ===== *)
theory Mock_Streams
  imports Stream_IO Fuse
begin

text \<open>
  The library's in-memory streams \<^verbatim>\<open>test/read_stream.hpp\<close> and \<^verbatim>\<open>test/write_stream.hpp\<close>, the
  splitter \<^verbatim>\<open>test/bufgrind.hpp\<close> and \<^verbatim>\<open>test/buffer_to_string.hpp\<close>. The bytes of a stream's
  \<^verbatim>\<open>std::string\<close> are a list together with the address of its storage; \<open>overlay\<close> is the memory in
  which that storage holds them. The fuse a stream shares with its test is threaded beside it.
  The streams interpret the contracts of \<open>Stream_IO\<close>, and the transfer properties close the theory.
\<close>

definition overlay :: "addr \<Rightarrow> byte list \<Rightarrow> memory \<Rightarrow> memory" where
  "overlay ptr bytes m = (\<lambda>a. if ptr \<le> a \<and> a < ptr + length bytes then bytes ! (a - ptr) else m a)"

section \<open>read_stream\<close>

record read_stream =
  rs_data :: "byte list"
  rs_pos :: nat
  rs_max_read_size :: nat
  rs_ptr :: addr

definition rs_init :: "addr \<Rightarrow> nat \<Rightarrow> read_stream" where
  "rs_init ptr max_read_size = \<lparr>rs_data = [], rs_pos = 0, rs_max_read_size = max_read_size, rs_ptr = ptr\<rparr>"

definition rs_provide :: "byte list \<Rightarrow> read_stream \<Rightarrow> read_stream" where
  "rs_provide sv r = r\<lparr>rs_data := rs_data r @ sv\<rparr>"

definition rs_clear :: "read_stream \<Rightarrow> read_stream" where
  "rs_clear r = r\<lparr>rs_data := [], rs_pos := 0\<rparr>"

definition rs_available :: "read_stream \<Rightarrow> nat" where
  "rs_available r = size_sub (length (rs_data r)) (rs_pos r)"

definition rs_read_some :: "nat \<Rightarrow> bool \<Rightarrow> (read_stream \<times> fuse_state) read_op" where
  "rs_read_some loc stop_requested = (\<lambda>(r, f) buffers m.
     if buffer_empty buffers then Inr (success, 0, (r, f), m)
     else if stop_requested then Inr (make_error_code canceled, 0, (r, f), m)
     else (case maybe_fail loc f of
         (Inl e, f) \<Rightarrow> Inl (e, (r, f), m)
       | (Inr ec, f) \<Rightarrow>
           if failed ec then Inr (ec, 0, (r, f), m)
           else if rs_pos r \<ge> length (rs_data r) then Inr (make_error_code eof, 0, (r, f), m)
           else
             let avail = length (rs_data r) - rs_pos r;
                 avail = (if avail > rs_max_read_size r then rs_max_read_size r else avail);
                 src = make_buffer (rs_ptr r + rs_pos r) avail;
                 (n, m) = buffer_copy buffers [src] size_max (overlay (rs_ptr r) (rs_data r) m)
             in Inr (success, n, (r\<lparr>rs_pos := rs_pos r + n\<rparr>, f), m)))"

section \<open>write_stream\<close>

record write_stream =
  ws_data :: "byte list"
  ws_expect :: "byte list"
  ws_max_write_size :: nat
  ws_ptr :: addr

definition ws_init :: "addr \<Rightarrow> nat \<Rightarrow> write_stream" where
  "ws_init ptr max_write_size = \<lparr>ws_data = [], ws_expect = [], ws_max_write_size = max_write_size, ws_ptr = ptr\<rparr>"

definition consume_match :: "write_stream \<Rightarrow> error_code \<times> write_stream" where
  "consume_match w =
     (if ws_data w = [] \<or> ws_expect w = [] then (success, w)
      else let n = min (length (ws_data w)) (length (ws_expect w)) in
        if take n (ws_data w) \<noteq> take n (ws_expect w) then (make_error_code test_failure, w)
        else (success, w\<lparr>ws_data := drop n (ws_data w), ws_expect := drop n (ws_expect w)\<rparr>))"

definition ws_expect_op :: "byte list \<Rightarrow> write_stream \<Rightarrow> error_code \<times> write_stream" where
  "ws_expect_op sv w = consume_match (w\<lparr>ws_expect := sv\<rparr>)"

definition ws_write_some :: "nat \<Rightarrow> bool \<Rightarrow> (write_stream \<times> fuse_state) write_op" where
  "ws_write_some loc stop_requested = (\<lambda>(w, f) buffers m.
     if buffer_empty buffers then Inr (success, 0, (w, f))
     else if stop_requested then Inr (make_error_code canceled, 0, (w, f))
     else (case maybe_fail loc f of
         (Inl e, f) \<Rightarrow> Inl (e, (w, f))
       | (Inr ec, f) \<Rightarrow>
           if failed ec then Inr (ec, 0, (w, f))
           else
             let n = min (buffer_size buffers) (ws_max_write_size w);
                 old_size = length (ws_data w);
                 m' = snd (buffer_copy [make_buffer (ws_ptr w + old_size) n] buffers n m);
                 w' = w\<lparr>ws_data := ws_data w @ map m' [ws_ptr w + old_size..<ws_ptr w + old_size + n]\<rparr>
             in (case consume_match w' of (ec, w'') \<Rightarrow>
                   if failed ec then Inr (ec, 0, (w''\<lparr>ws_data := take old_size (ws_data w'')\<rparr>, f))
                   else Inr (success, n, (w'', f)))))"

section \<open>bufgrind and buffer_to_string\<close>

record bufgrind =
  bg_bs :: "const_buffer list"
  bg_size :: nat
  bg_step :: nat
  bg_pos :: nat

definition bg_init :: "const_buffer list \<Rightarrow> nat \<Rightarrow> bufgrind" where
  "bg_init bs step = \<lparr>bg_bs = bs, bg_size = buffer_size bs, bg_step = (if step > 0 then step else 1), bg_pos = 0\<rparr>"

definition bg_more :: "bufgrind \<Rightarrow> bool" where
  "bg_more g \<longleftrightarrow> bg_pos g \<le> bg_size g"

definition bg_next :: "bufgrind \<Rightarrow> (slice_of \<times> slice_of) \<times> bufgrind" where
  "bg_next g =
     (let result = (buffer_slice (bg_bs g) 0 (bg_pos g), buffer_slice (bg_bs g) (bg_pos g) size_max)
      in if bg_pos g < bg_size g
         then (result, g\<lparr>bg_pos := min (size_add (bg_pos g) (bg_step g)) (bg_size g)\<rparr>)
         else (result, g\<lparr>bg_pos := size_add (bg_pos g) 1\<rparr>))"

text \<open>The loop \<^verbatim>\<open>while(bg) co_await bg.next()\<close> of a test.\<close>

partial_function (option) bg_splits :: "bufgrind \<Rightarrow> (slice_of \<times> slice_of) list option" where
  "bg_splits g =
     (if bg_more g
      then (case bg_next g of (sp, g') \<Rightarrow> Option.bind (bg_splits g') (\<lambda>xs. Some (sp # xs)))
      else Some [])"

fun string_append :: "memory \<Rightarrow> byte list \<Rightarrow> const_buffer list \<Rightarrow> byte list" where
  "string_append m result [] = result"
| "string_append m result (b # bs) = string_append m (result @ map m [buf_p b..<buf_p b + buf_n b]) bs"

definition buffer_to_string :: "memory \<Rightarrow> const_buffer list list \<Rightarrow> byte list" where
  "buffer_to_string m bufs = foldl (string_append m) [] bufs"

section \<open>The mock streams keep the contracts\<close>

lemma overlay_inside: "p + n \<le> length bytes \<Longrightarrow>
    map (overlay ptr bytes m) [ptr + p..<ptr + p + n] = take n (drop p bytes)"
  by (rule nth_equalityI) (auto simp: overlay_def)

lemma overlay_outside: "a \<notin> {ptr..<ptr + length bytes} \<Longrightarrow> overlay ptr bytes m a = m a"
  by (auto simp: overlay_def)

definition rs_ok :: "addr \<Rightarrow> nat \<Rightarrow> read_stream \<times> fuse_state \<Rightarrow> bool" where
  "rs_ok ptr cap s \<longleftrightarrow> rs_ptr (fst s) = ptr \<and> length (rs_data (fst s)) \<le> cap \<and> cap \<le> size_max
     \<and> 0 < rs_max_read_size (fst s)"

definition rs_rest :: "read_stream \<times> fuse_state \<Rightarrow> byte list" where
  "rs_rest s = drop (rs_pos (fst s)) (rs_data (fst s))"

lemma rs_read_some_cases:
  assumes "rs_read_some loc st s bs m = Inr (ec, n, s', m')"
  obtains
    (idle) "n = 0" "m' = m" "fst s' = fst s" "failed ec \<or> addrs bs = []"
  | (data) "\<not> failed ec" "addrs bs \<noteq> []" "rs_pos (fst s) < length (rs_data (fst s))"
      "fst s' = (fst s)\<lparr>rs_pos := rs_pos (fst s) + n\<rparr>"
      "buffer_copy bs [make_buffer (rs_ptr (fst s) + rs_pos (fst s))
          (min (length (rs_data (fst s)) - rs_pos (fst s)) (rs_max_read_size (fst s)))] size_max
          (overlay (rs_ptr (fst s)) (rs_data (fst s)) m) = (n, m')"
proof -
  obtain r f where s: "s = (r, f)" by (cases s)
  have fl: "failed (make_error_code canceled)" "failed (make_error_code eof)"
    by (simp_all add: failed_def make_error_code_def)
  have "(n = 0 \<and> m' = m \<and> fst s' = fst s \<and> (failed ec \<or> addrs bs = []))
      \<or> (\<not> failed ec \<and> addrs bs \<noteq> [] \<and> rs_pos r < length (rs_data r) \<and> fst s' = r\<lparr>rs_pos := rs_pos r + n\<rparr>
        \<and> buffer_copy bs [make_buffer (rs_ptr r + rs_pos r) (min (length (rs_data r) - rs_pos r) (rs_max_read_size r))]
            size_max (overlay (rs_ptr r) (rs_data r) m) = (n, m'))"
    using assms s fl
    by (auto simp: rs_read_some_def buffer_empty_iff min_def Let_def split: if_splits sum.splits prod.splits)
  then show thesis using that s by auto
qed

lemma rs_read_some_data:
  assumes "rs_ok ptr cap s" "addrs bs \<noteq> []" "wf_buffers bs" "distinct (addrs bs)" "set (addrs bs) \<inter> {ptr..<ptr + cap} = {}"
    and "rs_pos (fst s) < length (rs_data (fst s))"
    and "buffer_copy bs [make_buffer (rs_ptr (fst s) + rs_pos (fst s))
          (min (length (rs_data (fst s)) - rs_pos (fst s)) (rs_max_read_size (fst s)))] size_max
          (overlay (rs_ptr (fst s)) (rs_data (fst s)) m) = (n, m')"
  shows "1 \<le> n \<and> n \<le> length (addrs bs) \<and> map m' (take n (addrs bs)) = take n (rs_rest s)
    \<and> rs_pos (fst s) + n \<le> length (rs_data (fst s))
    \<and> (\<forall>a. a \<notin> {ptr..<ptr + cap} \<union> set (take n (addrs bs)) \<longrightarrow> m' a = m a)"
proof -
  let ?r = "fst s" and ?k = "min (length (rs_data (fst s)) - rs_pos (fst s)) (rs_max_read_size (fst s))"
  let ?src = "[make_buffer (rs_ptr ?r + rs_pos ?r) ?k]"
  have src: "addrs ?src = [ptr + rs_pos ?r..<ptr + rs_pos ?r + ?k]" and k: "rs_pos ?r + ?k \<le> length (rs_data ?r)" "0 < ?k"
    using assms(1,6) by (simp_all add: make_buffer_def mk_buffer_def baddrs_def rs_ok_def)
  have "set (addrs bs) \<inter> set (addrs ?src) = {}"
  proof -
    have "set (addrs ?src) \<subseteq> {ptr..<ptr + cap}" using assms(1) k(1) unfolding src rs_ok_def by auto
    with assms(5) show ?thesis by blast
  qed
  note c = buffer_copy_copied [OF assms(4) this assms(7)]
  have n: "n = min ?k (length (addrs bs))" "n \<le> ?k"
    using conjunct1 [OF c] assms(3) unfolding src length_upt wf_buffers_def by auto
  have "map m' (take n (addrs bs)) = map (overlay ptr (rs_data ?r) m) (take n (addrs ?src))"
    using c assms(1) unfolding copied_def rs_ok_def by blast
  also have "take n (addrs ?src) = [ptr + rs_pos ?r..<ptr + rs_pos ?r + n]"
    unfolding src take_upt_shift using n(2) by (simp add: min_def)
  also have "map (overlay ptr (rs_data ?r) m) \<dots> = take n (rs_rest s)"
    using n k by (subst overlay_inside) (simp_all add: rs_rest_def)
  finally have "map m' (take n (addrs bs)) = take n (rs_rest s)" .
  moreover have "m' a = m a" if "a \<notin> {ptr..<ptr + cap} \<union> set (take n (addrs bs))" for a
    using c that assms(1) by (auto simp: copied_def rs_ok_def overlay_def)
  moreover have "0 < length (addrs bs)" using assms(2) by simp
  then have "1 \<le> n" "n \<le> length (addrs bs)" using n(1) k(2) by linarith+
  moreover have "rs_pos ?r + n \<le> length (rs_data ?r)" using n(2) k(1) by linarith
  ultimately show ?thesis by blast
qed

interpretation mock_read: read_stream_contract "rs_read_some loc st" "rs_ok ptr cap" "{ptr..<ptr + cap}" rs_rest
  for loc st ptr cap
proof
  fix s bs m ec n s' m'
  assume a: "rs_ok ptr cap s" "rs_read_some loc st s bs m = Inr (ec, n, s', m')"
  then show "rs_ok ptr cap s'" by (cases rule: rs_read_some_cases [OF a(2)]) (simp_all add: rs_ok_def)
next
  fix s bs m ec n s' m'
  assume a: "rs_ok ptr cap s" "addrs bs \<noteq> []" "wf_buffers bs" "distinct (addrs bs)" "set (addrs bs) \<inter> {ptr..<ptr + cap} = {}"
    and r: "rs_read_some loc st s bs m = Inr (ec, n, s', m')"
  show "n \<le> length (addrs bs) \<and> (if failed ec then n < length (addrs bs) else 1 \<le> n)"
    using r by (cases rule: rs_read_some_cases) (use a rs_read_some_data [OF a] in auto)
  show "rs_rest s = map m' (take n (addrs bs)) @ rs_rest s' \<and>
      (\<forall>x. x \<notin> {ptr..<ptr + cap} \<union> set (take n (addrs bs)) \<longrightarrow> m' x = m x)"
    using r
  proof (cases rule: rs_read_some_cases)
    case data
    note d = rs_read_some_data [OF a data(3,5)]
    have "rs_rest s' = drop n (rs_rest s)" using data(4) by (simp add: rs_rest_def add.commute)
    then show ?thesis using d by simp
  qed (simp add: rs_rest_def)
qed

text \<open>
  Of a write stream that began with the expectation \<open>E\<close>: what it was sent is the part of \<open>E\<close> already
  matched and dropped, and then its data.
\<close>

definition ws_ok :: "addr \<Rightarrow> byte list \<Rightarrow> write_stream \<times> fuse_state \<Rightarrow> bool" where
  "ws_ok ptr E s \<longleftrightarrow> ws_ptr (fst s) = ptr \<and> 0 < ws_max_write_size (fst s)
     \<and> (\<exists>pre. E = pre @ ws_expect (fst s))"

definition ws_out :: "byte list \<Rightarrow> write_stream \<times> fuse_state \<Rightarrow> byte list" where
  "ws_out E s = take (length E - length (ws_expect (fst s))) E @ ws_data (fst s)"

lemma consume_match_cases:
  obtains (same) "consume_match w = (success, w)"
  | (mismatch) "consume_match w = (make_error_code test_failure, w)"
  | (matched) n where "n \<le> length (ws_expect w)" "take n (ws_data w) = take n (ws_expect w)"
      "consume_match w = (success, w\<lparr>ws_data := drop n (ws_data w), ws_expect := drop n (ws_expect w)\<rparr>)"
proof -
  let ?n = "min (length (ws_data w)) (length (ws_expect w))"
  consider "ws_data w = [] \<or> ws_expect w = []"
    | "\<not> (ws_data w = [] \<or> ws_expect w = [])" "take ?n (ws_data w) \<noteq> take ?n (ws_expect w)"
    | "\<not> (ws_data w = [] \<or> ws_expect w = [])" "take ?n (ws_data w) = take ?n (ws_expect w)" by blast
  then show thesis
    by cases (use same mismatch matched [of ?n] in \<open>simp_all only: consume_match_def Let_def if_True if_False\<close>, simp_all)
qed

lemma consume_match_out:
  assumes "ws_ok ptr E (w, f)" "consume_match w = (ec, w')"
  shows "ws_ok ptr E (w', f)" "ws_out E (w', f) = ws_out E (w, f)" "failed ec \<Longrightarrow> w' = w"
proof -
  obtain pre where E: "E = pre @ ws_expect w" using assms(1) by (auto simp: ws_ok_def)
  have "ws_ok ptr E (w', f) \<and> ws_out E (w', f) = ws_out E (w, f) \<and> (failed ec \<longrightarrow> w' = w)"
  proof (cases rule: consume_match_cases [of w])
    case (matched n)
    let ?w = "w\<lparr>ws_data := drop n (ws_data w), ws_expect := drop n (ws_expect w)\<rparr>"
    have E': "E = (pre @ take n (ws_expect w)) @ ws_expect ?w" by (simp add: E)
    have "ws_out E (?w, f) = (pre @ take n (ws_expect w)) @ drop n (ws_data w)"
      unfolding ws_out_def fst_conv using matched(1) by (subst (1 2) E') simp
    also have "\<dots> = pre @ ws_data w" using matched(2) by (simp flip: matched(2))
    also have "\<dots> = ws_out E (w, f)" by (simp add: ws_out_def E)
    finally have "ws_out E (?w, f) = ws_out E (w, f)" .
    moreover have "ws_ok ptr E (?w, f)" 
      unfolding ws_ok_def using assms(1) E'
      by (intro conjI exI [of _ "pre @ take n (ws_expect w)"]) (simp_all only: fst_conv ws_ok_def, simp_all)
    ultimately show ?thesis using assms(2) matched(3) by auto
  qed (use assms in simp_all)
  then show "ws_ok ptr E (w', f)" "ws_out E (w', f) = ws_out E (w, f)" "failed ec \<Longrightarrow> w' = w" by simp_all
qed

lemma ws_write_some_cases:
  assumes "ws_write_some loc st (w, f) bs m = Inr (ec, n, s')"
  obtains
    (idle) "n = 0" "fst s' = w" "failed ec \<or> addrs bs = []"
  | (data) w' m' where "addrs bs \<noteq> []" "n = (if failed ec then 0 else min (buffer_size bs) (ws_max_write_size w))"
      "m' = snd (buffer_copy [make_buffer (ws_ptr w + length (ws_data w)) (min (buffer_size bs) (ws_max_write_size w))]
         bs (min (buffer_size bs) (ws_max_write_size w)) m)"
      "consume_match (w\<lparr>ws_data := ws_data w @ map m' [ws_ptr w + length (ws_data w)..<ws_ptr w + length (ws_data w)
         + min (buffer_size bs) (ws_max_write_size w)]\<rparr>) = (ec, w')"
      "fst s' = (if failed ec then w'\<lparr>ws_data := take (length (ws_data w)) (ws_data w')\<rparr> else w')"
proof -
  obtain x f' where mf: "maybe_fail loc f = (x, f')" by (cases "maybe_fail loc f")
  let ?n = "min (buffer_size bs) (ws_max_write_size w)"
  let ?m = "snd (buffer_copy [make_buffer (ws_ptr w + length (ws_data w)) ?n] bs ?n m)"
  let ?w = "w\<lparr>ws_data := ws_data w @ map ?m [ws_ptr w + length (ws_data w)..<ws_ptr w + length (ws_data w) + ?n]\<rparr>"
  obtain e w' where cm: "consume_match ?w = (e, w')" by fastforce
  have fl: "failed (make_error_code canceled)" by (simp add: failed_def make_error_code_def)
  consider "addrs bs = [] \<or> st" | ec' where "addrs bs \<noteq> []" "\<not> st" "x = Inr ec'" "failed ec'"
    | ec' where "addrs bs \<noteq> []" "\<not> st" "x = Inr ec'" "\<not> failed ec'"
    using assms mf by (cases x) (auto simp: ws_write_some_def buffer_empty_iff split: if_splits)
  then show thesis
  proof cases
    case 1
    then have "n = 0 \<and> fst s' = w \<and> (failed ec \<or> addrs bs = [])" using assms fl
      by (auto simp: ws_write_some_def buffer_empty_iff split: if_splits)
    then show ?thesis using idle by blast
  next
    case (2 ec')
    then have "n = 0 \<and> fst s' = w \<and> (failed ec \<or> addrs bs = [])" using assms mf
      by (auto simp: ws_write_some_def buffer_empty_iff)
    then show ?thesis using idle by blast
  next
    case (3 ec')
    have "failed (make_error_code test_failure)" by (simp add: failed_def make_error_code_def)
    then have e: "failed e \<or> e = success" using cm by (cases rule: consume_match_cases [of ?w]) auto
    have "ws_write_some loc st (w, f) bs m =
      (if failed e then Inr (e, 0, (w'\<lparr>ws_data := take (length (ws_data w)) (ws_data w')\<rparr>, f')) else Inr (success, ?n, (w', f')))"
      using 3 mf cm by (simp add: ws_write_some_def buffer_empty_iff Let_def)
    with assms e data [OF 3(1) _ refl, of w'] cm show ?thesis by (auto split: if_splits)
  qed
qed

lemma ws_copy_bytes:
  assumes "wf_buffers bs" "set (addrs bs) \<inter> {ptr..} = {}" "n \<le> length (addrs bs)"
  shows "map (snd (buffer_copy [make_buffer (ptr + old) n] bs n m)) [ptr + old..<ptr + old + n] = map m (take n (addrs bs))"
proof -
  let ?d = "[make_buffer (ptr + old) n]"
  have d: "addrs ?d = [ptr + old..<ptr + old + n]" by (simp add: make_buffer_def mk_buffer_def baddrs_def)
  obtain k m' where r: "buffer_copy ?d bs n m = (k, m')" by fastforce
  have "distinct (addrs ?d)" "set (addrs ?d) \<inter> set (addrs bs) = {}"
    unfolding d using assms(2) by auto
  note c = buffer_copy_copied [OF this r]
  have "k = n" using conjunct1 [OF c] assms(3) unfolding d length_upt by simp
  with c r show ?thesis unfolding copied_def d by simp
qed

lemma ws_write_some_correct:
  assumes "ws_ok ptr E (w, f)" "ws_write_some loc st (w, f) bs m = Inr (ec, n, s')"
  shows "ws_ok ptr E s'"
    and "addrs bs \<noteq> [] \<Longrightarrow> wf_buffers bs \<Longrightarrow> set (addrs bs) \<inter> {ptr..} = {} \<Longrightarrow>
      n \<le> length (addrs bs) \<and> (if failed ec then n < length (addrs bs) else 1 \<le> n) \<and>
      ws_out E s' = ws_out E (w, f) @ map m (take n (addrs bs))"
proof -
  let ?k = "min (buffer_size bs) (ws_max_write_size w)"
  have P: "ws_ptr w = ptr" "0 < ws_max_write_size w" using assms(1) by (simp_all add: ws_ok_def)
  have "ws_ok ptr E s' \<and> (addrs bs \<noteq> [] \<longrightarrow> wf_buffers bs \<longrightarrow> set (addrs bs) \<inter> {ptr..} = {} \<longrightarrow>
      n \<le> length (addrs bs) \<and> (if failed ec then n < length (addrs bs) else 1 \<le> n) \<and>
      ws_out E s' = ws_out E (w, f) @ map m (take n (addrs bs)))"
    using assms(2)
  proof (cases rule: ws_write_some_cases)
    case idle
    then show ?thesis using assms(1) by (auto simp: ws_ok_def ws_out_def)
  next
    case (data w' m')
    let ?w = "w\<lparr>ws_data := ws_data w @ map m' [ws_ptr w + length (ws_data w)..<ws_ptr w + length (ws_data w) + ?k]\<rparr>"
    have ok: "ws_ok ptr E (?w, f)" using assms(1) by (simp add: ws_ok_def)
    note cm = consume_match_out [OF ok data(4)]
    show ?thesis
    proof (cases "failed ec")
      case True
      with cm(3) data(2,5) assms(1) show ?thesis by (simp add: ws_ok_def ws_out_def)
    next
      case False
      then have s': "fst s' = w'" "n = ?k" using data by auto
      have "ws_ok ptr E s'" "ws_out E s' = ws_out E (?w, f)" using cm(1,2) s' by (simp_all add: ws_ok_def ws_out_def)
      moreover have "ws_out E (?w, f) = ws_out E (w, f) @ map m (take n (addrs bs))" "1 \<le> n" "n \<le> length (addrs bs)"
        if "wf_buffers bs" "set (addrs bs) \<inter> {ptr..} = {}"
        using that s'(2) data(1) P ws_copy_bytes [OF that, of ?k "length (ws_data w)" m]
        by (simp_all add: ws_out_def data(3) Suc_le_eq)
      ultimately show ?thesis using False by auto
    qed
  qed
  then show "ws_ok ptr E s'" and "addrs bs \<noteq> [] \<Longrightarrow> wf_buffers bs \<Longrightarrow> set (addrs bs) \<inter> {ptr..} = {} \<Longrightarrow>
      n \<le> length (addrs bs) \<and> (if failed ec then n < length (addrs bs) else 1 \<le> n) \<and>
      ws_out E s' = ws_out E (w, f) @ map m (take n (addrs bs))" by blast+
qed

interpretation mock_write: write_stream_contract "ws_write_some loc st" "ws_ok ptr E" "{ptr..}" "ws_out E"
  for loc st ptr E
proof
  fix s bs m ec n s'
  assume "ws_ok ptr E s" "ws_write_some loc st s bs m = Inr (ec, n, s')"
  then show "ws_ok ptr E s'" by (cases s) (simp add: ws_write_some_correct(1))
next
  fix s bs m ec n s'
  assume a: "ws_ok ptr E s" "addrs bs \<noteq> []" "wf_buffers bs" "set (addrs bs) \<inter> {ptr..} = {}"
    and r: "ws_write_some loc st s bs m = Inr (ec, n, s')"
  obtain w f where s: "s = (w, f)" by (cases s)
  note c = ws_write_some_correct(2) [OF a(1) [unfolded s] r [unfolded s] a(2-4)]
  show "n \<le> length (addrs bs) \<and> (if failed ec then n < length (addrs bs) else 1 \<le> n)"
    using c by blast
  show "ws_out E s' = ws_out E s @ map m (take n (addrs bs))" using c s by blast
qed

section \<open>The composed transfers on any stream that keeps its contract\<close>

text \<open>
  C31. \<^verbatim>\<open>read\<close> on any stream that meets the documented requirements of a read stream ends. It
  either lets an exception of the stream through, or reports an error exactly when it filled less
  than the whole of the buffers; the bytes it counts are the next bytes of the stream, placed in
  order at the front of the buffers, and no other memory changed outside the stream.
\<close>

theorem capy_read_correct:
  assumes "read_stream_contract read_some ok own inp" "ok s"
    and "wf_buffers bs" "distinct (addrs bs)" "set (addrs bs) \<inter> own = {}"
  shows "\<exists>r. capy_read read_some s bs m = Some r \<and>
    (case r of Inl e \<Rightarrow> True
     | Inr (ec, n, s', m') \<Rightarrow> n \<le> length (addrs bs) \<and> (failed ec \<longleftrightarrow> n < length (addrs bs)) \<and> ok s'
         \<and> inp s = map m' (take n (addrs bs)) @ inp s'
         \<and> (\<forall>a. a \<notin> own \<union> set (take n (addrs bs)) \<longrightarrow> m' a = m a))"
  using read_stream_contract.capy_read_transferred [OF assms(1-5), of m]
  by (simp add: read_stream_contract.transferred_start [OF assms(1)])

definition demo_read :: "read_stream \<times> fuse_state" where
  "demo_read = (rs_provide [7, 8, 9] (rs_init 100 2), fuse_default)"

definition demo_bufs :: "mutable_buffer list" where
  "demo_bufs = [mk_buffer 10 1, mk_buffer 20 4]"

lemma demo_read_ok: "rs_ok 100 3 demo_read"
  by (simp add: demo_read_def rs_ok_def rs_provide_def rs_init_def size_max_def)

lemma demo_read_rest: "rs_rest demo_read = [7, 8, 9]"
  by (simp add: demo_read_def rs_provide_def rs_init_def rs_rest_def)

lemma demo_bufs_addrs: "addrs demo_bufs = [10, 20, 21, 22, 23]"
  by (simp add: demo_bufs_def mk_buffer_def baddrs_def upt_rec)

lemma demo_bufs_wf: "wf_buffers demo_bufs" "distinct (addrs demo_bufs)"
    "set (addrs demo_bufs) \<inter> {100..<100 + 3} = {}" "set (addrs demo_bufs) \<inter> {100..} = {}"
  by (simp_all add: wf_buffers_def demo_bufs_addrs size_max_def)

theorem capy_read_correct_witness:
  "addrs demo_bufs = [10, 20, 21, 22, 23] \<and> rs_rest demo_read = [7, 8, 9] \<and>
   (\<exists>r. capy_read (rs_read_some 0 False) demo_read demo_bufs (\<lambda>a. 0) = Some r \<and>
    (case r of Inl e \<Rightarrow> True
     | Inr (ec, n, s', m') \<Rightarrow> n \<le> length (addrs demo_bufs) \<and> (failed ec \<longleftrightarrow> n < length (addrs demo_bufs)) \<and> rs_ok 100 3 s'
         \<and> rs_rest demo_read = map m' (take n (addrs demo_bufs)) @ rs_rest s'
         \<and> {a. m' a \<noteq> 0} \<subseteq> {100..<100 + 3} \<union> set (take n (addrs demo_bufs))))"
proof -
  from capy_read_correct [OF mock_read.read_stream_contract_axioms demo_read_ok demo_bufs_wf(1-3), of 0 False "\<lambda>_. 0"]
  obtain r where r: "capy_read (rs_read_some 0 False) demo_read demo_bufs (\<lambda>_. 0) = Some r"
    and c: "case r of Inl e \<Rightarrow> True
     | Inr (ec, n, s', m') \<Rightarrow> n \<le> length (addrs demo_bufs) \<and> (failed ec \<longleftrightarrow> n < length (addrs demo_bufs)) \<and> rs_ok 100 3 s'
         \<and> rs_rest demo_read = map m' (take n (addrs demo_bufs)) @ rs_rest s'
         \<and> (\<forall>a. a \<notin> {100..<100 + 3} \<union> set (take n (addrs demo_bufs)) \<longrightarrow> m' a = 0)" by blast
  show ?thesis
    by (rule conjI [OF demo_bufs_addrs conjI [OF demo_read_rest exI [of _ r]]])
      (use r c in \<open>simp add: subset_iff split: sum.splits; blast\<close>)
qed

text \<open>
  \<^verbatim>\<open>read_at_least\<close> refuses a minimum larger than the buffers with \<^verbatim>\<open>invalid_argument\<close> before
  it reads anything; otherwise it ends, and reports an error exactly when it read fewer bytes than
  the minimum, the bytes placed as for \<^verbatim>\<open>read\<close>.
\<close>

theorem read_at_least_correct:
  assumes "read_stream_contract read_some ok own inp" "ok s"
    and "wf_buffers bs" "distinct (addrs bs)" "set (addrs bs) \<inter> own = {}"
  shows "if k > length (addrs bs)
    then read_at_least read_some s bs k m = Some (Inr (errc_invalid_argument, 0, s, m))
    else \<exists>r. read_at_least read_some s bs k m = Some r \<and>
      (case r of Inl e \<Rightarrow> True
       | Inr (ec, n, s', m') \<Rightarrow> n \<le> length (addrs bs) \<and> (failed ec \<longleftrightarrow> n < k) \<and> ok s'
           \<and> inp s = map m' (take n (addrs bs)) @ inp s'
           \<and> (\<forall>a. a \<notin> own \<union> set (take n (addrs bs)) \<longrightarrow> m' a = m a))"
  using read_stream_contract.read_at_least_transferred [OF assms(1-5), of k m] assms(3)
  by (simp add: read_stream_contract.transferred_start [OF assms(1)] read_at_least_def)

theorem read_at_least_correct_witness:
  "read_at_least (rs_read_some 0 False) demo_read demo_bufs 6 (\<lambda>a. 0) =
      Some (Inr (errc_invalid_argument, 0, demo_read, (\<lambda>a. 0)))
   \<and> (\<exists>r. read_at_least (rs_read_some 0 False) demo_read demo_bufs 2 (\<lambda>a. 0) = Some r)"
  using read_at_least_correct [OF mock_read.read_stream_contract_axioms demo_read_ok demo_bufs_wf(1-3), of 6 0 False "\<lambda>a. 0"]
    read_at_least_correct [OF mock_read.read_stream_contract_axioms demo_read_ok demo_bufs_wf(1-3), of 2 0 False "\<lambda>a. 0"]
  unfolding demo_bufs_addrs by auto

text \<open>
  \<^verbatim>\<open>write\<close> on any stream that meets the requirements of a write stream ends. Unless the stream
  throws, it reports an error exactly when it sent less than the whole of the buffers, and the
  stream was sent exactly the bytes it counts, in order.
\<close>

theorem capy_write_correct:
  assumes "write_stream_contract write_some ok own out" "ok s"
    and "wf_buffers bs" "set (addrs bs) \<inter> own = {}"
  shows "\<exists>r. capy_write write_some s bs m = Some r \<and>
    (case r of Inl e \<Rightarrow> True
     | Inr (ec, n, s') \<Rightarrow> n \<le> length (addrs bs) \<and> (failed ec \<longleftrightarrow> n < length (addrs bs)) \<and> ok s'
         \<and> out s' = out s @ map m (take n (addrs bs)))"
  using write_stream_contract.capy_write_written [OF assms, of m]
  by (simp add: write_stream_contract.written_start [OF assms(1)])

definition demo_write :: "write_stream \<times> fuse_state" where
  "demo_write = (ws_init 100 2, fuse_default)"

lemma demo_write_ok: "ws_ok 100 [] demo_write"
  by (simp add: demo_write_def ws_ok_def ws_init_def)

theorem capy_write_correct_witness:
  "addrs demo_bufs = [10, 20, 21, 22, 23] \<and>
   (\<exists>r. capy_write (ws_write_some 0 False) demo_write demo_bufs of_nat = Some r \<and>
    (case r of Inl e \<Rightarrow> True
     | Inr (ec, n, s') \<Rightarrow> n \<le> length (addrs demo_bufs) \<and> (failed ec \<longleftrightarrow> n < length (addrs demo_bufs)) \<and> ws_ok 100 [] s'
         \<and> ws_out [] s' = ws_out [] demo_write @ map of_nat (take n (addrs demo_bufs))))"
  by (intro conjI demo_bufs_addrs capy_write_correct [OF mock_write.write_stream_contract_axioms demo_write_ok demo_bufs_wf(1,4)])

text \<open>
  \<^verbatim>\<open>write_at_least\<close> refuses a minimum larger than the buffers with \<^verbatim>\<open>invalid_argument\<close> before
  it writes anything; otherwise it ends, and reports an error exactly when fewer bytes than the
  minimum were sent.
\<close>

theorem write_at_least_correct:
  assumes "write_stream_contract write_some ok own out" "ok s"
    and "wf_buffers bs" "set (addrs bs) \<inter> own = {}"
  shows "if k > length (addrs bs)
    then write_at_least write_some s bs k m = Some (Inr (errc_invalid_argument, 0, s))
    else \<exists>r. write_at_least write_some s bs k m = Some r \<and>
      (case r of Inl e \<Rightarrow> True
       | Inr (ec, n, s') \<Rightarrow> n \<le> length (addrs bs) \<and> (failed ec \<longleftrightarrow> n < k) \<and> ok s'
           \<and> out s' = out s @ map m (take n (addrs bs)))"
  using write_stream_contract.write_at_least_written [OF assms, of k m] assms(3)
  by (simp add: write_stream_contract.written_start [OF assms(1)] write_at_least_def)

theorem write_at_least_correct_witness:
  "write_at_least (ws_write_some 0 False) demo_write demo_bufs 6 of_nat =
      Some (Inr (errc_invalid_argument, 0, demo_write))
   \<and> (\<exists>r. write_at_least (ws_write_some 0 False) demo_write demo_bufs 2 of_nat = Some r)"
  using write_at_least_correct [OF mock_write.write_stream_contract_axioms demo_write_ok demo_bufs_wf(1,4), of 6 0 False of_nat]
    write_at_least_correct [OF mock_write.write_stream_contract_axioms demo_write_ok demo_bufs_wf(1,4), of 2 0 False of_nat]
  unfolding demo_bufs_addrs by auto

text \<open>
  C34. \<^verbatim>\<open>write_now\<close>: the body compiled for GCC computes exactly what \<^verbatim>\<open>write\<close> does. The body with
  the fast path ends with the same exception, error and stream as \<^verbatim>\<open>write\<close>, and on success with
  the same count; with an error the count it reports is at most the count of bytes sent.
\<close>

theorem write_now_correct:
  assumes "write_stream_contract write_some ok own out" "ok s"
    and "wf_buffers bs" "set (addrs bs) \<inter> own = {}"
  shows "write_now_gcc write_some s bs m = capy_write write_some s bs m
    \<and> (\<exists>r q. write_now write_some ready s bs m = Some r \<and> capy_write write_some s bs m = Some q
        \<and> (r = q \<or> (\<exists>ec n n' s'. q = Inr (ec, n, s') \<and> r = Inr (ec, n', s') \<and> failed ec \<and> n' \<le> n)))"
  using write_stream_contract.write_now_gcc_eq [OF assms, of m] write_stream_contract.write_now_same [OF assms, of ready m]
  by (simp add: write_stream_contract.same_but_count_def [OF assms(1)])

theorem write_now_correct_witness:
  "write_now_gcc (ws_write_some 0 False) demo_write demo_bufs of_nat = capy_write (ws_write_some 0 False) demo_write demo_bufs of_nat
   \<and> (\<exists>r q. write_now (ws_write_some 0 False) (\<lambda>_ _. False) demo_write demo_bufs of_nat = Some r
        \<and> capy_write (ws_write_some 0 False) demo_write demo_bufs of_nat = Some q
        \<and> (r = q \<or> (\<exists>ec n n' s'. q = Inr (ec, n, s') \<and> r = Inr (ec, n', s') \<and> failed ec \<and> n' \<le> n)))"
  by (rule write_now_correct [OF mock_write.write_stream_contract_axioms demo_write_ok demo_bufs_wf(1,4)])

text \<open>
  C35. The count of the fast path is short. Take any stream that meets the requirements of a write stream and any buffers: when the first write is ready
  and fails after it has sent \<open>n\<close> bytes, \<^verbatim>\<open>write_now\<close> with the fast path reports no byte at all, whereas \<^verbatim>\<open>write\<close> and the awaiting body report
  \<open>n\<close>; the error and the stream afterwards are the same, and the \<open>n\<close> bytes were sent.
\<close>

theorem write_now_fast_undercounts:
  assumes "write_stream_contract write_some ok own out" "ok s"
    and "wf_buffers bs" "set (addrs bs) \<inter> own = {}" "addrs bs \<noteq> []"
    and "ready s (slice_list (consuming_data (consuming_init bs)))"
    and "write_some s (slice_list (consuming_data (consuming_init bs))) m = Inr (ec, n, s')" "failed ec"
  shows "write_now write_some ready s bs m = Some (Inr (ec, 0, s'))
    \<and> capy_write write_some s bs m = Some (Inr (ec, n, s')) \<and> write_now_gcc write_some s bs m = Some (Inr (ec, n, s'))
    \<and> out s' = out s @ map m (take n (addrs bs))"
proof -
  let ?cb = "consuming_init bs"
  have cb: "wf_consuming ?cb" "consuming_bytes ?cb = drop 0 (addrs bs)" using assms(3) by (simp_all add: consuming_init_wf consuming_init_bytes)
  have L: "0 < length (addrs bs)" "length (addrs bs) \<le> size_max" "buffer_size bs = length (addrs bs)" using assms(3,5) by (auto simp: wf_buffers_def)
  note R = write_stream_contract.round [OF assms(1,2) cb L(1,2) assms(4,7)]
  have "write_now write_some ready s bs m = Some (Inr (ec, 0, s'))"
    unfolding write_now_def L(3) by (subst write_now_fast.simps) (use assms(6-8) L in simp)
  moreover have w: "capy_write write_some s bs m = Some (Inr (ec, n, s'))"
    unfolding capy_write_def L(3) by (subst write_loop.simps) (use assms(7,8) L R(1,3) in simp)
  moreover have "write_now_gcc write_some s bs m = Some (Inr (ec, n, s'))"
    using w write_stream_contract.write_now_gcc_eq [OF assms(1-4)] by simp
  ultimately show ?thesis using R(6) by simp
qed

text \<open>A stream that sends one byte, and reports an error when it was given more; it meets the requirements.\<close>

definition one_then_fail :: "byte list write_op" where
  "one_then_fail sent bs m =
     (if addrs bs = [] then Inr (success, 0, sent)
      else Inr (if length (addrs bs) = 1 then success else make_error_code eof, 1, sent @ map m (take 1 (addrs bs))))"

interpretation short_writer: write_stream_contract one_then_fail "\<lambda>_. True" "{}" "\<lambda>sent. sent"
proof
  fix s s' :: "byte list" and bs m ec n
  assume a: "addrs bs \<noteq> []" "one_then_fail s bs m = Inr (ec, n, s')"
  then have "n = 1" "s' = s @ map m (take 1 (addrs bs))" "ec = (if length (addrs bs) = 1 then success else make_error_code eof)"
    by (auto simp: one_then_fail_def)
  moreover have "1 \<le> length (addrs bs)" using a(1) by (cases "addrs bs") auto
  ultimately show "n \<le> length (addrs bs) \<and> (if failed ec then n < length (addrs bs) else 1 \<le> n)" "s' = s @ map m (take n (addrs bs))"
    by (auto simp: failed_def success_def make_error_code_def)
qed simp

theorem write_now_fast_undercounts_witness:
  "write_now one_then_fail (\<lambda>_ _. True) [] [mk_buffer 10 2] of_nat = Some (Inr (make_error_code eof, 0, [10]))
   \<and> capy_write one_then_fail [] [mk_buffer 10 2] of_nat = Some (Inr (make_error_code eof, 1, [10]))"
proof -
  have b: "slice_list (consuming_data (consuming_init [mk_buffer 10 2])) = [mk_buffer 10 2]"
    by (simp add: consuming_init_def consuming_data_def slice_of_iters_def slice_list_def slice_deref_def
        adjust_def mk_buffer_def size_max_def)
  have A: "addrs [mk_buffer 10 2] = [10, 11]" by (simp add: mk_buffer_def baddrs_def upt_rec)
  have r: "one_then_fail [] (slice_list (consuming_data (consuming_init [mk_buffer 10 2]))) of_nat = Inr (make_error_code eof, 1, [10])"
    unfolding b one_then_fail_def A by simp
  have f: "failed (make_error_code eof)" "wf_buffers [mk_buffer 10 2]" by (simp_all add: failed_def make_error_code_def wf_buffers_def mk_buffer_def size_max_def)
  have ne: "addrs [mk_buffer 10 2] \<noteq> []" unfolding A by simp
  show ?thesis
    using write_now_fast_undercounts [OF short_writer.write_stream_contract_axioms TrueI f(2) _ ne TrueI r f(1)] by simp
qed

section \<open>Grinding a buffer sequence\<close>

text \<open>The position after \<open>j\<close> calls of \<^verbatim>\<open>next\<close>, and the splits from a position on.\<close>

definition split_at :: "const_buffer list \<Rightarrow> nat \<Rightarrow> slice_of \<times> slice_of" where
  "split_at bs p = (buffer_slice bs 0 p, buffer_slice bs p size_max)"

lemma bg_splits_end:
  assumes "bg_pos g = bg_size g" "bg_size g < size_max"
  shows "bg_splits g = Some [split_at (bg_bs g) (bg_size g)]"
  using assms by (subst bg_splits.simps, subst bg_splits.simps) (simp add: bg_more_def bg_next_def split_at_def)

lemma bg_splits_from:
  assumes "bg_pos g = j * bg_step g" "bg_pos g < bg_size g" "0 < bg_step g" "bg_size g + bg_step g < size_max"
  shows "bg_splits g = Some (map (split_at (bg_bs g)) (map (\<lambda>i. i * bg_step g) [j..<(bg_size g - 1) div bg_step g + 1] @ [bg_size g]))"
  using assms
proof (induction "bg_size g - bg_pos g" arbitrary: g j rule: less_induct)
  case less
  let ?t = "bg_step g" and ?S = "bg_size g"
  let ?g = "g\<lparr>bg_pos := min (bg_pos g + ?t) ?S\<rparr>"
  have n: "bg_next g = (split_at (bg_bs g) (bg_pos g), ?g)" using less.prems by (simp add: bg_next_def split_at_def)
  have step: "bg_splits g = Option.bind (bg_splits ?g) (\<lambda>xs. Some (split_at (bg_bs g) (bg_pos g) # xs))"
    using less.prems(2) n by (subst bg_splits.simps) (simp add: bg_more_def)
  have le: "j \<le> (?S - 1) div ?t" using less.prems(1-3) by (simp add: less_eq_div_iff_mult_less_eq)
  show ?case
  proof (cases "bg_pos g + ?t < ?S")
    case True
    then have "?S - bg_pos ?g < ?S - bg_pos g" "bg_pos ?g = Suc j * ?t" "bg_pos ?g < ?S" using less.prems by simp_all
    then have IH: "bg_splits ?g = Some (map (split_at (bg_bs g)) (map (\<lambda>i. i * ?t) [Suc j..<(?S - 1) div ?t + 1] @ [?S]))"
      using less.hyps [of ?g "Suc j"] less.prems(3,4) by (simp del: upt_Suc)
    have "[j..<(?S - 1) div ?t + 1] = j # [Suc j..<(?S - 1) div ?t + 1]" using le by (simp add: upt_conv_Cons del: upt_Suc)
    with step IH less.prems(1) show ?thesis by (simp del: upt_Suc)
  next
    case False
    then have "(?S - 1) div ?t < Suc j" using less.prems(1,2,3) by (simp add: div_less_iff_less_mult add.commute)
    then have "(?S - 1) div ?t = j" using le by simp
    moreover have "bg_splits ?g = Some [split_at (bg_bs g) ?S]" using bg_splits_end [of ?g] False less.prems(4) by simp
    ultimately show ?thesis using step less.prems(1) by simp
  qed
qed

text \<open>
  Grinding ends and visits every split: the loop over \<^verbatim>\<open>next\<close> yields one pair per multiple of
  the step below the size and a last one at the size itself, and the two halves of each pair are
  the bytes before and after the split position.
\<close>

theorem bufgrind_correct:
  assumes "wf_buffers bs" "0 < step" "length (addrs bs) + step < size_max" "addrs bs \<noteq> []"
  shows "\<exists>xs. bg_splits (bg_init bs step) = Some xs
    \<and> map (\<lambda>(a, b). (addrs (slice_list a), addrs (slice_list b))) xs =
      map (\<lambda>p. (take p (addrs bs), drop p (addrs bs)))
        (map (\<lambda>i. i * step) [0..<(length (addrs bs) - 1) div step + 1] @ [length (addrs bs)])"
proof -
  have "take size_max (drop p (addrs bs)) = drop p (addrs bs)" for p
    using assms(1) by (simp add: wf_buffers_def)
  then have sp: "(\<lambda>(a, b). (addrs (slice_list a), addrs (slice_list b))) (split_at bs p) = (take p (addrs bs), drop p (addrs bs))" for p
    by (simp add: split_at_def buffer_slice_addrs [OF assms(1)])
  have "bg_splits (bg_init bs step) =
      Some (map (split_at bs) (map (\<lambda>i. i * step) [0..<(length (addrs bs) - 1) div step + 1] @ [length (addrs bs)]))"
    using bg_splits_from [of "bg_init bs step" 0] assms by (simp add: bg_init_def)
  then show ?thesis by (simp add: sp del: upt_Suc)
qed

theorem bufgrind_correct_witness:
  "\<exists>xs. bg_splits (bg_init demo_bufs 2) = Some xs
    \<and> map (\<lambda>(a, b). (addrs (slice_list a), addrs (slice_list b))) xs =
      [([], [10, 20, 21, 22, 23]), ([10, 20], [21, 22, 23]), ([10, 20, 21, 22], [23]), ([10, 20, 21, 22, 23], [])]"
proof -
  have u: "map (\<lambda>i. i * 2) [0..<(length (addrs demo_bufs) - 1) div 2 + 1] = [0, 2, 4]"
    by (simp add: demo_bufs_addrs upt_rec)
  have "length (addrs demo_bufs) + 2 < size_max" by (simp add: demo_bufs_addrs size_max_def)
  from bufgrind_correct [OF demo_bufs_wf(1) _ this, unfolded u] show ?thesis by (simp add: demo_bufs_addrs)
qed

text \<open>\<^verbatim>\<open>buffer_to_string\<close> is the bytes of all its sequences, in order.\<close>

theorem buffer_to_string_correct: "buffer_to_string m bufs = map m (addrs (concat bufs))"
proof -
  have "string_append m r bs = r @ map m (addrs bs)" for r bs
    by (induction m r bs rule: string_append.induct) (simp_all add: baddrs_def)
  then have "foldl (string_append m) r bufs = r @ map m (addrs (concat bufs))" for r
    by (induction bufs arbitrary: r) simp_all
  then show ?thesis by (simp add: buffer_to_string_def)
qed

end
