(* ===== verification/Intrusive.thy ===== *)
theory Intrusive
  imports Prelude
begin

text \<open>
  The intrusive containers at the level of their pointers: \<^verbatim>\<open>intrusive_list\<close> and
  \<^verbatim>\<open>intrusive_queue\<close> of \<^verbatim>\<open>detail/intrusive.hpp\<close>, the queue of continuations that
  \<^verbatim>\<open>src/ex/thread_pool.cpp\<close> threads through \<^verbatim>\<open>continuation::reserved\<close>, and \<^verbatim>\<open>strand_queue\<close>
  of \<^verbatim>\<open>src/ex/detail/strand_queue.hpp\<close>. Nodes are addresses in a store of link fields, a null
  pointer is \<open>None\<close>. The locale \<open>fifo\<close> states what a queue promises; the three queues interpret it,
  and the doubly linked list is shown to act as a list of nodes under every operation it has.
\<close>

type_synonym node = nat
type_synonym ptr = "node option"
type_synonym links = "node \<Rightarrow> ptr"

fun hd_opt :: "'a list \<Rightarrow> 'a option" where
  "hd_opt [] = None"
| "hd_opt (x # xs) = Some x"

definition last_opt :: "'a list \<Rightarrow> 'a option" where
  "last_opt xs = (if xs = [] then None else Some (last xs))"

lemma hd_opt_append [simp]: "hd_opt (xs @ ys) = (if xs = [] then hd_opt ys else hd_opt xs)"
  by (cases xs) simp_all

lemma hd_opt_eq_None [simp]: "hd_opt xs = None \<longleftrightarrow> xs = []"
  by (cases xs) simp_all

lemma last_opt_simps [simp]: "last_opt [] = None" "last_opt (xs @ [x]) = Some x"
    "last_opt (x # xs) = (if xs = [] then Some x else last_opt xs)" "last_opt xs = None \<longleftrightarrow> xs = []"
  by (simp_all add: last_opt_def)

lemma last_opt_append [simp]: "ys \<noteq> [] \<Longrightarrow> last_opt (xs @ ys) = last_opt ys"
  by (simp add: last_opt_def)

lemma last_opt_Some: "last_opt xs = Some t \<longleftrightarrow> xs \<noteq> [] \<and> t = last xs"
  by (auto simp: last_opt_def)

section \<open>The singly linked queue\<close>

record iqueue =
  iq_head :: ptr
  iq_tail :: ptr

definition iq_init :: iqueue where
  "iq_init = \<lparr>iq_head = None, iq_tail = None\<rparr>"

definition iq_move :: "iqueue \<Rightarrow> iqueue \<times> iqueue" where
  "iq_move other = (\<lparr>iq_head = iq_head other, iq_tail = iq_tail other\<rparr>, other\<lparr>iq_head := None, iq_tail := None\<rparr>)"

definition iq_empty :: "iqueue \<Rightarrow> bool" where
  "iq_empty q \<longleftrightarrow> iq_head q = None"

definition iq_push :: "node \<Rightarrow> links \<times> iqueue \<Rightarrow> links \<times> iqueue" where
  "iq_push w = (\<lambda>(nx, q).
     let nx = nx(w := None)
     in case iq_tail q of
          Some t \<Rightarrow> (nx(t := Some w), q\<lparr>iq_tail := Some w\<rparr>)
        | None \<Rightarrow> (nx, q\<lparr>iq_head := Some w, iq_tail := Some w\<rparr>))"

definition iq_splice :: "links \<Rightarrow> iqueue \<Rightarrow> iqueue \<Rightarrow> links \<times> iqueue \<times> iqueue" where
  "iq_splice nx q other =
     (if iq_empty other then (nx, q, other)
      else let (nx, q) = (case iq_tail q of
                            Some t \<Rightarrow> (nx(t := iq_head other), q)
                          | None \<Rightarrow> (nx, q\<lparr>iq_head := iq_head other\<rparr>))
           in (nx, q\<lparr>iq_tail := iq_tail other\<rparr>, other\<lparr>iq_head := None, iq_tail := None\<rparr>))"

definition iq_pop :: "links \<times> iqueue \<Rightarrow> ptr \<times> links \<times> iqueue" where
  "iq_pop = (\<lambda>(nx, q). case iq_head q of
       None \<Rightarrow> (None, nx, q)
     | Some w \<Rightarrow> (let q = q\<lparr>iq_head := nx w\<rparr>
                 in (Some w, nx, if iq_head q = None then q\<lparr>iq_tail := None\<rparr> else q)))"

text \<open>The queue of the thread pool, linked through \<^verbatim>\<open>reserved\<close>.\<close>

definition tp_push :: "node \<Rightarrow> links \<times> iqueue \<Rightarrow> links \<times> iqueue" where
  "tp_push c = (\<lambda>(reserved, q).
     let reserved = reserved(c := None);
         (reserved, q) = (case iq_tail q of
                            Some t \<Rightarrow> (reserved(t := Some c), q)
                          | None \<Rightarrow> (reserved, q\<lparr>iq_head := Some c\<rparr>))
     in (reserved, q\<lparr>iq_tail := Some c\<rparr>))"

definition tp_pop :: "links \<times> iqueue \<Rightarrow> ptr \<times> links \<times> iqueue" where
  "tp_pop = (\<lambda>(reserved, q). case iq_head q of
       None \<Rightarrow> (None, reserved, q)
     | Some c \<Rightarrow> (let q = q\<lparr>iq_head := reserved c\<rparr>
                 in (Some c, reserved, if iq_head q = None then q\<lparr>iq_tail := None\<rparr> else q)))"

text \<open>\<^verbatim>\<open>strand_queue\<close>. \<open>sq_walk\<close> is the list of nodes a batch is walked over, \<^verbatim>\<open>fuel\<close> bounds its length.\<close>

definition sq_push :: "node \<Rightarrow> links \<times> iqueue \<Rightarrow> links \<times> iqueue" where
  "sq_push c = (\<lambda>(reserved, q).
     let reserved = reserved(c := None);
         (reserved, q) = (case iq_tail q of
                            Some t \<Rightarrow> (reserved(t := Some c), q)
                          | None \<Rightarrow> (reserved, q\<lparr>iq_head := Some c\<rparr>))
     in (reserved, q\<lparr>iq_tail := Some c\<rparr>))"

definition sq_front :: "links \<times> iqueue \<Rightarrow> ptr" where
  "sq_front s = iq_head (snd s)"

definition sq_pop_front :: "node \<Rightarrow> links \<times> iqueue \<Rightarrow> links \<times> iqueue" where
  "sq_pop_front h = (\<lambda>(reserved, q).
     let q = q\<lparr>iq_head := reserved h\<rparr>
     in (reserved, if iq_head q = None then q\<lparr>iq_tail := None\<rparr> else q))"

definition sq_take_all :: "iqueue \<Rightarrow> iqueue \<times> iqueue" where
  "sq_take_all q = (\<lparr>iq_head = iq_head q, iq_tail = iq_tail q\<rparr>, q\<lparr>iq_head := None, iq_tail := None\<rparr>)"

partial_function (option) sq_walk :: "links \<Rightarrow> ptr \<Rightarrow> node list option" where
  "sq_walk reserved h =
     (case h of None \<Rightarrow> Some []
      | Some c \<Rightarrow> Option.bind (sq_walk reserved (reserved c)) (\<lambda>xs. Some (c # xs)))"

section \<open>What a queue promises\<close>

datatype queue_cmd = Push node | Pop

locale fifo =
  fixes push :: "node \<Rightarrow> 'q \<Rightarrow> 'q" and pop :: "'q \<Rightarrow> ptr \<times> 'q" and rep :: "'q \<Rightarrow> node list \<Rightarrow> bool"
  assumes push_rep: "rep q xs \<Longrightarrow> w \<notin> set xs \<Longrightarrow> rep (push w q) (xs @ [w])"
    and pop_rep: "rep q xs \<Longrightarrow> fst (pop q) = hd_opt xs \<and> rep (snd (pop q)) (tl xs)"

text \<open>
  A run of calls against the abstract queue: \<open>None\<close> when it pushes a node that is still queued,
  which the callers never do, otherwise the popped pointers and the nodes left.
\<close>

fun run_spec :: "queue_cmd list \<Rightarrow> node list \<Rightarrow> (ptr list \<times> node list) option" where
  "run_spec [] xs = Some ([], xs)"
| "run_spec (Push w # cs) xs = (if w \<in> set xs then None else run_spec cs (xs @ [w]))"
| "run_spec (Pop # cs) xs = (case run_spec cs (tl xs) of None \<Rightarrow> None | Some (os, ys) \<Rightarrow> Some (hd_opt xs # os, ys))"

fun run_queue :: "(node \<Rightarrow> 'q \<Rightarrow> 'q) \<Rightarrow> ('q \<Rightarrow> ptr \<times> 'q) \<Rightarrow> queue_cmd list \<Rightarrow> 'q \<Rightarrow> ptr list \<times> 'q" where
  "run_queue push pop [] q = ([], q)"
| "run_queue push pop (Push w # cs) q = run_queue push pop cs (push w q)"
| "run_queue push pop (Pop # cs) q =
     (case pop q of (p, q') \<Rightarrow> (case run_queue push pop cs q' of (os, q'') \<Rightarrow> (p # os, q'')))"

context fifo
begin

lemma run_refines:
  assumes "rep q xs" "run_spec cs xs = Some (os, ys)"
  shows "fst (run_queue push pop cs q) = os \<and> rep (snd (run_queue push pop cs q)) ys"
  using assms
proof (induction cs xs arbitrary: q os rule: run_spec.induct)
  case (2 w cs xs)
  then show ?case by (auto simp: push_rep split: if_splits)
next
  case (3 cs xs)
  from "3.prems" obtain os' where os': "run_spec cs (tl xs) = Some (os', ys)" "os = hd_opt xs # os'"
    by (auto split: option.splits)
  obtain p q' where p: "pop q = (p, q')" by fastforce
  with pop_rep [OF "3.prems"(1)] have "p = hd_opt xs" "rep q' (tl xs)" by simp_all
  with "3.IH" [of q' os'] os' p show ?case by (auto split: prod.splits)
qed simp

end

section \<open>The queues keep the promise\<close>

text \<open>\<open>chain nx xs q\<close>: the nodes \<open>xs\<close> are linked in order and the last points to \<open>q\<close>.\<close>

fun chain :: "links \<Rightarrow> node list \<Rightarrow> ptr \<Rightarrow> bool" where
  "chain nx [] q = True"
| "chain nx (x # xs) q = (nx x = (if xs = [] then q else hd_opt xs) \<and> chain nx xs q)"

lemma chain_append:
  "chain nx (xs @ ys) q = (chain nx xs (if ys = [] then q else hd_opt ys) \<and> chain nx ys q)"
  by (induction xs) auto

lemma chain_upd [simp]: "a \<notin> set xs \<Longrightarrow> chain (nx(a := v)) xs q = chain nx xs q"
  by (induction xs) auto

lemma chain_upd_last:
  "xs \<noteq> [] \<Longrightarrow> distinct xs \<Longrightarrow> chain nx xs q \<Longrightarrow> chain (nx(last xs := v)) xs v"
  by (induction xs) auto

definition q_rep :: "links \<times> iqueue \<Rightarrow> node list \<Rightarrow> bool" where
  "q_rep s xs \<longleftrightarrow> iq_head (snd s) = hd_opt xs \<and> iq_tail (snd s) = last_opt xs \<and> distinct xs \<and> chain (fst s) xs None"

lemma iq_push_rep:
  assumes "q_rep (nx, q) xs" "w \<notin> set xs"
  shows "q_rep (iq_push w (nx, q)) (xs @ [w])"
proof (cases "xs = []")
  case True
  with assms show ?thesis by (auto simp: q_rep_def iq_push_def)
next
  case False
  moreover have "chain ((nx(w := None))(last xs := Some w)) xs (Some w)"
    using assms False by (intro chain_upd_last [where q = None]) (auto simp: q_rep_def)
  moreover have "last xs \<noteq> w" using assms(2) False by auto
  ultimately show ?thesis using assms
    by (auto simp: q_rep_def iq_push_def last_opt_def chain_append)
qed

lemma iq_pop_rep:
  assumes "q_rep (nx, q) xs"
  shows "fst (iq_pop (nx, q)) = hd_opt xs \<and> q_rep (snd (iq_pop (nx, q))) (tl xs)"
  using assms by (cases xs) (auto simp: q_rep_def iq_pop_def Let_def last_opt_def split: if_splits)

lemma tp_push_eq: "tp_push = iq_push" and tp_pop_eq: "tp_pop = iq_pop" and sq_push_eq: "sq_push = iq_push"
  by (auto simp: tp_push_def tp_pop_def sq_push_def iq_push_def iq_pop_def Let_def fun_eq_iff split: option.splits)

interpretation intrusive_queue: fifo iq_push iq_pop q_rep
  by unfold_locales (use iq_push_rep iq_pop_rep in auto)

interpretation pool_queue: fifo tp_push tp_pop q_rep
  unfolding tp_push_eq tp_pop_eq by (rule intrusive_queue.fifo_axioms)

text \<open>Taking the front of a strand's queue, as its callers do once they have looked at it.\<close>

definition sq_pop :: "links \<times> iqueue \<Rightarrow> ptr \<times> links \<times> iqueue" where
  "sq_pop s = (case sq_front s of None \<Rightarrow> (None, s) | Some h \<Rightarrow> (Some h, sq_pop_front h s))"

lemma sq_pop_eq: "sq_pop = iq_pop"
  by (auto simp: sq_pop_def iq_pop_def sq_front_def sq_pop_front_def Let_def fun_eq_iff split: option.splits)

interpretation strand_queue: fifo sq_push sq_pop q_rep
  unfolding sq_push_eq sq_pop_eq by (rule intrusive_queue.fifo_axioms)

lemma iq_splice_rep:
  assumes "q_rep (nx, q) xs" "q_rep (nx, r) ys" "set xs \<inter> set ys = {}" "iq_splice nx q r = (nx', q', r')"
  shows "q_rep (nx', q') (xs @ ys) \<and> q_rep (nx', r') []"
proof (cases "ys = [] \<or> xs = []")
  case True
  with assms show ?thesis by (auto simp: q_rep_def iq_splice_def iq_empty_def Let_def split: if_splits)
next
  case False
  moreover have "chain (nx(last xs := hd_opt ys)) xs (hd_opt ys)"
    using assms(1) False by (intro chain_upd_last [where q = None]) (auto simp: q_rep_def)
  moreover have "last xs \<notin> set ys" using assms(3) False by (auto simp: disjoint_iff)
  ultimately show ?thesis using assms
    by (auto simp: q_rep_def iq_splice_def iq_empty_def Let_def last_opt_def chain_append)
qed

lemma sq_walk_rep: "chain nx xs None \<Longrightarrow> sq_walk nx (hd_opt xs) = Some xs"
proof (induction xs)
  case (Cons x xs)
  then show ?case by (subst sq_walk.simps) (cases xs; simp add: sq_walk.simps [of _ None])
qed (simp add: sq_walk.simps [of _ None])

text \<open>
  The intrusive queue, the queue of the thread pool and the queue of a strand are first-in
  first-out: any run of pushes (of nodes not queued at the time) and pops on an empty queue returns
  what the same run on a plain list returns, and leaves the pointers linking exactly the nodes of
  that list.
\<close>

theorem queues_refine_fifo:
  assumes "run_spec cs [] = Some (os, ys)"
  shows "fst (run_queue iq_push iq_pop cs (nx, iq_init)) = os \<and> q_rep (snd (run_queue iq_push iq_pop cs (nx, iq_init))) ys
    \<and> run_queue tp_push tp_pop cs (nx, iq_init) = run_queue iq_push iq_pop cs (nx, iq_init)
    \<and> run_queue sq_push sq_pop cs (nx, iq_init) = run_queue iq_push iq_pop cs (nx, iq_init)"
proof -
  have "q_rep (nx, iq_init) []" by (simp add: q_rep_def iq_init_def)
  from intrusive_queue.run_refines [OF this assms] show ?thesis
    by (simp add: tp_push_eq tp_pop_eq sq_push_eq sq_pop_eq)
qed

theorem queues_refine_fifo_witness:
  "fst (run_queue tp_push tp_pop [Push 4, Push 7, Pop, Push 4, Pop, Pop, Pop] (\<lambda>_. None, iq_init)) =
     [Some 4, Some 7, Some 4, None]"
  using queues_refine_fifo [of "[Push 4, Push 7, Pop, Push 4, Pop, Pop, Pop]" "[Some 4, Some 7, Some 4, None]" "[]" "\<lambda>_. None"]
  by simp

text \<open>
  \<^verbatim>\<open>splice\<close> moves the whole of another queue behind this one in constant time: the nodes of both,
  in order, are then in this queue and the other is empty; and \<^verbatim>\<open>take_all\<close> hands out a batch whose
  walk along the links meets the queued nodes in order and ends, leaving the queue empty.
\<close>

theorem splice_and_take_all:
  assumes "q_rep (nx, q) xs" "q_rep (nx, r) ys" "set xs \<inter> set ys = {}"
  shows "case iq_splice nx q r of (nx', q', r') \<Rightarrow>
    q_rep (nx', q') (xs @ ys) \<and> q_rep (nx', r') [] \<and>
    (case sq_take_all q' of (batch, q'') \<Rightarrow> sq_walk nx' (iq_head batch) = Some (xs @ ys) \<and> iq_empty q'')"
proof -
  obtain nx' q' r' where sp: "iq_splice nx q r = (nx', q', r')" by (metis prod_cases3)
  note rep = iq_splice_rep [OF assms sp]
  then have "sq_walk nx' (iq_head q') = Some (xs @ ys)"
    using sq_walk_rep [of nx' "xs @ ys"] by (simp add: q_rep_def)
  with sp rep show ?thesis by (simp add: sq_take_all_def iq_empty_def)
qed

theorem splice_and_take_all_witness:
  "case iq_splice (\<lambda>_. None) \<lparr>iq_head = Some 1, iq_tail = Some 1\<rparr> \<lparr>iq_head = Some 2, iq_tail = Some 2\<rparr> of (nx', q', r') \<Rightarrow>
    sq_walk nx' (iq_head (fst (sq_take_all q'))) = Some [1, 2]"
  using splice_and_take_all [of "\<lambda>_. None" "\<lparr>iq_head = Some 1, iq_tail = Some 1\<rparr>" "[1]" "\<lparr>iq_head = Some 2, iq_tail = Some 2\<rparr>" "[2]"]
  by (simp add: q_rep_def split: prod.splits)

section \<open>The doubly linked list\<close>

record list_nodes =
  n_next :: "node \<Rightarrow> ptr"
  n_prev :: "node \<Rightarrow> ptr"
  n_linked :: "node \<Rightarrow> bool"

record ilist =
  il_head :: ptr
  il_tail :: ptr

definition il_init :: ilist where
  "il_init = \<lparr>il_head = None, il_tail = None\<rparr>"

definition il_move :: "ilist \<Rightarrow> ilist \<times> ilist" where
  "il_move other = (\<lparr>il_head = il_head other, il_tail = il_tail other\<rparr>, other\<lparr>il_head := None, il_tail := None\<rparr>)"

definition il_empty :: "ilist \<Rightarrow> bool" where
  "il_empty l \<longleftrightarrow> il_head l = None"

definition set_next :: "node \<Rightarrow> ptr \<Rightarrow> list_nodes \<Rightarrow> list_nodes" where
  "set_next w p h = h\<lparr>n_next := (n_next h)(w := p)\<rparr>"

definition set_prev :: "node \<Rightarrow> ptr \<Rightarrow> list_nodes \<Rightarrow> list_nodes" where
  "set_prev w p h = h\<lparr>n_prev := (n_prev h)(w := p)\<rparr>"

definition set_linked :: "node \<Rightarrow> bool \<Rightarrow> list_nodes \<Rightarrow> list_nodes" where
  "set_linked w b h = h\<lparr>n_linked := (n_linked h)(w := b)\<rparr>"

definition push_back :: "node \<Rightarrow> list_nodes \<times> ilist \<Rightarrow> list_nodes \<times> ilist" where
  "push_back w = (\<lambda>(h, l).
     let h = set_next w None h;
         h = set_prev w (il_tail l) h;
         (h, l) = (case il_tail l of
                     Some t \<Rightarrow> (set_next t (Some w) h, l)
                   | None \<Rightarrow> (h, l\<lparr>il_head := Some w\<rparr>))
     in (set_linked w True h, l\<lparr>il_tail := Some w\<rparr>))"

definition splice_back :: "list_nodes \<Rightarrow> ilist \<Rightarrow> ilist \<Rightarrow> list_nodes \<times> ilist \<times> ilist" where
  "splice_back h l other =
     (case il_head other of
        None \<Rightarrow> (h, l, other)
      | Some oh \<Rightarrow>
          let (h, l) = (case il_tail l of
                 Some t \<Rightarrow> (set_prev oh (Some t) (set_next t (Some oh) h), l\<lparr>il_tail := il_tail other\<rparr>)
               | None \<Rightarrow> (h, l\<lparr>il_head := Some oh, il_tail := il_tail other\<rparr>))
          in (h, l, other\<lparr>il_head := None, il_tail := None\<rparr>))"

definition pop_front :: "list_nodes \<times> ilist \<Rightarrow> ptr \<times> list_nodes \<times> ilist" where
  "pop_front = (\<lambda>(h, l). case il_head l of
       None \<Rightarrow> (None, h, l)
     | Some w \<Rightarrow>
         (let l = l\<lparr>il_head := n_next h w\<rparr>;
              (h, l) = (case il_head l of
                          Some y \<Rightarrow> (set_prev y None h, l)
                        | None \<Rightarrow> (h, l\<lparr>il_tail := None\<rparr>))
          in (Some w, set_linked w False h, l)))"

definition il_remove :: "node \<Rightarrow> list_nodes \<times> ilist \<Rightarrow> list_nodes \<times> ilist" where
  "il_remove w = (\<lambda>(h, l).
     if \<not> n_linked h w then (h, l)
     else
       let (h, l) = (case n_prev h w of
                       Some p \<Rightarrow> (set_next p (n_next h w) h, l)
                     | None \<Rightarrow> (h, l\<lparr>il_head := n_next h w\<rparr>));
           (h, l) = (case n_next h w of
                       Some x \<Rightarrow> (set_prev x (n_prev h w) h, l)
                     | None \<Rightarrow> (h, l\<lparr>il_tail := n_prev h w\<rparr>))
       in (set_linked w False h, l))"

text \<open>
  \<open>dll h p xs q\<close>: the nodes \<open>xs\<close> are linked both ways in order, between \<open>p\<close> and \<open>q\<close>. A list
  represents \<open>xs\<close> when its head and tail are the ends of such a chain.
\<close>

fun dll :: "list_nodes \<Rightarrow> ptr \<Rightarrow> node list \<Rightarrow> ptr \<Rightarrow> bool" where
  "dll h p [] q = True"
| "dll h p (x # xs) q = (n_prev h x = p \<and> n_next h x = (if xs = [] then q else hd_opt xs) \<and> n_linked h x
     \<and> dll h (Some x) xs q)"

definition il_rep :: "list_nodes \<Rightarrow> ilist \<Rightarrow> node list \<Rightarrow> bool" where
  "il_rep h l xs \<longleftrightarrow> il_head l = hd_opt xs \<and> il_tail l = last_opt xs \<and> distinct xs \<and> dll h None xs None"

lemma dll_append:
  "dll h p (xs @ ys) q =
     (dll h p xs (if ys = [] then q else hd_opt ys) \<and> dll h (if xs = [] then p else last_opt xs) ys q)"
  by (induction xs arbitrary: p) auto

lemma dll_frame:
  assumes "\<forall>x\<in>set xs. n_prev h' x = n_prev h x \<and> n_next h' x = n_next h x \<and> n_linked h' x = n_linked h x"
  shows "dll h' p xs q = dll h p xs q"
  using assms by (induction xs arbitrary: p) auto

lemmas node_simps = set_next_def set_prev_def set_linked_def

lemma dll_other [simp]:
  "a \<notin> set xs \<Longrightarrow> dll (set_next a v h) p xs q = dll h p xs q"
  "a \<notin> set xs \<Longrightarrow> dll (set_prev a v h) p xs q = dll h p xs q"
  "a \<notin> set xs \<Longrightarrow> dll (set_linked a b h) p xs q = dll h p xs q"
  by (rule dll_frame; force simp: node_simps)+

lemma dll_set_last_next:
  assumes "dll h p (xs @ [x]) q" "x \<notin> set xs"
  shows "dll (set_next x v h) p (xs @ [x]) v"
  using assms by (simp add: dll_append) (simp add: node_simps)

lemma dll_set_first_prev:
  assumes "dll h p (x # xs) q" "x \<notin> set xs"
  shows "dll (set_prev x v h) v (x # xs) q"
  using assms by simp (simp add: node_simps)

lemma last_opt_snoc: "xs \<noteq> [] \<Longrightarrow> \<exists>ys y. xs = ys @ [y]"
  by (cases xs rule: rev_cases) auto

lemma push_back_rep:
  assumes "il_rep h l xs" "w \<notin> set xs" "push_back w (h, l) = (h', l')"
  shows "il_rep h' l' (xs @ [w])"
proof (cases xs rule: rev_cases)
  case Nil
  with assms show ?thesis by (auto simp: il_rep_def push_back_def node_simps Let_def)
next
  case (snoc ys y)
  let ?h = "set_prev w (Some y) (set_next w None h)"
  have d: "dll h None (ys @ [y]) None" "y \<notin> set ys" "w \<notin> set (ys @ [y])"
    using assms(1,2) snoc by (auto simp: il_rep_def)
  then have "dll (set_next y (Some w) ?h) None (ys @ [y]) (Some w)" by (intro dll_set_last_next [where q = None]) auto
  moreover have "h' = set_linked w True (set_next y (Some w) ?h)" "l' = l\<lparr>il_tail := Some w\<rparr>"
    using assms(1,3) snoc by (auto simp: il_rep_def push_back_def Let_def)
  moreover have "dll h' (Some y) [w] None" using calculation(2) d(3) by (auto simp: node_simps)
  moreover have "dll h' None (ys @ [y]) (Some w)" using calculation(1,2) d(3) by simp
  ultimately have "dll h' None ((ys @ [y]) @ [w]) None" by (subst dll_append) simp
  then show ?thesis using assms(1,2) snoc \<open>l' = _\<close> by (auto simp: il_rep_def)
qed

lemma pop_front_rep:
  assumes "il_rep h l xs" "pop_front (h, l) = (p, h', l')"
  shows "p = hd_opt xs \<and> il_rep h' l' (tl xs) \<and> (\<forall>w. p = Some w \<longrightarrow> \<not> n_linked h' w)"
proof (cases xs)
  case Nil
  with assms show ?thesis by (auto simp: il_rep_def pop_front_def)
next
  case (Cons x ys)
  show ?thesis
  proof (cases ys)
    case Nil
    with assms Cons show ?thesis by (auto simp: il_rep_def pop_front_def Let_def node_simps)
  next
    case (Cons y zs)
    have d: "dll h (Some x) (y # zs) None" "y \<notin> set zs" "x \<notin> set (y # zs)" "il_head l = Some x"
        "n_next h x = Some y" "il_tail l = last_opt (y # zs)" "distinct zs"
      using assms(1) \<open>xs = _\<close> Cons by (auto simp: il_rep_def)
    have "dll (set_prev y None h) None (y # zs) None" by (rule dll_set_first_prev [OF d(1,2)])
    moreover have "p = Some x" "h' = set_linked x False (set_prev y None h)" "l' = l\<lparr>il_head := Some y\<rparr>"
      using assms(2) d by (auto simp: pop_front_def Let_def)
    ultimately show ?thesis using d \<open>xs = _\<close> Cons dll_other(3) [OF d(3)] by (simp add: il_rep_def) (simp add: node_simps)
  qed
qed

lemma il_remove_rep:
  assumes "il_rep h l (ys @ w # zs)" "il_remove w (h, l) = (h', l')"
  shows "il_rep h' l' (ys @ zs) \<and> \<not> n_linked h' w"
proof -
  define h1 where "h1 = (case last_opt ys of Some p \<Rightarrow> set_next p (hd_opt zs) h | None \<Rightarrow> h)"
  define h2 where "h2 = (case hd_opt zs of Some x \<Rightarrow> set_prev x (last_opt ys) h1 | None \<Rightarrow> h1)"
  have D: "distinct (ys @ w # zs)" "dll h None ys (Some w)" "dll h (Some w) zs None"
      "n_prev h w = last_opt ys" "n_next h w = hd_opt zs" "n_linked h w"
      "il_head l = hd_opt (ys @ [w])" "il_tail l = last_opt (w # zs)"
    using assms(1) by (auto simp: il_rep_def dll_append last_opt_def split: if_splits)
  have w1: "n_next h1 w = hd_opt zs" "n_prev h1 w = last_opt ys" "n_linked h1 w"
    using D by (auto simp: h1_def node_simps last_opt_Some split: option.splits)
  have h': "h' = set_linked w False h2"
      "l' = (if zs = [] then (if ys = [] then l\<lparr>il_head := hd_opt zs\<rparr> else l)\<lparr>il_tail := last_opt ys\<rparr>
             else if ys = [] then l\<lparr>il_head := hd_opt zs\<rparr> else l)"
    using assms(2) D(4-6) w1
    by (cases zs; cases "last_opt ys"; auto simp: il_remove_def h1_def h2_def Let_def)+
  have ys1: "dll h1 None ys (hd_opt zs)"
  proof (cases ys rule: rev_cases)
    case (snoc us u)
    then show ?thesis using dll_set_last_next [OF D(2) [unfolded snoc]] D(1) by (simp add: h1_def)
  qed simp
  have zs1: "dll h1 (Some w) zs None"
  proof (cases "last_opt ys")
    case (Some p)
    then have "p \<in> set ys" by (auto simp: last_opt_Some)
    then have "p \<notin> set zs" using D(1) by auto
    with Some D(3) show ?thesis by (simp add: h1_def)
  qed (use D(3) in \<open>simp add: h1_def\<close>)
  have "dll h2 None ys (hd_opt zs) \<and> dll h2 (last_opt ys) zs None"
  proof (cases zs)
    case Nil
    then show ?thesis using ys1 by (simp add: h2_def)
  next
    case (Cons x us)
    then have "x \<notin> set ys" "x \<notin> set us" using D(1) by auto
    then show ?thesis using Cons ys1 dll_set_first_prev [OF zs1 [unfolded Cons]] by (simp add: h2_def)
  qed
  moreover have "w \<notin> set ys" "w \<notin> set zs" using D(1) by auto
  ultimately have "dll h' None (ys @ zs) None"
    using h'(1) by (auto simp: dll_append)
  moreover have "\<not> n_linked h' w" by (simp add: h'(1) node_simps)
  moreover have "il_head l' = hd_opt (ys @ zs)" "il_tail l' = last_opt (ys @ zs)"
    using D(7,8) h'(2) by (auto simp: last_opt_def split: if_splits)
  ultimately show ?thesis using D(1) by (simp add: il_rep_def)
qed

lemma splice_back_rep:
  assumes "il_rep h l xs" "il_rep h o' ys" "set xs \<inter> set ys = {}" "splice_back h l o' = (h', l', o'')"
  shows "il_rep h' l' (xs @ ys) \<and> il_rep h' o'' []"
proof (cases "xs = [] \<or> ys = []")
  case True
  with assms show ?thesis by (cases ys) (auto simp: il_rep_def splice_back_def Let_def)
next
  case False
  then obtain us u y vs where xs: "xs = us @ [u]" and ys: "ys = y # vs" by (metis last_opt_snoc neq_Nil_conv)
  have d: "dll h None (us @ [u]) None" "u \<notin> set us" "dll h None (y # vs) None" "y \<notin> set vs"
      "u \<notin> set (y # vs)" "y \<notin> set (us @ [u])"
    using assms xs ys by (auto simp: il_rep_def)
  let ?h = "set_next u (Some y) h"
  have "dll ?h None (us @ [u]) (Some y)" by (rule dll_set_last_next [OF d(1,2)])
  moreover have "dll ?h None (y # vs) None" using d(3) dll_other(1) [OF d(5)] by blast
  then have "dll (set_prev y (Some u) ?h) (Some u) (y # vs) None" by (rule dll_set_first_prev [OF _ d(4)])
  moreover have "h' = set_prev y (Some u) ?h" "l' = l\<lparr>il_tail := il_tail o'\<rparr>" "o'' = o'\<lparr>il_head := None, il_tail := None\<rparr>"
    using assms xs ys by (auto simp: il_rep_def splice_back_def Let_def)
  ultimately have "dll h' None ((us @ [u]) @ y # vs) None" using d(6) by (subst dll_append) simp
  then show ?thesis using assms xs ys \<open>l' = _\<close> \<open>o'' = _\<close> by (auto simp: il_rep_def)
qed

text \<open>
  Runs of operations on one list whose nodes are in no other: the flag \<^verbatim>\<open>linked_\<close> then says exactly
  which nodes are queued, and removing a node that is not queued changes nothing.
\<close>

datatype list_cmd = Push_Back node | Pop_Front | Remove node

fun run_ilist :: "list_cmd list \<Rightarrow> list_nodes \<times> ilist \<Rightarrow> ptr list \<times> list_nodes \<times> ilist" where
  "run_ilist [] s = ([], s)"
| "run_ilist (Push_Back w # cs) s = run_ilist cs (push_back w s)"
| "run_ilist (Remove w # cs) s = run_ilist cs (il_remove w s)"
| "run_ilist (Pop_Front # cs) s =
     (case pop_front s of (p, s') \<Rightarrow> (case run_ilist cs s' of (os, s'') \<Rightarrow> (p # os, s'')))"

fun list_spec :: "list_cmd list \<Rightarrow> node list \<Rightarrow> (ptr list \<times> node list) option" where
  "list_spec [] xs = Some ([], xs)"
| "list_spec (Push_Back w # cs) xs = (if w \<in> set xs then None else list_spec cs (xs @ [w]))"
| "list_spec (Remove w # cs) xs = list_spec cs (remove1 w xs)"
| "list_spec (Pop_Front # cs) xs =
     (case list_spec cs (tl xs) of None \<Rightarrow> None | Some (os, ys) \<Rightarrow> Some (hd_opt xs # os, ys))"

definition owns :: "list_nodes \<times> ilist \<Rightarrow> node list \<Rightarrow> bool" where
  "owns s xs \<longleftrightarrow> il_rep (fst s) (snd s) xs \<and> (\<forall>w. n_linked (fst s) w \<longleftrightarrow> w \<in> set xs)"

lemma il_remove_linked: "n_linked (fst (il_remove w s)) v \<longleftrightarrow> n_linked (fst s) v \<and> v \<noteq> w"
  by (auto simp: il_remove_def node_simps Let_def split: prod.splits option.splits if_splits)

lemma owns_steps:
  assumes "owns s xs"
  shows "w \<notin> set xs \<Longrightarrow> owns (push_back w s) (xs @ [w])"
    and "owns (il_remove w s) (remove1 w xs)"
    and "fst (pop_front s) = hd_opt xs" "owns (snd (pop_front s)) (tl xs)"
proof -
  obtain h l where s: "s = (h, l)" by (cases s)
  have r: "il_rep h l xs" "\<And>w. n_linked h w \<longleftrightarrow> w \<in> set xs" using assms s by (auto simp: owns_def)
  have pl: "n_linked (fst (push_back w s)) v \<longleftrightarrow> v = w \<or> n_linked h v" for v
    by (auto simp: s push_back_def node_simps Let_def split: option.splits)
  show "owns (push_back w s) (xs @ [w])" if "w \<notin> set xs"
    using push_back_rep [OF r(1) that, of "fst (push_back w s)" "snd (push_back w s)"] pl r(2) s by (auto simp: owns_def)
  show "owns (il_remove w s) (remove1 w xs)"
  proof (cases "w \<in> set xs")
    case True
    then obtain ys zs where xs: "xs = ys @ w # zs" "w \<notin> set ys" by (metis split_list_first)
    have "il_rep (fst (il_remove w s)) (snd (il_remove w s)) (ys @ zs)"
      using il_remove_rep [OF r(1) [unfolded xs(1)], of "fst (il_remove w s)" "snd (il_remove w s)"] s by simp
    moreover have "distinct xs" using r(1) by (simp add: il_rep_def)
    ultimately show ?thesis using xs r(2) s by (auto simp: owns_def il_remove_linked remove1_append)
  next
    case False
    then show ?thesis using assms r(2) s by (simp add: il_remove_def remove1_idem)
  qed
  obtain p h' l' where p: "pop_front (h, l) = (p, h', l')" by (metis prod_cases3)
  note pr = pop_front_rep [OF r(1) p]
  show "fst (pop_front s) = hd_opt xs" using pr p s by simp
  have "n_linked h' v \<longleftrightarrow> v \<in> set (tl xs)" for v
  proof (cases xs)
    case (Cons x ys)
    then have "n_linked h' v \<longleftrightarrow> n_linked h v \<and> v \<noteq> x"
      using p r(1) by (auto simp: pop_front_def il_rep_def node_simps Let_def split: option.splits prod.splits if_splits)
    moreover have "x \<notin> set ys" using r(1) Cons by (simp add: il_rep_def)
    ultimately show ?thesis using r(2) Cons by auto
  qed (use p r in \<open>auto simp: pop_front_def il_rep_def\<close>)
  then show "owns (snd (pop_front s)) (tl xs)" using pr p s by (simp add: owns_def)
qed

text \<open>
  The doubly linked intrusive list acts as a list of nodes: a run of \<^verbatim>\<open>push_back\<close> (of nodes not
  queued at the time), \<^verbatim>\<open>pop_front\<close> and \<^verbatim>\<open>remove\<close> (from the front, the back, the middle, or of a node
  that is not queued) returns what the run on a plain list returns, and leaves links in both
  directions for exactly the nodes of that list.
\<close>

theorem intrusive_list_refines:
  assumes "owns s xs" "list_spec cs xs = Some (os, ys)"
  shows "fst (run_ilist cs s) = os \<and> owns (snd (run_ilist cs s)) ys"
  using assms
proof (induction cs xs arbitrary: s os rule: list_spec.induct)
  case (4 cs xs)
  from "4.prems" obtain os' where os': "list_spec cs (tl xs) = Some (os', ys)" "os = hd_opt xs # os'"
    by (auto split: option.splits)
  obtain p s' where p: "pop_front s = (p, s')" by (cases "pop_front s")
  with owns_steps(3,4) [OF "4.prems"(1)] have "p = hd_opt xs" "owns s' (tl xs)" by simp_all
  with "4.IH" [of s' os'] os' p show ?case by (auto split: prod.splits)
qed (auto simp: owns_steps split: if_splits)

theorem intrusive_list_refines_witness:
  "fst (run_ilist [Push_Back 1, Push_Back 2, Push_Back 3, Remove 2, Remove 2, Pop_Front, Pop_Front, Pop_Front]
      (\<lparr>n_next = (\<lambda>_. None), n_prev = (\<lambda>_. None), n_linked = (\<lambda>_. False)\<rparr>, il_init)) = [Some 1, Some 3, None]"
proof -
  let ?s = "(\<lparr>n_next = (\<lambda>_. None), n_prev = (\<lambda>_. None), n_linked = (\<lambda>_. False)\<rparr>, il_init)"
  have "owns ?s []" by (simp add: owns_def il_rep_def il_init_def)
  from intrusive_list_refines [OF this, of "[Push_Back 1, Push_Back 2, Push_Back 3, Remove 2, Remove 2, Pop_Front, Pop_Front, Pop_Front]"]
  show ?thesis by simp
qed

end
