(* ===== verification/Strand.thy ===== *)
theory Strand
  imports Intrusive "HOL-Library.Sublist" "HOL-Library.Multiset"
begin

unbundle bit_operations_syntax

text \<open>
  Strands: \<^verbatim>\<open>src/ex/detail/strand_impl.hpp\<close>, \<^verbatim>\<open>src/ex/detail/strand_service.cpp\<close>,
  \<^verbatim>\<open>ex/detail/strand_service.hpp\<close> and \<^verbatim>\<open>ex/strand.hpp\<close>. Each critical section of the source is one
  operation on \<open>strand_impl\<close> (its pending queue is the list of queued continuations; \<open>Intrusive\<close> shows
  the pointer queue to be such a list). The threads that post and the invoker coroutine are program
  counters, and \<open>strand_step\<close> interleaves them: any number of threads, any scheduling of the invoker
  by the inner executor, failing posts, and a concurrent shutdown of the service.
\<close>

type_synonym tid = nat
type_synonym cont = nat

section \<open>The critical sections\<close>

record strand_impl =
  s_pending :: "cont list"
  s_locked :: bool
  s_dispatch_thread :: "tid option"
  s_service :: bool

definition strand_fresh :: strand_impl where
  "strand_fresh = \<lparr>s_pending = [], s_locked = False, s_dispatch_thread = None, s_service = True\<rparr>"

definition strand_closed :: strand_impl where
  "strand_closed = \<lparr>s_pending = [], s_locked = True, s_dispatch_thread = None, s_service = False\<rparr>"

text \<open>Returns whether the caller must post an invoker, the strand, and what was abandoned.\<close>

definition enqueue :: "cont \<Rightarrow> strand_impl \<Rightarrow> bool \<times> strand_impl \<times> cont list" where
  "enqueue c st =
     (if s_service st then
        let st = st\<lparr>s_pending := s_pending st @ [c]\<rparr>
        in if \<not> s_locked st then (True, st\<lparr>s_locked := True\<rparr>, []) else (False, st, [])
      else (False, st, [c]))"

datatype withdrawal = alone | followed | taken

definition withdraw :: "cont \<Rightarrow> strand_impl \<Rightarrow> withdrawal \<times> strand_impl" where
  "withdraw c st =
     (if \<not> s_service st then (taken, st)
      else let st = st\<lparr>s_pending := tl (s_pending st)\<rparr>
           in if s_pending st \<noteq> [] then (followed, st) else (alone, st\<lparr>s_locked := False\<rparr>))"

definition abandon_pending :: "strand_impl \<Rightarrow> strand_impl \<times> cont list" where
  "abandon_pending st =
     (if \<not> s_service st then (st, [])
      else (st\<lparr>s_pending := [], s_locked := False\<rparr>, s_pending st))"

definition dispatch_pending_take :: "strand_impl \<Rightarrow> cont list \<times> strand_impl" where
  "dispatch_pending_take st = (s_pending st, st\<lparr>s_pending := []\<rparr>)"

definition try_unlock :: "strand_impl \<Rightarrow> bool \<times> strand_impl" where
  "try_unlock st = (if s_pending st = [] then (True, st\<lparr>s_locked := False\<rparr>) else (False, st))"

definition set_dispatch_thread :: "tid \<Rightarrow> strand_impl \<Rightarrow> strand_impl" where
  "set_dispatch_thread t st = st\<lparr>s_dispatch_thread := Some t\<rparr>"

definition clear_dispatch_thread :: "strand_impl \<Rightarrow> strand_impl" where
  "clear_dispatch_thread st = st\<lparr>s_dispatch_thread := None\<rparr>"

definition running_in_this_thread :: "tid \<Rightarrow> strand_impl \<Rightarrow> bool" where
  "running_in_this_thread t st \<longleftrightarrow> s_dispatch_thread st = Some t"

text \<open>What \<^verbatim>\<open>shutdown\<close> of the service does to each strand in its list, under both locks.\<close>

definition shutdown_impl :: "strand_impl \<Rightarrow> strand_impl \<times> cont list" where
  "shutdown_impl st = (st\<lparr>s_locked := True, s_service := False, s_pending := []\<rparr>, s_pending st)"

section \<open>Threads\<close>

text \<open>
  Where a thread is: in user code outside the strand, in \<^verbatim>\<open>post_or_withdraw\<close> after \<^verbatim>\<open>enqueue\<close> told it
  to post an invoker, or in the invoker's loop (\<open>Inv_In c cs\<close> while it resumes \<open>c\<close> with \<open>cs\<close> left of the
  batch).
\<close>

datatype pc = Idle | Post_Invoker cont | Withdraw cont | Post_Again | Abandon_Pending
  | Inv_Set | Inv_Take | Inv_Batch "cont list" | Inv_In cont "cont list" | Inv_Try | Inv_Clear

record strand_sys =
  y_strand :: strand_impl
  y_pc :: "tid \<Rightarrow> pc"
  y_posted :: nat
  y_pushed :: "cont list"
  y_log :: "cont list"
  y_dropped :: "cont list"
  y_refused :: "cont list"

definition strand_sys_init :: strand_sys where
  "strand_sys_init = \<lparr>y_strand = strand_fresh, y_pc = (\<lambda>_. Idle), y_posted = 0, y_pushed = [], y_log = [],
     y_dropped = [], y_refused = []\<rparr>"

definition go :: "tid \<Rightarrow> pc \<Rightarrow> strand_sys \<Rightarrow> strand_sys" where
  "go t p y = y\<lparr>y_pc := (y_pc y)(t := p)\<rparr>"

fun in_user_code :: "pc \<Rightarrow> bool" where
  "in_user_code Idle = True"
| "in_user_code (Inv_In c cs) = True"
| "in_user_code _ = False"

inductive strand_step :: "strand_sys \<Rightarrow> strand_sys \<Rightarrow> bool" where
  post_queued: "\<lbrakk>in_user_code (y_pc y t); s_service (y_strand y); enqueue c (y_strand y) = (False, st, [])\<rbrakk>
    \<Longrightarrow> strand_step y (y\<lparr>y_strand := st, y_pushed := y_pushed y @ [c]\<rparr>)"
| post_refused: "\<lbrakk>in_user_code (y_pc y t); enqueue c (y_strand y) = (False, st, [c])\<rbrakk>
    \<Longrightarrow> strand_step y (y\<lparr>y_strand := st, y_refused := y_refused y @ [c]\<rparr>)"
| post_first: "\<lbrakk>y_pc y t = Idle; enqueue c (y_strand y) = (True, st, [])\<rbrakk>
    \<Longrightarrow> strand_step y (go t (Post_Invoker c) (y\<lparr>y_strand := st, y_pushed := y_pushed y @ [c]\<rparr>))"
| invoker_posted: "y_pc y t = Post_Invoker c \<Longrightarrow> strand_step y (go t Idle (y\<lparr>y_posted := y_posted y + 1\<rparr>))"
| invoker_throws: "y_pc y t = Post_Invoker c \<Longrightarrow> strand_step y (go t (Withdraw c) y)"
| withdraw_taken: "\<lbrakk>y_pc y t = Withdraw c; withdraw c (y_strand y) = (taken, st)\<rbrakk>
    \<Longrightarrow> strand_step y (go t Idle (y\<lparr>y_strand := st\<rparr>))"
| withdraw_alone: "\<lbrakk>y_pc y t = Withdraw c; withdraw c (y_strand y) = (alone, st)\<rbrakk>
    \<Longrightarrow> strand_step y (go t Idle (y\<lparr>y_strand := st, y_dropped := hd (s_pending (y_strand y)) # y_dropped y\<rparr>))"
| withdraw_followed: "\<lbrakk>y_pc y t = Withdraw c; withdraw c (y_strand y) = (followed, st)\<rbrakk>
    \<Longrightarrow> strand_step y (go t Post_Again (y\<lparr>y_strand := st, y_dropped := hd (s_pending (y_strand y)) # y_dropped y\<rparr>))"
| again_posted: "y_pc y t = Post_Again \<Longrightarrow> strand_step y (go t Idle (y\<lparr>y_posted := y_posted y + 1\<rparr>))"
| again_throws: "y_pc y t = Post_Again \<Longrightarrow> strand_step y (go t Abandon_Pending y)"
| abandon_pending: "\<lbrakk>y_pc y t = Abandon_Pending; abandon_pending (y_strand y) = (st, cs)\<rbrakk>
    \<Longrightarrow> strand_step y (go t Idle (y\<lparr>y_strand := st, y_dropped := cs @ y_dropped y\<rparr>))"
| invoker_starts: "\<lbrakk>y_pc y t = Idle; 0 < y_posted y\<rbrakk>
    \<Longrightarrow> strand_step y (go t Inv_Set (y\<lparr>y_posted := y_posted y - 1\<rparr>))"
| invoker_set: "y_pc y t = Inv_Set \<Longrightarrow> strand_step y (go t Inv_Take (y\<lparr>y_strand := set_dispatch_thread t (y_strand y)\<rparr>))"
| invoker_take: "\<lbrakk>y_pc y t = Inv_Take; dispatch_pending_take (y_strand y) = (batch, st)\<rbrakk>
    \<Longrightarrow> strand_step y (go t (Inv_Batch batch) (y\<lparr>y_strand := st\<rparr>))"
| invoker_resume: "y_pc y t = Inv_Batch (c # cs)
    \<Longrightarrow> strand_step y (go t (Inv_In c cs) (y\<lparr>y_log := y_log y @ [c]\<rparr>))"
| invoker_resumed: "y_pc y t = Inv_In c cs \<Longrightarrow> strand_step y (go t (Inv_Batch cs) y)"
| invoker_done: "y_pc y t = Inv_Batch [] \<Longrightarrow> strand_step y (go t Inv_Try y)"
| invoker_more: "\<lbrakk>y_pc y t = Inv_Try; try_unlock (y_strand y) = (False, st)\<rbrakk>
    \<Longrightarrow> strand_step y (go t Inv_Set (y\<lparr>y_strand := st\<rparr>))"
| invoker_unlock: "\<lbrakk>y_pc y t = Inv_Try; try_unlock (y_strand y) = (True, st)\<rbrakk>
    \<Longrightarrow> strand_step y (go t Inv_Clear (y\<lparr>y_strand := st\<rparr>))"
| invoker_clear: "y_pc y t = Inv_Clear \<Longrightarrow> strand_step y (go t Idle (y\<lparr>y_strand := clear_dispatch_thread (y_strand y)\<rparr>))"
| service_shutdown: "\<lbrakk>s_service (y_strand y); shutdown_impl (y_strand y) = (st, cs)\<rbrakk>
    \<Longrightarrow> strand_step y (y\<lparr>y_strand := st, y_dropped := cs @ y_dropped y\<rparr>)"

inductive strand_reach :: "strand_sys \<Rightarrow> bool" where
  start: "strand_reach strand_sys_init"
| step: "strand_reach y \<Longrightarrow> strand_step y y' \<Longrightarrow> strand_reach y'"

text \<open>
  \<^verbatim>\<open>post\<close> and \<^verbatim>\<open>dispatch\<close> of \<^verbatim>\<open>strand_service\<close> as a caller sees them: the handle to transfer to (\<open>None\<close>
  is \<^verbatim>\<open>noop_coroutine\<close>), whether an invoker must be posted, the strand, what was abandoned.
\<close>

definition strand_dispatch :: "tid \<Rightarrow> cont \<Rightarrow> strand_impl \<Rightarrow> cont option \<times> bool \<times> strand_impl \<times> cont list" where
  "strand_dispatch t c st =
     (if running_in_this_thread t st then (Some c, False, st, []) else (None, enqueue c st))"

definition strand_post :: "cont \<Rightarrow> strand_impl \<Rightarrow> bool \<times> strand_impl \<times> cont list" where
  "strand_post c st = enqueue c st"

text \<open>The steps as a program, to run a schedule: an action that is not enabled does nothing.\<close>

datatype action = A_Post tid cont | A_Ok tid | A_Throw tid | A_Start tid | A_Run tid | A_Shutdown

fun exec :: "action \<Rightarrow> strand_sys \<Rightarrow> strand_sys" where
  "exec (A_Post t c) y =
     (if in_user_code (y_pc y t) then
        (case enqueue c (y_strand y) of (needs, st, ab) \<Rightarrow>
           if needs then (if y_pc y t = Idle then go t (Post_Invoker c) (y\<lparr>y_strand := st, y_pushed := y_pushed y @ [c]\<rparr>) else y)
           else if ab = [] then y\<lparr>y_strand := st, y_pushed := y_pushed y @ [c]\<rparr>
           else y\<lparr>y_strand := st, y_refused := y_refused y @ [c]\<rparr>)
      else y)"
| "exec (A_Ok t) y =
     (case y_pc y t of
        Post_Invoker c \<Rightarrow> go t Idle (y\<lparr>y_posted := y_posted y + 1\<rparr>)
      | Post_Again \<Rightarrow> go t Idle (y\<lparr>y_posted := y_posted y + 1\<rparr>)
      | _ \<Rightarrow> y)"
| "exec (A_Throw t) y =
     (case y_pc y t of
        Post_Invoker c \<Rightarrow> go t (Withdraw c) y
      | Post_Again \<Rightarrow> go t Abandon_Pending y
      | _ \<Rightarrow> y)"
| "exec (A_Start t) y =
     (if y_pc y t = Idle \<and> 0 < y_posted y then go t Inv_Set (y\<lparr>y_posted := y_posted y - 1\<rparr>) else y)"
| "exec (A_Run t) y =
     (case y_pc y t of
        Withdraw c \<Rightarrow> (case withdraw c (y_strand y) of
            (taken, st) \<Rightarrow> go t Idle (y\<lparr>y_strand := st\<rparr>)
          | (alone, st) \<Rightarrow> go t Idle (y\<lparr>y_strand := st, y_dropped := hd (s_pending (y_strand y)) # y_dropped y\<rparr>)
          | (followed, st) \<Rightarrow> go t Post_Again (y\<lparr>y_strand := st, y_dropped := hd (s_pending (y_strand y)) # y_dropped y\<rparr>))
      | Abandon_Pending \<Rightarrow> (case abandon_pending (y_strand y) of (st, cs) \<Rightarrow>
            go t Idle (y\<lparr>y_strand := st, y_dropped := cs @ y_dropped y\<rparr>))
      | Inv_Set \<Rightarrow> go t Inv_Take (y\<lparr>y_strand := set_dispatch_thread t (y_strand y)\<rparr>)
      | Inv_Take \<Rightarrow> (case dispatch_pending_take (y_strand y) of (b, st) \<Rightarrow> go t (Inv_Batch b) (y\<lparr>y_strand := st\<rparr>))
      | Inv_Batch [] \<Rightarrow> go t Inv_Try y
      | Inv_Batch (c # cs) \<Rightarrow> go t (Inv_In c cs) (y\<lparr>y_log := y_log y @ [c]\<rparr>)
      | Inv_In c cs \<Rightarrow> go t (Inv_Batch cs) y
      | Inv_Try \<Rightarrow> (case try_unlock (y_strand y) of (ok, st) \<Rightarrow>
            go t (if ok then Inv_Clear else Inv_Set) (y\<lparr>y_strand := st\<rparr>))
      | Inv_Clear \<Rightarrow> go t Idle (y\<lparr>y_strand := clear_dispatch_thread (y_strand y)\<rparr>)
      | _ \<Rightarrow> y)"
| "exec A_Shutdown y =
     (if s_service (y_strand y) then
        (case shutdown_impl (y_strand y) of (st, cs) \<Rightarrow> y\<lparr>y_strand := st, y_dropped := cs @ y_dropped y\<rparr>)
      else y)"

section \<open>The invariant\<close>

text \<open>
  The right to run the strand is one token: a poster that must post an invoker holds it, or an
  invoker in the inner executor's queue, or an invoker that runs.
\<close>

fun holds :: "pc \<Rightarrow> bool" where
  "holds Idle = False"
| "holds Inv_Clear = False"
| "holds _ = True"

fun batch :: "pc \<Rightarrow> cont list" where
  "batch (Inv_Batch cs) = cs"
| "batch (Inv_In c cs) = cs"
| "batch _ = []"

fun posting :: "pc \<Rightarrow> bool" where
  "posting (Post_Invoker c) = True"
| "posting (Withdraw c) = True"
| "posting Post_Again = True"
| "posting _ = False"

definition one_holder :: "strand_sys \<Rightarrow> bool" where
  "one_holder y \<longleftrightarrow> (\<forall>t u. holds (y_pc y t) \<longrightarrow> holds (y_pc y u) \<longrightarrow> t = u) \<and> y_posted y \<le> 1
     \<and> ((\<exists>t. holds (y_pc y t)) \<longrightarrow> y_posted y = 0)"

definition held :: "strand_sys \<Rightarrow> bool" where
  "held y \<longleftrightarrow> y_posted y = 1 \<or> (\<exists>t. holds (y_pc y t))"

definition locked_iff_held :: "strand_sys \<Rightarrow> bool" where
  "locked_iff_held y \<longleftrightarrow>
     (if s_service (y_strand y) then s_locked (y_strand y) = held y \<and> (s_pending (y_strand y) \<noteq> [] \<longrightarrow> held y)
        \<and> (\<forall>t. posting (y_pc y t) \<longrightarrow> s_pending (y_strand y) \<noteq> [])
      else s_pending (y_strand y) = [])"

definition in_order :: "strand_sys \<Rightarrow> bool" where
  "in_order y \<longleftrightarrow> (\<forall>t. subseq (y_log y @ batch (y_pc y t) @ s_pending (y_strand y)) (y_pushed y))"

definition strand_inv :: "strand_sys \<Rightarrow> bool" where
  "strand_inv y \<longleftrightarrow> one_holder y \<and> locked_iff_held y \<and> in_order y"

lemma strand_inv_init: "strand_inv strand_sys_init"
  by (simp add: strand_inv_def one_holder_def locked_iff_held_def held_def in_order_def strand_sys_init_def strand_fresh_def)

lemmas section_defs = enqueue_def withdraw_def abandon_pending_def dispatch_pending_take_def try_unlock_def
  set_dispatch_thread_def clear_dispatch_thread_def shutdown_impl_def Let_def

text \<open>How a step moves the token.\<close>

inductive token :: "strand_sys \<Rightarrow> strand_sys \<Rightarrow> bool" where
  stays: "y_pc y' = y_pc y \<Longrightarrow> y_posted y' = y_posted y \<Longrightarrow> token y y'"
| kept: "holds (y_pc y t) \<Longrightarrow> y_pc y1 = y_pc y \<Longrightarrow> y_posted y1 = y_posted y \<Longrightarrow> token y (go t p y1)"
| posted: "holds (y_pc y t) \<Longrightarrow> \<not> holds p \<Longrightarrow> y_pc y1 = y_pc y \<Longrightarrow> y_posted y1 = y_posted y + 1 \<Longrightarrow> token y (go t p y1)"
| started: "0 < y_posted y \<Longrightarrow> y_pc y1 = y_pc y \<Longrightarrow> y_posted y1 = y_posted y - 1 \<Longrightarrow> holds p \<Longrightarrow> token y (go t p y1)"
| acquired: "s_service (y_strand y) \<Longrightarrow> \<not> s_locked (y_strand y) \<Longrightarrow> y_pc y1 = y_pc y \<Longrightarrow> y_posted y1 = y_posted y
    \<Longrightarrow> holds p \<Longrightarrow> token y (go t p y1)"
| elsewhere: "\<not> holds (y_pc y t) \<Longrightarrow> \<not> holds p \<Longrightarrow> y_pc y1 = y_pc y \<Longrightarrow> y_posted y1 = y_posted y \<Longrightarrow> token y (go t p y1)"

lemma step_token: "strand_step y y' \<Longrightarrow> token y y'"
proof (induction rule: strand_step.induct)
  case (post_first y t c st)
  then have "s_service (y_strand y)" "\<not> s_locked (y_strand y)" by (auto simp: enqueue_def Let_def split: if_splits)
  then show ?case by (intro acquired) simp_all
next
  case (invoker_posted y t c)
  then show ?case by (intro posted) simp_all
next
  case (again_posted y t)
  then show ?case by (intro posted) simp_all
next
  case (invoker_starts y t)
  then show ?case by (intro started) simp_all
next
  case (invoker_clear y t)
  then show ?case by (intro elsewhere) simp_all
qed (rule stays kept; simp; fail)+

lemma not_holding: "\<not> holds p \<Longrightarrow> \<not> posting p \<and> batch p = []"
  by (cases p) simp_all

lemma others_idle: "one_holder y \<Longrightarrow> holds (y_pc y t) \<Longrightarrow> u \<noteq> t \<Longrightarrow> \<not> holds (y_pc y u)"
  by (auto simp: one_holder_def)

lemma one_holder_token:
  assumes "token y y'" "one_holder y" "locked_iff_held y"
  shows "one_holder y'"
  using assms
proof cases
  case (acquired y1 p t)
  then have "\<not> held y" using assms(3) by (simp add: locked_iff_held_def)
  then show ?thesis using acquired assms(2) by (auto simp: one_holder_def held_def go_def)
qed (use assms(2) in \<open>auto simp: one_holder_def go_def split: if_splits\<close>)

lemma held_kept:
  assumes "one_holder y" "holds (y_pc y t)" "y_pc y1 = y_pc y" "y_posted y1 = y_posted y"
  shows "held (go t p y1) = holds p"
  using assms by (auto simp: one_holder_def held_def go_def)

lemma locked_kept:
  assumes "one_holder y" "holds (y_pc y t)" "y_pc y1 = y_pc y" "y_posted y1 = y_posted y"
  shows "locked_iff_held (go t p y1) \<longleftrightarrow>
    (if s_service (y_strand y1) then s_locked (y_strand y1) = holds p \<and> (s_pending (y_strand y1) \<noteq> [] \<longrightarrow> holds p)
       \<and> (posting p \<longrightarrow> s_pending (y_strand y1) \<noteq> [])
     else s_pending (y_strand y1) = [])"
proof -
  have "posting (y_pc (go t p y1) u) \<longleftrightarrow> u = t \<and> posting p" for u
    using others_idle [OF assms(1,2), of u] not_holding [of "y_pc y u"] assms(3) by (auto simp: go_def)
  moreover have "y_strand (go t p y1) = y_strand y1" by (simp add: go_def)
  ultimately show ?thesis using held_kept [OF assms, of p] by (simp add: locked_iff_held_def)
qed

lemma holder_facts:
  assumes "locked_iff_held y" "y_pc y t = p" "holds p"
  shows "held y" "s_service (y_strand y) \<Longrightarrow> s_locked (y_strand y)"
    "s_service (y_strand y) \<Longrightarrow> posting p \<Longrightarrow> s_pending (y_strand y) \<noteq> []"
    "\<not> s_service (y_strand y) \<Longrightarrow> s_pending (y_strand y) = []"
  using assms by (auto simp: locked_iff_held_def held_def split: if_splits)

lemma holder_not_posted: "one_holder y \<Longrightarrow> y_pc y t = p \<Longrightarrow> holds p \<Longrightarrow> y_posted y = 0"
  by (auto simp: one_holder_def)

lemma locked_others:
  assumes "locked_iff_held y" "one_holder y" "y_pc y' = (y_pc y)(t := p)" "\<not> posting p" "held y' = held y"
    and "s_service (y_strand y') = s_service (y_strand y)" "s_locked (y_strand y') = s_locked (y_strand y)"
      "s_pending (y_strand y') = s_pending (y_strand y)"
  shows "locked_iff_held y'"
  using assms by (auto simp: locked_iff_held_def)

lemma locked_holder:
  assumes "y_pc y t = q" "one_holder y" "locked_iff_held y" "holds q" "y_pc y1 = y_pc y" "y_posted y1 = y_posted y"
    and "\<lbrakk>s_service (y_strand y); s_locked (y_strand y); posting q \<Longrightarrow> s_pending (y_strand y) \<noteq> []\<rbrakk> \<Longrightarrow>
      (if s_service (y_strand y1) then s_locked (y_strand y1) = holds p \<and> (s_pending (y_strand y1) \<noteq> [] \<longrightarrow> holds p)
         \<and> (posting p \<longrightarrow> s_pending (y_strand y1) \<noteq> [])
       else s_pending (y_strand y1) = [])"
    and "\<lbrakk>\<not> s_service (y_strand y); s_pending (y_strand y) = []\<rbrakk> \<Longrightarrow>
      \<not> s_service (y_strand y1) \<and> s_pending (y_strand y1) = []"
  shows "locked_iff_held (go t p y1)"
proof -
  have "holds (y_pc y t)" using assms(1,4) by simp
  note lk = locked_kept [OF assms(2) this assms(5,6), of p] and hf = holder_facts [OF assms(3,1,4)]
  show ?thesis
  proof (cases "s_service (y_strand y)")
    case True
    show ?thesis unfolding lk by (rule assms(7) [OF True hf(2) [OF True] hf(3) [OF True]])
  next
    case False
    from assms(8) [OF False hf(4) [OF False]] show ?thesis unfolding lk by simp
  qed
qed

lemma locked_step:
  assumes "strand_step y y'" "one_holder y" "locked_iff_held y"
  shows "locked_iff_held y'"
  using assms
proof (induction rule: strand_step.induct)
  case (post_first y t c st)
  then have "s_service (y_strand y)" "\<not> s_locked (y_strand y)" by (auto simp: enqueue_def Let_def split: if_splits)
  then show ?case using post_first
    by (auto simp: locked_iff_held_def held_def go_def enqueue_def Let_def)
next
  case (invoker_posted y t c)
  show ?case by (rule locked_others [OF invoker_posted(3,2), of _ t Idle])
    (use holder_not_posted [OF invoker_posted(2,1)] holder_facts(1) [OF invoker_posted(3,1)] in \<open>auto simp: go_def held_def\<close>)
next
  case (again_posted y t)
  show ?case by (rule locked_others [OF again_posted(3,2), of _ t Idle])
    (use holder_not_posted [OF again_posted(2,1)] holder_facts(1) [OF again_posted(3,1)] in \<open>auto simp: go_def held_def\<close>)
next
  case (invoker_starts y t)
  show ?case by (rule locked_others [OF invoker_starts(4,3), of _ t Inv_Set])
    (use invoker_starts in \<open>auto simp: go_def held_def one_holder_def\<close>)
next
  case (invoker_clear y t)
  have "holds (((y_pc y)(t := Idle)) u) = holds (y_pc y u)" for u using invoker_clear(1) by simp
  then have "held (go t Idle (y\<lparr>y_strand := clear_dispatch_thread (y_strand y)\<rparr>)) = held y"
    by (simp add: held_def go_def)
  from locked_others [OF invoker_clear(3,2) _ _ this, of t Idle] show ?case
    by (simp add: go_def clear_dispatch_thread_def)
next
  case (service_shutdown y st cs)
  then show ?case by (auto simp: locked_iff_held_def shutdown_impl_def)
next
  case (post_queued y t c st)
  then show ?case by (auto simp: locked_iff_held_def held_def enqueue_def Let_def split: if_splits)
next
  case (post_refused y t c st)
  then show ?case by (auto simp: locked_iff_held_def held_def enqueue_def Let_def split: if_splits)
qed (rule locked_holder, assumption, assumption, assumption; auto simp: section_defs split: if_splits; fail)+

text \<open>Work is resumed in the order it was queued.\<close>

lemma in_order_kept:
  assumes "one_holder y" "in_order y" "holds (y_pc y t)" "y_pc y1 = y_pc y"
    and "subseq (y_log y1 @ batch p @ s_pending (y_strand y1)) (y_pushed y1)"
  shows "in_order (go t p y1)"
proof -
  have "subseq (y_log y1 @ s_pending (y_strand y1)) (y_log y1 @ batch p @ s_pending (y_strand y1))"
    by (intro list_emb_append_mono list_emb_append2 subseq_order.order_refl)
  moreover have "batch (y_pc y u) = []" if "u \<noteq> t" for u
    using others_idle [OF assms(1,3) that] not_holding by blast
  ultimately show ?thesis using assms(4,5) subseq_order.order_trans
    by (fastforce simp: in_order_def go_def)
qed

lemma in_order_push:
  assumes "in_order y" "y_log y' = y_log y" "y_pushed y' = y_pushed y @ [c]"
    "s_pending (y_strand y') = s_pending (y_strand y) @ [c]" "\<And>u. batch (y_pc y' u) = batch (y_pc y u)"
  shows "in_order y'"
proof -
  have "subseq ((y_log y @ batch (y_pc y u) @ s_pending (y_strand y)) @ [c]) (y_pushed y @ [c])" for u
    using assms(1) unfolding in_order_def by (intro list_emb_append_mono) auto
  with assms(2-5) show ?thesis by (simp add: in_order_def)
qed

lemma in_order_drop:
  assumes "in_order y" "y_log y' = y_log y" "y_pushed y' = y_pushed y"
    "subseq (s_pending (y_strand y')) (s_pending (y_strand y))" "\<And>u. batch (y_pc y' u) = batch (y_pc y u)"
  shows "in_order y'"
  unfolding in_order_def assms(2,3,5)
proof
  fix u
  have "subseq (y_log y @ batch (y_pc y u) @ s_pending (y_strand y')) (y_log y @ batch (y_pc y u) @ s_pending (y_strand y))"
    by (intro list_emb_append_mono assms(4) subseq_order.order_refl)
  with assms(1) show "subseq (y_log y @ batch (y_pc y u) @ s_pending (y_strand y')) (y_pushed y)"
    unfolding in_order_def using subseq_order.order_trans by blast
qed

lemma subseq_tl: "subseq (tl xs) xs"
  by (cases xs) auto

lemma in_order_step:
  assumes "strand_step y y'" "one_holder y" "in_order y"
  shows "in_order y'"
  using assms(1)
proof cases
  case (post_queued t c st)
  then show ?thesis by (intro in_order_push [OF assms(3)]) (auto simp: enqueue_def Let_def split: if_splits)
next
  case (post_refused t c st)
  then show ?thesis by (intro in_order_drop [OF assms(3)]) (auto simp: enqueue_def Let_def split: if_splits)
next
  case (post_first t c st)
  then show ?thesis by (intro in_order_push [OF assms(3)]) (auto simp: go_def enqueue_def Let_def split: if_splits)
next
  case (invoker_take t b st)
  have "subseq (y_log y @ batch (y_pc y t) @ s_pending (y_strand y)) (y_pushed y)" using assms(3) by (simp add: in_order_def)
  then show ?thesis unfolding invoker_take(1) using invoker_take
    by (intro in_order_kept [OF assms(2,3)]) (auto simp: dispatch_pending_take_def)
next
  case (invoker_resume t c cs)
  have "subseq (y_log y @ batch (y_pc y t) @ s_pending (y_strand y)) (y_pushed y)" using assms(3) by (simp add: in_order_def)
  then show ?thesis unfolding invoker_resume(1) using invoker_resume
    by (intro in_order_kept [OF assms(2,3)]) simp_all
qed (rule in_order_drop [OF assms(3)]; auto simp: go_def section_defs subseq_tl split: if_splits; fail)+

lemma strand_inv_reach: "strand_reach y \<Longrightarrow> strand_inv y"
proof (induction rule: strand_reach.induct)
  case (step y y')
  then show ?case unfolding strand_inv_def
    using one_holder_token [OF step_token] locked_step in_order_step by blast
qed (rule strand_inv_init)

text \<open>Every queued continuation is in exactly one place.\<close>

definition accounted :: "strand_sys \<Rightarrow> bool" where
  "accounted y \<longleftrightarrow> (\<exists>b. (\<forall>t. holds (y_pc y t) \<longrightarrow> batch (y_pc y t) = b) \<and> (b = [] \<or> (\<exists>t. holds (y_pc y t)))
     \<and> mset (y_pushed y) = mset (y_log y) + mset b + mset (s_pending (y_strand y)) + mset (y_dropped y))"

lemma accounted_holder:
  assumes "y_pc y t = q" "holds q" "one_holder y"
  shows "accounted y \<longleftrightarrow> mset (y_pushed y) = mset (y_log y) + mset (batch q) + mset (s_pending (y_strand y)) + mset (y_dropped y)"
  unfolding accounted_def using assms others_idle [OF assms(3), of t] by metis

lemma accounted_go:
  assumes "y_pc y t = q" "holds q" "one_holder y" "accounted y" "y_pc y1 = y_pc y"
    and "mset (y_pushed y) = mset (y_log y) + mset (batch q) + mset (s_pending (y_strand y)) + mset (y_dropped y) \<Longrightarrow>
      mset (y_pushed y1) = mset (y_log y1) + mset (batch p) + mset (s_pending (y_strand y1)) + mset (y_dropped y1)"
  shows "accounted (go t p y1)"
proof -
  have "\<not> holds (y_pc y1 u)" if "u \<noteq> t" for u
    using others_idle [OF assms(3), of t u] assms(1,2,5) that by simp
  moreover have "batch p = [] \<or> holds p" using not_holding by auto
  moreover have "mset (y_pushed y1) = mset (y_log y1) + mset (batch p) + mset (s_pending (y_strand y1)) + mset (y_dropped y1)"
    using assms(4,6) accounted_holder [OF assms(1-3)] by blast
  ultimately show ?thesis unfolding accounted_def by (intro exI [of _ "batch p"]) (auto simp: go_def)
qed

lemma accounted_same:
  assumes "accounted y" "\<And>u. holds (y_pc y' u) \<Longrightarrow> holds (y_pc y u) \<or> batch (y_pc y' u) = []"
    "\<And>u. holds (y_pc y u) \<Longrightarrow> y_pc y' u = y_pc y u" "\<not> (\<exists>t. holds (y_pc y t)) \<or> (\<forall>u. holds (y_pc y' u) = holds (y_pc y u))"
    "mset (y_pushed y') + mset (s_pending (y_strand y)) + mset (y_dropped y) = mset (y_pushed y) + mset (s_pending (y_strand y')) + mset (y_dropped y')"
    "y_log y' = y_log y"
  shows "accounted y'"
proof -
  obtain b where b: "\<forall>t. holds (y_pc y t) \<longrightarrow> batch (y_pc y t) = b" "b = [] \<or> (\<exists>t. holds (y_pc y t))"
    "mset (y_pushed y) = mset (y_log y) + mset b + mset (s_pending (y_strand y)) + mset (y_dropped y)"
    using assms(1) by (auto simp: accounted_def)
  have "mset (y_pushed y') = mset (y_log y') + mset b + mset (s_pending (y_strand y')) + mset (y_dropped y')"
    using b(3) assms(5,6) by (auto simp: ac_simps)
  moreover have "\<forall>t. holds (y_pc y' t) \<longrightarrow> batch (y_pc y' t) = b" using b(1,2) assms(2,3,4) by metis
  moreover have "b = [] \<or> (\<exists>t. holds (y_pc y' t))" using b(2) assms(3) by metis
  ultimately show ?thesis unfolding accounted_def by blast
qed

lemma accounted_step:
  assumes "strand_step y y'" "accounted y" "one_holder y" "locked_iff_held y"
  shows "accounted y'"
  using assms
proof (induction rule: strand_step.induct)
  case (post_queued y t c st)
  show ?case by (rule accounted_same [OF post_queued(4)])
    (use post_queued in \<open>auto simp: enqueue_def Let_def split: if_splits\<close>)
next
  case (post_refused y t c st)
  show ?case by (rule accounted_same [OF post_refused(3)])
    (use post_refused in \<open>auto simp: enqueue_def Let_def split: if_splits\<close>)
next
  case (post_first y t c st)
  then have "s_service (y_strand y)" "\<not> s_locked (y_strand y)" by (auto simp: enqueue_def Let_def split: if_splits)
  with post_first(5) have "\<not> (\<exists>t. holds (y_pc y t))" by (simp add: locked_iff_held_def held_def)
  then show ?case by (intro accounted_same [OF post_first(3)])
    (use post_first in \<open>auto simp: go_def enqueue_def Let_def split: if_splits\<close>)
next
  case (invoker_starts y t)
  then have "\<not> (\<exists>t. holds (y_pc y t))" by (auto simp: one_holder_def)
  then show ?case by (intro accounted_same [OF invoker_starts(3)]) (auto simp: go_def)
next
  case (invoker_clear y t)
  show ?case by (rule accounted_same [OF invoker_clear(2)])
    (use invoker_clear(1) in \<open>auto simp: go_def clear_dispatch_thread_def split: if_splits\<close>)
next
  case (service_shutdown y st cs)
  show ?case by (rule accounted_same [OF service_shutdown(3)]) (use service_shutdown in \<open>auto simp: shutdown_impl_def\<close>)
next
  case (withdraw_alone y t c st)
  then have "s_pending (y_strand y) \<noteq> []"
    using holder_facts(3) [OF withdraw_alone(5,1)] by (auto simp: withdraw_def Let_def split: if_splits)
  then have "mset (s_pending (y_strand y)) = add_mset (hd (s_pending (y_strand y))) (mset (tl (s_pending (y_strand y))))"
    by (cases "s_pending (y_strand y)") simp_all
  then show ?case by (intro accounted_go [OF withdraw_alone(1) _ withdraw_alone(4,3)])
    (use withdraw_alone in \<open>auto simp: withdraw_def Let_def split: if_splits\<close>)
next
  case (withdraw_followed y t c st)
  then have "s_pending (y_strand y) \<noteq> []"
    using holder_facts(3) [OF withdraw_followed(5,1)] by (auto simp: withdraw_def Let_def split: if_splits)
  then have "mset (s_pending (y_strand y)) = add_mset (hd (s_pending (y_strand y))) (mset (tl (s_pending (y_strand y))))"
    by (cases "s_pending (y_strand y)") simp_all
  then show ?case by (intro accounted_go [OF withdraw_followed(1) _ withdraw_followed(4,3)])
    (use withdraw_followed in \<open>auto simp: withdraw_def Let_def split: if_splits\<close>)
qed (rule accounted_go, assumption, simp, assumption, assumption; auto simp: section_defs split: if_splits; fail)+

lemma accounted_reach: "strand_reach y \<Longrightarrow> accounted y"
proof (induction rule: strand_reach.induct)
  case (step y y')
  then show ?case using strand_inv_reach [OF step(1)] accounted_step unfolding strand_inv_def by blast
qed (auto simp: accounted_def strand_sys_init_def strand_fresh_def)

text \<open>The thread recorded as running the strand is in the invoker's loop.\<close>

fun invoking :: "pc \<Rightarrow> bool" where
  "invoking Inv_Set = True"
| "invoking Inv_Take = True"
| "invoking (Inv_Batch cs) = True"
| "invoking (Inv_In c cs) = True"
| "invoking Inv_Try = True"
| "invoking Inv_Clear = True"
| "invoking _ = False"

lemma dispatch_thread_reach: "strand_reach y \<Longrightarrow> s_dispatch_thread (y_strand y) = Some t \<Longrightarrow> invoking (y_pc y t)"
proof (induction arbitrary: t rule: strand_reach.induct)
  case (step y y')
  from step(2,3,1,4) show ?case
    by (induction rule: strand_step.induct)
      (auto simp: go_def section_defs split: if_splits)
qed (simp add: strand_sys_init_def strand_fresh_def)

lemma exec_step: "exec a y = y \<or> strand_step y (exec a y)"
proof (cases a)
  case (A_Post t c)
  have "strand_step y (y\<lparr>y_refused := y_refused y @ [c]\<rparr>)" if "\<not> s_service (y_strand y)" "in_user_code (y_pc y t)"
    using post_refused [of y t c "y_strand y"] that by (simp add: enqueue_def)
  with A_Post show ?thesis
    by (auto simp: enqueue_def Let_def intro!: post_queued [of y t] post_refused [of y t] post_first split: if_splits)
next
  case (A_Run t)
  have "\<exists>w st. withdraw c (y_strand y) = (w, st)" for c by (cases "withdraw c (y_strand y)") auto
  with A_Run show ?thesis
    by (auto intro: strand_step.intros split: pc.splits list.splits prod.splits withdrawal.splits)
next
  case (A_Ok t)
  then show ?thesis using invoker_posted [of y t] again_posted [of y t] by (auto split: pc.splits)
next
  case (A_Start t)
  then show ?thesis using invoker_starts [of y t] by auto
qed (auto intro: strand_step.intros split: pc.splits prod.splits)

lemma exec_reach: "strand_reach y \<Longrightarrow> strand_reach (fold exec as y)"
proof (induction as arbitrary: y)
  case (Cons a as)
  then show ?case using exec_step [of a y] strand_reach.step by fastforce
qed simp

lemmas run_defs = go_def strand_sys_init_def strand_fresh_def section_defs

section \<open>What a strand guarantees\<close>

text \<open>
  Two schedules. In the first, thread 2 queues 7 and then, while thread 0 resumes it, queues 8. In the
  second, thread 0 has run its batch and unlocked the strand but not yet cleared the mark, when a new
  post starts a second invoker on thread 1.
\<close>

definition busy_schedule :: "action list" where
  "busy_schedule = [A_Post 2 7, A_Ok 2, A_Start 0, A_Run 0, A_Run 0, A_Run 0, A_Post 2 8]"

definition race_schedule :: "action list" where
  "race_schedule = [A_Post 2 7, A_Ok 2, A_Start 0, A_Run 0, A_Run 0, A_Run 0, A_Run 0, A_Run 0, A_Run 0,
     A_Post 2 8, A_Ok 2, A_Start 1, A_Run 1, A_Run 1, A_Run 1, A_Run 0]"

definition busy_sys :: strand_sys where
  "busy_sys = fold exec busy_schedule strand_sys_init"

lemma busy_reach: "strand_reach busy_sys"
  unfolding busy_sys_def by (rule exec_reach [OF strand_reach.start])

lemma busy_state: "y_pc busy_sys 0 = Inv_In 7 []" "s_pending (y_strand busy_sys) = [8]" "y_pushed busy_sys = [7, 8]"
    "y_log busy_sys = [7]" "s_dispatch_thread (y_strand busy_sys) = Some 0" "s_service (y_strand busy_sys)"
    "y_posted busy_sys = 0"
  by (simp_all add: busy_sys_def busy_schedule_def run_defs)

text \<open>
  C1. Coroutines resumed through a strand never run concurrently: in every reachable state of any
  number of posting threads and invokers, with failing posts and a concurrent shutdown, at most one
  thread is resuming a continuation of the strand.
\<close>

theorem strand_serializes:
  assumes "strand_reach y" "y_pc y t = Inv_In c cs" "y_pc y u = Inv_In d ds"
  shows "t = u"
  using strand_inv_reach [OF assms(1)] assms(2,3) unfolding strand_inv_def one_holder_def by (metis holds.simps(10))

theorem strand_serializes_witness: "{u. \<exists>d ds. y_pc busy_sys u = Inv_In d ds} = {0}"
  using strand_serializes [OF busy_reach busy_state(1)] busy_state(1) by blast

text \<open>
  C3. Strict FIFO: the continuations resumed so far, followed by the rest of the running batch and the
  queue, are in this order among the continuations queued so far.
\<close>

theorem strand_fifo:
  assumes "strand_reach y"
  shows "subseq (y_log y @ batch (y_pc y t) @ s_pending (y_strand y)) (y_pushed y)"
  using strand_inv_reach [OF assms] by (simp add: strand_inv_def in_order_def)

theorem strand_fifo_witness: "y_log busy_sys = [7] \<and> subseq ([7] @ [] @ [8]) (y_pushed busy_sys)"
  using strand_fifo [OF busy_reach, of 0] by (simp add: busy_state)

text \<open>
  C2. No queued work is forgotten. While anything is queued the service is alive and an invoker for the
  strand waits in the inner executor, or a thread is on its way to post one or is running one; and when
  nothing of the kind is left, every continuation ever queued was resumed exactly once or given up
  (withdrawn, or abandoned by a failed post or the shutdown) exactly once.
\<close>

theorem strand_no_lost_work:
  assumes "strand_reach y"
  shows "(s_pending (y_strand y) \<noteq> [] \<longrightarrow> s_service (y_strand y) \<and> (y_posted y = 1 \<or> (\<exists>t. holds (y_pc y t))))
    \<and> (y_posted y = 0 \<and> (\<forall>t. \<not> holds (y_pc y t)) \<longrightarrow> mset (y_pushed y) = mset (y_log y) + mset (y_dropped y))"
proof -
  have q: "s_pending (y_strand y) \<noteq> [] \<longrightarrow> s_service (y_strand y) \<and> held y"
    using strand_inv_reach [OF assms] by (auto simp: strand_inv_def locked_iff_held_def split: if_splits)
  moreover have "mset (y_pushed y) = mset (y_log y) + mset (y_dropped y)"
    if "y_posted y = 0" "\<forall>t. \<not> holds (y_pc y t)"
    using accounted_reach [OF assms] q that by (auto simp: accounted_def held_def)
  ultimately show ?thesis by (auto simp: held_def)
qed

theorem strand_no_lost_work_witness:
  "s_pending (y_strand busy_sys) \<noteq> [] \<and> (y_posted busy_sys = 1 \<or> (\<exists>t. holds (y_pc busy_sys t)))"
  using strand_no_lost_work [OF busy_reach] by (simp add: busy_state)

text \<open>
  \<^verbatim>\<open>dispatch\<close> transfers inline only inside the strand: a thread in user code for which it returns the
  continuation's own handle is the thread that is resuming a continuation of the strand.
\<close>

theorem dispatch_inline_only_inside:
  assumes "strand_reach y" "in_user_code (y_pc y t)" "fst (strand_dispatch t c (y_strand y)) = Some c"
  shows "\<exists>d ds. y_pc y t = Inv_In d ds"
proof -
  have "s_dispatch_thread (y_strand y) = Some t"
    using assms(3) by (auto simp: strand_dispatch_def running_in_this_thread_def split: if_splits)
  from dispatch_thread_reach [OF assms(1) this] assms(2) show ?thesis by (cases "y_pc y t") simp_all
qed

theorem dispatch_inline_only_inside_witness:
  "fst (strand_dispatch 0 9 (y_strand busy_sys)) = Some 9 \<and> (\<exists>d ds. y_pc busy_sys 0 = Inv_In d ds)"
proof -
  have "fst (strand_dispatch 0 9 (y_strand busy_sys)) = Some 9"
    by (simp add: strand_dispatch_def running_in_this_thread_def busy_state)
  with dispatch_inline_only_inside [OF busy_reach _ this] show ?thesis by (simp add: busy_state)
qed

text \<open>
  C39. The converse fails. The invoker unlocks the strand before it clears the mark of the running
  thread, so the clear of a finished invoker can erase the mark of the next one: there is a reachable
  state in which thread 1 is resuming a continuation of the strand and \<^verbatim>\<open>running_in_this_thread\<close> denies
  it, so that a \<^verbatim>\<open>dispatch\<close> from inside the strand queues instead of transferring.
\<close>

theorem running_mark_can_be_lost:
  "\<exists>y. strand_reach y \<and> y_pc y 1 = Inv_In 8 [] \<and> \<not> running_in_this_thread 1 (y_strand y)
     \<and> fst (strand_dispatch 1 9 (y_strand y)) = None"
proof (intro exI conjI)
  show "strand_reach (fold exec race_schedule strand_sys_init)" by (rule exec_reach [OF strand_reach.start])
  show "y_pc (fold exec race_schedule strand_sys_init) 1 = Inv_In 8 []"
    by (simp add: race_schedule_def run_defs)
  show d: "\<not> running_in_this_thread 1 (y_strand (fold exec race_schedule strand_sys_init))"
    by (simp add: race_schedule_def run_defs running_in_this_thread_def)
  then show "fst (strand_dispatch 1 9 (y_strand (fold exec race_schedule strand_sys_init))) = None"
    by (simp add: strand_dispatch_def)
qed

section \<open>The service\<close>

definition num_mutexes :: nat where "num_mutexes = 193"

text \<open>
  \<^verbatim>\<open>create_implementation\<close>: the address of the new strand and the salt pick one of the shared mutexes,
  in 64-bit arithmetic. \<open>sv_mutexes\<close> are the indices whose mutex exists, \<open>sv_impls\<close> the strands in the list.
\<close>

record strand_service =
  sv_salt :: "64 word"
  sv_mutexes :: "nat set"
  sv_impls :: "(nat \<times> nat \<times> strand_impl) list"
  sv_shutdown :: bool

definition service_init :: strand_service where
  "service_init = \<lparr>sv_salt = 0, sv_mutexes = {}, sv_impls = [], sv_shutdown = False\<rparr>"

definition mutex_index :: "64 word \<Rightarrow> 64 word \<Rightarrow> nat" where
  "mutex_index p s =
     (let idx = p + drop_bit 3 p;
          idx = idx XOR (s + 0x9e3779b9 + push_bit 6 idx + drop_bit 2 idx)
      in unat idx mod num_mutexes)"

definition create_implementation :: "nat \<Rightarrow> strand_service \<Rightarrow> strand_impl \<times> nat option \<times> strand_service" where
  "create_implementation p sv =
     (if sv_shutdown sv then (strand_closed, None, sv)
      else let s = sv_salt sv; idx = mutex_index (of_nat p) s
           in (strand_fresh, Some idx,
               sv\<lparr>sv_salt := s + 1, sv_mutexes := insert idx (sv_mutexes sv),
                  sv_impls := sv_impls sv @ [(p, idx, strand_fresh)]\<rparr>))"

definition service_shutdown :: "strand_service \<Rightarrow> strand_service \<times> (nat \<times> strand_impl) list \<times> cont list" where
  "service_shutdown sv =
     (sv\<lparr>sv_shutdown := True, sv_impls := []\<rparr>,
      map (\<lambda>(p, i, st). (p, fst (shutdown_impl st))) (sv_impls sv),
      concat (map (\<lambda>(p, i, st). snd (shutdown_impl st)) (sv_impls sv)))"

definition strand_impl_destroy :: "nat \<Rightarrow> strand_impl \<Rightarrow> strand_service \<Rightarrow> strand_service \<times> cont list" where
  "strand_impl_destroy p st sv =
     (if s_service st then sv\<lparr>sv_impls := filter (\<lambda>x. fst x \<noteq> p) (sv_impls sv)\<rparr> else sv, s_pending st)"

text \<open>
  The service's strands: each new strand of a live service is open, empty and unlocked and borrows a
  mutex that exists; \<^verbatim>\<open>shutdown\<close> closes every strand of the list, abandons exactly what was queued on
  them, strand by strand and in order, and empties the list; strands created afterwards are born closed, and on a
  closed strand every post abandons its continuation at once and asks for no invoker.
\<close>

theorem service_lifecycle:
  shows "(\<not> sv_shutdown sv \<longrightarrow> (\<exists>i sv'. create_implementation p sv = (strand_fresh, Some i, sv') \<and> i < num_mutexes
           \<and> i \<in> sv_mutexes sv' \<and> sv_impls sv' = sv_impls sv @ [(p, i, strand_fresh)]))
    \<and> (case service_shutdown sv of (sv', sts, doomed) \<Rightarrow>
         sv_impls sv' = [] \<and> doomed = concat (map (\<lambda>(p, i, st). s_pending st) (sv_impls sv))
         \<and> (\<forall>(q, st) \<in> set sts. \<not> s_service st \<and> s_pending st = [] \<and> strand_post c st = (False, st, [c]))
         \<and> create_implementation p sv' = (strand_closed, None, sv') \<and> strand_post c strand_closed = (False, strand_closed, [c]))"
proof -
  have "num_mutexes > 0" by (simp add: num_mutexes_def)
  then have "\<not> sv_shutdown sv \<longrightarrow> (\<exists>i sv'. create_implementation p sv = (strand_fresh, Some i, sv') \<and> i < num_mutexes
      \<and> i \<in> sv_mutexes sv' \<and> sv_impls sv' = sv_impls sv @ [(p, i, strand_fresh)])"
    by (simp add: create_implementation_def mutex_index_def Let_def)
  moreover have "concat (map (\<lambda>(p, i, st). snd (shutdown_impl st)) l) = concat (map (\<lambda>(p, i, st). s_pending st) l)" for l :: "(nat \<times> nat \<times> strand_impl) list"
    by (induction l) (auto simp: shutdown_impl_def)
  ultimately show ?thesis
    by (auto simp: service_shutdown_def shutdown_impl_def strand_post_def enqueue_def create_implementation_def strand_closed_def)
qed

theorem service_lifecycle_witness:
  "\<exists>i sv'. create_implementation 4096 service_init = (strand_fresh, Some i, sv') \<and> i < num_mutexes"
  using conjunct1 [OF service_lifecycle [of service_init 4096 0]] by (auto simp: service_init_def)

end
