(* ===== verification/Thread_Pool.thy ===== *)
theory Thread_Pool
  imports Intrusive
begin

text \<open>
  The thread pool of \<^verbatim>\<open>src/ex/thread_pool.cpp\<close>: lazy start of the workers, the queue under the mutex,
  the two condition variables, the count of outstanding work, \<^verbatim>\<open>join\<close> and \<^verbatim>\<open>stop\<close>. Client threads and
  workers are program counters interleaved by \<open>pool_step\<close>; a section under the mutex is one step
  (the end of \<^verbatim>\<open>on_work_finished\<close> is two, since the count is atomic and may be raised in between).
  A worker blocked on \<^verbatim>\<open>work_cv_\<close> and a thread in \<^verbatim>\<open>join\<close> blocked on \<^verbatim>\<open>done_cv_\<close> run again only when that
  condition variable is notified or when they wake spuriously. The queue is the list of queued continuations, which \<open>Intrusive\<close> shows the links of \<^verbatim>\<open>push\<close> and \<^verbatim>\<open>pop\<close> to be.
\<close>

type_synonym tid = nat
type_synonym cont = nat

section \<open>State\<close>

datatype worker_pc = W_Off | W_Check | W_Blocked | W_Run cont | W_Exit

datatype client_pc = C_Idle | C_Ensure cont | C_Push cont | C_Recheck | C_Join_Blocked | C_Join_Wait | C_Join_Threads

record pool =
  p_queue :: "cont list"
  p_outstanding :: nat
  p_stop :: bool
  p_joined :: bool
  p_started :: bool
  p_num_threads :: nat
  p_threads :: nat
  p_worker :: "nat \<Rightarrow> worker_pc"
  p_client :: "tid \<Rightarrow> client_pc"
  p_mutex :: "tid option"
  p_pushed :: "cont list"
  p_popped :: "cont list"

definition pool_init :: "nat \<Rightarrow> nat \<Rightarrow> pool" where
  "pool_init num_threads hardware_concurrency =
     \<lparr>p_queue = [], p_outstanding = 0, p_stop = False, p_joined = False, p_started = False,
      p_num_threads = (if num_threads = 0 then max hardware_concurrency 1 else num_threads),
      p_threads = 0, p_worker = (\<lambda>_. W_Off), p_client = (\<lambda>_. C_Idle), p_mutex = None, p_pushed = [], p_popped = []\<rparr>"

definition thread_name_prefix :: "string \<Rightarrow> string" where
  "thread_name_prefix prefix = take 12 prefix"

section \<open>Operations under the mutex\<close>

definition pool_push :: "cont \<Rightarrow> pool \<Rightarrow> pool" where
  "pool_push c p = p\<lparr>p_queue := p_queue p @ [c], p_pushed := p_pushed p @ [c]\<rparr>"

definition notify_all :: "pool \<Rightarrow> pool" where
  "notify_all p = p\<lparr>p_worker := (\<lambda>w. if p_worker p w = W_Blocked then W_Check else p_worker p w)\<rparr>"

definition done_notify_all :: "pool \<Rightarrow> pool" where
  "done_notify_all p = p\<lparr>p_client := (\<lambda>t. if p_client p t = C_Join_Blocked then C_Join_Wait else p_client p t)\<rparr>"

definition wake :: "nat \<Rightarrow> pool \<Rightarrow> pool" where
  "wake w p = p\<lparr>p_worker := (p_worker p)(w := W_Check)\<rparr>"

definition start_threads :: "nat \<Rightarrow> pool \<Rightarrow> pool" where
  "start_threads k p = p\<lparr>p_threads := k, p_worker := (\<lambda>w. if p_threads p \<le> w \<and> w < k then W_Check else p_worker p w)\<rparr>"

definition ensure_started :: "pool \<Rightarrow> pool" where
  "ensure_started p =
     (if p_started p \<or> p_stop p then p
      else (start_threads (p_num_threads p) p)\<lparr>p_started := True\<rparr>)"

definition on_work_started :: "pool \<Rightarrow> pool" where
  "on_work_started p = p\<lparr>p_outstanding := p_outstanding p + 1\<rparr>"

definition finish_recheck :: "pool \<Rightarrow> pool" where
  "finish_recheck p =
     (if p_outstanding p = 0 \<and> p_joined p \<and> \<not> p_stop p then notify_all (done_notify_all (p\<lparr>p_stop := True\<rparr>)) else p)"

definition pool_stop :: "pool \<Rightarrow> pool" where
  "pool_stop p = done_notify_all (notify_all (p\<lparr>p_stop := True\<rparr>))"

definition client_go :: "tid \<Rightarrow> client_pc \<Rightarrow> pool \<Rightarrow> pool" where
  "client_go t q p = p\<lparr>p_client := (p_client p)(t := q)\<rparr>"

definition worker_go :: "nat \<Rightarrow> worker_pc \<Rightarrow> pool \<Rightarrow> pool" where
  "worker_go w q p = p\<lparr>p_worker := (p_worker p)(w := q)\<rparr>"

section \<open>Steps\<close>

inductive pool_step :: "pool \<Rightarrow> pool \<Rightarrow> bool" where
  post_check_started: "\<lbrakk>p_client p t = C_Idle; p_started p\<rbrakk> \<Longrightarrow> pool_step p (client_go t (C_Push c) p)"
| post_check_stopped: "\<lbrakk>p_client p t = C_Idle; \<not> p_started p; p_mutex p = None; p_stop p\<rbrakk>
    \<Longrightarrow> pool_step p (pool_push c p)"
| post_check_ensure: "\<lbrakk>p_client p t = C_Idle; \<not> p_started p; p_mutex p = None; \<not> p_stop p\<rbrakk>
    \<Longrightarrow> pool_step p (client_go t (C_Ensure c) p)"
| post_ensure: "\<lbrakk>p_client p t = C_Ensure c; p_mutex p = None\<rbrakk>
    \<Longrightarrow> pool_step p (client_go t (C_Push c) (ensure_started p))"
| post_ensure_throws: "\<lbrakk>p_client p t = C_Ensure c; p_mutex p = None; \<not> p_started p; \<not> p_stop p;
      p_threads p \<le> k; k < p_num_threads p\<rbrakk>
    \<Longrightarrow> pool_step p (client_go t C_Idle (start_threads k p))"
| post_push_notify: "\<lbrakk>p_client p t = C_Push c; p_mutex p = None; p_worker p w = W_Blocked\<rbrakk>
    \<Longrightarrow> pool_step p (client_go t C_Idle (wake w (pool_push c p)))"
| post_push_none: "\<lbrakk>p_client p t = C_Push c; p_mutex p = None; \<forall>w. p_worker p w \<noteq> W_Blocked\<rbrakk>
    \<Longrightarrow> pool_step p (client_go t C_Idle (pool_push c p))"
| work_started: "pool_step p (on_work_started p)"
| work_finished_fast: "\<lbrakk>p_client p t = C_Idle; 1 < p_outstanding p\<rbrakk>
    \<Longrightarrow> pool_step p (p\<lparr>p_outstanding := p_outstanding p - 1\<rparr>)"
| work_finished_sub: "\<lbrakk>p_client p t = C_Idle; p_mutex p = None; 0 < p_outstanding p\<rbrakk>
    \<Longrightarrow> pool_step p (client_go t C_Recheck (p\<lparr>p_mutex := Some t, p_outstanding := p_outstanding p - 1\<rparr>))"
| work_finished_recheck: "p_client p t = C_Recheck
    \<Longrightarrow> pool_step p (client_go t C_Idle (finish_recheck p\<lparr>p_mutex := None\<rparr>))"
| join_again: "\<lbrakk>p_client p t = C_Idle; p_mutex p = None; p_joined p\<rbrakk> \<Longrightarrow> pool_step p p"
| join_now: "\<lbrakk>p_client p t = C_Idle; p_mutex p = None; \<not> p_joined p; p_outstanding p = 0\<rbrakk>
    \<Longrightarrow> pool_step p (client_go t C_Join_Threads (notify_all (p\<lparr>p_joined := True, p_stop := True\<rparr>)))"
| join_wait: "\<lbrakk>p_client p t = C_Idle; p_mutex p = None; \<not> p_joined p; p_outstanding p \<noteq> 0\<rbrakk>
    \<Longrightarrow> pool_step p (client_go t (if p_stop p then C_Join_Threads else C_Join_Blocked) (p\<lparr>p_joined := True\<rparr>))"
| join_spurious: "p_client p t = C_Join_Blocked \<Longrightarrow> pool_step p (client_go t C_Join_Wait p)"
| join_blocks_again: "\<lbrakk>p_client p t = C_Join_Wait; p_mutex p = None; \<not> p_stop p\<rbrakk>
    \<Longrightarrow> pool_step p (client_go t C_Join_Blocked p)"
| join_released: "\<lbrakk>p_client p t = C_Join_Wait; p_mutex p = None; p_stop p\<rbrakk>
    \<Longrightarrow> pool_step p (client_go t C_Join_Threads p)"
| join_returns: "\<lbrakk>p_client p t = C_Join_Threads; \<forall>w < p_threads p. p_worker p w = W_Exit\<rbrakk>
    \<Longrightarrow> pool_step p (client_go t C_Idle p)"
| stop_now: "p_mutex p = None \<Longrightarrow> pool_step p (pool_stop p)"
| worker_blocks: "\<lbrakk>p_worker p w = W_Check; p_mutex p = None; p_queue p = []; \<not> p_stop p\<rbrakk>
    \<Longrightarrow> pool_step p (worker_go w W_Blocked p)"
| worker_exits: "\<lbrakk>p_worker p w = W_Check; p_mutex p = None; p_stop p\<rbrakk> \<Longrightarrow> pool_step p (worker_go w W_Exit p)"
| worker_pops: "\<lbrakk>p_worker p w = W_Check; p_mutex p = None; \<not> p_stop p; p_queue p = c # cs\<rbrakk>
    \<Longrightarrow> pool_step p (worker_go w (W_Run c) (p\<lparr>p_queue := cs, p_popped := p_popped p @ [c]\<rparr>))"
| worker_done: "p_worker p w = W_Run c \<Longrightarrow> pool_step p (worker_go w W_Check p)"
| worker_spurious: "p_worker p w = W_Blocked \<Longrightarrow> pool_step p (worker_go w W_Check p)"

inductive pool_reach :: "pool \<Rightarrow> bool" where
  start: "pool_reach (pool_init n hw)"
| step: "pool_reach p \<Longrightarrow> pool_step p p' \<Longrightarrow> pool_reach p'"

lemmas op_defs = pool_push_def notify_all_def done_notify_all_def wake_def start_threads_def ensure_started_def on_work_started_def
  finish_recheck_def pool_stop_def client_go_def worker_go_def

section \<open>Invariants\<close>

definition fifo_inv :: "pool \<Rightarrow> bool" where
  "fifo_inv p \<longleftrightarrow> p_pushed p = p_popped p @ p_queue p"

lemma fifo_step: "pool_step p p' \<Longrightarrow> fifo_inv p \<Longrightarrow> fifo_inv p'"
  by (induction rule: pool_step.induct) (auto simp: fifo_inv_def op_defs)

definition threads_inv :: "pool \<Rightarrow> bool" where
  "threads_inv p \<longleftrightarrow> (\<forall>w. p_threads p \<le> w \<longleftrightarrow> p_worker p w = W_Off) \<and> p_threads p \<le> p_num_threads p \<and> 0 < p_num_threads p
     \<and> (p_started p \<longrightarrow> p_threads p = p_num_threads p)
     \<and> (\<forall>w. p_worker p w = W_Exit \<longrightarrow> p_stop p) \<and> (p_stop p \<longrightarrow> (\<forall>w. p_worker p w \<noteq> W_Blocked))"

lemma threads_client [simp]: "threads_inv (client_go t q p) = threads_inv p"
  by (simp add: threads_inv_def client_go_def)

lemma threads_start:
  assumes "threads_inv p" "p_threads p \<le> k" "k \<le> p_num_threads p" "\<not> p_stop p" "\<not> p_started p"
  shows "threads_inv (start_threads k p)" "k = p_num_threads p \<Longrightarrow> threads_inv (start_threads k p\<lparr>p_started := True\<rparr>)"
proof -
  have A: "p_worker p w = W_Off \<longleftrightarrow> p_threads p \<le> w" "p_worker p w \<noteq> W_Exit" for w
    using assms(1,4) by (auto simp only: threads_inv_def)
  then have W: "k \<le> w \<longleftrightarrow> p_worker (start_threads k p) w = W_Off" "p_worker (start_threads k p) w \<noteq> W_Exit" for w
    using assms(2) by (auto simp: start_threads_def)
  have R: "p_threads (start_threads k p) = k" "p_num_threads (start_threads k p) = p_num_threads p"
    "p_stop (start_threads k p) = p_stop p" "p_started (start_threads k p) = p_started p" "0 < p_num_threads p"
    using assms(1) by (simp_all add: start_threads_def threads_inv_def)
  show "threads_inv (start_threads k p)"
    unfolding threads_inv_def R(1-4) using assms(3-5) W R(5) by blast
  show "threads_inv (start_threads k p\<lparr>p_started := True\<rparr>)" if "k = p_num_threads p"
    unfolding threads_inv_def using assms(3-5) W R that by simp
qed

lemma threads_step: "pool_step p p' \<Longrightarrow> threads_inv p \<Longrightarrow> threads_inv p'"
proof (induction rule: pool_step.induct)
  case (post_ensure p t c)
  have "p_threads p \<le> p_num_threads p" using post_ensure(3) unfolding threads_inv_def by blast
  with post_ensure show ?case using threads_start(2) [of p "p_num_threads p"] by (simp add: ensure_started_def)
next
  case (post_ensure_throws p t c k)
  then show ?case using threads_start(1) [of p k] by simp
qed (auto simp: threads_inv_def op_defs split: if_splits)

text \<open>The wake-up invariant: while a worker is blocked, every queued continuation has a worker awake for it.\<close>

definition awake :: "pool \<Rightarrow> nat set" where
  "awake p = {w. p_worker p w = W_Check}"

definition wake_inv :: "pool \<Rightarrow> bool" where
  "wake_inv p \<longleftrightarrow> ((\<exists>w. p_worker p w = W_Blocked) \<longrightarrow> length (p_queue p) \<le> card (awake p))"

definition join_inv :: "pool \<Rightarrow> bool" where
  "join_inv p \<longleftrightarrow> (p_joined p \<and> p_outstanding p = 0 \<and> p_mutex p = None \<longrightarrow> p_stop p)
     \<and> (\<forall>t. p_client p t = C_Join_Threads \<longrightarrow> p_stop p)
     \<and> (\<forall>t. p_client p t = C_Join_Blocked \<longrightarrow> p_joined p \<and> \<not> p_stop p) \<and> (\<forall>t. p_client p t = C_Join_Wait \<longrightarrow> p_joined p)
     \<and> (\<forall>t. p_mutex p = Some t \<longleftrightarrow> p_client p t = C_Recheck)"

lemma join_step: "pool_step p p' \<Longrightarrow> join_inv p \<Longrightarrow> join_inv p'"
proof (induction rule: pool_step.induct)
  case (work_finished_recheck p t)
  then have "p_mutex p = Some t" "\<And>u. u \<noteq> t \<Longrightarrow> p_client p u \<noteq> C_Recheck"
    unfolding join_inv_def by (metis, metis option.inject)
  with work_finished_recheck show ?case by (auto simp: join_inv_def op_defs split: if_splits)
qed (auto simp: join_inv_def op_defs split: if_splits)

lemma notify_workers [simp]: "awake (done_notify_all p) = awake p"
  by (simp add: awake_def done_notify_all_def)

lemma finite_awake: "threads_inv p \<Longrightarrow> finite (awake p)"
proof (rule finite_subset [of _ "{..<p_threads p}"])
  assume inv: "threads_inv p"
  show "awake p \<subseteq> {..<p_threads p}"
  proof
    fix w
    assume "w \<in> awake p"
    then have "\<not> p_threads p \<le> w" using inv by (simp add: threads_inv_def awake_def)
    then show "w \<in> {..<p_threads p}" by simp
  qed
qed simp

lemma wake_more:
  assumes "threads_inv p'" "wake_inv p" "awake p \<subseteq> awake p'" "p_queue p' = p_queue p"
    "\<And>w. p_worker p' w = W_Blocked \<Longrightarrow> \<exists>w. p_worker p w = W_Blocked"
  shows "wake_inv p'"
  using assms card_mono [OF finite_awake [OF assms(1)] assms(3)] by (fastforce simp: wake_inv_def)

lemma wake_step:
  assumes "pool_step p p'" "wake_inv p" "threads_inv p"
  shows "wake_inv p'"
  using assms(1) threads_step [OF assms(1,3)] assms(2,3)
proof (induction rule: pool_step.induct)
  case (post_push_notify p t c w)
  have "awake (client_go t C_Idle (wake w (pool_push c p))) = insert w (awake p)" "w \<notin> awake p"
    using post_push_notify(3) by (auto simp: awake_def op_defs)
  moreover have "length (p_queue p) \<le> card (awake p)" using post_push_notify(3,5) by (auto simp: wake_inv_def)
  ultimately show ?case using finite_awake [OF post_push_notify(6)] by (simp add: wake_inv_def) (simp add: op_defs)
next
  case (worker_pops p w c cs)
  have "awake (worker_go w (W_Run c) (p\<lparr>p_queue := cs, p_popped := p_popped p @ [c]\<rparr>)) = awake p - {w}" "w \<in> awake p"
    using worker_pops(1) by (auto simp: awake_def op_defs)
  moreover have "length cs \<le> card (awake p) - 1" if "\<exists>w. p_worker p w = W_Blocked"
    using worker_pops(4,6) that by (auto simp: wake_inv_def)
  ultimately show ?case using finite_awake [OF worker_pops(7)]
    by (simp add: wake_inv_def) (auto simp: worker_go_def split: if_splits)
next
  case (worker_blocks p w)
  then show ?case by (simp add: wake_inv_def) (simp add: op_defs)
next
  case (worker_exits p w)
  then show ?case by (auto simp: wake_inv_def threads_inv_def op_defs)
next
  case (post_ensure p t c)
  show ?case by (rule wake_more [OF post_ensure(3,4)]) (auto simp: op_defs awake_def split: if_splits)
next
  case (post_ensure_throws p t c k)
  show ?case by (rule wake_more [OF post_ensure_throws(7,8)]) (auto simp: op_defs awake_def split: if_splits)
next
  case (worker_done p w c)
  show ?case by (rule wake_more [OF worker_done(2,3)]) (auto simp: op_defs awake_def split: if_splits)
next
  case (worker_spurious p w)
  show ?case by (rule wake_more [OF worker_spurious(2,3)]) (use worker_spurious(1) in \<open>auto simp: op_defs awake_def split: if_splits\<close>)
next
  case (post_check_stopped p t c)
  then show ?case by (simp add: wake_inv_def threads_inv_def) (simp add: op_defs)
next
  case (work_finished_recheck p t)
  then show ?case by (auto simp: wake_inv_def awake_def finish_recheck_def client_go_def notify_all_def)
next
  case (post_push_none p t c)
  then show ?case by (simp add: wake_inv_def op_defs)
next
  case (join_now p t)
  then show ?case by (simp add: wake_inv_def op_defs)
next
  case (stop_now p)
  then show ?case by (simp add: wake_inv_def op_defs)
qed (simp_all add: wake_inv_def awake_def client_go_def on_work_started_def)

definition pool_inv :: "pool \<Rightarrow> bool" where
  "pool_inv p \<longleftrightarrow> fifo_inv p \<and> threads_inv p \<and> wake_inv p \<and> join_inv p"

lemma pool_inv_reach: "pool_reach p \<Longrightarrow> pool_inv p"
proof (induction rule: pool_reach.induct)
  case (start n hw)
  show ?case
    by (auto simp: pool_inv_def fifo_inv_def threads_inv_def wake_inv_def join_inv_def pool_init_def)
next
  case (step p p')
  then show ?case using fifo_step threads_step wake_step join_step by (simp add: pool_inv_def)
qed

section \<open>What the pool guarantees\<close>

text \<open>A pool of two threads to which thread 0 has posted once, and a fresh pool that thread 1 joins.\<close>

definition demo_pool :: pool where
  "demo_pool = client_go 0 C_Idle (pool_push 7 (client_go 0 (C_Push 7) (ensure_started (client_go 0 (C_Ensure 7) (pool_init 2 0)))))"

definition demo_joined :: pool where
  "demo_joined = client_go 1 C_Join_Threads (notify_all (pool_init 2 0\<lparr>p_joined := True, p_stop := True\<rparr>))"

text \<open>Thread 1 joins while work is outstanding and blocks; then thread 0 finishes the work.\<close>

definition demo_blocked :: pool where
  "demo_blocked = client_go 1 C_Join_Blocked ((on_work_started (pool_init 2 0))\<lparr>p_joined := True\<rparr>)"

definition demo_stopped :: pool where
  "demo_stopped = (let p = client_go 0 C_Recheck (demo_blocked\<lparr>p_mutex := Some 0, p_outstanding := p_outstanding demo_blocked - 1\<rparr>)
     in client_go 0 C_Idle (finish_recheck p\<lparr>p_mutex := None\<rparr>))"

lemmas demo_defs = demo_pool_def demo_joined_def demo_blocked_def demo_stopped_def pool_init_def op_defs

lemma demo_pool_reach: "pool_reach demo_pool"
proof -
  let ?p1 = "client_go 0 (C_Ensure 7) (pool_init 2 0)" and ?p2 = "client_go 0 (C_Push 7) (ensure_started (client_go 0 (C_Ensure 7) (pool_init 2 0)))"
  have "pool_step (pool_init 2 0) ?p1" by (rule post_check_ensure) (simp_all add: pool_init_def)
  moreover have "pool_step ?p1 ?p2" by (rule post_ensure) (simp_all add: demo_defs)
  moreover have "pool_step ?p2 demo_pool" unfolding demo_pool_def by (rule post_push_none) (auto simp: demo_defs)
  ultimately show ?thesis using pool_reach.intros by blast
qed

lemma demo_joined_reach: "pool_reach demo_joined"
proof -
  have "pool_step (pool_init 2 0) demo_joined" unfolding demo_joined_def by (rule join_now) (simp_all add: pool_init_def)
  then show ?thesis using pool_reach.intros by blast
qed

lemma demo_stopped_reach: "pool_reach demo_stopped"
proof -
  let ?q = "client_go 0 C_Recheck (demo_blocked\<lparr>p_mutex := Some 0, p_outstanding := p_outstanding demo_blocked - 1\<rparr>)"
  have "pool_step (pool_init 2 0) (on_work_started (pool_init 2 0))" by (rule work_started)
  moreover have "pool_step (on_work_started (pool_init 2 0)) demo_blocked"
    using join_wait [of "on_work_started (pool_init 2 0)" 1] by (simp add: demo_defs)
  moreover have "pool_step demo_blocked ?q" by (rule work_finished_sub) (simp_all add: demo_defs)
  moreover have "pool_step ?q demo_stopped"
    unfolding demo_stopped_def Let_def by (rule work_finished_recheck) (simp add: client_go_def)
  ultimately show ?thesis using pool_reach.intros by blast
qed

text \<open>
  The workers take continuations in the order they were posted and take each once: in every
  reachable state the posted continuations are those taken so far followed by those queued.
\<close>

theorem pool_fifo:
  assumes "pool_reach p"
  shows "p_pushed p = p_popped p @ p_queue p"
  using pool_inv_reach [OF assms] by (simp add: pool_inv_def fifo_inv_def)

theorem pool_fifo_witness: "p_pushed demo_pool = p_popped demo_pool @ [7]"
  using pool_fifo [OF demo_pool_reach] by (simp add: demo_defs)

text \<open>
  C4. No wake-up is lost: whenever work is queued on a started pool that was not stopped, some worker
  is running or awake and will look at the queue; it never happens that all of them sleep.
\<close>

theorem pool_no_lost_wakeup:
  assumes "pool_reach p" "p_started p" "\<not> p_stop p" "p_queue p \<noteq> []"
  shows "\<exists>w < p_num_threads p. p_worker p w = W_Check \<or> (\<exists>c. p_worker p w = W_Run c)"
proof (rule ccontr)
  assume none: "\<not> ?thesis"
  have inv: "threads_inv p" "wake_inv p" using pool_inv_reach [OF assms(1)] by (simp_all add: pool_inv_def)
  have T: "p_threads p = p_num_threads p" "0 < p_num_threads p" using inv(1) assms(2) by (auto simp: threads_inv_def)
  have "p_worker p w = W_Blocked" if "w < p_num_threads p" for w
  proof -
    have "p_worker p w \<noteq> W_Off" "p_worker p w \<noteq> W_Exit" using inv(1) T(1) that assms(3) unfolding threads_inv_def by (metis not_le, metis)
    with none that show ?thesis by (cases "p_worker p w") auto
  qed
  moreover have "w < p_num_threads p" if "p_worker p w = W_Check" for w
    using inv(1) T that by (metis threads_inv_def not_le worker_pc.distinct(1))
  ultimately have "awake p = {}" "p_worker p 0 = W_Blocked" using T(2) unfolding awake_def by fastforce+
  then show False using inv(2) assms(4) unfolding wake_inv_def by auto
qed

theorem pool_no_lost_wakeup_witness:
  "p_queue demo_pool = [7] \<and> (\<exists>w < 2. p_worker demo_pool w = W_Check \<or> (\<exists>c. p_worker demo_pool w = W_Run c))"
proof -
  have d: "p_started demo_pool" "\<not> p_stop demo_pool" "p_queue demo_pool = [7]" "p_num_threads demo_pool = 2"
    by (simp_all add: demo_defs)
  then show ?thesis using pool_no_lost_wakeup [OF demo_pool_reach d(1,2)] by simp
qed

text \<open>
  C5. \<^verbatim>\<open>join\<close> is released: once a thread has joined and the last outstanding work has finished (no call of
  \<^verbatim>\<open>on_work_finished\<close> being half way), the pool is stopped. On a stopped pool, whichever call stopped it, no thread stays
  blocked on either condition variable: no worker on \<^verbatim>\<open>work_cv_\<close> and no thread in \<^verbatim>\<open>join\<close> on \<^verbatim>\<open>done_cv_\<close>; a thread that is waking up there
  finds its condition true and goes on to join the workers as soon as the mutex is free, and no thread gets there on a pool that is not stopped.
\<close>

theorem pool_join_released:
  assumes "pool_reach p"
  shows "(p_joined p \<and> p_outstanding p = 0 \<and> (\<forall>t. p_client p t \<noteq> C_Recheck) \<longrightarrow> p_stop p)
    \<and> (p_stop p \<longrightarrow> (\<forall>w. p_worker p w \<noteq> W_Blocked) \<and> (\<forall>t. p_client p t \<noteq> C_Join_Blocked))
    \<and> (p_stop p \<and> p_client p t = C_Join_Wait \<and> p_mutex p = None \<longrightarrow> pool_step p (client_go t C_Join_Threads p))
    \<and> (p_client p t = C_Join_Threads \<longrightarrow> p_stop p)"
proof -
  have "join_inv p" "threads_inv p" using pool_inv_reach [OF assms] by (simp_all add: pool_inv_def)
  moreover have "p_mutex p = None \<or> (\<exists>t. p_mutex p = Some t)" by (cases "p_mutex p") auto
  ultimately show ?thesis unfolding join_inv_def threads_inv_def using join_released by blast
qed

theorem pool_join_released_witness:
  "p_stop demo_stopped \<and> p_client demo_stopped 1 \<noteq> C_Join_Blocked \<and> pool_step demo_stopped (client_go 1 C_Join_Threads demo_stopped)"
  using pool_join_released [OF demo_stopped_reach, of 1] by (simp add: demo_defs)

end
