(* ===== verification/Abandon.thy ===== *)
theory Abandon
  imports Intrusive
begin

text \<open>
  Giving up continuations: \<^verbatim>\<open>continuation.hpp\<close>, \<^verbatim>\<open>ex/abandon.hpp\<close>, \<^verbatim>\<open>detail/abandonable.hpp\<close> and the batch
  walks of \<^verbatim>\<open>strand_queue\<close>. A chain owner's flag is flipped once and
  its segment is posted once; a continuation without an owner has its frame destroyed. The observable
  effects are a list in the order they happen. \<open>noop\<close> is the handle of \<^verbatim>\<open>std::noop_coroutine\<close>.
\<close>

type_synonym handle = nat

definition noop :: handle where "noop = 0"

record continuation =
  c_h :: "handle option"
  c_owner :: "nat option"

datatype effect = Post_Self nat | Destroy handle | Resume handle

record owners =
  o_self :: "nat \<Rightarrow> handle option"
  o_abandoned :: "nat \<Rightarrow> bool"

definition bind :: "nat \<Rightarrow> handle \<Rightarrow> owners \<Rightarrow> owners" where
  "bind k self st = st\<lparr>o_self := (o_self st)(k := Some self)\<rparr>"

definition abandoned :: "nat \<Rightarrow> owners \<Rightarrow> bool" where
  "abandoned k st = o_abandoned st k"

definition owner_abandon :: "nat \<Rightarrow> owners \<Rightarrow> owners \<times> effect list" where
  "owner_abandon k st =
     (if o_abandoned st k then (st, [])
      else (st\<lparr>o_abandoned := (o_abandoned st)(k := True)\<rparr>, [Post_Self k]))"

definition abandon :: "continuation \<Rightarrow> owners \<Rightarrow> owners \<times> effect list" where
  "abandon c st =
     (case c_owner c of
        Some k \<Rightarrow> owner_abandon k st
      | None \<Rightarrow> (case c_h c of Some h \<Rightarrow> (st, [Destroy h]) | None \<Rightarrow> (st, [])))"

fun abandon_batch :: "continuation list \<Rightarrow> owners \<Rightarrow> owners \<times> effect list" where
  "abandon_batch [] st = (st, [])"
| "abandon_batch (c # cs) st =
     (case (if c_h c \<noteq> None then abandon c st else (st, [])) of (st, es) \<Rightarrow>
        (case abandon_batch cs st of (st, es') \<Rightarrow> (st, es @ es')))"

fun dispatch_batch :: "continuation list \<Rightarrow> effect list" where
  "dispatch_batch [] = []"
| "dispatch_batch (c # cs) = (case c_h c of Some h \<Rightarrow> [Resume h] | None \<Rightarrow> []) @ dispatch_batch cs"

text \<open>What awaiting through \<^verbatim>\<open>abandonable\<close> yields: nothing while the segment unwinds.\<close>

definition abandonable_resume :: "nat option \<Rightarrow> owners \<Rightarrow> 'a \<Rightarrow> 'a option" where
  "abandonable_resume ow st r = (if (case ow of Some k \<Rightarrow> abandoned k st | None \<Rightarrow> False) then None else Some r)"

section \<open>A batch is given up exactly once\<close>

definition wanted :: "continuation list \<Rightarrow> continuation list" where
  "wanted cs = filter (\<lambda>c. c_h c \<noteq> None) cs"

fun new_owners :: "nat set \<Rightarrow> continuation list \<Rightarrow> nat list" where
  "new_owners f [] = []"
| "new_owners f (c # cs) =
     (case c_owner c of
        Some k \<Rightarrow> (if k \<in> f then new_owners f cs else k # new_owners (insert k f) cs)
      | None \<Rightarrow> new_owners f cs)"

lemma new_owners_set: "set (new_owners f cs) = {k. k \<notin> f \<and> (\<exists>c \<in> set cs. c_owner c = Some k)}"
proof (induction cs arbitrary: f)
  case (Cons c cs)
  show ?case by (cases "c_owner c") (auto simp: Cons)
qed simp

lemma new_owners_distinct: "distinct (new_owners f cs)"
proof (induction cs arbitrary: f)
  case (Cons c cs)
  show ?case by (cases "c_owner c") (auto simp: Cons new_owners_set)
qed simp

lemma Collect_upd_True: "Collect (f(k := True)) = insert k (Collect f)"
  by auto

lemma abandon_batch_eq:
  "abandon_batch cs st = (st', es) \<Longrightarrow>
     filter (\<lambda>e. \<exists>k. e = Post_Self k) es = map Post_Self (new_owners (Collect (o_abandoned st)) (wanted cs))
   \<and> filter (\<lambda>e. \<exists>h. e = Destroy h) es = map (\<lambda>c. Destroy (the (c_h c))) (filter (\<lambda>c. c_owner c = None) (wanted cs))
   \<and> o_abandoned st' = (\<lambda>k. o_abandoned st k \<or> (\<exists>c \<in> set (wanted cs). c_owner c = Some k))
   \<and> length es = length (new_owners (Collect (o_abandoned st)) (wanted cs)) + length (filter (\<lambda>c. c_owner c = None) (wanted cs))"
proof (induction cs arbitrary: st st' es)
  case (Cons c cs)
  obtain st1 e1 where 1: "(if c_h c \<noteq> None then abandon c st else (st, [])) = (st1, e1)" by fastforce
  obtain st2 e2 where 2: "abandon_batch cs st1 = (st2, e2)" by fastforce
  have r: "st' = st2" "es = e1 @ e2" using Cons.prems 1 2 by auto
  note IH = Cons.IH [OF 2]
  show ?case
  proof (cases "c_h c")
    case None
    then show ?thesis using 1 r IH by (simp add: wanted_def)
  next
    case (Some h)
    show ?thesis
    proof (cases "c_owner c")
      case None
      then show ?thesis using 1 r IH Some by (auto simp: wanted_def abandon_def)
    next
      case (Some k)
      then show ?thesis using 1 r IH \<open>c_h c = _\<close>
        by (cases "o_abandoned st k")
          (auto simp: wanted_def abandon_def owner_abandon_def Collect_upd_True simp del: fun_upd_apply, auto)
    qed
  qed
qed (simp add: wanted_def)

text \<open>
  Abandoning a batch gives every continuation up exactly once: each chain that some continuation of
  the batch belongs to, and that was not abandoned before, is marked and has its segment posted exactly
  once however many of its continuations are in the batch; each continuation without an owner has its
  frame destroyed once, in order; and nothing else happens.
\<close>

theorem abandon_batch_once:
  assumes "abandon_batch cs st = (st', es)"
  shows "\<exists>ks. filter (\<lambda>e. \<exists>k. e = Post_Self k) es = map Post_Self ks \<and> distinct ks
      \<and> set ks = {k. \<not> abandoned k st \<and> (\<exists>c \<in> set cs. c_h c \<noteq> None \<and> c_owner c = Some k)}
      \<and> (\<forall>k. abandoned k st' \<longleftrightarrow> abandoned k st \<or> k \<in> set ks)
      \<and> filter (\<lambda>e. \<exists>h. e = Destroy h) es =
          map (\<lambda>c. Destroy (the (c_h c))) (filter (\<lambda>c. c_h c \<noteq> None \<and> c_owner c = None) cs)
      \<and> length es = length ks + length (filter (\<lambda>c. c_h c \<noteq> None \<and> c_owner c = None) cs)"
proof -
  let ?ks = "new_owners (Collect (o_abandoned st)) (wanted cs)"
  note e = abandon_batch_eq [OF assms]
  have "filter (\<lambda>c. c_owner c = None) (wanted cs) = filter (\<lambda>c. c_h c \<noteq> None \<and> c_owner c = None) cs"
    by (simp add: wanted_def conj_commute)
  moreover have "set ?ks = {k. \<not> abandoned k st \<and> (\<exists>c \<in> set cs. c_h c \<noteq> None \<and> c_owner c = Some k)}"
    by (auto simp: new_owners_set wanted_def abandoned_def)
  moreover have "abandoned k st' \<longleftrightarrow> abandoned k st \<or> k \<in> set ?ks" for k
    using e by (auto simp: abandoned_def new_owners_set)
  ultimately show ?thesis using e new_owners_distinct by (intro exI [of _ ?ks]) auto
qed

theorem abandon_batch_once_witness:
  "snd (abandon_batch [\<lparr>c_h = Some 4, c_owner = Some 1\<rparr>, \<lparr>c_h = Some 5, c_owner = None\<rparr>, \<lparr>c_h = Some 6, c_owner = Some 1\<rparr>]
      \<lparr>o_self = (\<lambda>_. None), o_abandoned = (\<lambda>_. False)\<rparr>) = [Post_Self 1, Destroy 5]
   \<and> (\<exists>ks. filter (\<lambda>e. \<exists>k. e = Post_Self k) [Post_Self 1, Destroy 5] = map Post_Self ks \<and> distinct ks)"
proof -
  let ?cs = "[\<lparr>c_h = Some 4, c_owner = Some 1\<rparr>, \<lparr>c_h = Some 5, c_owner = None\<rparr>, \<lparr>c_h = Some 6, c_owner = Some 1\<rparr>]"
    and ?st = "\<lparr>o_self = (\<lambda>_. None), o_abandoned = (\<lambda>_. False)\<rparr>"
  have r: "abandon_batch ?cs ?st = (?st\<lparr>o_abandoned := (\<lambda>_. False)(1 := True)\<rparr>, [Post_Self 1, Destroy 5])"
    by (simp add: abandon_def owner_abandon_def)
  from abandon_batch_once [OF r] show ?thesis unfolding r by (metis snd_conv)
qed

end
