(* ===== verification/Exec_Context.thy ===== *)
theory Exec_Context
  imports Errors
begin

text \<open>
  The service registry of \<^verbatim>\<open>execution_context\<close>: \<^verbatim>\<open>src/ex/execution_context.cpp\<close> and
  \<^verbatim>\<open>ex/execution_context.hpp\<close>. The services are a list, newest first, as the intrusive \<^verbatim>\<open>next_\<close> chain
  from \<^verbatim>\<open>head_\<close>. A factory's \<^verbatim>\<open>create\<close> runs a user constructor outside the lock, which may itself use
  services or throw; it is a parameter that maps the context to an exception or to the new service
  and the context the constructor left. \<open>x_events\<close> records the calls the registry makes on services.
\<close>

type_synonym type_index = nat

record service =
  v_id :: nat
  v_t0 :: type_index
  v_t1 :: type_index

datatype service_event = Shutdown nat | Delete nat

record exec_ctx =
  x_services :: "service list"
  x_shutdown :: bool
  x_destroyed :: bool
  x_events :: "service_event list"
  x_frame_alloc :: nat
  x_owned :: "nat option"
  x_type :: "type_index option"

type_synonym create = "exec_ctx \<Rightarrow> cpp_exception + (nat \<times> exec_ctx)"

record factory =
  f_t0 :: type_index
  f_t1 :: type_index
  f_create :: create

definition ctx_init :: "nat \<Rightarrow> exec_ctx" where
  "ctx_init recycling = \<lparr>x_services = [], x_shutdown = False, x_destroyed = False, x_events = [],
     x_frame_alloc = recycling, x_owned = None, x_type = None\<rparr>"

definition ctx_init_derived :: "nat \<Rightarrow> type_index \<Rightarrow> exec_ctx" where
  "ctx_init_derived recycling derived = ctx_init recycling\<lparr>x_type := Some derived\<rparr>"

fun find_impl :: "type_index \<Rightarrow> service list \<Rightarrow> nat option" where
  "find_impl ti [] = None"
| "find_impl ti (p # ps) = (if v_t0 p = ti \<or> v_t1 p = ti then Some (v_id p) else find_impl ti ps)"

definition find_service :: "type_index \<Rightarrow> exec_ctx \<Rightarrow> nat option" where
  "find_service ti ctx = find_impl ti (x_services ctx)"

definition has_service :: "type_index \<Rightarrow> exec_ctx \<Rightarrow> bool" where
  "has_service ti ctx \<longleftrightarrow> find_service ti ctx \<noteq> None"

definition emit :: "service_event \<Rightarrow> exec_ctx \<Rightarrow> exec_ctx" where
  "emit e ctx = ctx\<lparr>x_events := x_events ctx @ [e]\<rparr>"

definition add_service :: "service \<Rightarrow> exec_ctx \<Rightarrow> exec_ctx" where
  "add_service sp ctx =
     (let ctx = ctx\<lparr>x_services := sp # x_services ctx\<rparr>
      in if x_shutdown ctx then emit (Shutdown (v_id sp)) ctx else ctx)"

definition use_service_impl :: "factory \<Rightarrow> exec_ctx \<Rightarrow> cpp_exception + (nat \<times> exec_ctx)" where
  "use_service_impl f ctx =
     (case find_impl (f_t0 f) (x_services ctx) of
        Some p \<Rightarrow> Inr (p, ctx)
      | None \<Rightarrow>
          (case f_create f ctx of
             Inl e \<Rightarrow> Inl e
           | Inr (sp, ctx) \<Rightarrow>
               (case find_impl (f_t0 f) (x_services ctx) of
                  Some p \<Rightarrow> Inr (p, emit (Delete sp) ctx)
                | None \<Rightarrow> Inr (sp, add_service \<lparr>v_id = sp, v_t0 = f_t0 f, v_t1 = f_t1 f\<rparr> ctx))))"

definition make_service_impl :: "factory \<Rightarrow> exec_ctx \<Rightarrow> (cpp_exception \<times> exec_ctx) + (nat \<times> exec_ctx)" where
  "make_service_impl f ctx =
     (if find_impl (f_t0 f) (x_services ctx) \<noteq> None then Inl (throw_invalid_argument, ctx)
      else if f_t0 f \<noteq> f_t1 f \<and> find_impl (f_t1 f) (x_services ctx) \<noteq> None then Inl (throw_invalid_argument, ctx)
      else
        (case f_create f ctx of
           Inl e \<Rightarrow> Inl (e, ctx)
         | Inr (p, ctx) \<Rightarrow>
             if find_impl (f_t0 f) (x_services ctx) \<noteq> None
             then Inl (throw_invalid_argument, emit (Delete p) ctx)
             else if f_t0 f \<noteq> f_t1 f \<and> find_impl (f_t1 f) (x_services ctx) \<noteq> None
             then Inl (throw_invalid_argument, emit (Delete p) ctx)
             else Inr (p, add_service \<lparr>v_id = p, v_t0 = f_t0 f, v_t1 = (if f_t0 f \<noteq> f_t1 f then f_t1 f else f_t0 f)\<rparr> ctx)))"

fun shutdown_loop :: "service list \<Rightarrow> exec_ctx \<Rightarrow> exec_ctx" where
  "shutdown_loop [] ctx = ctx"
| "shutdown_loop (p # ps) ctx = shutdown_loop ps (emit (Shutdown (v_id p)) ctx)"

definition ctx_shutdown :: "exec_ctx \<Rightarrow> exec_ctx" where
  "ctx_shutdown ctx =
     (if x_shutdown ctx then ctx else shutdown_loop (x_services ctx) (ctx\<lparr>x_shutdown := True\<rparr>))"

text \<open>
  A service's destructor may still reach the registry, and a service it creates is destroyed in turn;
  \<open>on_delete\<close> is what the destructor does to the context. The loop then has no bound of its own.
\<close>

partial_function (option) ctx_destroy_loop :: "(nat \<Rightarrow> exec_ctx \<Rightarrow> exec_ctx) \<Rightarrow> exec_ctx \<Rightarrow> exec_ctx option" where
  "ctx_destroy_loop on_delete ctx =
     (case x_services ctx of
        [] \<Rightarrow> Some (ctx\<lparr>x_destroyed := True\<rparr>)
      | p # ps \<Rightarrow> ctx_destroy_loop on_delete (on_delete (v_id p) (emit (Delete (v_id p)) (ctx\<lparr>x_services := ps\<rparr>))))"

definition ctx_destroy :: "(nat \<Rightarrow> exec_ctx \<Rightarrow> exec_ctx) \<Rightarrow> exec_ctx \<Rightarrow> exec_ctx option" where
  "ctx_destroy on_delete ctx = ctx_destroy_loop on_delete ctx"

definition ctx_destructor :: "(nat \<Rightarrow> exec_ctx \<Rightarrow> exec_ctx) \<Rightarrow> exec_ctx \<Rightarrow> exec_ctx option" where
  "ctx_destructor on_delete ctx = ctx_destroy on_delete (ctx_shutdown ctx)"

definition get_frame_allocator :: "exec_ctx \<Rightarrow> nat" where
  "get_frame_allocator ctx = x_frame_alloc ctx"

definition set_frame_allocator_resource :: "nat \<Rightarrow> exec_ctx \<Rightarrow> exec_ctx" where
  "set_frame_allocator_resource mr ctx = ctx\<lparr>x_owned := None, x_frame_alloc := mr\<rparr>"

definition set_frame_allocator_alloc :: "nat \<Rightarrow> exec_ctx \<Rightarrow> exec_ctx" where
  "set_frame_allocator_alloc p ctx = ctx\<lparr>x_frame_alloc := p, x_owned := Some p\<rparr>"

definition ctx_target :: "type_index \<Rightarrow> exec_ctx \<Rightarrow> bool" where
  "ctx_target t ctx \<longleftrightarrow> (case x_type ctx of Some d \<Rightarrow> d = t | None \<Rightarrow> False)"

section \<open>Looking services up\<close>

lemma find_impl_None: "find_impl ti ps = None \<longleftrightarrow> (\<forall>p \<in> set ps. v_t0 p \<noteq> ti \<and> v_t1 p \<noteq> ti)"
  by (induction ps) auto

lemma add_service_simps [simp]:
  "x_services (add_service sp ctx) = sp # x_services ctx" "x_shutdown (add_service sp ctx) = x_shutdown ctx"
  "x_events (add_service sp ctx) = x_events ctx @ (if x_shutdown ctx then [Shutdown (v_id sp)] else [])"
  by (simp_all add: add_service_def emit_def Let_def)

lemma emit_simps [simp]: "x_services (emit e ctx) = x_services ctx" "x_shutdown (emit e ctx) = x_shutdown ctx"
  "x_events (emit e ctx) = x_events ctx @ [e]"
  by (simp_all add: emit_def)

text \<open>
  \<^verbatim>\<open>use_service\<close> returns the service that the registry finds from then on, and using it again returns the
  same one and changes nothing; it constructs only when no service of that type exists, and if
  the constructor throws the exception reaches the caller.
\<close>

theorem use_service_correct:
  "(case use_service_impl f ctx of
      Inl e \<Rightarrow> find_service (f_t0 f) ctx = None \<and> f_create f ctx = Inl e
    | Inr (p, ctx') \<Rightarrow> find_service (f_t0 f) ctx' = Some p \<and> use_service_impl f ctx' = Inr (p, ctx')
        \<and> (\<forall>q. find_service (f_t0 f) ctx = Some q \<longrightarrow> p = q \<and> ctx' = ctx))"
  by (auto simp: use_service_impl_def find_service_def split: option.splits sum.splits)

definition demo_factory :: factory where
  "demo_factory = \<lparr>f_t0 = 1, f_t1 = 2, f_create = (\<lambda>ctx. Inr (40, ctx))\<rparr>"

theorem use_service_correct_witness:
  "\<exists>ctx'. use_service_impl demo_factory (ctx_init 0) = Inr (40, ctx') \<and> use_service_impl demo_factory ctx' = Inr (40, ctx')"
proof -
  have "\<exists>ctx'. use_service_impl demo_factory (ctx_init 0) = Inr (40, ctx')"
    by (simp add: use_service_impl_def demo_factory_def ctx_init_def)
  then show ?thesis using use_service_correct [of demo_factory "ctx_init 0"] by auto
qed

text \<open>
  \<^verbatim>\<open>make_service\<close> throws \<^verbatim>\<open>invalid_argument\<close> exactly when a service with the type or the key exists,
  before or after the constructor ran (the constructed service is then deleted again); otherwise the
  new service is found under its type and under its key, every other type finds what it found after
  the constructor, and on a context that was shut down the new service is shut down at once.
\<close>

theorem make_service_correct:
  assumes "f_create f ctx = Inr (p, ctx1)"
  shows "case make_service_impl f ctx of
      Inl (e, ctx') \<Rightarrow> e = throw_invalid_argument \<and> x_services ctx' = (if has_service (f_t0 f) ctx \<or> has_service (f_t1 f) ctx then x_services ctx else x_services ctx1)
        \<and> (has_service (f_t0 f) ctx \<or> has_service (f_t1 f) ctx \<or> has_service (f_t0 f) ctx1 \<or> has_service (f_t1 f) ctx1)
    | Inr (q, ctx') \<Rightarrow> q = p \<and> find_service (f_t0 f) ctx' = Some p \<and> find_service (f_t1 f) ctx' = Some p
        \<and> (\<forall>ti. ti \<noteq> f_t0 f \<and> ti \<noteq> f_t1 f \<longrightarrow> find_service ti ctx' = find_service ti ctx1)
        \<and> \<not> has_service (f_t0 f) ctx1 \<and> \<not> has_service (f_t1 f) ctx1
        \<and> x_events ctx' = x_events ctx1 @ (if x_shutdown ctx1 then [Shutdown p] else [])"
  using assms by (auto simp: make_service_impl_def find_service_def has_service_def split: option.splits)

theorem make_service_correct_witness:
  "\<exists>ctx'. make_service_impl demo_factory (ctx_init 0) = Inr (40, ctx') \<and> find_service 1 ctx' = Some 40 \<and> find_service 2 ctx' = Some 40"
proof -
  have c: "f_create demo_factory (ctx_init 0) = Inr (40, ctx_init 0)" by (simp add: demo_factory_def)
  obtain ctx' where "make_service_impl demo_factory (ctx_init 0) = Inr (40, ctx')"
    by (auto simp: make_service_impl_def demo_factory_def ctx_init_def)
  with make_service_correct [OF c] show ?thesis by (simp add: demo_factory_def)
qed

section \<open>Shutting down\<close>

lemma shutdown_loop_eq: "shutdown_loop ps ctx = ctx\<lparr>x_events := x_events ctx @ map (\<lambda>p. Shutdown (v_id p)) ps\<rparr>"
  by (induction ps arbitrary: ctx) (simp_all add: emit_def)

lemma destroy_loop_eq:
  assumes "\<And>p ctx. x_services (on_delete p ctx) = x_services ctx \<and> x_events (on_delete p ctx) = x_events ctx"
  shows "\<exists>ctx'. ctx_destroy_loop on_delete ctx = Some ctx' \<and> x_services ctx' = [] \<and> x_destroyed ctx'
    \<and> x_events ctx' = x_events ctx @ map (\<lambda>p. Delete (v_id p)) (x_services ctx)"
proof (induction "length (x_services ctx)" arbitrary: ctx)
  case 0
  then show ?case by (subst ctx_destroy_loop.simps) simp
next
  case (Suc n)
  then obtain p ps where ps: "x_services ctx = p # ps" by (cases "x_services ctx") auto
  let ?c = "on_delete (v_id p) (emit (Delete (v_id p)) (ctx\<lparr>x_services := ps\<rparr>))"
  have c: "x_services ?c = ps" "x_events ?c = x_events ctx @ [Delete (v_id p)]" using assms by simp_all
  then obtain ctx' where "ctx_destroy_loop on_delete ?c = Some ctx'" "x_services ctx' = []" "x_destroyed ctx'"
    "x_events ctx' = x_events ?c @ map (\<lambda>p. Delete (v_id p)) (x_services ?c)"
    using Suc.hyps(1) [of ?c] Suc.hyps(2) ps by auto
  then show ?case using ps c by (subst ctx_destroy_loop.simps) simp
qed

text \<open>
  Destroying a context that was not shut down yet first shuts down every service, newest first, and
  then deletes every service in the same order; every service is shut down before any is deleted, and
  no service is left. (For destructors that do not touch the registry.)
\<close>

theorem ctx_destructor_order:
  assumes "\<And>p ctx. x_services (on_delete p ctx) = x_services ctx \<and> x_events (on_delete p ctx) = x_events ctx"
    and "\<not> x_shutdown ctx"
  shows "\<exists>ctx'. ctx_destructor on_delete ctx = Some ctx' \<and> x_services ctx' = [] \<and> x_destroyed ctx'
    \<and> x_events ctx' = x_events ctx @ map (\<lambda>p. Shutdown (v_id p)) (x_services ctx) @ map (\<lambda>p. Delete (v_id p)) (x_services ctx)"
  using destroy_loop_eq [of on_delete "ctx_shutdown ctx", OF assms(1)] assms(2)
  by (simp add: ctx_destructor_def ctx_destroy_def ctx_shutdown_def shutdown_loop_eq)

theorem ctx_destructor_order_witness:
  "\<exists>ctx'. ctx_destructor (\<lambda>_ c. c) (add_service \<lparr>v_id = 5, v_t0 = 1, v_t1 = 1\<rparr> (add_service \<lparr>v_id = 4, v_t0 = 2, v_t1 = 2\<rparr> (ctx_init 0))) = Some ctx'
    \<and> x_events ctx' = [Shutdown 5, Shutdown 4, Delete 5, Delete 4]"
proof -
  let ?c = "add_service \<lparr>v_id = 5, v_t0 = 1, v_t1 = 1\<rparr> (add_service \<lparr>v_id = 4, v_t0 = 2, v_t1 = 2\<rparr> (ctx_init 0))"
  have "\<not> x_shutdown ?c" by (simp add: ctx_init_def)
  from ctx_destructor_order [OF _ this, of "\<lambda>_ c. c"] show ?thesis by (auto simp: ctx_init_def)
qed

definition shut_inv :: "exec_ctx \<Rightarrow> bool" where
  "shut_inv ctx \<longleftrightarrow> (x_shutdown ctx \<longrightarrow> (\<forall>p \<in> set (x_services ctx). Shutdown (v_id p) \<in> set (x_events ctx)))"

text \<open>
  Shutting down is done once: on a context already shut down it changes nothing, and a service added to
  such a context is shut down as it is added, so that every registered service has been shut down.
\<close>

theorem shutdown_invariant:
  assumes "shut_inv ctx" "\<And>c. shut_inv c \<Longrightarrow> case f_create f c of Inl _ \<Rightarrow> True | Inr (_, c') \<Rightarrow> shut_inv c'"
  shows "shut_inv (ctx_shutdown ctx) \<and> x_shutdown (ctx_shutdown ctx) \<and> ctx_shutdown (ctx_shutdown ctx) = ctx_shutdown ctx
    \<and> (case use_service_impl f ctx of Inl _ \<Rightarrow> True | Inr (_, c') \<Rightarrow> shut_inv c')
    \<and> (case make_service_impl f ctx of Inl (_, c') \<Rightarrow> shut_inv c' | Inr (_, c') \<Rightarrow> shut_inv c')"
proof -
  have add: "shut_inv c \<Longrightarrow> shut_inv (add_service sp c)" "shut_inv c \<Longrightarrow> shut_inv (emit e c)" for c sp e
    by (auto simp: shut_inv_def)
  have sd: "x_shutdown (ctx_shutdown ctx)" "shut_inv (ctx_shutdown ctx)"
    using assms(1) by (auto simp: ctx_shutdown_def shutdown_loop_eq shut_inv_def)
  then have "ctx_shutdown (ctx_shutdown ctx) = ctx_shutdown ctx" by (simp add: ctx_shutdown_def [of "ctx_shutdown ctx"])
  moreover have "case use_service_impl f ctx of Inl _ \<Rightarrow> True | Inr (_, c') \<Rightarrow> shut_inv c'"
    using assms(1) assms(2) [OF assms(1)] add by (auto simp: use_service_impl_def split: option.splits sum.splits)
  moreover have "case make_service_impl f ctx of Inl (_, c') \<Rightarrow> shut_inv c' | Inr (_, c') \<Rightarrow> shut_inv c'"
    using assms(1) assms(2) [OF assms(1)] add by (auto simp: make_service_impl_def split: sum.splits)
  ultimately show ?thesis using sd by blast
qed

theorem shutdown_invariant_witness:
  "shut_inv (ctx_shutdown (ctx_init 0)) \<and> (case use_service_impl demo_factory (ctx_shutdown (ctx_init 0)) of Inl _ \<Rightarrow> True | Inr (_, c') \<Rightarrow> shut_inv c')"
proof -
  have c: "case f_create demo_factory c of Inl _ \<Rightarrow> True | Inr (_, c') \<Rightarrow> shut_inv c'" if "shut_inv c" for c
    using that by (simp add: demo_factory_def)
  have "shut_inv (ctx_init 0)" by (simp add: shut_inv_def ctx_init_def)
  from shutdown_invariant [OF this c] have "shut_inv (ctx_shutdown (ctx_init 0))" by blast
  from shutdown_invariant [OF this c] this show ?thesis by blast
qed

text \<open>
  Unlike \<^verbatim>\<open>make_service\<close>, \<^verbatim>\<open>use_service\<close> looks only at the type of the service, not at its key: a second service can be
  registered under a key that another one has, and the key then finds the newer one.
\<close>

lemma use_service_ignores_key:
  "\<exists>c1 c2. use_service_impl \<lparr>f_t0 = 1, f_t1 = 9, f_create = (\<lambda>c. Inr (10, c))\<rparr> (ctx_init 0) = Inr (10, c1)
    \<and> use_service_impl \<lparr>f_t0 = 2, f_t1 = 9, f_create = (\<lambda>c. Inr (20, c))\<rparr> c1 = Inr (20, c2)
    \<and> find_service 9 c1 = Some 10 \<and> find_service 9 c2 = Some 20 \<and> length (x_services c2) = 2"
  by (simp add: use_service_impl_def ctx_init_def find_service_def add_service_def emit_def Let_def)

section \<open>Services by type\<close>

text \<open>
  The templates \<^verbatim>\<open>use_service<T>\<close> and \<^verbatim>\<open>make_service<T>\<close>: a service type has its index, the index of its \<^verbatim>\<open>key_type\<close> if it has one, and a constructor (with its arguments).
\<close>

record service_type =
  st_type :: type_index
  st_key :: "type_index option"
  st_new :: create

definition service_factory :: "service_type \<Rightarrow> factory" where
  "service_factory T = \<lparr>f_t0 = st_type T, f_t1 = (case st_key T of Some k \<Rightarrow> k | None \<Rightarrow> st_type T), f_create = st_new T\<rparr>"

definition use_service :: "service_type \<Rightarrow> exec_ctx \<Rightarrow> cpp_exception + (nat \<times> exec_ctx)" where
  "use_service T ctx = use_service_impl (service_factory T) ctx"

definition make_service :: "service_type \<Rightarrow> exec_ctx \<Rightarrow> (cpp_exception \<times> exec_ctx) + (nat \<times> exec_ctx)" where
  "make_service T ctx = make_service_impl (service_factory T) ctx"

text \<open>
  A service is made once per type. After \<^verbatim>\<open>use_service<T>\<close> or \<^verbatim>\<open>make_service<T>\<close> returned a service, using the type again returns the same one and changes nothing, and making it again throws, also for
  a type with the same key; a service just made is found under its key.
\<close>

theorem service_made_once:
  assumes "use_service T ctx = Inr (p, ctx') \<or> make_service T ctx = Inr (p, ctx')"
  shows "use_service T ctx' = Inr (p, ctx') \<and> make_service T ctx' = Inl (throw_invalid_argument, ctx')
    \<and> (make_service T ctx = Inr (p, ctx') \<longrightarrow> (\<forall>k. st_key T = Some k \<longrightarrow> find_service k ctx' = Some p
        \<and> (\<forall>U. st_key U = Some k \<longrightarrow> make_service U ctx' = Inl (throw_invalid_argument, ctx'))))"
proof -
  have t: "find_impl (st_type T) (x_services ctx') = Some p"
    using assms by (auto simp: use_service_def make_service_def use_service_impl_def make_service_impl_def service_factory_def split: option.splits sum.splits if_splits)
  have k: "find_service k ctx' = Some p" if "make_service T ctx = Inr (p, ctx')" "st_key T = Some k" for k
    using that by (auto simp: find_service_def make_service_def make_service_impl_def service_factory_def split: option.splits sum.splits if_splits)
  have again: "make_service U ctx' = Inl (throw_invalid_argument, ctx')" if "find_service (f_t1 (service_factory U)) ctx' = Some p" for U
    using that by (auto simp: make_service_def make_service_impl_def find_service_def)
  have "use_service T ctx' = Inr (p, ctx')" "make_service T ctx' = Inl (throw_invalid_argument, ctx')"
    using t by (simp_all add: use_service_def use_service_impl_def make_service_def make_service_impl_def service_factory_def)
  moreover have "f_t1 (service_factory U) = k" if "st_key U = Some k" for U k using that by (simp add: service_factory_def)
  ultimately show ?thesis using k again by blast
qed

theorem service_made_once_witness:
  "\<exists>ctx. use_service \<lparr>st_type = 3, st_key = Some 4, st_new = (\<lambda>ctx. Inr (9, ctx))\<rparr> ctx = Inr (9, ctx)
    \<and> find_service 4 ctx = Some 9"
proof -
  let ?T = "\<lparr>st_type = 3, st_key = Some 4, st_new = (\<lambda>ctx. Inr (9, ctx))\<rparr>"
  obtain ctx where m: "make_service ?T (ctx_init 0) = Inr (9, ctx)"
    by (simp add: make_service_def make_service_impl_def service_factory_def ctx_init_def)
  then have "use_service ?T ctx = Inr (9, ctx) \<and> find_service 4 ctx = Some 9" using service_made_once [of ?T "ctx_init 0" 9 ctx] by simp
  then show ?thesis by blast
qed

end
