(* ===== verification/Recycling.thy ===== *)
theory Recycling
  imports Prelude
begin

text \<open>
  The recycling frame allocator: \<^verbatim>\<open>ex/recycling_memory_resource.hpp\<close>,
  \<^verbatim>\<open>src/ex/recycling_memory_resource.cpp\<close> and the frame layout of \<^verbatim>\<open>ex/frame_alloc_mixin.hpp\<close>. A bucket is
  the list of its \<^verbatim>\<open>ptrs\<close> up to \<^verbatim>\<open>count\<close>. The state has the pool of every thread, the global pool, the
  flags of the thread-exit cleanup, and, as ghosts, the blocks in use and the size each block was
  obtained with from \<^verbatim>\<open>operator new\<close>, which hands out addresses never seen before.
\<close>

section \<open>Size classes\<close>

definition num_classes :: nat where "num_classes = 6"
definition min_class_size :: nat where "min_class_size = 64"
definition max_class_size :: nat where "max_class_size = 2048"
definition bucket_capacity :: nat where "bucket_capacity = 16"

text \<open>\<^verbatim>\<open>std::bit_ceil\<close> and \<^verbatim>\<open>std::countr_zero\<close>.\<close>

function bit_ceil_from :: "nat \<Rightarrow> nat \<Rightarrow> nat" where
  "bit_ceil_from k n = (if n \<le> 2 ^ k then 2 ^ k else bit_ceil_from (k + 1) n)"
  by pat_completeness auto
termination
proof (relation "measure (\<lambda>(k, n). n - 2 ^ k)")
  fix k n :: nat
  assume "\<not> n \<le> 2 ^ k"
  then show "((k + 1, n), (k, n)) \<in> measure (\<lambda>(k, n). n - 2 ^ k)" by (simp add: diff_less_mono2)
qed simp

declare bit_ceil_from.simps [simp del]

definition bit_ceil :: "nat \<Rightarrow> nat" where
  "bit_ceil n = bit_ceil_from 0 n"

function countr_zero :: "nat \<Rightarrow> nat" where
  "countr_zero n = (if n = 0 then 64 else if odd n then 0 else countr_zero (n div 2) + 1)"
  by pat_completeness auto
termination by (relation "measure id") auto

declare countr_zero.simps [simp del]

definition round_up_pow2 :: "nat \<Rightarrow> nat" where
  "round_up_pow2 n = (if n \<le> min_class_size then min_class_size else bit_ceil n)"

definition get_class_index :: "nat \<Rightarrow> nat" where
  "get_class_index rounded = (let idx = size_sub (countr_zero rounded) 6 in if idx < num_classes then idx else num_classes)"

lemma bit_ceil_from_pow: "\<exists>j \<ge> k. bit_ceil_from k n = 2 ^ j \<and> n \<le> 2 ^ j \<and> (j = k \<or> 2 ^ (j - 1) < n)"
proof (induction k n rule: bit_ceil_from.induct)
  case (1 k n)
  show ?case
  proof (cases "n \<le> 2 ^ k")
    case True
    then show ?thesis by (subst bit_ceil_from.simps) auto
  next
    case False
    with "1.IH" obtain j where "j \<ge> k + 1" "bit_ceil_from (k + 1) n = 2 ^ j" "n \<le> 2 ^ j" "j = k + 1 \<or> 2 ^ (j - 1) < n" by blast
    with False show ?thesis by (subst bit_ceil_from.simps) (auto intro!: exI [of _ j])
  qed
qed

lemma countr_zero_pow [simp]: "countr_zero (2 ^ k) = k"
proof (induction k)
  case (Suc k)
  then show ?case by (subst countr_zero.simps) simp
qed (subst countr_zero.simps, simp)

lemma round_up_pow2_pow: "\<exists>k \<ge> 6. round_up_pow2 n = 2 ^ k \<and> n \<le> 2 ^ k \<and> (k = 6 \<or> 2 ^ (k - 1) < n)"
proof (cases "n \<le> min_class_size")
  case True
  then show ?thesis by (auto simp: round_up_pow2_def min_class_size_def intro!: exI [of _ 6])
next
  case False
  obtain j where j: "bit_ceil n = 2 ^ j" "n \<le> 2 ^ j" "j = 0 \<or> 2 ^ (j - 1) < n"
    using bit_ceil_from_pow [of 0 n] by (auto simp: bit_ceil_def)
  have "(2::nat) ^ 6 < 2 ^ j" using False j(2) by (simp add: min_class_size_def)
  then have "6 < j" by (simp only: power_strict_increasing_iff)
  with j False show ?thesis by (auto simp: round_up_pow2_def intro!: exI [of _ j])
qed

lemma class_index_pow:
  assumes "6 \<le> k" "k \<le> size_max"
  shows "get_class_index (2 ^ k) = (if k - 6 < num_classes then k - 6 else num_classes)"
  using assms by (simp add: get_class_index_def Let_def)

section \<open>Buckets\<close>

type_synonym bucket = "addr list"

definition bucket_pop :: "bucket \<Rightarrow> addr option \<times> bucket" where
  "bucket_pop b = (if b = [] then (None, b) else (Some (last b), butlast b))"

text \<open>The overload that moves the whole bucket into the (empty) bucket of a thread.\<close>

definition bucket_pop_into :: "bucket \<Rightarrow> bucket \<Rightarrow> addr option \<times> bucket \<times> bucket" where
  "bucket_pop_into b local = (if b = [] then (None, b, local) else (Some (last b), [], butlast b))"

definition bucket_push :: "addr \<Rightarrow> bucket \<Rightarrow> bool \<times> bucket" where
  "bucket_push p b = (if length b \<ge> bucket_capacity then (False, b) else (True, b @ [p]))"

section \<open>The resource\<close>

type_synonym tid = nat

record rmr =
  m_local :: "tid \<Rightarrow> nat \<Rightarrow> bucket"
  m_global :: "nat \<Rightarrow> bucket"
  m_armed :: "tid \<Rightarrow> bool"
  m_drained :: "tid \<Rightarrow> bool"
  m_size :: "addr \<Rightarrow> nat"
  m_used :: "addr set"
  m_freed :: "addr list"
  m_next :: addr

definition rmr_init :: rmr where
  "rmr_init = \<lparr>m_local = (\<lambda>_ _. []), m_global = (\<lambda>_. []), m_armed = (\<lambda>_. False), m_drained = (\<lambda>_. False),
     m_size = (\<lambda>_. 0), m_used = {}, m_freed = [], m_next = 0\<rparr>"

definition operator_new :: "nat \<Rightarrow> rmr \<Rightarrow> addr \<times> rmr" where
  "operator_new n r = (m_next r, r\<lparr>m_size := (m_size r)(m_next r := n), m_next := m_next r + 1\<rparr>)"

definition operator_delete :: "addr \<Rightarrow> rmr \<Rightarrow> rmr" where
  "operator_delete p r = r\<lparr>m_freed := m_freed r @ [p]\<rparr>"

definition set_local :: "tid \<Rightarrow> nat \<Rightarrow> bucket \<Rightarrow> rmr \<Rightarrow> rmr" where
  "set_local t i b r = r\<lparr>m_local := (m_local r)(t := (m_local r t)(i := b))\<rparr>"

definition set_global :: "nat \<Rightarrow> bucket \<Rightarrow> rmr \<Rightarrow> rmr" where
  "set_global i b r = r\<lparr>m_global := (m_global r)(i := b)\<rparr>"

text \<open>Registers the cleanup of the thread; false once that cleanup has run.\<close>

definition arm_thread_cleanup :: "tid \<Rightarrow> rmr \<Rightarrow> bool" where
  "arm_thread_cleanup t r \<longleftrightarrow> \<not> m_drained r t"

definition allocate_slow :: "tid \<Rightarrow> nat \<Rightarrow> nat \<Rightarrow> rmr \<Rightarrow> addr \<times> rmr" where
  "allocate_slow t rounded idx r =
     (let cache = arm_thread_cleanup t r;
          (p, r1) = (if cache
            then (case bucket_pop_into (m_global r idx) (m_local r t idx) of (p, g, l) \<Rightarrow> (p, set_local t idx l (set_global idx g r)))
            else (case bucket_pop (m_global r idx) of (p, g) \<Rightarrow> (p, set_global idx g r)))
      in case p of Some p \<Rightarrow> (p, r1) | None \<Rightarrow> operator_new rounded r1)"

definition deallocate_slow :: "addr \<Rightarrow> nat \<Rightarrow> rmr \<Rightarrow> rmr" where
  "deallocate_slow p idx r =
     (case bucket_push p (m_global r idx) of (ok, g) \<Rightarrow> if ok then set_global idx g r else operator_delete p r)"

definition allocate_fast :: "tid \<Rightarrow> nat \<Rightarrow> rmr \<Rightarrow> addr \<times> rmr" where
  "allocate_fast t bytes r =
     (let rounded = round_up_pow2 bytes; idx = get_class_index rounded in
      if idx \<ge> num_classes then operator_new bytes r
      else case bucket_pop (m_local r t idx) of
             (Some p, l) \<Rightarrow> (p, set_local t idx l r)
           | (None, l) \<Rightarrow> allocate_slow t rounded idx r)"

definition deallocate_fast :: "tid \<Rightarrow> addr \<Rightarrow> nat \<Rightarrow> rmr \<Rightarrow> rmr" where
  "deallocate_fast t p bytes r =
     (let rounded = round_up_pow2 bytes; idx = get_class_index rounded in
      if idx \<ge> num_classes then operator_delete p r
      else if \<not> m_armed r t \<and> \<not> arm_thread_cleanup t r then deallocate_slow p idx r
      else let r = (if m_armed r t then r else r\<lparr>m_armed := (m_armed r)(t := True)\<rparr>)
           in case bucket_push p (m_local r t idx) of
                (True, l) \<Rightarrow> set_local t idx l r
              | (False, l) \<Rightarrow> deallocate_slow p idx r)"

definition thread_exit :: "tid \<Rightarrow> rmr \<Rightarrow> rmr" where
  "thread_exit t r =
     r\<lparr>m_freed := m_freed r @ concat (map (m_local r t) [0..<num_classes]),
       m_local := (m_local r)(t := (\<lambda>i. if i < num_classes then [] else m_local r t i)),
       m_drained := (m_drained r)(t := True), m_armed := (m_armed r)(t := False)\<rparr>"

definition process_exit :: "rmr \<Rightarrow> rmr" where
  "process_exit r =
     r\<lparr>m_freed := m_freed r @ concat (map (m_global r) [0..<num_classes]),
       m_global := (\<lambda>i. if i < num_classes then [] else m_global r i)\<rparr>"

text \<open>The calls a client makes: the blocks it holds are the ghost \<open>m_used\<close>.\<close>

definition do_allocate :: "tid \<Rightarrow> nat \<Rightarrow> rmr \<Rightarrow> addr \<times> rmr" where
  "do_allocate t bytes r = (case allocate_fast t bytes r of (p, r) \<Rightarrow> (p, r\<lparr>m_used := insert p (m_used r)\<rparr>))"

definition do_deallocate :: "tid \<Rightarrow> addr \<Rightarrow> nat \<Rightarrow> rmr \<Rightarrow> rmr" where
  "do_deallocate t p bytes r = deallocate_fast t p bytes (r\<lparr>m_used := m_used r - {p}\<rparr>)"

section \<open>Every block is in one place\<close>

datatype place = Loc tid nat | Glob nat

fun class_of :: "place \<Rightarrow> nat" where
  "class_of (Loc t i) = i"
| "class_of (Glob i) = i"

fun bucket_of :: "rmr \<Rightarrow> place \<Rightarrow> bucket" where
  "bucket_of r (Loc t i) = m_local r t i"
| "bucket_of r (Glob i) = m_global r i"

definition class_size :: "nat \<Rightarrow> nat" where
  "class_size i = 2 ^ (6 + i)"

text \<open>The size of the block that a request of so many bytes is served with.\<close>

definition block_size :: "nat \<Rightarrow> nat" where
  "block_size bytes = (if get_class_index (round_up_pow2 bytes) < num_classes then round_up_pow2 bytes else bytes)"

text \<open>
  \<open>stored B sz U\<close>: the buckets hold distinct blocks, each in one bucket of its class, within capacity, and
  none of \<open>U\<close>.
\<close>

definition stored :: "(place \<Rightarrow> bucket) \<Rightarrow> (addr \<Rightarrow> nat) \<Rightarrow> addr set \<Rightarrow> bool" where
  "stored B sz U \<longleftrightarrow>
     (\<forall>pl. distinct (B pl) \<and> length (B pl) \<le> bucket_capacity \<and> (num_classes \<le> class_of pl \<longrightarrow> B pl = []))
   \<and> (\<forall>pl p. p \<in> set (B pl) \<longrightarrow> sz p = class_size (class_of pl) \<and> p \<notin> U)
   \<and> (\<forall>pl pl' p. p \<in> set (B pl) \<longrightarrow> p \<in> set (B pl') \<longrightarrow> pl = pl')"

abbreviation freed :: "rmr \<Rightarrow> addr set" where
  "freed r \<equiv> set (m_freed r)"

definition rmr_inv :: "rmr \<Rightarrow> bool" where
  "rmr_inv r \<longleftrightarrow> stored (bucket_of r) (m_size r) (m_used r \<union> freed r \<union> {m_next r..})
     \<and> m_used r \<inter> freed r = {} \<and> distinct (m_freed r) \<and> m_used r \<union> freed r \<subseteq> {..<m_next r}
     \<and> {..<m_next r} \<subseteq> m_used r \<union> freed r \<union> (\<Union>pl. set (bucket_of r pl))"

lemma bucket_of_set [simp]:
  "bucket_of (set_local t i b r) = (bucket_of r)(Loc t i := b)" "bucket_of (set_global i b r) = (bucket_of r)(Glob i := b)"
proof -
  show "bucket_of (set_local t i b r) = (bucket_of r)(Loc t i := b)"
    by (rule ext, case_tac x) (simp_all add: set_local_def)
  show "bucket_of (set_global i b r) = (bucket_of r)(Glob i := b)"
    by (rule ext, case_tac x) (simp_all add: set_global_def)
qed

lemma bucket_of_cong:
  "m_local r' = m_local r \<Longrightarrow> m_global r' = m_global r \<Longrightarrow> bucket_of r' = bucket_of r"
  by (rule ext, case_tac x) simp_all

lemma stored_pop:
  assumes "stored B sz U" "B pl \<noteq> []"
  shows "stored (B(pl := butlast (B pl))) sz (insert (last (B pl)) U)" "sz (last (B pl)) = class_size (class_of pl)"
    "last (B pl) \<notin> U" "(\<Union>q. set ((B(pl := butlast (B pl))) q)) \<union> {last (B pl)} = (\<Union>q. set (B q))"
proof -
  obtain xs x where b: "B pl = xs @ [x]" using assms(2) by (cases "B pl" rule: rev_cases) auto
  have d: "distinct (xs @ [x])" using assms(1) b by (metis stored_def)
  have x: "x \<in> set (B pl)" using b by simp
  have only: "x \<notin> set (B q)" if "q \<noteq> pl" for q using assms(1) x that unfolding stored_def by metis
  show "stored (B(pl := butlast (B pl))) sz (insert (last (B pl)) U)"
    unfolding stored_def
  proof (intro conjI allI impI)
    fix q show "distinct ((B(pl := butlast (B pl))) q)" "length ((B(pl := butlast (B pl))) q) \<le> bucket_capacity"
      using assms(1) b d unfolding stored_def by (auto simp: le_diff_conv dest: spec [of _ pl])
    show "(B(pl := butlast (B pl))) q = []" if "num_classes \<le> class_of q" using assms that unfolding stored_def by auto
  next
    fix q p assume "p \<in> set ((B(pl := butlast (B pl))) q)"
    then have "p \<in> set (B q)" "p \<noteq> x" using b d only by (auto split: if_splits)
    then show "sz p = class_size (class_of q)" "p \<notin> insert (last (B pl)) U"
      using assms(1) b unfolding stored_def by auto
  next
    fix q q' p assume "p \<in> set ((B(pl := butlast (B pl))) q)" "p \<in> set ((B(pl := butlast (B pl))) q')"
    then have "p \<in> set (B q)" "p \<in> set (B q')" using b by (auto split: if_splits)
    then show "q = q'" using assms(1) unfolding stored_def by blast
  qed
  have "sz x = class_size (class_of pl)" "x \<notin> U" using assms(1) x unfolding stored_def by blast+
  then show "sz (last (B pl)) = class_size (class_of pl)" "last (B pl) \<notin> U" using b by simp_all
  show "(\<Union>q. set ((B(pl := butlast (B pl))) q)) \<union> {last (B pl)} = (\<Union>q. set (B q))"
  proof -
    have u: "(\<Union>q. set ((B(pl := l)) q)) = set l \<union> (\<Union>q \<in> - {pl}. set (B q))" for l by (auto split: if_splits)
    have "(\<Union>q. set (B q)) = (\<Union>q. set ((B(pl := B pl)) q))" by simp
    also have "\<dots> = set (B pl) \<union> (\<Union>q \<in> - {pl}. set (B q))" by (rule u)
    finally show ?thesis unfolding u using b by auto
  qed
qed

lemma stored_push:
  assumes "stored B sz (insert p U)" "sz p = class_size (class_of pl)" "length (B pl) < bucket_capacity"
    "class_of pl < num_classes" "p \<notin> U"
  shows "stored (B(pl := B pl @ [p])) sz U" "(\<Union>q. set ((B(pl := B pl @ [p])) q)) = insert p (\<Union>q. set (B q))"
proof -
  have new: "p \<notin> set (B q)" for q using assms(1) unfolding stored_def by auto
  show "stored (B(pl := B pl @ [p])) sz U" using assms new unfolding stored_def by (auto split: if_splits)
  show "(\<Union>q. set ((B(pl := B pl @ [p])) q)) = insert p (\<Union>q. set (B q))" by (auto split: if_splits)
qed

lemma stored_move:
  assumes "stored B sz U" "B l = []" "class_of l = class_of g" "l \<noteq> g"
  shows "stored (B(g := [], l := B g)) sz U" "(\<Union>q. set ((B(g := [], l := B g)) q)) = (\<Union>q. set (B q))"
proof -
  show "stored (B(g := [], l := B g)) sz U"
    using assms unfolding stored_def by (auto split: if_splits)
  show "(\<Union>q. set ((B(g := [], l := B g)) q)) = (\<Union>q. set (B q))"
    using assms(2,4) by (auto split: if_splits) (metis equals0D empty_set)
qed

text \<open>
  The invariant with one block \<open>p\<close> taken out of the buckets and not yet handed to a client: the state between
  the bucket operation and the client's bookkeeping.
\<close>

definition inv_but :: "addr set \<Rightarrow> rmr \<Rightarrow> bool" where
  "inv_but P r \<longleftrightarrow> stored (bucket_of r) (m_size r) (P \<union> m_used r \<union> freed r \<union> {m_next r..})
     \<and> P \<inter> (m_used r \<union> freed r) = {} \<and> m_used r \<inter> freed r = {} \<and> distinct (m_freed r) \<and> P \<union> m_used r \<union> freed r \<subseteq> {..<m_next r}
     \<and> {..<m_next r} \<subseteq> P \<union> m_used r \<union> freed r \<union> (\<Union>pl. set (bucket_of r pl))"

lemma inv_but_none: "inv_but {} r = rmr_inv r"
  by (simp add: inv_but_def rmr_inv_def)

lemma inv_but_use: "inv_but {p} r \<Longrightarrow> rmr_inv (r\<lparr>m_used := insert p (m_used r)\<rparr>)"
  using bucket_of_cong [of "r\<lparr>m_used := insert p (m_used r)\<rparr>" r] by (auto simp: inv_but_def rmr_inv_def)

lemma inv_but_release: "rmr_inv r \<Longrightarrow> p \<in> m_used r \<Longrightarrow> inv_but {p} (r\<lparr>m_used := m_used r - {p}\<rparr>)"
proof -
  assume a: "rmr_inv r" "p \<in> m_used r"
  have b: "bucket_of (r\<lparr>m_used := m_used r - {p}\<rparr>) = bucket_of r" by (rule bucket_of_cong) simp_all
  have "{p} \<union> (m_used r - {p}) = m_used r" using a(2) by blast
  with a show ?thesis unfolding inv_but_def rmr_inv_def b by auto
qed

lemma inv_but_pop:
  assumes "rmr_inv r" "bucket_of r pl \<noteq> []" "bucket_of r' = (bucket_of r)(pl := butlast (bucket_of r pl))"
    "m_size r' = m_size r" "m_used r' = m_used r" "m_freed r' = m_freed r" "m_next r' = m_next r"
  shows "inv_but {last (bucket_of r pl)} r' \<and> m_size r' (last (bucket_of r pl)) = class_size (class_of pl)"
proof -
  have st: "stored (bucket_of r) (m_size r) (m_used r \<union> freed r \<union> {m_next r..})" using assms(1) by (simp add: rmr_inv_def)
  note s = stored_pop [OF st assms(2)]
  from s(3) have "last (bucket_of r pl) < m_next r" "last (bucket_of r pl) \<notin> m_used r \<union> freed r" by auto
  then show ?thesis using s assms unfolding inv_but_def rmr_inv_def by (simp add: Un_assoc) blast
qed

lemma inv_but_new:
  assumes "rmr_inv r" "operator_new n r = (p, r')"
  shows "inv_but {p} r' \<and> m_size r' p = n"
proof -
  have r': "p = m_next r" "r' = r\<lparr>m_size := (m_size r)(m_next r := n), m_next := m_next r + 1\<rparr>"
    using assms(2) by (auto simp: operator_new_def)
  have b: "bucket_of r' = bucket_of r" unfolding r'(2) by (rule bucket_of_cong) simp_all
  have U: "{p} \<union> m_used r' \<union> freed r' \<union> {m_next r'..} = m_used r \<union> freed r \<union> {m_next r..}" using r' by auto
  have "q \<noteq> p" if "q \<in> set (bucket_of r pl)" for q pl
    using assms(1) that r'(1) by (auto simp: rmr_inv_def stored_def)
  then have "stored (bucket_of r') (m_size r') ({p} \<union> m_used r' \<union> freed r' \<union> {m_next r'..})"
    using assms(1) r' unfolding U b by (fastforce simp: rmr_inv_def stored_def)
  moreover have "m_used r' = m_used r" "m_freed r' = m_freed r" using r' by simp_all
  moreover have "{..<m_next r'} = insert p {..<m_next r}" using r' by auto
  ultimately show ?thesis using assms(1) r' b unfolding inv_but_def rmr_inv_def by auto
qed

lemma allocate_slow_inv:
  assumes "rmr_inv r" "m_local r t idx = []" "allocate_slow t (class_size idx) idx r = (p, r')"
  shows "inv_but {p} r' \<and> m_size r' p = class_size idx"
proof (cases "m_global r idx = []")
  case True
  have id: "set_local t idx [] r = r" "set_global idx [] r = r"
    using True assms(2) by (simp_all add: set_local_def set_global_def fun_upd_idem)
  have "allocate_slow t (class_size idx) idx r = operator_new (class_size idx) r"
    using True assms(2) by (simp add: allocate_slow_def bucket_pop_into_def bucket_pop_def id Let_def)
  with inv_but_new [OF assms(1)] assms(3) show ?thesis by simp
next
  case False
  show ?thesis
  proof (cases "m_drained r t")
    case True
    then have "p = last (m_global r idx)" "r' = set_global idx (butlast (m_global r idx)) r"
      using assms(3) False by (simp_all add: allocate_slow_def bucket_pop_def arm_thread_cleanup_def Let_def)
    then show ?thesis using inv_but_pop [OF assms(1), of "Glob idx" r'] False
      by (simp add: set_global_def) (simp flip: set_global_def)
  next
    case nd: False
    let ?B = "(bucket_of r)(Glob idx := [], Loc t idx := m_global r idx)"
    let ?r = "set_local t idx (m_global r idx) (set_global idx [] r)"
    have f: "m_size ?r = m_size r" "m_used ?r = m_used r" "m_freed ?r = m_freed r" "m_next ?r = m_next r"
      by (simp_all add: set_local_def set_global_def)
    have b: "bucket_of ?r = ?B" by simp
    have st: "stored (bucket_of r) (m_size r) (m_used r \<union> freed r \<union> {m_next r..})" using assms(1) by (simp add: rmr_inv_def)
    have "rmr_inv ?r" using stored_move [OF st, of "Loc t idx" "Glob idx"] assms(1,2)
      unfolding rmr_inv_def b f by simp
    moreover have "p = last (m_global r idx)" "r' = set_local t idx (butlast (m_global r idx)) (set_global idx [] r)"
      using assms(3) False nd by (simp_all add: allocate_slow_def bucket_pop_into_def arm_thread_cleanup_def Let_def)
    moreover have "bucket_of r' = (bucket_of ?r)(Loc t idx := butlast (bucket_of ?r (Loc t idx)))"
      unfolding calculation(3) by (simp add: fun_eq_iff)
    moreover have "m_size r' = m_size ?r" "m_used r' = m_used ?r" "m_freed r' = m_freed ?r" "m_next r' = m_next ?r"
      unfolding calculation(3) by (simp_all add: set_local_def set_global_def)
    ultimately show ?thesis using inv_but_pop [of ?r "Loc t idx" r'] False by simp
  qed
qed

lemma index_facts:
  assumes "bytes \<le> size_max"
  shows "get_class_index (round_up_pow2 bytes) < num_classes \<Longrightarrow>
      round_up_pow2 bytes = class_size (get_class_index (round_up_pow2 bytes))"
    "bytes \<le> block_size bytes"
proof -
  obtain k where k: "6 \<le> k" "round_up_pow2 bytes = 2 ^ k" "bytes \<le> 2 ^ k" "k = 6 \<or> 2 ^ (k - 1) < bytes"
    using round_up_pow2_pow [of bytes] by blast
  have "k < 100"
  proof (rule ccontr)
    assume "\<not> k < 100"
    then have "(2::nat) ^ 99 \<le> 2 ^ (k - 1)" by (intro power_increasing) auto
    with k(4) \<open>\<not> k < 100\<close> assms show False by (auto simp: size_max_def)
  qed
  then have "k \<le> size_max" by (simp add: size_max_def)
  with class_index_pow [OF k(1)] k have i: "get_class_index (round_up_pow2 bytes) = (if k - 6 < num_classes then k - 6 else num_classes)"
    by simp
  show "round_up_pow2 bytes = class_size (get_class_index (round_up_pow2 bytes))"
    if "get_class_index (round_up_pow2 bytes) < num_classes"
    using i that k by (auto simp: class_size_def split: if_splits)
  show "bytes \<le> block_size bytes" using k by (simp add: block_size_def)
qed

lemma allocate_fast_inv:
  assumes "rmr_inv r" "bytes \<le> size_max" "allocate_fast t bytes r = (p, r')"
  shows "inv_but {p} r' \<and> m_size r' p = block_size bytes"
proof -
  let ?i = "get_class_index (round_up_pow2 bytes)"
  consider "num_classes \<le> ?i" | "?i < num_classes" "m_local r t ?i \<noteq> []" | "?i < num_classes" "m_local r t ?i = []" by linarith
  then show ?thesis
  proof cases
    case 1
    then have "operator_new bytes r = (p, r')" using assms(3) by (simp add: allocate_fast_def Let_def)
    with inv_but_new [OF assms(1)] 1 show ?thesis by (simp add: block_size_def)
  next
    case 2
    then have "p = last (m_local r t ?i)" "r' = set_local t ?i (butlast (m_local r t ?i)) r"
      using assms(3) by (simp_all add: allocate_fast_def bucket_pop_def Let_def)
    moreover have "inv_but {last (m_local r t ?i)} r' \<and> m_size r' (last (m_local r t ?i)) = class_size ?i"
      using inv_but_pop [OF assms(1), of "Loc t ?i" r'] 2 calculation(2)
      by (simp add: set_local_def) (simp flip: set_local_def)
    ultimately show ?thesis using 2 index_facts(1) [OF assms(2)] by (simp add: block_size_def)
  next
    case 3
    then have "allocate_slow t (class_size ?i) ?i r = (p, r')"
      using assms(3) index_facts(1) [OF assms(2)] by (simp add: allocate_fast_def bucket_pop_def Let_def)
    with allocate_slow_inv [OF assms(1) 3(2)] 3 index_facts(1) [OF assms(2)] show ?thesis by (simp add: block_size_def)
  qed
qed

lemma inv_but_free: "inv_but {p} r \<Longrightarrow> rmr_inv (operator_delete p r)"
  using bucket_of_cong [of "operator_delete p r" r] by (auto simp: inv_but_def rmr_inv_def operator_delete_def)

lemma inv_but_push:
  assumes "inv_but {p} r" "m_size r p = class_size (class_of pl)" "length (bucket_of r pl) < bucket_capacity" "class_of pl < num_classes"
    "bucket_of r' = (bucket_of r)(pl := bucket_of r pl @ [p])"
    "m_size r' = m_size r" "m_used r' = m_used r" "m_freed r' = m_freed r" "m_next r' = m_next r"
  shows "rmr_inv r'"
proof -
  have st: "stored (bucket_of r) (m_size r) (insert p (m_used r \<union> freed r \<union> {m_next r..}))"
    and p: "p \<notin> m_used r \<union> freed r \<union> {m_next r..}"
    using assms(1) by (auto simp: inv_but_def)
  note s = stored_push [OF st assms(2-4) p]
  show ?thesis using s assms(1) unfolding inv_but_def rmr_inv_def assms(5-9) s(2) by auto
qed

lemma deallocate_slow_inv:
  assumes "inv_but {p} r" "m_size r p = class_size idx" "idx < num_classes"
  shows "rmr_inv (deallocate_slow p idx r)"
  using assms inv_but_free [OF assms(1)] inv_but_push [OF assms(1), of "Glob idx" "set_global idx (m_global r idx @ [p]) r"]
  by (auto simp: deallocate_slow_def bucket_push_def) (simp add: set_global_def)

lemma deallocate_fast_inv:
  assumes "inv_but {p} r" "m_size r p = block_size bytes" "bytes \<le> size_max"
  shows "rmr_inv (deallocate_fast t p bytes r)"
proof -
  let ?i = "get_class_index (round_up_pow2 bytes)" and ?a = "r\<lparr>m_armed := (m_armed r)(t := True)\<rparr>"
  have ba: "bucket_of ?a = bucket_of r" by (rule bucket_of_cong) simp_all
  have a: "inv_but {p} ?a" using assms(1) unfolding inv_but_def ba by simp
  have push: "rmr_inv (set_local t i (m_local q t i @ [p]) q)"
    if "inv_but {p} q" "m_size q p = class_size i" "i < num_classes" "length (m_local q t i) < bucket_capacity" for q i
    by (rule inv_but_push [OF that(1), of "Loc t i"]) (use that in \<open>simp_all, simp_all add: set_local_def\<close>)
  show ?thesis
  proof (cases "?i < num_classes")
    case False
    with inv_but_free [OF assms(1)] show ?thesis by (simp add: deallocate_fast_def Let_def)
  next
    case True
    then have sz: "m_size r p = class_size ?i" using assms(2) index_facts(1) [OF assms(3)] by (simp add: block_size_def)
    have "rmr_inv (deallocate_slow p ?i r)" "rmr_inv (deallocate_slow p ?i ?a)"
      using deallocate_slow_inv [OF assms(1) sz True] deallocate_slow_inv [OF a _ True] sz by simp_all
    moreover have "rmr_inv (set_local t ?i (m_local r t ?i @ [p]) r)" "rmr_inv (set_local t ?i (m_local r t ?i @ [p]) ?a)"
      if "length (m_local r t ?i) < bucket_capacity"
      using push [OF assms(1) sz True that] push [OF a _ True] sz that by simp_all
    ultimately show ?thesis using True
      by (auto simp: deallocate_fast_def bucket_push_def Let_def split: bool.splits)
  qed
qed

lemma stored_concat:
  assumes "stored B sz U" "distinct pls"
  shows "distinct (concat (map B pls))"
  using assms(2)
proof (induction pls)
  case (Cons pl pls)
  have "set (B pl) \<inter> set (B q) = {}" if "q \<in> set pls" for q using assms(1) Cons.prems that unfolding stored_def by fastforce
  moreover have "distinct (B pl)" using assms(1) unfolding stored_def by blast
  ultimately show ?case using Cons by auto
qed simp

lemma exit_inv:
  assumes "rmr_inv r" and pls: "\<And>pl. bucket_of r' pl = (if pl \<in> S then [] else bucket_of r pl)"
    and freed: "m_freed r' = m_freed r @ concat (map (bucket_of r) qs)" "set qs = S" "distinct qs" and "m_size r' = m_size r" "m_used r' = m_used r" "m_next r' = m_next r"
  shows "rmr_inv r'"
proof -
  have fr: "freed r' = freed r \<union> (\<Union>pl \<in> S. set (bucket_of r pl))" using freed(1,2) by auto
  have st: "stored (bucket_of r) (m_size r) (m_used r \<union> freed r \<union> {m_next r..})" using assms(1) by (simp add: rmr_inv_def)
  then have out: "p \<notin> m_used r \<union> freed r \<union> {m_next r..}" "\<And>pl'. p \<in> set (bucket_of r pl') \<Longrightarrow> pl' = pl"
    if "p \<in> set (bucket_of r pl)" for p pl using that unfolding stored_def by blast+
  have "stored (bucket_of r') (m_size r') (m_used r' \<union> freed r' \<union> {m_next r'..})"
    unfolding stored_def fr assms(6-8) pls
    using st out unfolding stored_def by (auto split: if_splits)
  moreover have "m_used r' \<inter> freed r' = {}" "m_used r' \<union> freed r' \<subseteq> {..<m_next r'}"
    using assms(1,7,8) fr out(1) by (auto simp: rmr_inv_def) (meson atLeast_iff not_le)
  moreover have "{..<m_next r'} \<subseteq> m_used r' \<union> freed r' \<union> (\<Union>pl. set (bucket_of r' pl))"
  proof
    fix q assume "q \<in> {..<m_next r'}"
    then consider "q \<in> m_used r \<union> freed r" | pl where "q \<in> set (bucket_of r pl)"
      using assms(1,8) unfolding rmr_inv_def by auto
    then show "q \<in> m_used r' \<union> freed r' \<union> (\<Union>pl. set (bucket_of r' pl))"
    proof cases
      case (2 pl)
      show ?thesis
      proof (cases "pl \<in> S")
        case True
        with 2 fr show ?thesis by blast
      next
        case False
        with 2 pls [of pl] have "q \<in> set (bucket_of r' pl)" by simp
        then show ?thesis by blast
      qed
    qed (use fr assms(7) in auto)
  qed
  moreover have "distinct (m_freed r')"
  proof -
    have "set (concat (map (bucket_of r) qs)) \<inter> freed r = {}" using out(1) by fastforce
    moreover have "distinct (m_freed r)" using assms(1) by (simp add: rmr_inv_def)
    ultimately show ?thesis using stored_concat [OF st freed(3)] unfolding freed(1) by auto
  qed
  ultimately show ?thesis by (simp add: rmr_inv_def)
qed

lemma thread_exit_inv:
  assumes "rmr_inv r"
  shows "rmr_inv (thread_exit t r)"
proof (rule exit_inv [OF assms, of _ "Loc t ` {..<num_classes}" "map (Loc t) [0..<num_classes]"])
  fix pl
  show "bucket_of (thread_exit t r) pl = (if pl \<in> Loc t ` {..<num_classes} then [] else bucket_of r pl)"
    by (cases pl) (auto simp: thread_exit_def)
qed (auto simp: thread_exit_def distinct_map inj_on_def comp_def)

lemma process_exit_inv:
  assumes "rmr_inv r"
  shows "rmr_inv (process_exit r)"
proof (rule exit_inv [OF assms, of _ "Glob ` {..<num_classes}" "map Glob [0..<num_classes]"])
  fix pl
  show "bucket_of (process_exit r) pl = (if pl \<in> Glob ` {..<num_classes} then [] else bucket_of r pl)"
    by (cases pl) (auto simp: process_exit_def)
qed (auto simp: process_exit_def distinct_map inj_on_def comp_def)

section \<open>What clients rely on\<close>

text \<open>
  Any interleaving of calls: an allocation on some thread, the release of a block in use with the size it was
  requested with on any thread, also one whose cleanup has already run, and the exit of a thread.
\<close>

inductive rmr_reach :: "rmr \<Rightarrow> bool" where
  start: "rmr_reach rmr_init"
| alloc: "\<lbrakk>rmr_reach r; bytes \<le> size_max\<rbrakk> \<Longrightarrow> rmr_reach (snd (do_allocate t bytes r))"
| dealloc: "\<lbrakk>rmr_reach r; p \<in> m_used r; m_size r p = block_size bytes; bytes \<le> size_max\<rbrakk> \<Longrightarrow> rmr_reach (do_deallocate t p bytes r)"
| exits: "rmr_reach r \<Longrightarrow> rmr_reach (thread_exit t r)"

lemma rmr_inv_init: "rmr_inv rmr_init"
proof -
  have "bucket_of rmr_init pl = []" for pl by (cases pl) (simp_all add: rmr_init_def)
  then show ?thesis by (simp add: rmr_inv_def stored_def) (simp add: rmr_init_def)
qed

lemma do_allocate_inv:
  assumes "rmr_inv r" "bytes \<le> size_max" "do_allocate t bytes r = (p, r')"
  shows "rmr_inv r' \<and> m_size r' p = block_size bytes \<and> p \<in> m_used r' \<and> p \<notin> freed r'"
proof -
  obtain r1 where r1: "allocate_fast t bytes r = (p, r1)" "r' = r1\<lparr>m_used := insert p (m_used r1)\<rparr>"
    using assms(3) by (auto simp: do_allocate_def split: prod.splits)
  note i = allocate_fast_inv [OF assms(1,2) r1(1)]
  from inv_but_use [of p r1] i r1(2) show ?thesis by (auto simp: inv_but_def)
qed

lemma reach_inv: "rmr_reach r \<Longrightarrow> rmr_inv r"
proof (induction rule: rmr_reach.induct)
  case (alloc r bytes t)
  then show ?case using do_allocate_inv [of r bytes t "fst (do_allocate t bytes r)" "snd (do_allocate t bytes r)"] by simp
next
  case (dealloc r p bytes t)
  then show ?case using deallocate_fast_inv [OF inv_but_release [OF dealloc(5,2)], of bytes t] by (simp add: do_deallocate_def)
qed (simp_all add: rmr_inv_init thread_exit_inv)

lemma allocate_used: "m_used (snd (allocate_fast t bytes r)) = m_used r"
  by (auto simp: allocate_fast_def allocate_slow_def operator_new_def bucket_pop_def bucket_pop_into_def set_local_def set_global_def
      Let_def split: option.splits prod.splits)

lemma count_distinct: "distinct xs \<Longrightarrow> x \<in> set xs \<Longrightarrow> count_list xs x = 1"
  by (induction xs) auto

text \<open>
  C30. An allocation returns a block that no client holds and that was not given back to the system, and that
  has room for the bytes asked for; and whatever was allocated, released on whatever thread and drained at
  thread exits before, every block obtained from the system is at any time in exactly one place: held by a
  client; once in one bucket, which is one of the size class whose size the block was obtained with; or
  released to the system, exactly once.
\<close>

theorem recycling_allocate_safe:
  assumes "rmr_reach r" "bytes \<le> size_max" "do_allocate t bytes r = (p, r')"
  shows "p \<notin> m_used r \<and> m_used r' = insert p (m_used r) \<and> p \<notin> set (m_freed r') \<and> bytes \<le> m_size r' p
    \<and> (\<forall>q < m_next r'. (q \<in> m_used r' \<and> q \<notin> set (m_freed r') \<and> (\<forall>pl. q \<notin> set (bucket_of r' pl)))
        \<or> (q \<notin> m_used r' \<and> count_list (m_freed r') q = 1 \<and> (\<forall>pl. q \<notin> set (bucket_of r' pl)))
        \<or> (q \<notin> m_used r' \<and> q \<notin> set (m_freed r') \<and> (\<exists>!pl. q \<in> set (bucket_of r' pl))))
    \<and> (\<forall>pl. \<forall>q \<in> set (bucket_of r' pl). count_list (bucket_of r' pl) q = 1 \<and> class_of pl < num_classes \<and> m_size r' q = class_size (class_of pl))"
proof -
  obtain r1 where r1: "allocate_fast t bytes r = (p, r1)" "r' = r1\<lparr>m_used := insert p (m_used r1)\<rparr>"
    using assms(3) by (auto simp: do_allocate_def split: prod.splits)
  have used: "m_used r1 = m_used r" using allocate_used [of t bytes r] r1(1) by simp
  have p: "p \<notin> m_used r1" using allocate_fast_inv [OF reach_inv [OF assms(1)] assms(2) r1(1)] by (auto simp: inv_but_def)
  note i = do_allocate_inv [OF reach_inv [OF assms(1)] assms(2,3)]
  have st: "stored (bucket_of r') (m_size r') (m_used r' \<union> freed r' \<union> {m_next r'..})" using i by (simp add: rmr_inv_def)
  have one: "q \<notin> m_used r' \<and> q \<notin> freed r' \<and> (q \<in> set (bucket_of r' pl') \<longrightarrow> pl = pl')" if "q \<in> set (bucket_of r' pl)" for q pl pl'
    using st that unfolding stored_def by blast
  have "(q \<in> m_used r' \<and> q \<notin> freed r' \<and> (\<forall>pl. q \<notin> set (bucket_of r' pl)))
        \<or> (q \<notin> m_used r' \<and> count_list (m_freed r') q = 1 \<and> (\<forall>pl. q \<notin> set (bucket_of r' pl)))
        \<or> (q \<notin> m_used r' \<and> q \<notin> freed r' \<and> (\<exists>!pl. q \<in> set (bucket_of r' pl)))" if q: "q < m_next r'" for q
  proof -
    have "q \<in> m_used r' \<or> q \<in> freed r' \<or> (\<exists>pl. q \<in> set (bucket_of r' pl))" "\<not> (q \<in> m_used r' \<and> q \<in> freed r')"
      using i q unfolding rmr_inv_def by blast+
    moreover have "q \<in> freed r' \<longrightarrow> count_list (m_freed r') q = 1" using i count_distinct by (auto simp: rmr_inv_def)
    ultimately show ?thesis using one [of q] by metis
  qed
  moreover have "count_list (bucket_of r' pl) q = 1 \<and> class_of pl < num_classes \<and> m_size r' q = class_size (class_of pl)"
    if q: "q \<in> set (bucket_of r' pl)" for pl q
  proof -
    have "distinct (bucket_of r' pl)" "num_classes \<le> class_of pl \<longrightarrow> bucket_of r' pl = []" "m_size r' q = class_size (class_of pl)"
      using st q unfolding stored_def by blast+
    then show ?thesis using q count_distinct by (cases "num_classes \<le> class_of pl") auto
  qed
  moreover have "m_used r' = insert p (m_used r)" "p \<notin> m_used r" using used r1(2) p by simp_all
  moreover have "p \<notin> freed r'" "bytes \<le> m_size r' p" using i index_facts(2) [OF assms(2)] by simp_all
  ultimately show ?thesis by blast
qed

theorem recycling_allocate_safe_witness:
  "\<exists>p r'. do_allocate 0 100 (snd (do_allocate 0 100 rmr_init)) = (p, r') \<and> p \<notin> m_used (snd (do_allocate 0 100 rmr_init)) \<and> 100 \<le> m_size r' p"
proof -
  have s: "100 \<le> size_max" by (simp add: size_max_def)
  obtain p r' where r: "do_allocate 0 100 (snd (do_allocate 0 100 rmr_init)) = (p, r')" by fastforce
  from recycling_allocate_safe [OF alloc [OF start s] s r] r show ?thesis by blast
qed

text \<open>
  Nothing leaks: when every thread has exited and no client holds a block, and the global pool has been
  emptied at process exit, every block ever obtained from the system has been returned to it, once.
\<close>

theorem recycling_no_leak:
  assumes "rmr_reach r" "m_used r = {}" "\<forall>t i. m_local r t i = []"
  shows "set (m_freed (process_exit r)) = {..<m_next r} \<and> distinct (m_freed (process_exit r))"
proof -
  have inv: "rmr_inv (process_exit r)" by (rule process_exit_inv [OF reach_inv [OF assms(1)]])
  have "bucket_of (process_exit r) pl = []" for pl
    using assms(3) inv by (cases pl) (auto simp: process_exit_def rmr_inv_def stored_def dest: spec [of _ pl])
  then show ?thesis using inv assms(2) by (auto simp: rmr_inv_def process_exit_def)
qed

theorem recycling_no_leak_witness:
  "set (m_freed (process_exit (thread_exit 0 (do_deallocate 0 0 100 (snd (do_allocate 0 100 rmr_init)))))) = {..<1}"
proof -
  have rb: "round_up_pow2 100 = 128" by (simp add: round_up_pow2_def min_class_size_def bit_ceil_def bit_ceil_from.simps)
  have "get_class_index (2 ^ 7) = 1" by (subst class_index_pow) (simp_all add: size_max_def num_classes_def)
  then have ci: "get_class_index 128 = 1" by simp
  let ?r1 = "snd (do_allocate 0 100 rmr_init)" and ?s = "100 :: nat"
  have r1: "?r1 = rmr_init\<lparr>m_size := (\<lambda>_. 0)(0 := 128), m_used := {0}, m_next := 1\<rparr>"
    by (simp add: do_allocate_def allocate_fast_def allocate_slow_def rb ci num_classes_def bucket_pop_def bucket_pop_into_def
        operator_new_def rmr_init_def set_local_def set_global_def Let_def fun_upd_idem arm_thread_cleanup_def)
  let ?r2 = "do_deallocate 0 0 100 ?r1" and ?r3 = "thread_exit 0 (do_deallocate 0 0 100 ?r1)"
  have r2: "?r2 = ?r1\<lparr>m_used := {}, m_armed := (\<lambda>_. False)(0 := True), m_local := (\<lambda>_ _. [])(0 := (\<lambda>_. [])(1 := [0]))\<rparr>"
    unfolding r1 by (simp add: do_deallocate_def deallocate_fast_def rb ci num_classes_def arm_thread_cleanup_def bucket_push_def
        bucket_capacity_def set_local_def rmr_init_def Let_def)
  have reach: "rmr_reach ?r3"
  proof (rule exits, rule dealloc)
    show "rmr_reach ?r1" by (rule alloc [OF start]) (simp add: size_max_def)
    show "m_size ?r1 0 = block_size 100" unfolding r1 by (simp add: block_size_def rb ci num_classes_def)
    show "0 \<in> m_used ?r1" unfolding r1 by simp
  qed (simp add: size_max_def)
  have "m_used ?r3 = {}" "\<forall>t i. m_local ?r3 t i = []" "m_next ?r3 = 1"
    unfolding r2 unfolding r1 by (simp_all add: thread_exit_def rmr_init_def num_classes_def)
  with recycling_no_leak [OF reach] show ?thesis by simp
qed

section \<open>The frame layout\<close>

text \<open>
  A coroutine frame is allocated with room for a pointer behind it, which records the resource it came from:
  \<open>trailer\<close> is that pointer at an address, \<open>rmr\<close> the recycling resource. The operations yield the request made of a resource.
\<close>

datatype request = Recycle_Fast nat | Virtual_Call nat nat

definition frame_new :: "nat \<Rightarrow> nat \<Rightarrow> nat option \<Rightarrow> nat \<Rightarrow> addr \<Rightarrow> (addr \<Rightarrow> nat) \<Rightarrow> request \<times> (addr \<Rightarrow> nat)" where
  "frame_new rmr default_resource current sz raw trailer =
     (let mr = (case current of None \<Rightarrow> default_resource | Some mr \<Rightarrow> mr);
          total_sz = sz + 8
      in (if mr = rmr then Recycle_Fast total_sz else Virtual_Call mr total_sz, trailer(raw + sz := mr)))"

definition frame_delete :: "nat \<Rightarrow> addr \<Rightarrow> nat \<Rightarrow> (addr \<Rightarrow> nat) \<Rightarrow> request" where
  "frame_delete rmr p sz trailer =
     (let mr = trailer (p + sz); total_sz = sz + 8
      in if mr = rmr then Recycle_Fast total_sz else Virtual_Call mr total_sz)"

text \<open>
  A frame goes back to the resource it came from with the size it was requested with, whatever the current
  frame allocator is when it is destroyed, as long as its trailer was not overwritten.
\<close>

theorem frame_roundtrip:
  assumes "frame_new rmr dflt current sz raw trailer = (req, trailer')" "trailer'' (raw + sz) = trailer' (raw + sz)"
  shows "frame_delete rmr raw sz trailer'' = req"
  using assms by (auto simp: frame_new_def frame_delete_def Let_def)

theorem frame_roundtrip_witness: "frame_delete 1 1000 64 ((\<lambda>_. 0)(1064 := 2)) = Virtual_Call 2 72"
proof -
  have "frame_new 1 2 None 64 1000 (\<lambda>_. 0) = (Virtual_Call 2 72, (\<lambda>_. 0)(1064 := 2))" by (simp add: frame_new_def)
  from frame_roundtrip [OF this] show ?thesis by simp
qed

end
