(* ===== verification/Async_Mutex.thy ===== *)
theory Async_Mutex
  imports Errors
begin

text \<open>
  The asynchronous mutex \<^verbatim>\<open>ex/async_mutex.hpp\<close>. A waiter is an address with the flags of its
  \<^verbatim>\<open>lock_awaiter\<close>; the intrusive list of waiters is the list of addresses (\<open>Intrusive\<close> shows the pointer
  list to act as one). Posting a granted waiter to its executor may destroy it on the spot, which
  re-enters \<^verbatim>\<open>unlock\<close>, or destroy the mutex itself: the argument \<open>react\<close> says what the post of each waiter
  does. \<open>am_status\<close> and \<open>am_gone\<close> are ghosts, what the code awaiting the lock has been told and whether the mutex
  was destroyed; \<open>am_posted\<close> lists the waiters posted so far.
\<close>

type_synonym waiter = nat

datatype status = Fresh | Suspended | Holding | Was_Canceled | Finished

record lock_awaiter =
  w_claimed :: bool
  w_canceled :: bool
  w_active :: bool
  w_granted :: bool
  w_in_list :: bool

definition awaiter_init :: lock_awaiter where
  "awaiter_init = \<lparr>w_claimed = False, w_canceled = False, w_active = False, w_granted = False, w_in_list = False\<rparr>"

record async_mutex =
  am_locked :: bool
  am_waiters :: "waiter list"
  am_granted_to :: "waiter option"
  am_aw :: "waiter \<Rightarrow> lock_awaiter"
  am_status :: "waiter \<Rightarrow> status"
  am_posted :: "waiter list"
  am_gone :: bool

text \<open>What an executor does with a posted waiter before the post returns.\<close>

datatype post_outcome = Kept | Destroyed | Mutex_Gone

definition mutex_init :: async_mutex where
  "mutex_init = \<lparr>am_locked = False, am_waiters = [], am_granted_to = None, am_aw = (\<lambda>_. awaiter_init),
     am_status = (\<lambda>_. Fresh), am_posted = [], am_gone = False\<rparr>"

definition upd_aw :: "waiter \<Rightarrow> (lock_awaiter \<Rightarrow> lock_awaiter) \<Rightarrow> async_mutex \<Rightarrow> async_mutex" where
  "upd_aw w f m = m\<lparr>am_aw := (am_aw m)(w := f (am_aw m w))\<rparr>"

definition set_status :: "waiter \<Rightarrow> status \<Rightarrow> async_mutex \<Rightarrow> async_mutex" where
  "set_status w s m = m\<lparr>am_status := (am_status m)(w := s)\<rparr>"

definition post :: "waiter \<Rightarrow> async_mutex \<Rightarrow> async_mutex" where
  "post w m = m\<lparr>am_posted := am_posted m @ [w]\<rparr>"

section \<open>Awaiting the lock\<close>

definition await_ready :: "async_mutex \<Rightarrow> bool \<times> async_mutex" where
  "await_ready m = (if \<not> am_locked m then (True, m\<lparr>am_locked := True\<rparr>) else (False, m))"

text \<open>True when the coroutine resumes at once.\<close>

definition await_suspend :: "bool \<Rightarrow> waiter \<Rightarrow> async_mutex \<Rightarrow> bool \<times> async_mutex" where
  "await_suspend stop_requested w m =
     (if stop_requested then (True, upd_aw w (w_canceled_update (\<lambda>_. True)) m)
      else (False, upd_aw w (w_active_update (\<lambda>_. True))
             (upd_aw w (w_in_list_update (\<lambda>_. True)) (m\<lparr>am_waiters := am_waiters m @ [w]\<rparr>))))"

definition remove_waiter :: "waiter \<Rightarrow> async_mutex \<Rightarrow> async_mutex" where
  "remove_waiter w m = m\<lparr>am_waiters := remove1 w (am_waiters m)\<rparr>"

definition await_resume :: "waiter \<Rightarrow> async_mutex \<Rightarrow> error_code \<times> async_mutex" where
  "await_resume w m =
     (let m = (if w_granted (am_aw m w) then (upd_aw w (w_granted_update (\<lambda>_. False)) m)\<lparr>am_granted_to := None\<rparr> else m) in
      if w_active (am_aw m w) then
        if w_canceled (am_aw m w) then
          let m = (if w_in_list (am_aw m w) then upd_aw w (w_in_list_update (\<lambda>_. False)) (remove_waiter w m) else m)
          in (make_error_code canceled, upd_aw w (w_active_update (\<lambda>_. False)) m)
        else (success, upd_aw w (w_active_update (\<lambda>_. False)) m)
      else if w_canceled (am_aw m w) then (make_error_code canceled, m)
      else (success, m))"

text \<open>The stop callback of a waiter.\<close>

definition cancel_fn :: "waiter \<Rightarrow> async_mutex \<Rightarrow> async_mutex" where
  "cancel_fn w m =
     (if \<not> w_claimed (am_aw m w)
      then post w (upd_aw w (w_canceled_update (\<lambda>_. True)) (upd_aw w (w_claimed_update (\<lambda>_. True)) m))
      else m)"

section \<open>Unlocking\<close>

fun grant_loop :: "waiter list \<Rightarrow> async_mutex \<Rightarrow> waiter option \<times> async_mutex" where
  "grant_loop [] m = (None, m\<lparr>am_waiters := [], am_locked := False\<rparr>)"
| "grant_loop (w # ws) m =
     (let m = upd_aw w (w_in_list_update (\<lambda>_. False)) (m\<lparr>am_waiters := ws\<rparr>) in
      if \<not> w_claimed (am_aw m w)
      then (Some w, (upd_aw w (w_granted_update (\<lambda>_. True)) (upd_aw w (w_claimed_update (\<lambda>_. True)) m))\<lparr>am_granted_to := Some w\<rparr>)
      else grant_loop ws m)"

definition grant_next :: "async_mutex \<Rightarrow> waiter option \<times> async_mutex" where
  "grant_next m = grant_loop (am_waiters m) m"

lemma grant_loop_length: "grant_loop ws m = (Some w, m') \<Longrightarrow> length (am_waiters m') < length ws"
  by (induction ws m rule: grant_loop.induct) (auto simp: Let_def upd_aw_def split: if_splits)

text \<open>The destructor of the mutex cancels every waiter it can reach.\<close>

fun destroy_loop :: "waiter list \<Rightarrow> async_mutex \<Rightarrow> async_mutex" where
  "destroy_loop [] m = m\<lparr>am_waiters := []\<rparr>"
| "destroy_loop (w # ws) m =
     (let m = upd_aw w (w_in_list_update (\<lambda>_. False)) (m\<lparr>am_waiters := ws\<rparr>);
          m = (if \<not> w_claimed (am_aw m w)
               then post w (upd_aw w (w_canceled_update (\<lambda>_. True)) (upd_aw w (w_claimed_update (\<lambda>_. True)) m))
               else m)
      in destroy_loop ws m)"

definition mutex_destroy :: "async_mutex \<Rightarrow> async_mutex" where
  "mutex_destroy m =
     (let m = m\<lparr>am_gone := True\<rparr>;
          m = (case am_granted_to m of
                 None \<Rightarrow> m
               | Some w \<Rightarrow> upd_aw w (w_canceled_update (\<lambda>_. True)) (upd_aw w (w_granted_update (\<lambda>_. False)) m))
      in destroy_loop (am_waiters m) m)"

text \<open>
  The loop of \<^verbatim>\<open>unlock\<close>: a granted waiter that the post destroys has released the grant and asked for another round
  (\<^verbatim>\<open>scope.again\<close>); a mutex that the post destroys ends the loop (\<^verbatim>\<open>scope.gone\<close>).
\<close>

function unlock :: "(waiter \<Rightarrow> post_outcome) \<Rightarrow> async_mutex \<Rightarrow> async_mutex" where
  "unlock react m =
     (case grant_next m of
        (None, m) \<Rightarrow> m
      | (Some w, m) \<Rightarrow>
         (case react w of
            Kept \<Rightarrow> post w m
          | Destroyed \<Rightarrow> unlock react (set_status w Finished (post w (m\<lparr>am_granted_to := None\<rparr>)))
          | Mutex_Gone \<Rightarrow> mutex_destroy (post w m)))"
  by pat_completeness auto
termination
  by (relation "measure (\<lambda>(react, m). length (am_waiters m))")
     (auto simp: grant_next_def post_def set_status_def dest!: grant_loop_length [OF sym])

declare unlock.simps [simp del]

definition awaiter_destroy :: "(waiter \<Rightarrow> post_outcome) \<Rightarrow> waiter \<Rightarrow> async_mutex \<Rightarrow> async_mutex" where
  "awaiter_destroy react w m =
     (let m = (if w_in_list (am_aw m w) then remove_waiter w m else m);
          m = set_status w Finished m
      in if w_granted (am_aw m w) then unlock react (m\<lparr>am_granted_to := None\<rparr>) else m)"

definition is_locked :: "async_mutex \<Rightarrow> bool" where
  "is_locked m = am_locked m"

section \<open>The guard\<close>

text \<open>A \<^verbatim>\<open>lock_guard\<close> is whether it refers to the mutex.\<close>

definition guard_destroy :: "(waiter \<Rightarrow> post_outcome) \<Rightarrow> bool \<Rightarrow> async_mutex \<Rightarrow> async_mutex" where
  "guard_destroy react g m = (if g then unlock react m else m)"

definition guard_move :: "bool \<Rightarrow> bool \<times> bool" where
  "guard_move from = (from, False)"

text \<open>Assignment between distinct guards: the new guard, the source, the mutex.\<close>

definition guard_assign :: "(waiter \<Rightarrow> post_outcome) \<Rightarrow> bool \<Rightarrow> bool \<Rightarrow> async_mutex \<Rightarrow> bool \<times> bool \<times> async_mutex" where
  "guard_assign react to from m = (let m = (if to then unlock react m else m) in (from, False, m))"

definition guard_await_resume :: "waiter \<Rightarrow> async_mutex \<Rightarrow> (error_code \<times> bool) \<times> async_mutex" where
  "guard_await_resume w m =
     (let (ec, m) = await_resume w m in if failed ec then ((ec, False), m) else ((success, True), m))"

section \<open>Uses of the mutex\<close>

text \<open>
  \<open>mutex_step\<close>: a coroutine awaits \<^verbatim>\<open>lock()\<close>, a stop request reaches a waiter, a waiter that was posted resumes, the frame of
  a suspended waiter is destroyed, the holder calls \<^verbatim>\<open>unlock()\<close>, the mutex is destroyed while nobody holds it. Waiters may
  outlive the mutex.
\<close>

inductive mutex_step :: "async_mutex \<Rightarrow> async_mutex \<Rightarrow> bool" where
  lock_ready: "\<lbrakk>\<not> am_gone m; am_status m w = Fresh; await_ready m = (True, m')\<rbrakk> \<Longrightarrow> mutex_step m (set_status w Holding m')"
| lock_stopped: "\<lbrakk>\<not> am_gone m; am_status m w = Fresh; await_ready m = (False, m1); await_suspend True w m1 = (True, m')\<rbrakk>
    \<Longrightarrow> mutex_step m (set_status w Was_Canceled m')"
| lock_waits: "\<lbrakk>\<not> am_gone m; am_status m w = Fresh; await_ready m = (False, m1); await_suspend False w m1 = (False, m')\<rbrakk>
    \<Longrightarrow> mutex_step m (set_status w Suspended m')"
| stop_request: "am_status m w = Suspended \<Longrightarrow> mutex_step m (cancel_fn w m)"
| resume_granted: "\<lbrakk>am_status m w = Suspended; w \<in> set (am_posted m); await_resume w m = (ec, m'); \<not> failed ec\<rbrakk>
    \<Longrightarrow> mutex_step m (set_status w Holding m')"
| resume_canceled: "\<lbrakk>am_status m w = Suspended; w \<in> set (am_posted m); await_resume w m = (ec, m'); failed ec\<rbrakk>
    \<Longrightarrow> mutex_step m (set_status w Was_Canceled m')"
| waiter_destroyed: "am_status m w = Suspended \<Longrightarrow> mutex_step m (awaiter_destroy react w m)"
| unlocks: "am_status m w = Holding \<Longrightarrow> mutex_step m (unlock react (set_status w Finished m))"
| mutex_destroyed: "\<lbrakk>\<not> am_gone m; \<forall>w. am_status m w \<noteq> Holding\<rbrakk> \<Longrightarrow> mutex_step m (mutex_destroy m)"

inductive mutex_reach :: "async_mutex \<Rightarrow> bool" where
  start: "mutex_reach mutex_init"
| step: "mutex_reach m \<Longrightarrow> mutex_step m m' \<Longrightarrow> mutex_reach m'"

section \<open>The invariant\<close>

text \<open>
  What holds of the waiters: those in the list are suspended and not granted, a claimed one among them was
  canceled; the granted waiter is out of the list and suspended; every other suspended waiter was canceled.
\<close>

definition waiter_ok :: "lock_awaiter \<Rightarrow> status \<Rightarrow> bool \<Rightarrow> bool \<Rightarrow> bool" where
  "waiter_ok aw s listed granted \<longleftrightarrow>
     (s = Suspended \<longrightarrow> w_active aw \<and> w_in_list aw = listed \<and> w_granted aw = granted
        \<and> (w_claimed aw \<longleftrightarrow> w_canceled aw \<or> granted) \<and> \<not> (w_canceled aw \<and> granted) \<and> \<not> (listed \<and> granted) \<and> (w_claimed aw \<or> listed))
   \<and> (s \<noteq> Suspended \<longrightarrow> \<not> listed \<and> \<not> granted) \<and> (s = Fresh \<longrightarrow> aw = awaiter_init)"

definition waiters_ok :: "async_mutex \<Rightarrow> bool" where
  "waiters_ok m \<longleftrightarrow> distinct (am_waiters m)
     \<and> (\<forall>w. waiter_ok (am_aw m w) (am_status m w) (w \<in> set (am_waiters m)) (am_granted_to m = Some w))"

definition lock_ok :: "async_mutex \<Rightarrow> bool" where
  "lock_ok m \<longleftrightarrow> (\<forall>a b. am_status m a = Holding \<longrightarrow> am_status m b = Holding \<longrightarrow> a = b)
     \<and> (am_locked m \<longleftrightarrow> (\<exists>a. am_status m a = Holding) \<or> am_granted_to m \<noteq> None)
     \<and> ((\<exists>a. am_status m a = Holding) \<longrightarrow> am_granted_to m = None)
     \<and> (\<not> am_locked m \<longrightarrow> am_waiters m = [])"

lemmas mutex_defs = upd_aw_def set_status_def post_def remove_waiter_def

lemma waiters_okD: "waiters_ok m \<Longrightarrow> waiter_ok (am_aw m w) (am_status m w) (w \<in> set (am_waiters m)) (am_granted_to m = Some w)"
  by (simp add: waiters_ok_def)

text \<open>Changing one waiter.\<close>

lemma waiters_ok_change:
  assumes "waiters_ok m" "distinct (am_waiters m')"
    and "\<And>v. v \<noteq> w \<Longrightarrow> am_aw m' v = am_aw m v \<and> am_status m' v = am_status m v
      \<and> (v \<in> set (am_waiters m') \<longleftrightarrow> v \<in> set (am_waiters m)) \<and> (am_granted_to m' = Some v \<longleftrightarrow> am_granted_to m = Some v)"
    and "waiter_ok (am_aw m' w) (am_status m' w) (w \<in> set (am_waiters m')) (am_granted_to m' = Some w)"
  shows "waiters_ok m'"
  unfolding waiters_ok_def
proof (intro conjI allI)
  fix v
  show "waiter_ok (am_aw m' v) (am_status m' v) (v \<in> set (am_waiters m')) (am_granted_to m' = Some v)"
    using waiters_okD [OF assms(1), of v] assms(3) [of v] assms(4) by (cases "v = w") simp_all
qed (rule assms(2))

lemma grant_loop_ok:
  assumes "waiters_ok m" "am_waiters m = ws" "am_granted_to m = None" "grant_loop ws m = (r, m')"
  shows "waiters_ok m' \<and> am_gone m' = am_gone m \<and> am_posted m' = am_posted m \<and> am_status m' = am_status m \<and> am_granted_to m' = r
    \<and> (if r = None then \<not> am_locked m' \<and> am_waiters m' = [] else am_locked m' = am_locked m)
    \<and> r = find (\<lambda>w. \<not> w_claimed (am_aw m w)) ws"
  using assms
proof (induction ws m rule: grant_loop.induct)
  case (1 m)
  then show ?case by (auto simp: waiters_ok_def)
next
  case (2 x ws m)
  let ?m1 = "upd_aw x (w_in_list_update (\<lambda>_. False)) (m\<lparr>am_waiters := ws\<rparr>)"
  have x: "x \<notin> set ws" "distinct ws" "waiter_ok (am_aw m x) (am_status m x) True False"
    using "2.prems"(1-3) waiters_okD [OF "2.prems"(1), of x] by (auto simp: waiters_ok_def)
  show ?case
  proof (cases "w_claimed (am_aw m x)")
    case True
    have ok: "waiters_ok ?m1"
      by (rule waiters_ok_change [OF "2.prems"(1), of _ x])
        (use "2.prems"(2,3) x True in \<open>auto simp: upd_aw_def waiter_ok_def\<close>)
    have g: "grant_loop ws ?m1 = (r, m')" using "2.prems"(4) True by (simp add: upd_aw_def Let_def)
    have "find (\<lambda>w. \<not> w_claimed (am_aw ?m1 w)) ws = find (\<lambda>w. \<not> w_claimed (am_aw m w)) ws"
      by (rule find_cong) (auto simp: upd_aw_def)
    with "2.IH" [OF refl _ ok _ _ g] True "2.prems"(3) show ?thesis by (simp add: upd_aw_def)
  next
    case False
    then have m': "r = Some x" "m' = (upd_aw x (w_granted_update (\<lambda>_. True)) (upd_aw x (w_claimed_update (\<lambda>_. True)) ?m1))\<lparr>am_granted_to := Some x\<rparr>"
      using "2.prems"(4) by (auto simp: upd_aw_def Let_def)
    have "waiters_ok m'"
      by (rule waiters_ok_change [OF "2.prems"(1), of _ x])
        (use "2.prems"(2,3) x False m' in \<open>auto simp: upd_aw_def waiter_ok_def\<close>)
    then show ?thesis using m' False by (simp add: upd_aw_def)
  qed
qed


text \<open>Every waiter is posted once, when it is claimed.\<close>

definition posted_ok :: "async_mutex \<Rightarrow> bool" where
  "posted_ok m \<longleftrightarrow> (\<forall>w. count_list (am_posted m) w = (if w_claimed (am_aw m w) then 1 else 0))"

lemma posted_ok_claim:
  "posted_ok m \<Longrightarrow> \<not> w_claimed (am_aw m w)
   \<Longrightarrow> posted_ok (post w (upd_aw w (w_canceled_update (\<lambda>_. True)) (upd_aw w (w_claimed_update (\<lambda>_. True)) m)))"
  by (auto simp: posted_ok_def mutex_defs)

lemma posted_ok_same:
  "posted_ok m \<Longrightarrow> am_posted m' = am_posted m \<Longrightarrow> (\<And>w. w_claimed (am_aw m' w) = w_claimed (am_aw m w)) \<Longrightarrow> posted_ok m'"
  by (simp add: posted_ok_def)

lemma posted_ok_grant:
  "grant_loop ws m = (r, m') \<Longrightarrow> posted_ok m \<Longrightarrow> (case r of None \<Rightarrow> posted_ok m' | Some w \<Rightarrow> posted_ok (post w m'))"
proof (induction ws m rule: grant_loop.induct)
  case (2 w ws m)
  let ?m = "upd_aw w (w_in_list_update (\<lambda>_. False)) (m\<lparr>am_waiters := ws\<rparr>)"
  show ?case
  proof (cases "w_claimed (am_aw ?m w)")
    case True
    with "2.prems"(1) have g: "grant_loop ws ?m = (r, m')" by simp
    have "posted_ok ?m" by (rule posted_ok_same [OF "2.prems"(2)]) (simp_all add: mutex_defs)
    with "2.IH" [OF refl _ g] True show ?thesis by simp
  next
    case False
    then show ?thesis using "2.prems" by (auto simp: posted_ok_def mutex_defs)
  qed
qed (auto simp: posted_ok_def)

section \<open>After the destructor\<close>

definition gone_ok :: "async_mutex \<Rightarrow> bool" where
  "gone_ok m \<longleftrightarrow> (\<forall>w. am_status m w \<noteq> Holding \<and> (am_status m w = Suspended \<longrightarrow>
     w_active (am_aw m w) \<and> w_claimed (am_aw m w) \<and> w_canceled (am_aw m w)
     \<and> \<not> w_granted (am_aw m w) \<and> \<not> w_in_list (am_aw m w)))"

lemma destroy_loop_ok:
  assumes "posted_ok m" and "\<And>w. am_status m w \<noteq> Holding"
    and "\<And>w. am_status m w = Suspended \<Longrightarrow> w_active (am_aw m w) \<and> \<not> w_granted (am_aw m w)
      \<and> (w_claimed (am_aw m w) \<longrightarrow> w_canceled (am_aw m w)) \<and> (w_in_list (am_aw m w) \<longrightarrow> w \<in> set ws)
      \<and> (w_claimed (am_aw m w) \<or> w \<in> set ws)"
  shows "gone_ok (destroy_loop ws m) \<and> posted_ok (destroy_loop ws m) \<and> am_gone (destroy_loop ws m) = am_gone m"
  using assms
proof (induction ws m rule: destroy_loop.induct)
  case (1 m)
  then show ?case by (force simp: gone_ok_def posted_ok_def)
next
  case (2 w ws m)
  let ?m1 = "upd_aw w (w_in_list_update (\<lambda>_. False)) (m\<lparr>am_waiters := ws\<rparr>)"
  let ?m2 = "if \<not> w_claimed (am_aw ?m1 w)
    then post w (upd_aw w (w_canceled_update (\<lambda>_. True)) (upd_aw w (w_claimed_update (\<lambda>_. True)) ?m1)) else ?m1"
  have "posted_ok ?m1" by (rule posted_ok_same [OF "2.prems"(1)]) (simp_all add: mutex_defs)
  then have p: "posted_ok ?m2" by (auto intro: posted_ok_claim)
  have "gone_ok (destroy_loop ws ?m2) \<and> posted_ok (destroy_loop ws ?m2) \<and> am_gone (destroy_loop ws ?m2) = am_gone ?m2"
  proof (rule "2.IH" [OF refl refl p])
    fix v
    show "am_status ?m2 v \<noteq> Holding" using "2.prems"(2) by (simp add: mutex_defs)
    assume "am_status ?m2 v = Suspended"
    then show "w_active (am_aw ?m2 v) \<and> \<not> w_granted (am_aw ?m2 v) \<and> (w_claimed (am_aw ?m2 v) \<longrightarrow> w_canceled (am_aw ?m2 v))
        \<and> (w_in_list (am_aw ?m2 v) \<longrightarrow> v \<in> set ws) \<and> (w_claimed (am_aw ?m2 v) \<or> v \<in> set ws)"
      using "2.prems"(3) [of v] by (auto simp: mutex_defs split: if_splits)
  qed
  moreover have "am_gone ?m2 = am_gone m" by (simp add: mutex_defs)
  moreover have "destroy_loop (w # ws) m = destroy_loop ws ?m2" by (simp only: destroy_loop.simps Let_def)
  ultimately show ?case by (simp only:)
qed

lemma mutex_destroy_ok:
  assumes "waiters_ok m" "posted_ok m" "\<And>w. am_status m w \<noteq> Holding"
  shows "gone_ok (mutex_destroy m) \<and> posted_ok (mutex_destroy m) \<and> am_gone (mutex_destroy m)"
proof -
  let ?m = "case am_granted_to m of None \<Rightarrow> m\<lparr>am_gone := True\<rparr>
    | Some w \<Rightarrow> upd_aw w (w_canceled_update (\<lambda>_. True)) (upd_aw w (w_granted_update (\<lambda>_. False)) (m\<lparr>am_gone := True\<rparr>))"
  have d: "mutex_destroy m = destroy_loop (am_waiters ?m) ?m"
    by (simp add: mutex_destroy_def Let_def split: option.split)
  have "posted_ok ?m" by (rule posted_ok_same [OF assms(2)]) (auto simp: mutex_defs split: option.split)
  moreover have "am_status ?m w \<noteq> Holding" for w using assms(3) by (simp add: mutex_defs split: option.split)
  moreover have "w_active (am_aw ?m w) \<and> \<not> w_granted (am_aw ?m w) \<and> (w_claimed (am_aw ?m w) \<longrightarrow> w_canceled (am_aw ?m w))
      \<and> (w_in_list (am_aw ?m w) \<longrightarrow> w \<in> set (am_waiters ?m)) \<and> (w_claimed (am_aw ?m w) \<or> w \<in> set (am_waiters ?m))"
    if "am_status ?m w = Suspended" for w
    using that waiters_okD [OF assms(1), of w] by (auto simp: waiter_ok_def mutex_defs split: option.splits)
  ultimately show ?thesis using destroy_loop_ok [of ?m "am_waiters ?m"]
    by (simp add: d) (auto simp: mutex_defs split: option.split)
qed

section \<open>The invariant is kept\<close>

definition mutex_inv :: "async_mutex \<Rightarrow> bool" where
  "mutex_inv m \<longleftrightarrow> posted_ok m \<and> (if am_gone m then gone_ok m else waiters_ok m \<and> lock_ok m)"

lemma unlock_ok:
  assumes "waiters_ok m" "posted_ok m" "am_granted_to m = None" "\<forall>a. am_status m a \<noteq> Holding" "am_locked m" "\<not> am_gone m"
  shows "mutex_inv (unlock react m)"
  using assms
proof (induction react m rule: unlock.induct)
  case (1 react m)
  obtain r m1 where g: "grant_next m = (r, m1)" by fastforce
  have ok: "waiters_ok m1" "am_status m1 = am_status m" "am_granted_to m1 = r" "\<not> am_gone m1"
    "if r = None then \<not> am_locked m1 \<and> am_waiters m1 = [] else am_locked m1 = am_locked m"
    and p: "case r of None \<Rightarrow> posted_ok m1 | Some w \<Rightarrow> posted_ok (post w m1)"
    using grant_loop_ok [OF "1.prems"(1) refl "1.prems"(3) g [unfolded grant_next_def]] "1.prems"(6)
      posted_ok_grant [OF g [unfolded grant_next_def] "1.prems"(2)] by simp_all
  show ?case
  proof (cases r)
    case None
    have "unlock react m = m1" by (subst unlock.simps) (simp add: g None)
    then show ?thesis using ok p "1.prems"(4) None by (simp add: lock_ok_def mutex_inv_def)
  next
    case (Some w)
    have w: "waiter_ok (am_aw m1 w) (am_status m1 w) (w \<in> set (am_waiters m1)) True"
      using waiters_okD [of m1 w] ok Some by simp
    have pw: "waiters_ok (post w m1)" "\<And>a. am_status (post w m1) a \<noteq> Holding"
      using ok "1.prems"(4) by (simp_all add: post_def waiters_ok_def)
    show ?thesis
    proof (cases "react w")
      case Kept
      have "unlock react m = post w m1" by (subst unlock.simps) (simp add: g Some Kept)
      then show ?thesis using ok p pw Some "1.prems"(4,5) by (simp add: lock_ok_def mutex_inv_def post_def)
    next
      case Destroyed
      let ?m2 = "set_status w Finished (post w (m1\<lparr>am_granted_to := None\<rparr>))"
      have u: "unlock react m = unlock react ?m2" by (subst unlock.simps) (simp add: g Some Destroyed)
      have wk: "waiters_ok ?m2"
        by (rule waiters_ok_change [OF ok(1), of _ w]) (use ok Some w in \<open>auto simp: mutex_defs waiter_ok_def waiters_ok_def split: if_splits\<close>)
      have "posted_ok ?m2" using p Some by (simp add: posted_ok_def mutex_defs)
      with "1.IH" [OF g [symmetric] Some Destroyed wk] ok "1.prems"(4,5) Some
      show ?thesis by (simp add: u) (simp add: mutex_defs)
    next
      case Mutex_Gone
      have "unlock react m = mutex_destroy (post w m1)" by (subst unlock.simps) (simp add: g Some Mutex_Gone)
      then show ?thesis using mutex_destroy_ok [OF pw(1) _ pw(2)] p Some by (simp add: mutex_inv_def)
    qed
  qed
qed

lemma lock_ok_same:
  assumes "lock_ok m" "\<And>a. am_status m' a = Holding \<longleftrightarrow> am_status m a = Holding" "am_locked m' = am_locked m"
    "am_granted_to m' = am_granted_to m" "\<not> am_locked m \<Longrightarrow> am_waiters m' = []"
  shows "lock_ok m'"
  using assms(1,5) unfolding lock_ok_def assms(2-4) by blast

lemma mutex_inv_init: "mutex_inv mutex_init"
  by (simp add: mutex_inv_def mutex_init_def posted_ok_def waiters_ok_def waiter_ok_def lock_ok_def awaiter_init_def)

lemma step_lock_ready:
  assumes "mutex_inv m" "\<not> am_gone m" "am_status m w = Fresh" "await_ready m = (True, m')"
  shows "mutex_inv (set_status w Holding m')"
proof -
  have m: "waiters_ok m" "lock_ok m" "posted_ok m" using assms(1,2) by (simp_all add: mutex_inv_def)
  have m': "\<not> am_locked m" "m' = m\<lparr>am_locked := True\<rparr>" using assms(4) by (auto simp: await_ready_def split: if_splits)
  have "waiters_ok (set_status w Holding m')"
    by (rule waiters_ok_change [OF m(1), of _ w])
      (use waiters_okD [OF m(1), of w] m(1) assms(3) m' in \<open>auto simp: mutex_defs waiter_ok_def waiters_ok_def\<close>)
  moreover have "lock_ok (set_status w Holding m')" using m(2) m' by (auto simp: lock_ok_def mutex_defs)
  ultimately show ?thesis using m(3) m' assms(2) by (simp add: mutex_inv_def mutex_defs posted_ok_def)
qed

lemma step_lock_stopped:
  assumes "mutex_inv m" "\<not> am_gone m" "am_status m w = Fresh" "await_ready m = (False, m1)" "await_suspend True w m1 = (b, m')"
  shows "mutex_inv (set_status w Was_Canceled m')"
proof -
  have m: "waiters_ok m" "lock_ok m" "posted_ok m" using assms(1,2) by (simp_all add: mutex_inv_def)
  have m': "m' = upd_aw w (w_canceled_update (\<lambda>_. True)) m" using assms(4,5) by (auto simp: await_ready_def await_suspend_def split: if_splits)
  have "waiters_ok (set_status w Was_Canceled m')"
    by (rule waiters_ok_change [OF m(1), of _ w])
      (use waiters_okD [OF m(1), of w] m(1) assms(3) m' in \<open>auto simp: mutex_defs waiter_ok_def waiters_ok_def\<close>)
  moreover have "lock_ok (set_status w Was_Canceled m')"
    by (rule lock_ok_same [OF m(2)]) (use m(2) m' assms(3) in \<open>auto simp: lock_ok_def mutex_defs\<close>)
  ultimately show ?thesis using m(3) m' assms(2) by (auto simp: mutex_inv_def mutex_defs posted_ok_def)
qed

lemma step_lock_waits:
  assumes "mutex_inv m" "\<not> am_gone m" "am_status m w = Fresh" "await_ready m = (False, m1)" "await_suspend False w m1 = (b, m')"
  shows "mutex_inv (set_status w Suspended m')"
proof -
  have m: "waiters_ok m" "lock_ok m" "posted_ok m" using assms(1,2) by (simp_all add: mutex_inv_def)
  have m': "am_locked m" "m' = upd_aw w (w_active_update (\<lambda>_. True))
      (upd_aw w (w_in_list_update (\<lambda>_. True)) (m\<lparr>am_waiters := am_waiters m @ [w]\<rparr>))"
    using assms(4,5) by (auto simp: await_ready_def await_suspend_def split: if_splits)
  have "waiters_ok (set_status w Suspended m')"
    by (rule waiters_ok_change [OF m(1), of _ w])
      (use waiters_okD [OF m(1), of w] m(1) assms(3) m' in \<open>auto simp: mutex_defs waiter_ok_def waiters_ok_def awaiter_init_def\<close>)
  moreover have "lock_ok (set_status w Suspended m')"
    by (rule lock_ok_same [OF m(2)]) (use m(2) m' assms(3) in \<open>auto simp: lock_ok_def mutex_defs\<close>)
  ultimately show ?thesis using m(3) m' assms(2) by (auto simp: mutex_inv_def mutex_defs posted_ok_def)
qed

lemma step_stop_request:
  assumes "mutex_inv m" "am_status m w = Suspended"
  shows "mutex_inv (cancel_fn w m)"
proof (cases "w_claimed (am_aw m w) \<or> am_gone m")
  case True
  then show ?thesis using assms by (auto simp: cancel_fn_def mutex_inv_def gone_ok_def)
next
  case False
  then have m: "waiters_ok m" "lock_ok m" "posted_ok m" using assms(1) by (simp_all add: mutex_inv_def)
  have "waiters_ok (cancel_fn w m)"
    by (rule waiters_ok_change [OF m(1), of _ w])
      (use waiters_okD [OF m(1), of w] m(1) assms False in \<open>auto simp: cancel_fn_def mutex_defs waiter_ok_def waiters_ok_def\<close>)
  moreover have "lock_ok (cancel_fn w m)" using m(2) by (auto simp: cancel_fn_def lock_ok_def mutex_defs)
  moreover have "posted_ok (cancel_fn w m)" using posted_ok_claim [OF m(3)] False by (simp add: cancel_fn_def)
  ultimately show ?thesis using False by (simp add: mutex_inv_def cancel_fn_def mutex_defs)
qed

lemma posted_claimed: "posted_ok m \<Longrightarrow> w \<in> set (am_posted m) \<longleftrightarrow> w_claimed (am_aw m w)"
  by (metis posted_ok_def count_list_0_iff zero_neq_one)

text \<open>What a resumed waiter is told: the lock if it was granted it, the cancellation otherwise.\<close>

lemma resume_of_granted:
  assumes "waiters_ok m" "am_status m w = Suspended" "am_granted_to m = Some w"
  shows "await_resume w m = (success, upd_aw w (w_active_update (\<lambda>_. False))
    ((upd_aw w (w_granted_update (\<lambda>_. False)) m)\<lparr>am_granted_to := None\<rparr>))"
  using waiters_okD [OF assms(1), of w] assms(2,3) by (auto simp: await_resume_def waiter_ok_def upd_aw_def Let_def)

lemma resume_of_canceled:
  assumes "waiters_ok m" "am_status m w = Suspended" "am_granted_to m \<noteq> Some w" "w_claimed (am_aw m w)"
  shows "await_resume w m = (make_error_code canceled, upd_aw w (w_active_update (\<lambda>_. False))
    (if w \<in> set (am_waiters m) then upd_aw w (w_in_list_update (\<lambda>_. False)) (remove_waiter w m) else m))"
  using waiters_okD [OF assms(1), of w] assms(2-4) by (auto simp: await_resume_def waiter_ok_def Let_def)

lemma resume_of_gone:
  assumes "gone_ok m" "am_status m w = Suspended"
  shows "await_resume w m = (make_error_code canceled, upd_aw w (w_active_update (\<lambda>_. False)) m)"
  using assms by (auto simp: await_resume_def gone_ok_def Let_def)

lemma failed_canceled: "failed (make_error_code canceled)"
  by (simp add: failed_def make_error_code_def)

lemma step_resume_granted:
  assumes "mutex_inv m" "am_status m w = Suspended" "w \<in> set (am_posted m)" "await_resume w m = (ec, m')" "\<not> failed ec"
  shows "mutex_inv (set_status w Holding m')"
proof -
  have g: "\<not> am_gone m" using assms resume_of_gone [of m w] failed_canceled by (auto simp: mutex_inv_def)
  then have m: "waiters_ok m" "lock_ok m" "posted_ok m" using assms(1) by (simp_all add: mutex_inv_def)
  have c: "w_claimed (am_aw m w)" using assms(3) posted_claimed [OF m(3)] by simp
  have gr: "am_granted_to m = Some w" using resume_of_canceled [OF m(1) assms(2) _ c] assms(4,5) failed_canceled by fastforce
  have m': "m' = upd_aw w (w_active_update (\<lambda>_. False)) ((upd_aw w (w_granted_update (\<lambda>_. False)) m)\<lparr>am_granted_to := None\<rparr>)"
    using resume_of_granted [OF m(1) assms(2) gr] assms(4) by simp
  have "waiters_ok (set_status w Holding m')"
    by (rule waiters_ok_change [OF m(1), of _ w])
      (use waiters_okD [OF m(1), of w] m(1) assms(2) gr m' in \<open>auto simp: mutex_defs waiter_ok_def waiters_ok_def\<close>)
  moreover have "lock_ok (set_status w Holding m')" using m(2) gr m' by (auto simp: lock_ok_def mutex_defs)
  ultimately show ?thesis using m(3) g m' by (auto simp: mutex_inv_def mutex_defs posted_ok_def)
qed

lemma step_resume_canceled:
  assumes "mutex_inv m" "am_status m w = Suspended" "w \<in> set (am_posted m)" "await_resume w m = (ec, m')" "failed ec"
  shows "mutex_inv (set_status w Was_Canceled m')"
proof (cases "am_gone m")
  case True
  then show ?thesis using assms resume_of_gone [of m w] by (auto simp: mutex_inv_def gone_ok_def mutex_defs posted_ok_def split: if_splits)
next
  case False
  then have m: "waiters_ok m" "lock_ok m" "posted_ok m" using assms(1) by (simp_all add: mutex_inv_def)
  have c: "w_claimed (am_aw m w)" using assms(3) posted_claimed [OF m(3)] by simp
  have gr: "am_granted_to m \<noteq> Some w" using resume_of_granted [OF m(1) assms(2)] assms(4,5) not_failed_success by auto
  have m': "m' = upd_aw w (w_active_update (\<lambda>_. False))
      (if w \<in> set (am_waiters m) then upd_aw w (w_in_list_update (\<lambda>_. False)) (remove_waiter w m) else m)"
    using resume_of_canceled [OF m(1) assms(2) gr c] assms(4) by simp
  have "waiters_ok (set_status w Was_Canceled m')"
    by (rule waiters_ok_change [OF m(1), of _ w])
      (use waiters_okD [OF m(1), of w] m(1) assms(2) gr m' in \<open>auto simp: mutex_defs waiter_ok_def waiters_ok_def split: if_splits\<close>)
  moreover have "lock_ok (set_status w Was_Canceled m')"
    by (rule lock_ok_same [OF m(2)]) (use m(2) m' assms(2) in \<open>auto simp: lock_ok_def mutex_defs\<close>)
  ultimately show ?thesis using m(3) False m' by (auto simp: mutex_inv_def mutex_defs posted_ok_def)
qed

lemma step_waiter_destroyed:
  assumes "mutex_inv m" "am_status m w = Suspended"
  shows "mutex_inv (awaiter_destroy react w m)"
proof (cases "am_gone m")
  case True
  then show ?thesis using assms by (auto simp: mutex_inv_def gone_ok_def awaiter_destroy_def mutex_defs posted_ok_def Let_def)
next
  case False
  then have m: "waiters_ok m" "lock_ok m" "posted_ok m" using assms(1) by (simp_all add: mutex_inv_def)
  let ?m1 = "if w_in_list (am_aw m w) then remove_waiter w m else m"
  let ?m2 = "set_status w Finished ?m1"
  have w: "waiter_ok (am_aw m w) Suspended (w \<in> set (am_waiters m)) (am_granted_to m = Some w)"
    using waiters_okD [OF m(1), of w] assms(2) by simp
  show ?thesis
  proof (cases "am_granted_to m = Some w")
    case True
    have d: "awaiter_destroy react w m = unlock react (?m2\<lparr>am_granted_to := None\<rparr>)"
      using w True by (simp add: awaiter_destroy_def waiter_ok_def mutex_defs Let_def)
    show ?thesis unfolding d
    proof (rule unlock_ok)
      show "waiters_ok (?m2\<lparr>am_granted_to := None\<rparr>)"
        by (rule waiters_ok_change [OF m(1), of _ w])
          (use w m(1) True in \<open>auto simp: mutex_defs waiter_ok_def waiters_ok_def\<close>)
    qed (use m True False w in \<open>auto simp: mutex_defs posted_ok_def lock_ok_def waiter_ok_def\<close>)
  next
    case ng: False
    have d: "awaiter_destroy react w m = ?m2" using w ng by (simp add: awaiter_destroy_def waiter_ok_def mutex_defs Let_def)
    have "waiters_ok ?m2"
      by (rule waiters_ok_change [OF m(1), of _ w])
        (use w m(1) ng in \<open>auto simp: mutex_defs waiter_ok_def waiters_ok_def\<close>)
    moreover have "lock_ok ?m2"
      by (rule lock_ok_same [OF m(2)]) (use m(2) assms(2) in \<open>auto simp: lock_ok_def mutex_defs\<close>)
    ultimately show ?thesis unfolding d using m(3) False by (simp add: mutex_inv_def mutex_defs posted_ok_def)
  qed
qed

lemma step_unlocks:
  assumes "mutex_inv m" "am_status m w = Holding"
  shows "mutex_inv (unlock react (set_status w Finished m))"
proof -
  have g: "\<not> am_gone m" using assms by (auto simp: mutex_inv_def gone_ok_def)
  then have m: "waiters_ok m" "lock_ok m" "posted_ok m" using assms(1) by (simp_all add: mutex_inv_def)
  show ?thesis
  proof (rule unlock_ok)
    show "waiters_ok (set_status w Finished m)"
      by (rule waiters_ok_change [OF m(1), of _ w])
        (use waiters_okD [OF m(1), of w] m(1) assms(2) in \<open>auto simp: mutex_defs waiter_ok_def waiters_ok_def\<close>)
  qed (use m g assms(2) in \<open>auto simp: mutex_defs posted_ok_def lock_ok_def\<close>)
qed

lemma mutex_step_inv: "mutex_step m m' \<Longrightarrow> mutex_inv m \<Longrightarrow> mutex_inv m'"
proof (induction rule: mutex_step.induct)
  case (mutex_destroyed m)
  then show ?case using mutex_destroy_ok [of m] by (simp add: mutex_inv_def)
qed (auto intro: step_lock_ready step_lock_stopped step_lock_waits step_stop_request step_resume_granted
      step_resume_canceled step_waiter_destroyed step_unlocks)

lemma mutex_reach_inv: "mutex_reach m \<Longrightarrow> mutex_inv m"
  by (induction rule: mutex_reach.induct) (auto intro: mutex_inv_init mutex_step_inv)

lemma distinct_of_count: "(\<And>x. count_list xs x \<le> 1) \<Longrightarrow> distinct xs"
proof (induction xs)
  case (Cons a xs)
  have "count_list xs x \<le> 1" for x using Cons.prems [of x] by (auto split: if_splits)
  then show ?case using Cons.IH Cons.prems [of a] count_list_0_iff [of xs a] by auto
qed simp

section \<open>What the mutex promises\<close>

text \<open>A run in which 0 holds the lock, 1, 2 and 3 wait and the wait of 1 is canceled.\<close>

definition demo_mutex :: async_mutex where
  "demo_mutex = cancel_fn 1 (fold (\<lambda>w m. set_status w Suspended (snd (await_suspend False w m))) [1, 2, 3]
     (set_status 0 Holding (snd (await_ready mutex_init))))"

lemma demo_lock_wait:
  assumes "mutex_reach m" "\<not> am_gone m" "am_status m w = Fresh" "am_locked m"
  shows "mutex_reach (set_status w Suspended (snd (await_suspend False w m)))"
  by (rule mutex_reach.step [OF assms(1)], rule mutex_step.lock_waits [OF assms(2,3)])
    (use assms(4) in \<open>auto simp: await_ready_def await_suspend_def\<close>)

lemmas demo_mutex_defs = demo_mutex_def mutex_init_def await_ready_def await_suspend_def cancel_fn_def mutex_defs awaiter_init_def

lemma demo_reach: "mutex_reach demo_mutex"
proof -
  let ?m0 = "set_status 0 Holding (snd (await_ready mutex_init))"
  have "mutex_reach ?m0"
    by (rule mutex_reach.step [OF mutex_reach.start], rule mutex_step.lock_ready) (auto simp: mutex_init_def await_ready_def)
  then have "mutex_reach (fold (\<lambda>w m. set_status w Suspended (snd (await_suspend False w m))) [1, 2, 3] ?m0)"
    by simp (intro demo_lock_wait; simp add: demo_mutex_defs)
  then show ?thesis unfolding demo_mutex_def
    by (rule mutex_reach.step, intro mutex_step.stop_request) (simp add: demo_mutex_defs)
qed

lemma demo_state:
  "\<not> am_gone demo_mutex" "am_status demo_mutex 0 = Holding" "am_status demo_mutex 3 = Suspended" "am_posted demo_mutex = [1]"
  "am_waiters demo_mutex = [1, 2, 3]" "am_granted_to demo_mutex = None"
  by (simp_all add: demo_mutex_defs)

text \<open>
  C7. In every state the mutex reaches, at most one coroutine holds the lock; the mutex is locked exactly when a
  coroutine holds it or has been handed it and is posted to resume; a suspended waiter that was not posted waits on a locked
  mutex; no waiter is posted twice, so a stop request and an unlock never both resume it.
\<close>

theorem mutex_exclusive:
  assumes "mutex_reach m" "\<not> am_gone m"
  shows "(\<forall>a b. am_status m a = Holding \<longrightarrow> am_status m b = Holding \<longrightarrow> a = b)
    \<and> (is_locked m \<longleftrightarrow> (\<exists>a. am_status m a = Holding) \<or> (\<exists>w. am_granted_to m = Some w \<and> am_status m w = Suspended \<and> w \<in> set (am_posted m)))
    \<and> (\<forall>w. am_status m w = Suspended \<longrightarrow> w \<notin> set (am_posted m) \<longrightarrow> is_locked m \<and> w \<in> set (am_waiters m))
    \<and> distinct (am_posted m)"
proof -
  have m: "waiters_ok m" "lock_ok m" "posted_ok m" using mutex_reach_inv [OF assms(1)] assms(2) by (simp_all add: mutex_inv_def)
  have "am_status m w = Suspended \<and> w \<in> set (am_posted m)" if "am_granted_to m = Some w" for w
    using waiters_okD [OF m(1), of w] that posted_claimed [OF m(3)] by (auto simp: waiter_ok_def)
  then have "is_locked m \<longleftrightarrow> (\<exists>a. am_status m a = Holding) \<or> (\<exists>w. am_granted_to m = Some w \<and> am_status m w = Suspended \<and> w \<in> set (am_posted m))"
    using m(2) by (auto simp: lock_ok_def is_locked_def)
  moreover have "is_locked m \<and> w \<in> set (am_waiters m)" if "am_status m w = Suspended" "w \<notin> set (am_posted m)" for w
    using waiters_okD [OF m(1), of w] that posted_claimed [OF m(3), of w] m(2)
    by (cases "w \<in> set (am_waiters m)") (auto simp: waiter_ok_def lock_ok_def is_locked_def)
  moreover have "distinct (am_posted m)"
    using m(3) by (auto simp: posted_ok_def intro!: distinct_of_count)
  ultimately show ?thesis using m(2) by (auto simp: lock_ok_def)
qed

theorem mutex_exclusive_witness:
  "am_status demo_mutex 0 = Holding \<and> is_locked demo_mutex
   \<and> am_status demo_mutex 3 = Suspended \<and> 3 \<notin> set (am_posted demo_mutex) \<and> 3 \<in> set (am_waiters demo_mutex)
   \<and> distinct (am_posted demo_mutex)"
  using mutex_exclusive [OF demo_reach demo_state(1)] demo_state by auto

lemma grant_loop_rest:
  "grant_loop ws m = (r, m') \<Longrightarrow> am_waiters m' = tl (dropWhile (\<lambda>w. w_claimed (am_aw m w)) ws)"
proof (induction ws m rule: grant_loop.induct)
  case (2 w ws m)
  let ?m = "upd_aw w (w_in_list_update (\<lambda>_. False)) (m\<lparr>am_waiters := ws\<rparr>)"
  have same: "w_claimed (am_aw ?m v) = w_claimed (am_aw m v)" for v by (simp add: upd_aw_def)
  show ?case
  proof (cases "w_claimed (am_aw m w)")
    case True
    then have "grant_loop ws ?m = (r, m')" using "2.prems" by (simp add: same)
    then show ?thesis using "2.IH" [OF refl] True by (simp add: same)
  next
    case False
    then show ?thesis using "2.prems" by (auto simp: upd_aw_def)
  qed
qed auto

text \<open>
  C8. When the holder unlocks and the executor keeps what is posted to it, the lock goes to the waiter that has waited longest
  among those no stop request has claimed: it is posted, once resumed its \<^verbatim>\<open>scoped_lock\<close> yields success and a guard that
  holds the mutex, and the mutex stays locked meanwhile; the claimed waiters before it leave the list and the ones
  behind keep their order. When every waiter was claimed the mutex becomes free and nothing is posted.
\<close>

theorem unlock_hands_over:
  assumes "mutex_reach m" "am_status m h = Holding"
  shows "let m' = unlock (\<lambda>_. Kept) (set_status h Finished m); live = (\<lambda>w. w \<notin> set (am_posted m)) in
    am_waiters m' = tl (dropWhile (\<lambda>w. \<not> live w) (am_waiters m))
    \<and> (case find live (am_waiters m) of
         None \<Rightarrow> \<not> is_locked m' \<and> am_posted m' = am_posted m
       | Some w \<Rightarrow> is_locked m' \<and> am_posted m' = am_posted m @ [w] \<and> fst (guard_await_resume w m') = (success, True))"
proof -
  have inv: "mutex_inv m" by (rule mutex_reach_inv [OF assms(1)])
  have g: "\<not> am_gone m" using inv assms(2) by (auto simp: mutex_inv_def gone_ok_def)
  then have m: "waiters_ok m" "lock_ok m" "posted_ok m" using inv by (simp_all add: mutex_inv_def)
  let ?m = "set_status h Finished m" and ?m' = "unlock (\<lambda>_. Kept) (set_status h Finished m)"
  have ok: "waiters_ok ?m"
    by (rule waiters_ok_change [OF m(1), of _ h])
      (use waiters_okD [OF m(1), of h] m(1) assms(2) in \<open>auto simp: mutex_defs waiter_ok_def waiters_ok_def\<close>)
  obtain r m1 where gr: "grant_loop (am_waiters ?m) ?m = (r, m1)" by fastforce
  have gn: "am_granted_to ?m = None" using m(2) assms(2) by (auto simp: lock_ok_def mutex_defs)
  note f = grant_loop_ok [OF ok refl gn gr] grant_loop_rest [OF gr]
  have m1: "waiters_ok m1" "am_granted_to m1 = r" "am_posted m1 = am_posted ?m" "am_locked m1 \<longleftrightarrow> r \<noteq> None \<and> am_locked ?m"
    using f(1) by (simp_all split: if_splits)
  have m': "?m' = (case r of None \<Rightarrow> m1 | Some w \<Rightarrow> post w m1)"
    by (subst unlock.simps) (simp add: grant_next_def gr split: option.split)
  have live: "w_claimed (am_aw ?m w) \<longleftrightarrow> w \<in> set (am_posted m)" for w using posted_claimed [OF m(3)] by (simp add: mutex_defs)
  have ws: "am_waiters ?m = am_waiters m" "am_locked ?m" "am_posted ?m = am_posted m"
    using m(2) assms(2) by (auto simp: mutex_defs lock_ok_def)
  have fst: "find (\<lambda>w. w \<notin> set (am_posted m)) (am_waiters m) = r" using f by (simp only: live ws)
  have res: "fst (guard_await_resume w ?m') = (success, True)" if "r = Some w" for w
  proof -
    have "waiters_ok ?m'" "am_granted_to ?m' = Some w" using that m' m1 by (simp_all add: post_def waiters_ok_def)
    moreover from this have "am_status ?m' w = Suspended" using waiters_okD [of ?m' w] by (simp add: waiter_ok_def)
    ultimately show ?thesis using resume_of_granted [of ?m' w] not_failed_success by (simp add: guard_await_resume_def)
  qed
  have "am_waiters ?m' = tl (dropWhile (\<lambda>w. w \<in> set (am_posted m)) (am_waiters m))"
    using f(2) m' by (simp only: live ws) (simp add: post_def split: option.split)
  then show ?thesis using m1 m' ws res fst by (cases r) (simp_all add: Let_def is_locked_def post_def)
qed

theorem unlock_hands_over_witness:
  "am_posted (unlock (\<lambda>_. Kept) (set_status 0 Finished demo_mutex)) = [1, 2]
   \<and> am_waiters (unlock (\<lambda>_. Kept) (set_status 0 Finished demo_mutex)) = [3]
   \<and> fst (guard_await_resume 2 (unlock (\<lambda>_. Kept) (set_status 0 Finished demo_mutex))) = (success, True)"
  using unlock_hands_over [OF demo_reach demo_state(2)] by (simp add: demo_state Let_def)

text \<open>
  Once the mutex is destroyed, also by the executor in the middle of an \<^verbatim>\<open>unlock\<close>, nobody holds its lock, every waiter still suspended
  has been posted exactly once and resumes with \<open>error::canceled\<close> and an empty guard, and neither its resumption nor its
  destruction reaches the mutex any more.
\<close>

theorem mutex_destroyed_cancels:
  assumes "mutex_reach m" "am_gone m" "am_status m w = Suspended"
  shows "(\<forall>v. am_status m v \<noteq> Holding) \<and> count_list (am_posted m) w = 1
    \<and> guard_await_resume w m = ((make_error_code canceled, False), upd_aw w (w_active_update (\<lambda>_. False)) m)
    \<and> awaiter_destroy react w m = set_status w Finished m"
proof -
  have g: "gone_ok m" "posted_ok m" using mutex_reach_inv [OF assms(1)] assms(2) by (simp_all add: mutex_inv_def)
  then show ?thesis using resume_of_gone [OF g(1) assms(3)] assms(3) failed_canceled
    by (auto simp: gone_ok_def posted_ok_def guard_await_resume_def awaiter_destroy_def set_status_def Let_def)
qed

theorem mutex_destroyed_cancels_witness:
  "let m = unlock (\<lambda>_. Mutex_Gone) (set_status 0 Finished demo_mutex)
   in am_gone m \<and> am_status m 3 = Suspended \<and> count_list (am_posted m) 3 = 1
     \<and> fst (guard_await_resume 3 m) = (make_error_code canceled, False)"
proof -
  let ?m = "unlock (\<lambda>_. Mutex_Gone) (set_status 0 Finished demo_mutex)"
  have r: "mutex_reach ?m" by (rule mutex_reach.step [OF demo_reach mutex_step.unlocks [OF demo_state(2)]])
  have s: "am_gone ?m" "am_status ?m 3 = Suspended"
    by (subst unlock.simps, simp add: demo_mutex_defs grant_next_def mutex_destroy_def Let_def)+
  show ?thesis using mutex_destroyed_cancels [OF r s] s by (simp add: Let_def)
qed

end
