(* ===== verification/Async_Event.thy ===== *)
theory Async_Event
  imports Errors "HOL-Library.Sublist"
begin

text \<open>
  The asynchronous event \<^verbatim>\<open>ex/async_event.hpp\<close>. A waiter is an address with the flags of its \<^verbatim>\<open>wait_awaiter\<close>; \<open>e_list\<close> is
  the list its \<^verbatim>\<open>list_\<close> pointer names, the one of the event or the local one of a running \<^verbatim>\<open>set\<close>. A post may destroy
  waiters before it returns, the posted one or others, and the event itself: the argument \<open>react\<close> says which waiters the post
  of each waiter destroys and whether the event goes with them. \<open>ev_status\<close>, \<open>ev_posted\<close> and \<open>ev_gone\<close> are ghosts.
\<close>

type_synonym waiter = nat

datatype which_list = Not_Listed | In_Event | In_Claimed

datatype wait_status = Fresh | Suspended | Woken | Was_Canceled | Finished

record wait_awaiter =
  e_claimed :: bool
  e_canceled :: bool
  e_active :: bool
  e_list :: which_list

definition wait_awaiter_init :: wait_awaiter where
  "wait_awaiter_init = \<lparr>e_claimed = False, e_canceled = False, e_active = False, e_list = Not_Listed\<rparr>"

record async_event =
  ev_set :: bool
  ev_waiters :: "waiter list"
  ev_aw :: "waiter \<Rightarrow> wait_awaiter"
  ev_status :: "waiter \<Rightarrow> wait_status"
  ev_posted :: "waiter list"
  ev_gone :: bool

definition event_init :: async_event where
  "event_init = \<lparr>ev_set = False, ev_waiters = [], ev_aw = (\<lambda>_. wait_awaiter_init), ev_status = (\<lambda>_. Fresh),
     ev_posted = [], ev_gone = False\<rparr>"

definition upd_waiter :: "waiter \<Rightarrow> (wait_awaiter \<Rightarrow> wait_awaiter) \<Rightarrow> async_event \<Rightarrow> async_event" where
  "upd_waiter w f e = e\<lparr>ev_aw := (ev_aw e)(w := f (ev_aw e w))\<rparr>"

definition mark :: "waiter \<Rightarrow> wait_status \<Rightarrow> async_event \<Rightarrow> async_event" where
  "mark w s e = e\<lparr>ev_status := (ev_status e)(w := s)\<rparr>"

definition post_waiter :: "waiter \<Rightarrow> async_event \<Rightarrow> async_event" where
  "post_waiter w e = e\<lparr>ev_posted := ev_posted e @ [w]\<rparr>"

section \<open>Waiting\<close>

definition wait_ready :: "async_event \<Rightarrow> bool" where
  "wait_ready e = ev_set e"

text \<open>True when the coroutine resumes at once.\<close>

definition wait_suspend :: "bool \<Rightarrow> waiter \<Rightarrow> async_event \<Rightarrow> bool \<times> async_event" where
  "wait_suspend stop_requested w e =
     (if stop_requested then (True, upd_waiter w (e_canceled_update (\<lambda>_. True)) e)
      else (False, upd_waiter w (e_active_update (\<lambda>_. True))
             (upd_waiter w (e_list_update (\<lambda>_. In_Event)) (e\<lparr>ev_waiters := ev_waiters e @ [w]\<rparr>))))"

text \<open>Unlinking a waiter from the list it is in; the local list of \<^verbatim>\<open>set\<close> is the first component.\<close>

definition unlink :: "waiter \<Rightarrow> waiter list \<times> async_event \<Rightarrow> waiter list \<times> async_event" where
  "unlink w = (\<lambda>(into, e). case e_list (ev_aw e w) of
      Not_Listed \<Rightarrow> (into, e)
    | In_Event \<Rightarrow> (into, e\<lparr>ev_waiters := remove1 w (ev_waiters e)\<rparr>)
    | In_Claimed \<Rightarrow> (remove1 w into, e))"

definition wait_resume :: "waiter \<Rightarrow> async_event \<Rightarrow> error_code \<times> async_event" where
  "wait_resume w e =
     (let e = upd_waiter w (e_active_update (\<lambda>_. False)) e in
      if e_canceled (ev_aw e w)
      then (make_error_code canceled, upd_waiter w (e_list_update (\<lambda>_. Not_Listed)) (snd (unlink w ([], e))))
      else (success, e))"

definition wait_cancel_fn :: "waiter \<Rightarrow> async_event \<Rightarrow> async_event" where
  "wait_cancel_fn w e =
     (if \<not> e_claimed (ev_aw e w)
      then post_waiter w (upd_waiter w (e_canceled_update (\<lambda>_. True)) (upd_waiter w (e_claimed_update (\<lambda>_. True)) e))
      else e)"

definition wait_awaiter_destroy :: "waiter \<Rightarrow> waiter list \<times> async_event \<Rightarrow> waiter list \<times> async_event" where
  "wait_awaiter_destroy w p = (let (into, e) = unlink w p in (into, mark w Finished (upd_waiter w (e_list_update (\<lambda>_. Not_Listed)) e)))"

section \<open>Setting the event\<close>

fun claim_loop :: "waiter list \<Rightarrow> waiter list \<Rightarrow> async_event \<Rightarrow> waiter list \<times> async_event" where
  "claim_loop [] into e = (into, e\<lparr>ev_waiters := []\<rparr>)"
| "claim_loop (w # ws) into e =
     (let e = upd_waiter w (e_list_update (\<lambda>_. Not_Listed)) (e\<lparr>ev_waiters := ws\<rparr>) in
      if \<not> e_claimed (ev_aw e w)
      then claim_loop ws (into @ [w]) (upd_waiter w (e_list_update (\<lambda>_. In_Claimed)) (upd_waiter w (e_claimed_update (\<lambda>_. True)) e))
      else claim_loop ws into e)"

definition claim_all :: "waiter list \<Rightarrow> async_event \<Rightarrow> waiter list \<times> async_event" where
  "claim_all into e = claim_loop (ev_waiters e) into e"

text \<open>What a post does before it returns.\<close>

definition after_post :: "(waiter \<Rightarrow> waiter list \<times> bool) \<Rightarrow> waiter \<Rightarrow> waiter list \<times> async_event \<Rightarrow> waiter list \<times> async_event" where
  "after_post react w p =
     (let (into, e) = fold wait_awaiter_destroy (fst (react w)) p in (into, e\<lparr>ev_gone := ev_gone e \<or> snd (react w)\<rparr>))"

lemma length_destroy: "length (fst (fold wait_awaiter_destroy ds p)) \<le> length (fst p)"
proof (induction ds arbitrary: p)
  case (Cons d ds)
  have "length (fst (wait_awaiter_destroy d p)) \<le> length (fst p)"
    by (cases p) (auto simp: wait_awaiter_destroy_def unlink_def length_remove1 split: which_list.split)
  then show ?case using Cons.IH [of "wait_awaiter_destroy d p"] by simp
qed simp

lemma length_after_post: "length (fst (after_post react w p)) \<le> length (fst p)"
  using length_destroy [of "fst (react w)" p] by (simp add: after_post_def split: prod.split) (metis fst_conv)

function set_loop :: "(waiter \<Rightarrow> waiter list \<times> bool) \<Rightarrow> waiter list \<times> async_event \<Rightarrow> async_event" where
  "set_loop react ([], e) = e"
| "set_loop react (w # ws, e) =
     set_loop react (after_post react w (ws, post_waiter w (upd_waiter w (e_list_update (\<lambda>_. Not_Listed)) e)))"
  by pat_completeness auto
termination
  by (relation "measure (\<lambda>(react, p). length (fst p))") (use length_after_post in \<open>auto simp: le_imp_less_Suc\<close>)

definition event_set :: "(waiter \<Rightarrow> waiter list \<times> bool) \<Rightarrow> async_event \<Rightarrow> async_event" where
  "event_set react e = set_loop react (claim_all [] (e\<lparr>ev_set := True\<rparr>))"

definition event_clear :: "async_event \<Rightarrow> async_event" where
  "event_clear e = e\<lparr>ev_set := False\<rparr>"

definition is_set :: "async_event \<Rightarrow> bool" where
  "is_set e = ev_set e"

section \<open>The destructor\<close>

text \<open>The posts of the destructor may destroy waiters too; the list is the one of the event.\<close>

definition destroy_claims :: "waiter \<Rightarrow> async_event \<Rightarrow> async_event" where
  "destroy_claims w e =
     (let e = upd_waiter w (e_list_update (\<lambda>_. Not_Listed)) (e\<lparr>ev_waiters := tl (ev_waiters e)\<rparr>) in
      if \<not> e_claimed (ev_aw e w)
      then post_waiter w (upd_waiter w (e_canceled_update (\<lambda>_. True)) (upd_waiter w (e_claimed_update (\<lambda>_. True)) e))
      else e)"

lemma destroy_waiters_shrink: "length (ev_waiters (snd (fold wait_awaiter_destroy ds p))) \<le> length (ev_waiters (snd p))"
proof (induction ds arbitrary: p)
  case (Cons d ds)
  have "length (ev_waiters (snd (wait_awaiter_destroy d p))) \<le> length (ev_waiters (snd p))"
    by (cases p) (auto simp: wait_awaiter_destroy_def unlink_def upd_waiter_def mark_def length_remove1 split: which_list.split)
  then show ?case using Cons.IH [of "wait_awaiter_destroy d p"] by simp
qed simp

function event_destroy_loop :: "(waiter \<Rightarrow> waiter list) \<Rightarrow> async_event \<Rightarrow> async_event" where
  "event_destroy_loop react e =
     (case ev_waiters e of
        [] \<Rightarrow> e
      | w # ws \<Rightarrow>
          let posted = \<not> e_claimed (ev_aw e w); e = destroy_claims w e
          in event_destroy_loop react (if posted then snd (fold wait_awaiter_destroy (react w) ([], e)) else e))"
  by pat_completeness auto
termination
proof (relation "measure (\<lambda>(react, e). length (ev_waiters e))")
  fix react :: "waiter \<Rightarrow> waiter list" and e w ws x xa
  assume "ev_waiters e = w # ws" "x = (\<not> e_claimed (ev_aw e w))" "xa = destroy_claims w e"
  moreover have "length (ev_waiters (destroy_claims w e)) < length (ev_waiters e)" if "ev_waiters e = w # ws"
    using that by (auto simp: destroy_claims_def upd_waiter_def post_waiter_def Let_def)
  ultimately show "((react, if x then snd (fold wait_awaiter_destroy (react w) ([], xa)) else xa), react, e)
      \<in> measure (\<lambda>(react, e). length (ev_waiters e))"
    using destroy_waiters_shrink [of "react w" "([], destroy_claims w e)"] by auto
qed simp

declare event_destroy_loop.simps [simp del]

definition event_destroy :: "(waiter \<Rightarrow> waiter list) \<Rightarrow> async_event \<Rightarrow> async_event" where
  "event_destroy react e = event_destroy_loop react (e\<lparr>ev_gone := True\<rparr>)"

section \<open>Uses of the event\<close>

inductive event_step :: "async_event \<Rightarrow> async_event \<Rightarrow> bool" where
  wait_passes: "\<lbrakk>\<not> ev_gone e; ev_status e w = Fresh; wait_ready e\<rbrakk> \<Longrightarrow> event_step e (mark w Woken e)"
| wait_stopped: "\<lbrakk>\<not> ev_gone e; ev_status e w = Fresh; \<not> wait_ready e; wait_suspend True w e = (True, e')\<rbrakk>
    \<Longrightarrow> event_step e (mark w Was_Canceled e')"
| wait_suspends: "\<lbrakk>\<not> ev_gone e; ev_status e w = Fresh; \<not> wait_ready e; wait_suspend False w e = (False, e')\<rbrakk>
    \<Longrightarrow> event_step e (mark w Suspended e')"
| stop_request: "ev_status e w = Suspended \<Longrightarrow> event_step e (wait_cancel_fn w e)"
| resume: "\<lbrakk>ev_status e w = Suspended; w \<in> set (ev_posted e); wait_resume w e = (ec, e')\<rbrakk>
    \<Longrightarrow> event_step e (mark w (if failed ec then Was_Canceled else Woken) e')"
| destroyed: "ev_status e w = Suspended \<Longrightarrow> event_step e (snd (wait_awaiter_destroy w ([], e)))"
| sets: "\<not> ev_gone e \<Longrightarrow> event_step e (event_set react e)"
| clears: "\<not> ev_gone e \<Longrightarrow> event_step e (event_clear e)"
| event_destroyed: "\<not> ev_gone e \<Longrightarrow> event_step e (event_destroy dreact e)"

inductive event_reach :: "async_event \<Rightarrow> bool" where
  start: "event_reach event_init"
| step: "event_reach e \<Longrightarrow> event_step e e' \<Longrightarrow> event_reach e'"

section \<open>The invariant\<close>

text \<open>
  A suspended waiter is in the list its pointer names; it is claimed as soon as it is canceled or leaves the list of the event,
  and it is posted once, when it is claimed and not waiting for its turn in a running \<^verbatim>\<open>set\<close>.
\<close>

definition waiter_fine :: "wait_awaiter \<Rightarrow> wait_status \<Rightarrow> bool \<Rightarrow> bool \<Rightarrow> nat \<Rightarrow> bool" where
  "waiter_fine aw s waits turn n \<longleftrightarrow>
     (if s = Suspended
      then e_active aw \<and> (e_list aw = In_Event \<longleftrightarrow> waits) \<and> (e_list aw = In_Claimed \<longleftrightarrow> turn)
        \<and> (e_canceled aw \<longrightarrow> e_claimed aw \<and> \<not> turn) \<and> (e_claimed aw \<and> \<not> e_canceled aw \<longrightarrow> \<not> waits)
        \<and> (\<not> e_claimed aw \<longrightarrow> waits) \<and> n = (if e_claimed aw \<and> \<not> turn then 1 else 0)
      else \<not> waits \<and> \<not> turn \<and> e_list aw = Not_Listed \<and> n \<le> 1 \<and> (s = Fresh \<longrightarrow> aw = wait_awaiter_init \<and> n = 0))"

definition fine_at :: "waiter list \<Rightarrow> async_event \<Rightarrow> waiter \<Rightarrow> bool" where
  "fine_at into e w \<longleftrightarrow> waiter_fine (ev_aw e w) (ev_status e w) (w \<in> set (ev_waiters e)) (w \<in> set into) (count_list (ev_posted e) w)"

definition event_ok :: "waiter list \<Rightarrow> async_event \<Rightarrow> bool" where
  "event_ok into e \<longleftrightarrow> distinct (ev_waiters e) \<and> distinct into \<and> (\<forall>w. fine_at into e w)"

lemmas event_defs = upd_waiter_def mark_def post_waiter_def

lemma event_ok_change:
  assumes "event_ok into e" "distinct (ev_waiters e')" "distinct into'"
    and "\<And>v. v \<noteq> w \<Longrightarrow> ev_aw e' v = ev_aw e v \<and> ev_status e' v = ev_status e v
      \<and> (v \<in> set (ev_waiters e') \<longleftrightarrow> v \<in> set (ev_waiters e)) \<and> (v \<in> set into' \<longleftrightarrow> v \<in> set into)
      \<and> count_list (ev_posted e') v = count_list (ev_posted e) v"
    and "fine_at into e w \<Longrightarrow> fine_at into' e' w"
  shows "event_ok into' e'"
proof -
  have "fine_at into' e' v" for v
    using assms(1) assms(4) [of v] assms(5) by (cases "v = w") (simp_all add: event_ok_def fine_at_def)
  then show ?thesis using assms(2,3) by (simp add: event_ok_def)
qed

text \<open>How one waiter changes.\<close>

lemma fine_leave: "waiter_fine aw s True turn n \<Longrightarrow> e_claimed aw \<Longrightarrow> waiter_fine (aw\<lparr>e_list := Not_Listed\<rparr>) s False turn n"
  by (cases "s = Suspended") (simp_all add: waiter_fine_def)

lemma fine_claim:
  "waiter_fine aw s True turn n \<Longrightarrow> \<not> e_claimed aw \<Longrightarrow> waiter_fine (aw\<lparr>e_claimed := True, e_list := In_Claimed\<rparr>) s False True n"
  by (cases "s = Suspended") (auto simp: waiter_fine_def)

lemma fine_turn: "waiter_fine aw s waits True n \<Longrightarrow> waiter_fine (aw\<lparr>e_list := Not_Listed\<rparr>) s waits False (n + 1)"
  by (cases "s = Suspended") (auto simp: waiter_fine_def)

lemma fine_cancel:
  "waiter_fine aw s waits turn n \<Longrightarrow> s = Suspended \<Longrightarrow> \<not> e_claimed aw
   \<Longrightarrow> waiter_fine (aw\<lparr>e_claimed := True, e_canceled := True\<rparr>) s waits turn (n + 1)"
  by (auto simp: waiter_fine_def)

lemma fine_dead: "waiter_fine aw s waits turn n \<Longrightarrow> waiter_fine (aw\<lparr>e_list := Not_Listed\<rparr>) Finished False False n"
  by (cases "s = Suspended") (auto simp: waiter_fine_def)

lemma fine_done:
  "waiter_fine aw s waits turn n \<Longrightarrow> s' \<noteq> Suspended \<Longrightarrow> s' \<noteq> Fresh \<Longrightarrow> e_list aw' = Not_Listed \<Longrightarrow> waiter_fine aw' s' False False n"
  by (cases "s = Suspended") (auto simp: waiter_fine_def)

lemma fine_woken: "waiter_fine aw Suspended waits False n \<Longrightarrow> e_claimed aw \<Longrightarrow> \<not> e_canceled aw \<Longrightarrow> \<not> waits \<and> e_list aw = Not_Listed"
  by (cases "e_list aw") (auto simp: waiter_fine_def)

lemma fine_lists:
  assumes "waiter_fine aw s waits turn n"
  shows "waits \<longleftrightarrow> e_list aw = In_Event" "turn \<longleftrightarrow> e_list aw = In_Claimed"
  using assms by (cases "s = Suspended"; simp add: waiter_fine_def)+

lemma event_ok_distinct: "event_ok into e \<Longrightarrow> distinct (ev_waiters e) \<and> distinct into"
  by (simp add: event_ok_def)

lemma event_ok_at: "event_ok into e \<Longrightarrow> fine_at into e w"
  by (simp add: event_ok_def)

lemma event_ok_other [simp]:
  "event_ok into (e\<lparr>ev_set := b\<rparr>) = event_ok into e" "event_ok into (e\<lparr>ev_gone := g\<rparr>) = event_ok into e"
  by (simp_all add: event_ok_def fine_at_def)

lemma destroy_ok:
  assumes "event_ok into e"
  shows "event_ok (fst (wait_awaiter_destroy w (into, e))) (snd (wait_awaiter_destroy w (into, e)))"
proof -
  have f: "waiter_fine (ev_aw e w) (ev_status e w) (w \<in> set (ev_waiters e)) (w \<in> set into) (count_list (ev_posted e) w)"
    using event_ok_at [OF assms] by (simp add: fine_at_def)
  show ?thesis
    by (rule event_ok_change [OF assms, of _ _ w])
      (use event_ok_distinct [OF assms] fine_lists [OF f] fine_dead [OF f] in
        \<open>simp_all add: wait_awaiter_destroy_def unlink_def event_defs fine_at_def split: which_list.split\<close>)
qed

lemma destroys_ok:
  "event_ok into e \<Longrightarrow> fold wait_awaiter_destroy ds (into, e) = (into', e') \<Longrightarrow> event_ok into' e'"
proof (induction ds arbitrary: into e)
  case (Cons d ds)
  then show ?case using destroy_ok [OF Cons.prems(1), of d] by (cases "wait_awaiter_destroy d (into, e)") simp
qed simp

lemma after_post_ok: "event_ok into e \<Longrightarrow> after_post react w (into, e) = (into', e') \<Longrightarrow> event_ok into' e'"
  by (auto simp: after_post_def Let_def split: prod.splits dest: destroys_ok)

lemma claim_loop_ok:
  assumes "event_ok into e" "ev_waiters e = ws" "claim_loop ws into e = (into', e')"
  shows "event_ok into' e' \<and> ev_waiters e' = [] \<and> ev_set e' = ev_set e \<and> ev_gone e' = ev_gone e \<and> ev_status e' = ev_status e
    \<and> ev_posted e' = ev_posted e \<and> (\<forall>v. e_canceled (ev_aw e' v) = e_canceled (ev_aw e v))
    \<and> into' = into @ filter (\<lambda>w. \<not> e_claimed (ev_aw e w)) ws"
  using assms
proof (induction ws into e rule: claim_loop.induct)
  case (1 into e)
  then show ?case by (auto simp: event_ok_def fine_at_def)
next
  case (2 w ws into e)
  let ?e1 = "upd_waiter w (e_list_update (\<lambda>_. Not_Listed)) (e\<lparr>ev_waiters := ws\<rparr>)"
  let ?e2 = "upd_waiter w (e_list_update (\<lambda>_. In_Claimed)) (upd_waiter w (e_claimed_update (\<lambda>_. True)) ?e1)"
  have w: "w \<notin> set ws" "distinct ws" "fine_at into e w" "w \<in> set (ev_waiters e)" "distinct into"
    using "2.prems"(1,2) by (auto simp: event_ok_def)
  have w': "w \<notin> set into" using fine_lists [OF w(3) [unfolded fine_at_def]] w(4) by simp
  show ?case
  proof (cases "e_claimed (ev_aw e w)")
    case True
    have ok: "event_ok into ?e1"
      by (rule event_ok_change [OF "2.prems"(1), of _ _ w])
        (use w True "2.prems"(2) in \<open>auto simp: event_defs fine_at_def fine_leave\<close>)
    have g: "claim_loop ws into ?e1 = (into', e')" using "2.prems"(3) True by (simp add: upd_waiter_def)
    have f: "filter (\<lambda>v. \<not> e_claimed (ev_aw ?e1 v)) ws = filter (\<lambda>v. \<not> e_claimed (ev_aw e v)) ws"
      by (rule filter_cong) (simp_all add: upd_waiter_def)
    have "event_ok into' e' \<and> ev_waiters e' = [] \<and> ev_set e' = ev_set ?e1 \<and> ev_gone e' = ev_gone ?e1 \<and> ev_status e' = ev_status ?e1
        \<and> ev_posted e' = ev_posted ?e1 \<and> (\<forall>v. e_canceled (ev_aw e' v) = e_canceled (ev_aw ?e1 v)) \<and> into' = into @ filter (\<lambda>v. \<not> e_claimed (ev_aw ?e1 v)) ws"
      by (rule "2.IH"(2) [OF refl _ ok _ g]) (use True in \<open>simp_all add: upd_waiter_def\<close>)
    then show ?thesis unfolding f using True by (auto simp: upd_waiter_def)
  next
    case False
    have ok: "event_ok (into @ [w]) ?e2"
      by (rule event_ok_change [OF "2.prems"(1), of _ _ w])
        (use w w' False "2.prems"(2) in \<open>auto simp: event_defs fine_at_def fine_claim\<close>)
    have g: "claim_loop ws (into @ [w]) ?e2 = (into', e')" using "2.prems"(3) False by (simp add: upd_waiter_def)
    have f: "filter (\<lambda>v. \<not> e_claimed (ev_aw ?e2 v)) ws = filter (\<lambda>v. \<not> e_claimed (ev_aw e v)) ws"
      using w by (intro filter_cong) (auto simp: upd_waiter_def)
    have "event_ok into' e' \<and> ev_waiters e' = [] \<and> ev_set e' = ev_set ?e2 \<and> ev_gone e' = ev_gone ?e2 \<and> ev_status e' = ev_status ?e2
        \<and> ev_posted e' = ev_posted ?e2 \<and> (\<forall>v. e_canceled (ev_aw e' v) = e_canceled (ev_aw ?e2 v)) \<and> into' = (into @ [w]) @ filter (\<lambda>v. \<not> e_claimed (ev_aw ?e2 v)) ws"
      by (rule "2.IH"(1) [OF refl _ ok _ g]) (use False in \<open>simp_all add: upd_waiter_def\<close>)
    then show ?thesis unfolding f using False by (auto simp: upd_waiter_def)
  qed
qed

section \<open>Posting the claimed waiters\<close>

lemma subseq_distinct: "subseq xs ys \<Longrightarrow> distinct ys \<Longrightarrow> distinct xs"
  by (auto simp: subseq_conv_nths intro: distinct_nthsI)

lemma subseq_remove1: "subseq (remove1 x xs) xs"
  by (induction xs) auto

text \<open>
  What a run of destructions leaves: waiters only leave lists, those that left are finished, nothing is posted.
\<close>

definition only_destroyed :: "waiter list \<Rightarrow> async_event \<Rightarrow> waiter list \<Rightarrow> async_event \<Rightarrow> bool" where
  "only_destroyed into e into' e' \<longleftrightarrow> subseq into' into \<and> (\<forall>v. v \<in> set into \<and> v \<notin> set into' \<longrightarrow> ev_status e' v = Finished)
     \<and> (\<forall>v. ev_status e' v = ev_status e v \<or> ev_status e' v = Finished) \<and> ev_posted e' = ev_posted e \<and> ev_set e' = ev_set e
     \<and> set (ev_waiters e') \<subseteq> set (ev_waiters e) \<and> (\<forall>v. v \<in> set (ev_waiters e) \<and> v \<notin> set (ev_waiters e') \<longrightarrow> ev_status e' v = Finished)
     \<and> (\<forall>v. e_canceled (ev_aw e' v) = e_canceled (ev_aw e v)) \<and> (ev_gone e \<longrightarrow> ev_gone e')"

lemma only_destroyed_trans:
  assumes a: "only_destroyed i e i' e'" and b: "only_destroyed i' e' i'' e''"
  shows "only_destroyed i e i'' e''"
proof -
  have st: "ev_status e'' v = Finished" if "ev_status e' v = Finished" for v
    using b that unfolding only_destroyed_def by metis
  have "ev_status e'' v = Finished" if "v \<in> set i" "v \<notin> set i''" for v
    using a b that st [of v] unfolding only_destroyed_def by (cases "v \<in> set i'") simp_all
  moreover have "ev_status e'' v = Finished" if "v \<in> set (ev_waiters e)" "v \<notin> set (ev_waiters e'')" for v
    using a b that st [of v] unfolding only_destroyed_def by (cases "v \<in> set (ev_waiters e')") simp_all
  moreover have "ev_status e'' v = ev_status e v \<or> ev_status e'' v = Finished" for v
    using a b unfolding only_destroyed_def by metis
  moreover have "subseq i'' i" using a b unfolding only_destroyed_def by (blast intro: subseq_order.trans)
  ultimately show ?thesis using a b unfolding only_destroyed_def by auto
qed

lemma destroy_only: "wait_awaiter_destroy w (into, e) = (into', e') \<Longrightarrow> only_destroyed into e into' e'"
  by (auto simp: only_destroyed_def wait_awaiter_destroy_def unlink_def event_defs subseq_remove1
      split: which_list.splits if_splits dest: notin_set_remove1 set_remove1_subset [THEN subsetD])

lemma destroys_only: "fold wait_awaiter_destroy ds (into, e) = (into', e') \<Longrightarrow> only_destroyed into e into' e'"
proof (induction ds arbitrary: into e)
  case Nil
  then show ?case by (simp add: only_destroyed_def)
next
  case (Cons d ds)
  obtain i1 e1 where d: "wait_awaiter_destroy d (into, e) = (i1, e1)" by fastforce
  show ?case using only_destroyed_trans [OF destroy_only [OF d] Cons.IH] Cons.prems d by simp
qed

lemma after_post_only: "after_post react w (into, e) = (into', e') \<Longrightarrow> only_destroyed into e into' e'"
proof -
  assume a: "after_post react w (into, e) = (into', e')"
  obtain i1 e1 where d: "fold wait_awaiter_destroy (fst (react w)) (into, e) = (i1, e1)" by fastforce
  with a have "into' = i1" "e' = e1\<lparr>ev_gone := ev_gone e1 \<or> snd (react w)\<rparr>" by (auto simp: after_post_def)
  then show ?thesis using destroys_only [OF d] by (simp add: only_destroyed_def)
qed

lemma post_turn_ok:
  assumes "event_ok (w # ws) e"
  shows "event_ok ws (post_waiter w (upd_waiter w (e_list_update (\<lambda>_. Not_Listed)) e))"
  by (rule event_ok_change [OF assms, of _ _ w])
    (use event_ok_distinct [OF assms] event_ok_at [OF assms, of w] in \<open>auto simp: event_defs fine_at_def dest: fine_turn\<close>)

definition loop_keeps :: "async_event \<Rightarrow> async_event \<Rightarrow> bool" where
  "loop_keeps e e' \<longleftrightarrow> ev_set e' = ev_set e \<and> set (ev_waiters e') \<subseteq> set (ev_waiters e)
     \<and> (\<forall>v. e_canceled (ev_aw e' v) = e_canceled (ev_aw e v)) \<and> (ev_gone e \<longrightarrow> ev_gone e')"

lemma set_loop_ok: "event_ok into e \<Longrightarrow> event_ok [] (set_loop react (into, e)) \<and> loop_keeps e (set_loop react (into, e))"
proof (induction react "(into, e)" arbitrary: into e rule: set_loop.induct)
  case (1 react e)
  then show ?case by (simp add: loop_keeps_def)
next
  case (2 react w ws e)
  let ?e1 = "post_waiter w (upd_waiter w (e_list_update (\<lambda>_. Not_Listed)) e)"
  obtain i2 e2 where a: "after_post react w (ws, ?e1) = (i2, e2)" by fastforce
  have IH: "event_ok [] (set_loop react (i2, e2))" "loop_keeps e2 (set_loop react (i2, e2))"
    using "2.hyps" [OF a after_post_ok [OF post_turn_ok [OF "2.prems"] a]] by simp_all
  have "only_destroyed ws ?e1 i2 e2" by (rule after_post_only [OF a])
  then have "loop_keeps e (set_loop react (i2, e2))"
    using IH(2) unfolding only_destroyed_def loop_keeps_def by (auto simp: event_defs split: if_splits)
  then show ?case using IH(1) a by simp
qed

lemma destroys_status: "ev_status (snd (fold wait_awaiter_destroy ds p)) v \<noteq> ev_status (snd p) v \<Longrightarrow> v \<in> set ds"
proof (induction ds arbitrary: p)
  case (Cons d ds)
  have "ev_status (snd (wait_awaiter_destroy d p)) v = ev_status (snd p) v" if "v \<noteq> d"
    using that by (cases p) (simp add: wait_awaiter_destroy_def unlink_def event_defs split: which_list.split)
  then show ?case using Cons.IH [of "wait_awaiter_destroy d p"] Cons.prems by (cases "v = d") auto
qed simp

text \<open>
  Which waiters of a list get their turn: the oldest does, and those its post destroys leave the rest of the list.
\<close>

function in_turn :: "(waiter \<Rightarrow> waiter list) \<Rightarrow> waiter list \<Rightarrow> waiter list" where
  "in_turn kills [] = []"
| "in_turn kills (w # ws) = w # in_turn kills (filter (\<lambda>v. v \<notin> set (kills w)) ws)"
  by pat_completeness auto
termination
  by (relation "measure (\<lambda>(kills, ws). length ws)") (auto simp: le_imp_less_Suc)

lemma subseq_in_turn: "subseq (in_turn kills ws) ws"
proof (induction kills ws rule: in_turn.induct)
  case (2 kills w ws)
  then show ?case using subseq_order.trans [OF _ subseq_filter_left] by auto
qed simp

lemma in_turn_set: "v \<in> set (in_turn kills ws) \<Longrightarrow> v \<in> set ws"
  using list_emb_set [OF subseq_in_turn] by blast

text \<open>A waiter is left out exactly when one that had its turn earlier destroys it.\<close>

lemma in_turn_iff:
  "distinct (a @ w # b) \<Longrightarrow> w \<notin> set (in_turn kills (a @ w # b)) \<longleftrightarrow> (\<exists>u \<in> set a. u \<in> set (in_turn kills (a @ w # b)) \<and> w \<in> set (kills u))"
proof (induction "length a" arbitrary: a b rule: less_induct)
  case less
  show ?case
  proof (cases a)
    case (Cons x a')
    let ?f = "filter (\<lambda>v. v \<notin> set (kills x))"
    have o: "u \<in> set a' \<and> u \<in> set (in_turn kills (?f (a' @ w # b))) \<longleftrightarrow> u \<in> set (?f a') \<and> u \<in> set (in_turn kills (?f (a' @ w # b)))" for u
      using in_turn_set [of u kills "?f (a' @ w # b)"] by auto
    show ?thesis
    proof (cases "w \<in> set (kills x)")
      case True
      then show ?thesis using less.prems Cons in_turn_set [of w kills "?f (a' @ w # b)"] by auto
    next
      case False
      have "length (?f a') < length a" using Cons by (simp add: le_imp_less_Suc)
      then have "w \<notin> set (in_turn kills (?f a' @ w # ?f b)) \<longleftrightarrow> (\<exists>u \<in> set (?f a'). u \<in> set (in_turn kills (?f a' @ w # ?f b)) \<and> w \<in> set (kills u))"
        using less.prems Cons by (intro less.hyps) auto
      then show ?thesis using less.prems Cons False o by auto
    qed
  qed simp
qed

lemma destroy_filter:
  assumes "event_ok into e"
  shows "fst (wait_awaiter_destroy d (into, e)) = filter (\<lambda>v. v \<noteq> d) into"
proof -
  have "d \<in> set into \<longleftrightarrow> e_list (ev_aw e d) = In_Claimed" using fine_lists(2) event_ok_at [OF assms, of d] by (simp add: fine_at_def)
  moreover have "filter (\<lambda>v. v \<noteq> d) into = into" if "d \<notin> set into" using that by (induction into) auto
  ultimately show ?thesis using event_ok_distinct [OF assms]
    by (auto simp: wait_awaiter_destroy_def unlink_def distinct_remove1_removeAll removeAll_filter_not_eq neq_commute split: which_list.split)
qed

lemma destroys_filter: "event_ok into e \<Longrightarrow> fst (fold wait_awaiter_destroy ds (into, e)) = filter (\<lambda>v. v \<notin> set ds) into"
proof (induction ds arbitrary: into e)
  case (Cons d ds)
  obtain i1 e1 where d: "wait_awaiter_destroy d (into, e) = (i1, e1)" by fastforce
  then have "i1 = filter (\<lambda>v. v \<noteq> d) into" "event_ok i1 e1" using destroy_filter [OF Cons.prems, of d] destroy_ok [OF Cons.prems, of d] by auto
  then show ?case using Cons.IH [of i1 e1] d by (simp add: conj_commute)
qed simp

lemma set_loop_posts:
  "event_ok into e \<Longrightarrow> ev_posted (set_loop react (into, e)) = ev_posted e @ in_turn (\<lambda>u. fst (react u)) into"
proof (induction react "(into, e)" arbitrary: into e rule: set_loop.induct)
  case (2 react w ws e)
  let ?e1 = "post_waiter w (upd_waiter w (e_list_update (\<lambda>_. Not_Listed)) e)"
  obtain i2 e2 where a: "after_post react w (ws, ?e1) = (i2, e2)" by fastforce
  have ok: "event_ok ws ?e1" by (rule post_turn_ok [OF "2.prems"])
  have "i2 = filter (\<lambda>v. v \<notin> set (fst (react w))) ws"
    using destroys_filter [OF ok, of "fst (react w)"] a by (auto simp: after_post_def split: prod.splits)
  moreover have "ev_posted e2 = ev_posted e @ [w]" using after_post_only [OF a] by (simp add: only_destroyed_def event_defs)
  ultimately show ?case using "2.hyps" [OF a after_post_ok [OF ok a]] a by simp
qed simp

lemma set_loop_destroys: "ev_status (set_loop react p) v \<noteq> ev_status (snd p) v \<Longrightarrow> event_ok (fst p) (snd p) \<Longrightarrow> \<exists>u \<in> set (in_turn (\<lambda>u. fst (react u)) (fst p)). v \<in> set (fst (react u))"
proof (induction react p rule: set_loop.induct)
  case (2 react w ws e)
  let ?e1 = "post_waiter w (upd_waiter w (e_list_update (\<lambda>_. Not_Listed)) e)"
  obtain i2 e2 where a: "after_post react w (ws, ?e1) = (i2, e2)" by fastforce
  have ok: "event_ok ws ?e1" using post_turn_ok "2.prems"(2) by simp
  have i2: "i2 = filter (\<lambda>x. x \<notin> set (fst (react w))) ws"
    using destroys_filter [OF ok, of "fst (react w)"] a by (auto simp: after_post_def split: prod.splits)
  have "v \<in> set (fst (react w))" if "ev_status e2 v \<noteq> ev_status e v"
    using that destroys_status [of "fst (react w)" "(ws, ?e1)" v] a by (auto simp: after_post_def event_defs split: prod.splits)
  then show ?case using "2.IH" "2.prems"(1) after_post_ok [OF ok a] a i2 by (cases "ev_status e2 v = ev_status e v") auto
qed simp

definition event_inv :: "async_event \<Rightarrow> bool" where
  "event_inv e \<longleftrightarrow> event_ok [] e \<and> (ev_set e \<or> ev_gone e \<longrightarrow> ev_waiters e = [])"

lemma event_set_facts:
  assumes "event_ok [] e"
  shows "event_ok [] (event_set react e) \<and> ev_waiters (event_set react e) = [] \<and> ev_set (event_set react e)
    \<and> (let xs = in_turn (\<lambda>u. fst (react u)) (filter (\<lambda>w. \<not> e_claimed (ev_aw e w)) (ev_waiters e)) in
          ev_posted (event_set react e) = ev_posted e @ xs
          \<and> (\<forall>w. ev_status (event_set react e) w \<noteq> ev_status e w \<longrightarrow> (\<exists>u \<in> set xs. w \<in> set (fst (react u)))))
    \<and> (\<forall>w. e_canceled (ev_aw (event_set react e) w) = e_canceled (ev_aw e w))"
proof -
  obtain into e1 where c: "claim_loop (ev_waiters e) [] (e\<lparr>ev_set := True\<rparr>) = (into, e1)" by fastforce
  have "event_ok [] (e\<lparr>ev_set := True\<rparr>)" using assms by simp
  note c1 = claim_loop_ok [OF this _ c, simplified]
  have r: "event_set react e = set_loop react (into, e1)" by (simp add: event_set_def claim_all_def c)
  have "event_ok into e1" using c1 by blast
  note ok1 = this
  have p: "event_ok [] (event_set react e)" "loop_keeps e1 (event_set react e)"
    using set_loop_ok [OF ok1, of react] by (simp_all add: r)
  have i: "into = filter (\<lambda>w. \<not> e_claimed (ev_aw e w)) (ev_waiters e)" and e1: "ev_posted e1 = ev_posted e" "ev_set e1" "ev_waiters e1 = []" "ev_status e1 = ev_status e"
    and cn: "\<And>v. e_canceled (ev_aw e1 v) = e_canceled (ev_aw e v)"
    using c1 by simp_all
  have "\<exists>u \<in> set (in_turn (\<lambda>u. fst (react u)) into). w \<in> set (fst (react u))" if "ev_status (event_set react e) w \<noteq> ev_status e w" for w
    using set_loop_destroys [of react "(into, e1)" w] ok1 that by (simp add: r e1(4))
  moreover have "ev_posted (event_set react e) = ev_posted e @ in_turn (\<lambda>u. fst (react u)) into"
    using set_loop_posts [OF ok1, of react] by (simp add: r e1(1))
  ultimately show ?thesis using p e1(2,3) cn unfolding i by (auto simp: loop_keeps_def Let_def)
qed

lemma destroy_claims_ok:
  assumes "event_ok [] e" "ev_waiters e = w # ws"
  shows "event_ok [] (destroy_claims w e)"
proof -
  have w: "waiter_fine (ev_aw e w) (ev_status e w) True False (count_list (ev_posted e) w)" "w \<notin> set ws" "distinct ws"
    using assms by (auto simp: event_ok_def fine_at_def dest: spec [of _ w])
  then have s: "ev_status e w = Suspended" by (auto simp: waiter_fine_def split: if_splits)
  show ?thesis
  proof (cases "e_claimed (ev_aw e w)")
    case True
    show ?thesis
      by (rule event_ok_change [OF assms(1), of _ _ w]) (use w True assms(2) in \<open>auto simp: destroy_claims_def event_defs fine_at_def fine_leave\<close>)
  next
    case False
    have "waiter_fine ((ev_aw e w)\<lparr>e_list := Not_Listed, e_claimed := True, e_canceled := True\<rparr>) (ev_status e w) False False (count_list (ev_posted e) w + 1)"
      using w(1) s False by (simp add: waiter_fine_def)
    then show ?thesis
      by (intro event_ok_change [OF assms(1), of _ _ w]) (use w False assms(2) in \<open>auto simp: destroy_claims_def event_defs fine_at_def\<close>)
  qed
qed

lemma destroy_claims_simps:
  assumes "ev_waiters e = w # ws"
  shows "ev_waiters (destroy_claims w e) = ws" "ev_status (destroy_claims w e) = ev_status e" "ev_set (destroy_claims w e) = ev_set e"
    "ev_gone (destroy_claims w e) = ev_gone e"
  using assms by (simp_all add: destroy_claims_def event_defs Let_def)

lemma event_destroy_loop_ok:
  "event_ok [] e \<Longrightarrow> event_ok [] (event_destroy_loop react e) \<and> ev_waiters (event_destroy_loop react e) = []
     \<and> (ev_gone e \<longrightarrow> ev_gone (event_destroy_loop react e))
     \<and> (\<forall>v. ev_status (event_destroy_loop react e) v = ev_status e v \<or> ev_status (event_destroy_loop react e) v = Finished)
     \<and> (\<forall>v. e_canceled (ev_aw e v) \<or> v \<in> set (ev_waiters e) \<longrightarrow> e_canceled (ev_aw (event_destroy_loop react e) v)
          \<or> ev_status (event_destroy_loop react e) v = Finished)"
proof (induction react e rule: event_destroy_loop.induct)
  case (1 react e)
  show ?case
  proof (cases "ev_waiters e")
    case Nil
    have "event_destroy_loop react e = e" by (subst event_destroy_loop.simps) (simp add: Nil)
    then show ?thesis using "1.prems" Nil by simp
  next
    case (Cons w ws)
    let ?e1 = "destroy_claims w e" and ?p = "\<not> e_claimed (ev_aw e w)"
    let ?e2 = "if ?p then snd (fold wait_awaiter_destroy (react w) ([], ?e1)) else ?e1"
    have r: "event_destroy_loop react e = event_destroy_loop react ?e2" by (subst event_destroy_loop.simps) (simp add: Cons)
    have ok1: "event_ok [] ?e1" by (rule destroy_claims_ok [OF "1.prems" Cons])
    obtain i2 e2 where f: "fold wait_awaiter_destroy (react w) ([], ?e1) = (i2, e2)" by fastforce
    have d: "only_destroyed [] ?e1 i2 e2" by (rule destroys_only [OF f])
    then have i2: "i2 = []" using list_emb_length [of "(=)" i2 "[]"] by (simp add: only_destroyed_def)
    have ok2: "event_ok [] ?e2" using ok1 destroys_ok [OF ok1 f] i2 f by simp
    have e2: "?e2 = (if ?p then e2 else ?e1)" using f by simp
    have st: "ev_status ?e2 v = ev_status e v \<or> ev_status ?e2 v = Finished" for v
      using d unfolding e2 by (simp add: only_destroyed_def destroy_claims_simps [OF Cons])
    have "e_claimed (ev_aw e w) \<Longrightarrow> e_canceled (ev_aw e w)"
      using event_ok_at [OF "1.prems", of w] Cons by (auto simp: fine_at_def waiter_fine_def split: if_splits)
    then have c1: "e_canceled (ev_aw ?e1 v)" if "e_canceled (ev_aw e v) \<or> v = w" for v
      using that by (auto simp: destroy_claims_def event_defs Let_def)
    have c2: "e_canceled (ev_aw ?e2 v) = e_canceled (ev_aw ?e1 v)" for v using d unfolding e2 by (simp add: only_destroyed_def)
    have l: "v \<in> set (ev_waiters ?e2) \<or> ev_status ?e2 v = Finished" if "v \<in> set ws" for v
      using d that unfolding e2 by (auto simp: only_destroyed_def destroy_claims_simps [OF Cons])
    have g: "ev_gone e \<longrightarrow> ev_gone ?e2" using d unfolding e2 by (simp add: only_destroyed_def destroy_claims_simps [OF Cons])
    note IH = "1.IH" [OF Cons refl refl ok2]
    let ?r = "event_destroy_loop react ?e2"
    have st': "ev_status ?r v = ev_status e v \<or> ev_status ?r v = Finished" for v using IH st [of v] by metis
    moreover have "e_canceled (ev_aw ?r v) \<or> ev_status ?r v = Finished" if "e_canceled (ev_aw e v) \<or> v \<in> set (ev_waiters e)" for v
      using that IH c1 [of v] c2 [of v] l [of v] Cons by (cases "v \<in> set ws") (metis, metis set_ConsD)
    ultimately show ?thesis unfolding r using IH g by blast
  qed
qed

section \<open>The invariant is kept\<close>

lemma event_inv_init: "event_inv event_init"
  by (simp add: event_inv_def event_init_def event_ok_def fine_at_def waiter_fine_def wait_awaiter_init_def)

lemma wait_suspend_ok:
  assumes "event_ok [] e" "ev_status e w = Fresh"
  shows "event_ok [] (mark w Was_Canceled (snd (wait_suspend True w e)))" "event_ok [] (mark w Suspended (snd (wait_suspend False w e)))"
    "event_ok [] (mark w Woken e)"
proof -
  have w: "ev_aw e w = wait_awaiter_init" "count_list (ev_posted e) w = 0" "w \<notin> set (ev_waiters e)"
    using event_ok_at [OF assms(1), of w] assms(2) by (simp_all add: fine_at_def waiter_fine_def)
  show "event_ok [] (mark w Was_Canceled (snd (wait_suspend True w e)))"
    by (rule event_ok_change [OF assms(1), of _ _ w])
      (use w event_ok_distinct [OF assms(1)] in \<open>simp_all add: wait_suspend_def event_defs fine_at_def waiter_fine_def wait_awaiter_init_def\<close>)
  show "event_ok [] (mark w Suspended (snd (wait_suspend False w e)))"
    by (rule event_ok_change [OF assms(1), of _ _ w])
      (use w event_ok_distinct [OF assms(1)] in \<open>simp_all add: wait_suspend_def event_defs fine_at_def waiter_fine_def wait_awaiter_init_def\<close>)
  show "event_ok [] (mark w Woken e)"
    by (rule event_ok_change [OF assms(1), of _ _ w])
      (use w event_ok_distinct [OF assms(1)] in \<open>simp_all add: event_defs fine_at_def waiter_fine_def wait_awaiter_init_def\<close>)
qed

lemma wait_cancel_ok:
  assumes "event_ok [] e" "ev_status e w = Suspended"
  shows "event_ok [] (wait_cancel_fn w e)"
proof (cases "e_claimed (ev_aw e w)")
  case False
  have f: "waiter_fine (ev_aw e w) (ev_status e w) (w \<in> set (ev_waiters e)) False (count_list (ev_posted e) w)"
    using event_ok_at [OF assms(1), of w] by (simp add: fine_at_def)
  show ?thesis
    by (rule event_ok_change [OF assms(1), of _ _ w])
      (use fine_cancel [OF f assms(2) False] event_ok_distinct [OF assms(1)] False in \<open>simp_all add: wait_cancel_fn_def event_defs fine_at_def\<close>)
qed (use assms in \<open>simp add: wait_cancel_fn_def\<close>)

lemma wait_resume_ok:
  assumes "event_ok [] e" "ev_status e w = Suspended" "w \<in> set (ev_posted e)" "wait_resume w e = (ec, e')" "s \<noteq> Suspended" "s \<noteq> Fresh"
  shows "event_ok [] (mark w s e')" "ev_set e' = ev_set e \<and> ev_gone e' = ev_gone e \<and> set (ev_waiters e') \<subseteq> set (ev_waiters e)"
proof -
  have f: "waiter_fine (ev_aw e w) Suspended (w \<in> set (ev_waiters e)) False (count_list (ev_posted e) w)"
    using event_ok_at [OF assms(1), of w] assms(2) by (simp add: fine_at_def)
  have c: "e_claimed (ev_aw e w)" "count_list (ev_posted e) w = 1"
    using f assms(3) count_list_0_iff [of "ev_posted e" w] by (auto simp: waiter_fine_def split: if_splits)
  have e': "ev_status e' = ev_status e" "ev_posted e' = ev_posted e" "\<And>v. v \<noteq> w \<Longrightarrow> ev_aw e' v = ev_aw e v"
    "ev_waiters e' = (if e_canceled (ev_aw e w) \<and> e_list (ev_aw e w) = In_Event then remove1 w (ev_waiters e) else ev_waiters e)"
    using assms(4) by (auto simp: wait_resume_def unlink_def event_defs Let_def split: if_splits which_list.splits)
  have l: "e_list (ev_aw e' w) = Not_Listed" "w \<notin> set (ev_waiters e')"
    using assms(4) e'(4) fine_woken [OF f c(1)] fine_lists [OF f] event_ok_distinct [OF assms(1)]
    by (auto simp: wait_resume_def unlink_def event_defs Let_def split: if_splits which_list.splits)
  show "event_ok [] (mark w s e')"
    by (rule event_ok_change [OF assms(1), of _ _ w])
      (use e' l event_ok_distinct [OF assms(1)] fine_done [OF f assms(5,6) l(1)] in \<open>simp_all add: mark_def fine_at_def\<close>)
  show "ev_set e' = ev_set e \<and> ev_gone e' = ev_gone e \<and> set (ev_waiters e') \<subseteq> set (ev_waiters e)"
    using assms(4) set_remove1_subset [of w "ev_waiters e"]
    by (auto simp: wait_resume_def unlink_def event_defs Let_def split: if_splits which_list.splits)
qed

lemma event_step_inv: "event_step e e' \<Longrightarrow> event_inv e \<Longrightarrow> event_inv e'"
proof (induction rule: event_step.induct)
  case (wait_passes e w)
  then show ?case using wait_suspend_ok(3) [of e w] by (simp add: event_inv_def mark_def)
next
  case (wait_stopped e w e')
  then show ?case using wait_suspend_ok(1) [of e w] by (auto simp: event_inv_def mark_def wait_suspend_def upd_waiter_def)
next
  case (wait_suspends e w e')
  then show ?case using wait_suspend_ok(2) [of e w] by (auto simp: event_inv_def mark_def wait_suspend_def upd_waiter_def wait_ready_def)
next
  case (stop_request e w)
  then show ?case using wait_cancel_ok [of e w] by (auto simp: event_inv_def wait_cancel_fn_def event_defs)
next
  case (resume e w ec e')
  then show ?case using wait_resume_ok [of e w ec e' "if failed ec then Was_Canceled else Woken"] by (auto simp: event_inv_def mark_def)
next
  case (destroyed e w)
  obtain i e' where d: "wait_awaiter_destroy w ([], e) = (i, e')" by fastforce
  have o: "only_destroyed [] e i e'" by (rule destroy_only [OF d])
  then have "i = []" using list_emb_length [of "(=)" i "[]"] by (simp add: only_destroyed_def)
  moreover have "ev_gone e' = ev_gone e" using d by (auto simp: wait_awaiter_destroy_def unlink_def event_defs split: which_list.splits)
  ultimately show ?case using destroyed destroy_ok [of "[]" e w] d o by (auto simp: event_inv_def only_destroyed_def)
next
  case (sets e react)
  then show ?case using event_set_facts [of e react] by (simp add: event_inv_def)
next
  case (clears e)
  then show ?case by (simp add: event_inv_def event_clear_def)
next
  case (event_destroyed e dreact)
  then show ?case using event_destroy_loop_ok [of "e\<lparr>ev_gone := True\<rparr>" dreact] by (simp add: event_inv_def event_destroy_def)
qed

lemma event_reach_inv: "event_reach e \<Longrightarrow> event_inv e"
  by (induction rule: event_reach.induct) (auto intro: event_inv_init event_step_inv)

section \<open>What the event promises\<close>

lemma posted_iff_claimed:
  assumes "event_ok [] e" "ev_status e w = Suspended"
  shows "w \<in> set (ev_posted e) \<longleftrightarrow> e_claimed (ev_aw e w)" "count_list (ev_posted e) w \<le> 1"
  using event_ok_at [OF assms(1), of w] assms(2) count_list_0_iff [of "ev_posted e" w]
  by (auto simp: fine_at_def waiter_fine_def split: if_splits)

lemma waiting_suspended: "event_ok [] e \<Longrightarrow> w \<in> set (ev_waiters e) \<Longrightarrow> ev_status e w = Suspended"
  using event_ok_at [of "[]" e w] by (auto simp: fine_at_def waiter_fine_def split: if_splits)

text \<open>Three waiters, the wait of 2 canceled.\<close>

definition demo_event :: async_event where
  "demo_event = wait_cancel_fn 2 (fold (\<lambda>w e. mark w Suspended (snd (wait_suspend False w e))) [1, 2, 3] event_init)"

lemmas demo_event_defs = demo_event_def event_init_def wait_suspend_def wait_cancel_fn_def event_defs wait_awaiter_init_def

lemma demo_event_suspend:
  assumes "event_reach e" "\<not> ev_gone e" "ev_status e w = Fresh" "\<not> ev_set e"
  shows "event_reach (mark w Suspended (snd (wait_suspend False w e)))"
  by (rule event_reach.step [OF assms(1)], rule event_step.wait_suspends [OF assms(2,3)])
    (use assms(4) in \<open>auto simp: wait_ready_def wait_suspend_def\<close>)

lemma demo_event_reach: "event_reach demo_event"
proof -
  have "event_reach (fold (\<lambda>w e. mark w Suspended (snd (wait_suspend False w e))) [1, 2, 3] event_init)"
    by simp (intro demo_event_suspend event_reach.start; simp add: demo_event_defs)
  then show ?thesis unfolding demo_event_def
    by (rule event_reach.step, intro event_step.stop_request) (simp add: demo_event_defs)
qed

lemma demo_event_state:
  "\<not> ev_gone demo_event" "ev_posted demo_event = [2]" "ev_waiters demo_event = [1, 2, 3]" "\<not> ev_set demo_event"
  by (simp_all add: demo_event_defs)

text \<open>
  C11. \<^verbatim>\<open>set()\<close> leaves the event set and nobody waiting, and posts, each exactly once and in the order they came, waiters that no stop
  request had claimed, and no other waiter. It leaves one of these out exactly when the post of a waiter that came earlier destroys it, so
  a destroyed waiter is never posted. One that none of the posts destroys is posted, is still suspended when \<^verbatim>\<open>set()\<close> returns, and resumes with success.
\<close>

theorem set_wakes_every_waiter:
  assumes "event_reach e" "\<not> ev_gone e"
  shows "let e' = event_set react e; woken = filter (\<lambda>w. w \<notin> set (ev_posted e)) (ev_waiters e) in
    is_set e' \<and> ev_waiters e' = [] \<and> (\<exists>xs. ev_posted e' = ev_posted e @ xs \<and> subseq xs woken \<and> distinct xs
      \<and> (\<forall>a w b. woken = a @ w # b \<longrightarrow> (w \<notin> set xs \<longleftrightarrow> (\<exists>u \<in> set a. u \<in> set xs \<and> w \<in> set (fst (react u)))))
      \<and> (\<forall>w \<in> set woken. (\<forall>u \<in> set xs. w \<notin> set (fst (react u)))
           \<longrightarrow> w \<in> set xs \<and> ev_status e' w = Suspended \<and> fst (wait_resume w e') = success))"
proof -
  have ok: "event_ok [] e" using event_reach_inv [OF assms(1)] by (simp add: event_inv_def)
  let ?e = "event_set react e" and ?un = "filter (\<lambda>w. \<not> e_claimed (ev_aw e w)) (ev_waiters e)"
  let ?xs = "in_turn (\<lambda>u. fst (react u)) ?un"
  have un: "filter (\<lambda>w. w \<notin> set (ev_posted e)) (ev_waiters e) = ?un"
    using posted_iff_claimed(1) [OF ok waiting_suspended [OF ok]] by (auto intro: filter_cong)
  have d: "distinct ?un" using event_ok_distinct [OF ok] by simp
  have f: "is_set ?e" "ev_waiters ?e = []" "ev_posted ?e = ev_posted e @ ?xs"
    "\<And>w. ev_status ?e w \<noteq> ev_status e w \<Longrightarrow> \<exists>u \<in> set ?xs. w \<in> set (fst (react u))"
    "\<And>w. e_canceled (ev_aw ?e w) = e_canceled (ev_aw e w)"
    using event_set_facts [OF ok, of react] by (auto simp: Let_def is_set_def)
  have turn: "w \<notin> set ?xs \<longleftrightarrow> (\<exists>u \<in> set a. u \<in> set ?xs \<and> w \<in> set (fst (react u)))" if "?un = a @ w # b" for a w b
    using in_turn_iff [of a w b "\<lambda>u. fst (react u)"] d unfolding that by simp
  have "w \<in> set ?xs \<and> ev_status ?e w = Suspended \<and> fst (wait_resume w ?e) = success"
    if "w \<in> set ?un" "\<forall>u \<in> set ?xs. w \<notin> set (fst (react u))" for w
  proof -
    have "\<exists>a b. ?un = a @ w # b" by (rule split_list [OF that(1)])
    then have x: "w \<in> set ?xs" using turn that(2) by blast
    have s: "ev_status ?e w = Suspended" using f(4) [of w] that waiting_suspended [OF ok, of w] by auto
    have "\<not> e_canceled (ev_aw e w)" using event_ok_at [OF ok, of w] that(1) by (auto simp: fine_at_def waiter_fine_def split: if_splits)
    then have "\<not> e_canceled (ev_aw ?e w)" using f(5) by simp
    then show ?thesis using x s by (simp add: wait_resume_def upd_waiter_def Let_def)
  qed
  then show ?thesis using f(1-3) turn subseq_in_turn subseq_distinct [OF subseq_in_turn d] unfolding un Let_def by blast
qed

theorem set_wakes_every_waiter_witness:
  "\<exists>xs. ev_posted (event_set (\<lambda>w. (if w = 1 then [3] else [], False)) demo_event) = [2] @ xs \<and> subseq xs [1, 3] \<and> 1 \<in> set xs \<and> 3 \<notin> set xs"
proof -
  obtain xs where xs: "ev_posted (event_set (\<lambda>w. (if w = 1 then [3] else [], False)) demo_event) = [2] @ xs" "subseq xs [1, 3]"
    "\<forall>a w b. [1, 3] = a @ w # b \<longrightarrow> (w \<notin> set xs \<longleftrightarrow> (\<exists>u \<in> set a. u \<in> set xs \<and> w \<in> set (fst (if u = 1 then [3] else [], False))))"
    using set_wakes_every_waiter [OF demo_event_reach demo_event_state(1), of "\<lambda>w. (if w = 1 then [3] else [], False)"]
    by (auto simp: demo_event_state Let_def)
  from xs(3) [rule_format, of "[]" 1 "[3]"] xs(3) [rule_format, of "[1]" 3 "[]"] xs(1,2) show ?thesis by auto
qed

text \<open>
  In every state the event reaches, a suspended waiter that was not posted is in the list of a living event that is not set, and no waiter
  was posted twice. When the event is destroyed, every waiter in the list that the posts of the destructor do not destroy
  has then been posted exactly once and resumes with \<open>error::canceled\<close>, and the list is empty.
\<close>

theorem event_never_forgets:
  assumes "event_reach e"
  shows "(\<forall>w. ev_status e w = Suspended \<and> w \<notin> set (ev_posted e) \<longrightarrow> w \<in> set (ev_waiters e) \<and> \<not> is_set e \<and> \<not> ev_gone e)
    \<and> (\<forall>w. count_list (ev_posted e) w \<le> 1)
    \<and> (let e' = event_destroy react e in ev_waiters e' = [] \<and> (\<forall>w \<in> set (ev_waiters e). ev_status e' w = Finished
         \<or> (count_list (ev_posted e') w = 1 \<and> fst (wait_resume w e') = make_error_code canceled)))"
proof -
  have inv: "event_ok [] e" "ev_set e \<or> ev_gone e \<longrightarrow> ev_waiters e = []" using event_reach_inv [OF assms] by (simp_all add: event_inv_def)
  let ?e = "event_destroy react e"
  have d: "event_ok [] ?e" "ev_waiters ?e = []" "\<And>v. ev_status ?e v = ev_status e v \<or> ev_status ?e v = Finished"
    "\<And>v. v \<in> set (ev_waiters e) \<Longrightarrow> e_canceled (ev_aw ?e v) \<or> ev_status ?e v = Finished"
    using event_destroy_loop_ok [of "e\<lparr>ev_gone := True\<rparr>" react] inv(1) by (simp_all add: event_destroy_def)
  have "w \<in> set (ev_waiters e)" if "ev_status e w = Suspended" "w \<notin> set (ev_posted e)" for w
    using event_ok_at [OF inv(1), of w] posted_iff_claimed [OF inv(1) that(1)] that by (simp add: fine_at_def waiter_fine_def)
  moreover have "count_list (ev_posted e) w \<le> 1" for w
    using event_ok_at [OF inv(1), of w] by (simp add: fine_at_def waiter_fine_def split: if_splits)
  moreover have "count_list (ev_posted ?e) w = 1 \<and> fst (wait_resume w ?e) = make_error_code canceled"
    if "w \<in> set (ev_waiters e)" "ev_status ?e w \<noteq> Finished" for w
  proof -
    have "ev_status ?e w = Suspended" "e_canceled (ev_aw ?e w)"
      using d(3) [of w] d(4) [of w] waiting_suspended [OF inv(1)] that by auto
    then show ?thesis using event_ok_at [OF d(1), of w] by (simp add: fine_at_def waiter_fine_def wait_resume_def upd_waiter_def Let_def)
  qed
  ultimately show ?thesis using inv(2) d(2) by (fastforce simp: Let_def is_set_def)
qed

theorem event_never_forgets_witness:
  "count_list (ev_posted demo_event) 2 \<le> 1 \<and> ev_waiters (event_destroy (\<lambda>_. []) demo_event) = []"
  using event_never_forgets [OF demo_event_reach, of "\<lambda>_. []"] by (simp add: Let_def)

end
