(* ===== verification/Async_Waker.thy ===== *)
theory Async_Waker
  imports Errors
begin

text \<open>
  The single-slot waker \<^verbatim>\<open>ex/async_waker.hpp\<close>. Its state is one atomic, which the waiting coroutine, its stop callback, threads that
  call \<^verbatim>\<open>wake()\<close> and the destructor race for; each access to the atomic is one step here, and what a thread does between two
  accesses is part of the step before. A load followed by a compare-exchange on the loaded value is one step, since a failed
  exchange only repeats the loop. \<open>k_latched\<close>, \<open>k_wakes\<close>, \<open>k_woken\<close>, \<open>k_stopped\<close> and \<open>k_dropped\<close> are ghosts that count tokens latched,
  waiters claimed by \<^verbatim>\<open>wake()\<close>, waits that ended with success and with \<open>error::canceled\<close>, and woken waiters whose frame was
  destroyed before it resumed.
\<close>

type_synonym thread = nat

datatype slot = Empty | Token | Armed | Arming

text \<open>Where the waiting coroutine is.\<close>

datatype waiter_pc = Running | Entered | Checked | Registered | Took_Token | Publishing | Suspended | Stop_Settled | Posted

text \<open>The stop callback of the wait.\<close>

datatype callback_pc = No_Callback | Callback_Set | Callback_Runs | Callback_Won | Callback_Done

text \<open>A thread in \<^verbatim>\<open>wake()\<close> or in the destructor.\<close>

datatype waker_pc = K_Idle | K_Wake | K_Won | K_Dtor | K_Dtor_Won

record waker =
  k_slot :: slot
  k_canceled :: bool
  k_active :: bool
  k_published :: bool
  k_claimed :: bool
  k_stop :: bool
  k_waiter :: waiter_pc
  k_callback :: callback_pc
  k_thread :: "thread \<Rightarrow> waker_pc"
  k_gone :: bool
  k_latched :: nat
  k_wakes :: nat
  k_woken :: nat
  k_stopped :: nat
  k_dropped :: nat

definition waker_init :: waker where
  "waker_init = \<lparr>k_slot = Empty, k_canceled = False, k_active = False, k_published = False, k_claimed = False, k_stop = False,
     k_waiter = Running, k_callback = No_Callback, k_thread = (\<lambda>_. K_Idle), k_gone = False,
     k_latched = 0, k_wakes = 0, k_woken = 0, k_stopped = 0, k_dropped = 0\<rparr>"

section \<open>The operations\<close>

text \<open>One round of \<^verbatim>\<open>claim_armed\<close>: \<open>None\<close> when it goes round again.\<close>

definition claim_armed :: "waker \<Rightarrow> bool option \<times> waker" where
  "claim_armed s =
     (case k_slot s of
        Armed \<Rightarrow> (Some True, s\<lparr>k_slot := Empty\<rparr>)
      | Arming \<Rightarrow> (None, s)
      | _ \<Rightarrow> (Some False, s))"

text \<open>The callback object can be destroyed unless it is running.\<close>

definition callback_idle :: "waker \<Rightarrow> bool" where
  "callback_idle s \<longleftrightarrow> k_callback s \<noteq> Callback_Runs \<and> k_callback s \<noteq> Callback_Won"

definition drop_callback :: "waker \<Rightarrow> waker" where
  "drop_callback s = s\<lparr>k_callback := No_Callback, k_active := False\<rparr>"

definition post_waiter :: "waker \<Rightarrow> waker" where
  "post_waiter s = s\<lparr>k_claimed := True, k_waiter := Posted\<rparr>"

text \<open>The rest of \<^verbatim>\<open>cancel_fn\<close>, of \<^verbatim>\<open>wake\<close> and of the destructor once they have won the slot.\<close>

definition cancel_won :: "waker \<Rightarrow> waker" where
  "cancel_won s = post_waiter (s\<lparr>k_canceled := True, k_callback := Callback_Done\<rparr>)"

definition wake_won :: "waker \<Rightarrow> waker" where
  "wake_won s = post_waiter ((drop_callback s)\<lparr>k_wakes := k_wakes s + 1\<rparr>)"

definition dtor_won :: "waker \<Rightarrow> waker" where
  "dtor_won s = post_waiter ((if k_active s then drop_callback s else s)\<lparr>k_canceled := True\<rparr>)"

text \<open>A new awaiter, and \<^verbatim>\<open>await_ready\<close>.\<close>

definition fresh_wait :: "waker \<Rightarrow> waker" where
  "fresh_wait s = s\<lparr>k_canceled := False, k_active := False, k_published := False, k_claimed := False\<rparr>"

definition waker_ready :: "waker \<Rightarrow> bool \<times> waker" where
  "waker_ready s = (if k_slot s = Token then (True, s\<lparr>k_slot := Empty\<rparr>) else (False, s))"

text \<open>The parts of \<^verbatim>\<open>await_suspend\<close>: registering the callback, the exchange that arms the slot, the token found there, the stop
  settled while arming, publishing.\<close>

definition register_callback :: "waker \<Rightarrow> waker" where
  "register_callback s = s\<lparr>k_callback := (if k_stop s then Callback_Done else Callback_Set), k_active := True, k_published := True,
     k_waiter := Registered\<rparr>"

definition arm_slot :: "waker \<Rightarrow> waker" where
  "arm_slot s = (if k_slot s = Empty then s\<lparr>k_slot := Arming, k_waiter := Publishing\<rparr>
     else s\<lparr>k_published := False, k_waiter := Took_Token\<rparr>)"

definition take_token :: "waker \<Rightarrow> waker" where
  "take_token s = (drop_callback s)\<lparr>k_slot := Empty, k_waiter := Running, k_woken := k_woken s + 1\<rparr>"

definition settle_stop :: "waker \<Rightarrow> waker" where
  "settle_stop s = s\<lparr>k_published := False, k_slot := Empty, k_canceled := True, k_waiter := Stop_Settled\<rparr>"

definition publish :: "waker \<Rightarrow> waker" where
  "publish s = s\<lparr>k_slot := Armed, k_waiter := Suspended\<rparr>"

definition waker_resume :: "waker \<Rightarrow> error_code \<times> waker" where
  "waker_resume s =
     (let s = (if k_active s then drop_callback s else s)\<lparr>k_published := False, k_waiter := Running\<rparr>
      in if k_canceled s then (make_error_code canceled, s\<lparr>k_stopped := k_stopped s + 1\<rparr>)
         else (success, s\<lparr>k_woken := k_woken s + 1\<rparr>))"

text \<open>\<^verbatim>\<open>~wait_awaiter\<close>, when the frame is destroyed at the suspension point; the next wait makes a new awaiter.\<close>

definition waker_awaiter_destroy :: "waker \<Rightarrow> waker" where
  "waker_awaiter_destroy s =
     (let dropped = (if k_waiter s = Posted \<and> \<not> k_canceled s then 1 else 0);
          s = (if k_active s then drop_callback s else s);
          s = (if k_published s \<and> \<not> k_claimed s \<and> k_slot s = Armed then s\<lparr>k_slot := Empty\<rparr> else s)
      in s\<lparr>k_waiter := Running, k_dropped := k_dropped s + dropped\<rparr>)"

text \<open>One round of \<^verbatim>\<open>wake()\<close>: the thread's next place.\<close>

definition wake_round :: "waker \<Rightarrow> waker_pc \<times> waker" where
  "wake_round s =
     (case k_slot s of
        Token \<Rightarrow> (K_Idle, s)
      | Empty \<Rightarrow> (K_Idle, s\<lparr>k_slot := Token, k_latched := k_latched s + 1\<rparr>)
      | Arming \<Rightarrow> (K_Wake, s)
      | Armed \<Rightarrow> (K_Won, s\<lparr>k_slot := Empty\<rparr>))"

definition dtor_round :: "waker \<Rightarrow> waker_pc \<times> waker" where
  "dtor_round s =
     (case claim_armed s of
        (None, s) \<Rightarrow> (K_Dtor, s)
      | (Some True, s) \<Rightarrow> (K_Dtor_Won, s)
      | (Some False, s) \<Rightarrow> (K_Idle, s))"

definition goes :: "thread \<Rightarrow> waker_pc \<Rightarrow> waker \<Rightarrow> waker" where
  "goes t q s = s\<lparr>k_thread := (k_thread s)(t := q)\<rparr>"

section \<open>Steps\<close>

fun won :: "waker_pc \<Rightarrow> bool" where
  "won K_Won = True" | "won K_Dtor_Won = True" | "won _ = False"

text \<open>
  One coroutine waits at a time. The stop request may come at any moment; the callback then runs on the requesting thread, or
  inside its registration. The destructor runs when no \<^verbatim>\<open>wake()\<close> is in progress and none is made afterwards, and while the
  coroutine is not in the part of \<^verbatim>\<open>await_suspend\<close> that has yet to arm the slot. The frame may be destroyed while it is suspended or
  queued, at any moment but between the claim and the post of another thread: there the destructor of the awaiter finds the slot
  neither armed nor its awaiter claimed, and nothing in the code keeps the frame alive for the winner.
\<close>

inductive waker_step :: "waker \<Rightarrow> waker \<Rightarrow> bool" where
  wait_ready: "\<lbrakk>k_waiter s = Running; \<not> k_gone s; waker_ready (fresh_wait s) = (True, s')\<rbrakk>
    \<Longrightarrow> waker_step s (s'\<lparr>k_woken := k_woken s + 1\<rparr>)"
| wait_enters: "\<lbrakk>k_waiter s = Running; \<not> k_gone s; waker_ready (fresh_wait s) = (False, s')\<rbrakk>
    \<Longrightarrow> waker_step s (s'\<lparr>k_waiter := Entered\<rparr>)"
| suspend_stopped: "\<lbrakk>k_waiter s = Entered; k_stop s; waker_resume (s\<lparr>k_canceled := True\<rparr>) = (ec, s')\<rbrakk> \<Longrightarrow> waker_step s s'"
| suspend_checked: "\<lbrakk>k_waiter s = Entered; \<not> k_stop s\<rbrakk> \<Longrightarrow> waker_step s (s\<lparr>k_waiter := Checked\<rparr>)"
| suspend_registers: "k_waiter s = Checked \<Longrightarrow> waker_step s (register_callback s)"
| suspend_arms: "k_waiter s = Registered \<Longrightarrow> waker_step s (arm_slot s)"
| suspend_takes: "\<lbrakk>k_waiter s = Took_Token; callback_idle s\<rbrakk> \<Longrightarrow> waker_step s (take_token s)"
| suspend_settles: "\<lbrakk>k_waiter s = Publishing; k_stop s\<rbrakk> \<Longrightarrow> waker_step s (settle_stop s)"
| suspend_publishes: "\<lbrakk>k_waiter s = Publishing; \<not> k_stop s\<rbrakk> \<Longrightarrow> waker_step s (publish s)"
| resumes: "\<lbrakk>k_waiter s = Posted \<or> k_waiter s = Stop_Settled; k_active s \<longrightarrow> callback_idle s; waker_resume s = (ec, s')\<rbrakk>
    \<Longrightarrow> waker_step s s'"
| torn_down: "\<lbrakk>(k_waiter s = Suspended \<and> (\<forall>u. \<not> won (k_thread s u))) \<or> k_waiter s = Posted; k_active s \<longrightarrow> callback_idle s\<rbrakk>
    \<Longrightarrow> waker_step s (waker_awaiter_destroy s)"
| stop_request: "waker_step s (s\<lparr>k_stop := True\<rparr>)"
| callback_starts: "\<lbrakk>k_stop s; k_callback s = Callback_Set\<rbrakk> \<Longrightarrow> waker_step s (s\<lparr>k_callback := Callback_Runs\<rparr>)"
| callback_claims: "\<lbrakk>k_callback s = Callback_Runs; claim_armed s = (Some True, s')\<rbrakk> \<Longrightarrow> waker_step s (s'\<lparr>k_callback := Callback_Won\<rparr>)"
| callback_spins: "\<lbrakk>k_callback s = Callback_Runs; claim_armed s = (None, s')\<rbrakk> \<Longrightarrow> waker_step s s'"
| callback_loses: "\<lbrakk>k_callback s = Callback_Runs; claim_armed s = (Some False, s')\<rbrakk> \<Longrightarrow> waker_step s (s'\<lparr>k_callback := Callback_Done\<rparr>)"
| callback_posts: "k_callback s = Callback_Won \<Longrightarrow> waker_step s (cancel_won s)"
| wake_called: "\<lbrakk>k_thread s t = K_Idle; \<not> k_gone s\<rbrakk> \<Longrightarrow> waker_step s (goes t K_Wake s)"
| wake_tries: "\<lbrakk>k_thread s t = K_Wake; wake_round s = (q, s')\<rbrakk> \<Longrightarrow> waker_step s (goes t q s')"
| wake_posts: "\<lbrakk>k_thread s t = K_Won; callback_idle s\<rbrakk> \<Longrightarrow> waker_step s (goes t K_Idle (wake_won s))"
| dtor_called: "\<lbrakk>\<forall>u. k_thread s u = K_Idle; \<not> k_gone s; k_waiter s \<in> {Running, Publishing, Suspended, Posted}\<rbrakk>
    \<Longrightarrow> waker_step s (goes t K_Dtor (s\<lparr>k_gone := True\<rparr>))"
| dtor_tries: "\<lbrakk>k_thread s t = K_Dtor; dtor_round s = (q, s')\<rbrakk> \<Longrightarrow> waker_step s (goes t q s')"
| dtor_posts: "\<lbrakk>k_thread s t = K_Dtor_Won; k_active s \<longrightarrow> callback_idle s\<rbrakk> \<Longrightarrow> waker_step s (goes t K_Idle (dtor_won s))"

inductive waker_reach :: "waker \<Rightarrow> bool" where
  start: "waker_reach waker_init"
| step: "waker_reach s \<Longrightarrow> waker_step s s' \<Longrightarrow> waker_reach s'"

section \<open>The invariant\<close>

definition claimants :: "waker \<Rightarrow> bool" where
  "claimants s \<longleftrightarrow> k_callback s = Callback_Won \<or> (\<exists>t. won (k_thread s t))"

text \<open>How the slot, the place of the coroutine and the claims fit.\<close>

fun slot_rel :: "waiter_pc \<Rightarrow> slot \<Rightarrow> bool \<Rightarrow> bool" where
  "slot_rel Publishing sl c \<longleftrightarrow> sl = Arming \<and> \<not> c"
| "slot_rel Suspended sl c \<longleftrightarrow> sl \<noteq> Arming \<and> (sl = Armed \<longleftrightarrow> \<not> c)"
| "slot_rel Took_Token sl c \<longleftrightarrow> sl = Token \<and> \<not> c"
| "slot_rel _ sl c \<longleftrightarrow> (sl = Empty \<or> sl = Token) \<and> \<not> c"

definition slot_inv :: "waker \<Rightarrow> bool" where
  "slot_inv s \<longleftrightarrow> slot_rel (k_waiter s) (k_slot s) (claimants s)"

lemma rel_armed: "slot_rel w Armed c \<Longrightarrow> w = Suspended \<and> \<not> c"
  by (cases w) simp_all

lemma rel_claimed: "slot_rel w sl True \<Longrightarrow> w = Suspended \<and> (sl = Empty \<or> sl = Token)"
  by (cases w; cases sl) simp_all

lemma rel_latch: "slot_rel w Empty c \<Longrightarrow> slot_rel w Token c"
  by (cases w) simp_all

definition one_claimant :: "waker \<Rightarrow> bool" where
  "one_claimant s \<longleftrightarrow> (\<forall>t u. won (k_thread s t) \<longrightarrow> won (k_thread s u) \<longrightarrow> t = u)
     \<and> (k_callback s = Callback_Won \<longrightarrow> (\<forall>t. \<not> won (k_thread s t)))"

definition flags_inv :: "waker \<Rightarrow> bool" where
  "flags_inv s \<longleftrightarrow> (k_waiter s \<in> {Entered, Checked, Registered, Took_Token, Publishing, Suspended} \<longrightarrow> \<not> k_canceled s)
     \<and> (k_waiter s = Stop_Settled \<longrightarrow> k_canceled s)
     \<and> (k_callback s \<noteq> No_Callback \<longrightarrow> k_active s \<and> k_waiter s \<notin> {Running, Entered, Checked})"

text \<open>What \<^verbatim>\<open>~wait_awaiter\<close> reads: whether the awaiter was published and whether somebody claimed it.\<close>

definition own_inv :: "waker \<Rightarrow> bool" where
  "own_inv s \<longleftrightarrow> (k_waiter s \<in> {Entered, Checked, Registered, Publishing, Suspended} \<longrightarrow> \<not> k_claimed s)
     \<and> (k_waiter s \<in> {Registered, Publishing, Suspended} \<longrightarrow> k_published s) \<and> (k_waiter s = Posted \<longrightarrow> k_claimed s)"

lemma flags_active: "flags_inv s \<Longrightarrow> k_callback s \<noteq> No_Callback \<Longrightarrow> k_active s"
  by (simp add: flags_inv_def)

definition count_inv :: "waker \<Rightarrow> bool" where
  "count_inv s \<longleftrightarrow> k_latched s + k_wakes s =
     k_woken s + k_dropped s + (if k_slot s = Token then 1 else 0) + (if k_waiter s = Posted \<and> \<not> k_canceled s then 1 else 0)"

lemmas waker_defs = callback_idle_def drop_callback_def post_waiter_def cancel_won_def wake_won_def dtor_won_def
  fresh_wait_def register_callback_def arm_slot_def take_token_def settle_stop_def publish_def goes_def

lemma waker_ready_cases:
  "waker_ready s = (True, s') \<Longrightarrow> k_slot s = Token \<and> s' = s\<lparr>k_slot := Empty\<rparr>"
  "waker_ready s = (False, s') \<Longrightarrow> k_slot s \<noteq> Token \<and> s' = s"
  by (auto simp: waker_ready_def split: if_splits)

lemma claim_armed_cases:
  "claim_armed s = (Some True, s') \<Longrightarrow> k_slot s = Armed \<and> s' = s\<lparr>k_slot := Empty\<rparr>"
  "claim_armed s = (None, s') \<Longrightarrow> k_slot s = Arming \<and> s' = s"
  "claim_armed s = (Some False, s') \<Longrightarrow> k_slot s \<in> {Empty, Token} \<and> s' = s"
  by (auto simp: claim_armed_def split: slot.splits)

lemma wake_round_cases:
  assumes "wake_round s = (q, s')"
  obtains "k_slot s = Token" "q = K_Idle" "s' = s" | "k_slot s = Empty" "q = K_Idle" "s' = s\<lparr>k_slot := Token, k_latched := k_latched s + 1\<rparr>"
    | "k_slot s = Arming" "q = K_Wake" "s' = s" | "k_slot s = Armed" "q = K_Won" "s' = s\<lparr>k_slot := Empty\<rparr>"
  using assms by (auto simp: wake_round_def split: slot.splits)

lemma dtor_round_cases:
  assumes "dtor_round s = (q, s')"
  obtains "k_slot s \<in> {Empty, Token}" "q = K_Idle" "s' = s" | "k_slot s = Arming" "q = K_Dtor" "s' = s"
    | "k_slot s = Armed" "q = K_Dtor_Won" "s' = s\<lparr>k_slot := Empty\<rparr>"
  using assms by (auto simp: dtor_round_def claim_armed_def split: slot.splits)

lemma waker_resume_facts:
  assumes "waker_resume s = (ec, s')"
  shows "k_slot s' = k_slot s" "k_callback s' = (if k_active s then No_Callback else k_callback s)" "\<not> k_active s'" "k_waiter s' = Running"
    "k_thread s' = k_thread s" "k_latched s' = k_latched s" "k_wakes s' = k_wakes s"
    "k_woken s' = k_woken s + (if k_canceled s then 0 else 1)" "k_dropped s' = k_dropped s" "failed ec \<longleftrightarrow> k_canceled s"
  using assms by (auto simp: waker_resume_def drop_callback_def Let_def failed_def make_error_code_def success_def split: if_splits)

lemma torn_facts:
  "k_slot (waker_awaiter_destroy s) = (if k_published s \<and> \<not> k_claimed s \<and> k_slot s = Armed then Empty else k_slot s)"
  "k_waiter (waker_awaiter_destroy s) = Running" "k_thread (waker_awaiter_destroy s) = k_thread s"
  "k_callback (waker_awaiter_destroy s) = (if k_active s then No_Callback else k_callback s)"
  "k_latched (waker_awaiter_destroy s) = k_latched s" "k_wakes (waker_awaiter_destroy s) = k_wakes s"
  "k_woken (waker_awaiter_destroy s) = k_woken s" "k_gone (waker_awaiter_destroy s) = k_gone s"
  "k_dropped (waker_awaiter_destroy s) = k_dropped s + (if k_waiter s = Posted \<and> \<not> k_canceled s then 1 else 0)"
  by (simp_all add: waker_awaiter_destroy_def drop_callback_def Let_def)

text \<open>After a wait has ended the destructor of its awaiter does nothing.\<close>

lemma resumed_destroy: "waker_resume s = (ec, s') \<Longrightarrow> waker_awaiter_destroy s' = s'"
proof -
  assume r: "waker_resume s = (ec, s')"
  then have "\<not> k_published s'" by (cases "k_canceled s"; cases "k_active s"; simp add: waker_resume_def drop_callback_def Let_def; elim conjE; hypsubst; simp)
  moreover have "\<not> k_active s'" "k_waiter s' = Running" using waker_resume_facts [OF r] by simp_all
  ultimately show ?thesis by (simp add: waker_awaiter_destroy_def Let_def)
qed

lemma claimants_goes: "claimants (goes t q s) \<longleftrightarrow> k_callback s = Callback_Won \<or> won q \<or> (\<exists>u. u \<noteq> t \<and> won (k_thread s u))"
  by (auto simp: claimants_def goes_def)

lemma claimants_same:
  "k_thread s' = k_thread s \<Longrightarrow> (k_callback s' = Callback_Won \<longleftrightarrow> k_callback s = Callback_Won) \<Longrightarrow> claimants s' = claimants s"
  by (simp add: claimants_def)

lemma claimants_quiet: "claimants (goes t q s) = claimants s" if "\<not> won (k_thread s t)" "\<not> won q"
  using that by (auto simp: claimants_def goes_def)

text \<open>A step that leaves the claims as they are.\<close>

lemma one_claimant_same:
  "one_claimant s \<Longrightarrow> k_thread s' = k_thread s \<Longrightarrow> (k_callback s' = Callback_Won \<longleftrightarrow> k_callback s = Callback_Won) \<Longrightarrow> one_claimant s'"
  by (simp add: one_claimant_def)

definition core_inv :: "waker \<Rightarrow> bool" where
  "core_inv s \<longleftrightarrow> slot_inv s \<and> one_claimant s \<and> count_inv s"

lemma core_quiet:
  assumes "core_inv s" "k_thread s' = k_thread s" "k_callback s' = Callback_Won \<longleftrightarrow> k_callback s = Callback_Won"
    and "slot_rel (k_waiter s) (k_slot s) (claimants s) \<Longrightarrow> slot_rel (k_waiter s') (k_slot s') (claimants s)"
    and "count_inv s \<Longrightarrow> slot_rel (k_waiter s) (k_slot s) (claimants s) \<Longrightarrow> count_inv s'"
  shows "core_inv s'"
proof -
  have i: "slot_inv s" "one_claimant s" "count_inv s" using assms(1) by (simp_all add: core_inv_def)
  have c: "claimants s' = claimants s" by (rule claimants_same [OF assms(2,3)])
  show ?thesis using assms(4) i(1) assms(5) [OF i(3)] one_claimant_same [OF i(2) assms(2,3)]
    by (simp add: core_inv_def slot_inv_def c)
qed

lemma core_rel: "core_inv s \<Longrightarrow> slot_rel (k_waiter s) (k_slot s) (claimants s)"
  by (simp add: core_inv_def slot_inv_def)

lemma flags_step:
  assumes "waker_step s s'" "flags_inv s"
  shows "flags_inv s'"
  using assms
proof (induction rule: waker_step.induct)
  case (wake_tries s t q s')
  then show ?case by (elim wake_round_cases) (simp_all add: flags_inv_def goes_def)
next
  case (dtor_tries s t q s')
  then show ?case by (elim dtor_round_cases) (simp_all add: flags_inv_def goes_def)
next
  case (resumes s ec s')
  then show ?case using waker_resume_facts [OF resumes(3)] by (cases "k_active s") (auto simp: flags_inv_def)
next
  case (torn_down s)
  then show ?case by (cases "k_active s") (auto simp: flags_inv_def torn_facts)
next
  case (suspend_stopped s ec s')
  then show ?case using waker_resume_facts [OF suspend_stopped(3)] by (cases "k_active s") (auto simp: flags_inv_def)
next
  case (wait_ready s s')
  then show ?case using waker_ready_cases(1) [OF wait_ready(3)] by (simp add: flags_inv_def fresh_wait_def)
next
  case (wait_enters s s')
  then show ?case using waker_ready_cases(2) [OF wait_enters(3)] by (simp add: flags_inv_def fresh_wait_def)
next
  case (callback_claims s s')
  then show ?case using claim_armed_cases(1) [OF callback_claims(2)] by (simp add: flags_inv_def)
next
  case (callback_spins s s')
  then show ?case using claim_armed_cases(2) [OF callback_spins(2)] by simp
next
  case (callback_loses s s')
  then show ?case using claim_armed_cases(3) [OF callback_loses(2)] by (simp add: flags_inv_def)
next
  case (dtor_posts s t)
  then show ?case by (cases "k_active s") (auto simp: flags_inv_def waker_defs)
qed (simp_all add: flags_inv_def waker_defs)

lemma own_step:
  assumes "waker_step s s'" "own_inv s"
  shows "own_inv s'"
  using assms
proof (induction rule: waker_step.induct)
  case (wake_tries s t q s')
  then show ?case by (elim wake_round_cases) (simp_all add: own_inv_def goes_def)
next
  case (dtor_tries s t q s')
  then show ?case by (elim dtor_round_cases) (simp_all add: own_inv_def goes_def)
next
  case (resumes s ec s')
  then show ?case using waker_resume_facts(4) [OF resumes(3)] by (simp add: own_inv_def)
next
  case (suspend_stopped s ec s')
  then show ?case using waker_resume_facts(4) [OF suspend_stopped(3)] by (simp add: own_inv_def)
next
  case (wait_ready s s')
  then show ?case using waker_ready_cases(1) [OF wait_ready(3)] by (simp add: own_inv_def fresh_wait_def)
next
  case (wait_enters s s')
  then show ?case using waker_ready_cases(2) [OF wait_enters(3)] by (simp add: own_inv_def fresh_wait_def)
next
  case (callback_claims s s')
  then show ?case using claim_armed_cases(1) [OF callback_claims(2)] by (simp add: own_inv_def)
next
  case (callback_spins s s')
  then show ?case using claim_armed_cases(2) [OF callback_spins(2)] by simp
next
  case (callback_loses s s')
  then show ?case using claim_armed_cases(3) [OF callback_loses(2)] by (simp add: own_inv_def)
next
  case (dtor_posts s t)
  then show ?case by (cases "k_active s") (simp_all add: own_inv_def waker_defs)
qed (simp_all add: own_inv_def waker_defs torn_facts)

text \<open>A step of a thread in \<^verbatim>\<open>wake()\<close> or the destructor.\<close>

lemma core_thread:
  assumes "core_inv s" "\<not> won (k_thread s t)" "\<not> won q" "k_thread s' = k_thread s" "k_callback s' = k_callback s" "k_waiter s' = k_waiter s"
    and "k_slot s' = k_slot s \<or> (k_slot s = Empty \<and> k_slot s' = Token)" "count_inv s \<Longrightarrow> count_inv s'"
  shows "core_inv (goes t q s')"
proof -
  have c: "claimants (goes t q s') = claimants s"
    using claimants_quiet [of s' t q] claimants_same [of s' s] assms(2-5) by simp
  have "slot_inv (goes t q s')"
    using core_rel [OF assms(1)] assms(6,7) rel_latch by (auto simp: slot_inv_def c) (auto simp: goes_def)
  moreover have "one_claimant (goes t q s')" using assms(1-5) by (auto simp: core_inv_def one_claimant_def goes_def)
  moreover have "count_inv (goes t q s')" using assms(1,8) by (simp add: core_inv_def count_inv_def goes_def)
  ultimately show ?thesis by (simp add: core_inv_def)
qed

lemma core_thread_claims:
  assumes "core_inv s" "k_slot s = Armed" "won q"
  shows "core_inv (goes t q (s\<lparr>k_slot := Empty\<rparr>))"
proof -
  have w: "k_waiter s = Suspended" "\<not> claimants s" using rel_armed core_rel [OF assms(1)] assms(2) by metis+
  then have "claimants (goes t q (s\<lparr>k_slot := Empty\<rparr>))" "one_claimant (goes t q (s\<lparr>k_slot := Empty\<rparr>))"
    using assms(3) by (auto simp: claimants_def one_claimant_def goes_def)
  then show ?thesis using w assms by (simp add: core_inv_def slot_inv_def count_inv_def) (simp add: goes_def)
qed

lemma core_thread_posts:
  assumes "core_inv s" "won (k_thread s t)" "k_slot s' = k_slot s" "k_thread s' = k_thread s" "k_waiter s' = Posted" "k_callback s' \<noteq> Callback_Won"
    and "count_inv s \<Longrightarrow> k_waiter s = Suspended \<Longrightarrow> count_inv s'"
  shows "core_inv (goes t K_Idle s')"
proof -
  have "claimants s" using assms(2) by (auto simp: claimants_def)
  then have w: "k_waiter s = Suspended" "k_slot s = Empty \<or> k_slot s = Token" using rel_claimed core_rel [OF assms(1)] by (metis (full_types))+
  have "\<not> claimants (goes t K_Idle s')" "one_claimant (goes t K_Idle s')"
    using assms(1,2,4,6) by (auto simp: claimants_def one_claimant_def core_inv_def goes_def)
  then show ?thesis using w assms by (simp add: core_inv_def slot_inv_def count_inv_def) (auto simp: goes_def)
qed

lemma core_step:
  assumes "waker_step s s'" "core_inv s" "flags_inv s" "own_inv s"
  shows "core_inv s'"
  using assms
proof (induction rule: waker_step.induct)
  case (wait_ready s s')
  then show ?case using waker_ready_cases(1) [OF wait_ready(3)] core_rel [OF wait_ready(4)]
    by (intro core_quiet [OF wait_ready(4)]) (simp_all add: fresh_wait_def count_inv_def)
next
  case (wait_enters s s')
  then show ?case using waker_ready_cases(2) [OF wait_enters(3)] core_rel [OF wait_enters(4)]
    by (intro core_quiet [OF wait_enters(4)]) (simp_all add: fresh_wait_def count_inv_def)
next
  case (suspend_stopped s ec s')
  then show ?case using waker_resume_facts [OF suspend_stopped(3)] core_rel [OF suspend_stopped(4)]
    by (intro core_quiet [OF suspend_stopped(4)]) (simp_all add: count_inv_def claimants_def)
next
  case (resumes s ec s')
  note f = waker_resume_facts [OF resumes(3)]
  have "count_inv s'" if "count_inv s"
    using that f resumes(1,5) by (cases "k_waiter s = Posted") (simp_all add: count_inv_def flags_inv_def)
  then show ?case using f resumes core_rel [OF resumes(4)]
    by (intro core_quiet [OF resumes(4)]) (auto simp: claimants_def)
next
  case (torn_down s)
  have cb: "k_callback s \<noteq> Callback_Won" using torn_down(2) flags_active [OF torn_down(4)] by (auto simp: callback_idle_def)
  have r: "slot_rel (k_waiter s) (k_slot s) (claimants s)" by (rule core_rel [OF torn_down(3)])
  have "slot_rel Running (k_slot (waker_awaiter_destroy s)) (claimants s)"
  proof (cases "k_waiter s = Posted")
    case True
    then show ?thesis using r by (simp add: torn_facts)
  next
    case False
    then have "k_waiter s = Suspended" "\<not> claimants s" "k_published s" "\<not> k_claimed s"
      using torn_down(1,5) cb by (simp_all add: claimants_def own_inv_def)
    then show ?thesis using r by (simp add: torn_facts)
  qed
  then show ?case using r cb by (intro core_quiet [OF torn_down(3)]) (simp_all add: torn_facts count_inv_def)
next
  case (suspend_arms s)
  then show ?case using core_rel [OF suspend_arms(2)]
    by (intro core_quiet [OF suspend_arms(2)]) (auto simp: arm_slot_def count_inv_def)
next
  case (callback_spins s s')
  then show ?case using claim_armed_cases(2) [OF callback_spins(2)] by simp
next
  case (callback_loses s s')
  then show ?case using claim_armed_cases(3) [OF callback_loses(2)]
    by (intro core_quiet [OF callback_loses(3)]) (simp_all add: count_inv_def)
next
  case (callback_claims s s')
  have s': "k_slot s = Armed" "s' = s\<lparr>k_slot := Empty\<rparr>" using claim_armed_cases(1) [OF callback_claims(2)] by simp_all
  then have w: "k_waiter s = Suspended" "\<not> claimants s" using rel_armed core_rel [OF callback_claims(3)] by metis+
  then show ?case using callback_claims(3) s'
    by (auto simp: core_inv_def slot_inv_def one_claimant_def count_inv_def claimants_def)
next
  case (callback_posts s)
  have "claimants s" using callback_posts(1) by (simp add: claimants_def)
  then have w: "k_waiter s = Suspended" "k_slot s = Empty \<or> k_slot s = Token" using rel_claimed core_rel [OF callback_posts(2)] by (metis (full_types))+
  then show ?case using callback_posts(1,2)
    by (auto simp: core_inv_def slot_inv_def one_claimant_def count_inv_def claimants_def cancel_won_def post_waiter_def)
next
  case (wake_called s t)
  show ?case by (rule core_thread [OF wake_called(3)]) (use wake_called(1) in simp_all)
next
  case (wake_tries s t q s')
  show ?case using wake_tries(2)
  proof (cases rule: wake_round_cases)
    case 4
    then show ?thesis using core_thread_claims [OF wake_tries(3)] by simp
  qed (rule core_thread [OF wake_tries(3)]; use wake_tries(1) in \<open>simp add: count_inv_def\<close>)+
next
  case (wake_posts s t)
  show ?case by (rule core_thread_posts [OF wake_posts(3)]) (use wake_posts(1,4) in \<open>auto simp: wake_won_def post_waiter_def drop_callback_def count_inv_def flags_inv_def\<close>)
next
  case (dtor_called s t)
  show ?case by (rule core_thread [OF dtor_called(4)]) (use dtor_called(1) in \<open>simp_all add: count_inv_def\<close>)
next
  case (dtor_tries s t q s')
  show ?case using dtor_tries(2)
  proof (cases rule: dtor_round_cases)
    case 3
    then show ?thesis using core_thread_claims [OF dtor_tries(3)] by simp
  qed (rule core_thread [OF dtor_tries(3)]; use dtor_tries(1) in simp)+
next
  case (dtor_posts s t)
  show ?case by (rule core_thread_posts [OF dtor_posts(3)])
    (use dtor_posts(1,2,4) in \<open>auto simp: dtor_won_def post_waiter_def drop_callback_def callback_idle_def count_inv_def flags_inv_def\<close>)
qed (rule core_quiet, assumption; auto simp: count_inv_def waker_defs flags_inv_def; fail)+

text \<open>A waker that is being destroyed: no \<^verbatim>\<open>wake()\<close> runs, and the destructor stays while the slot is armed or about to be.\<close>

definition gone_inv :: "waker \<Rightarrow> bool" where
  "gone_inv s \<longleftrightarrow> (k_gone s \<longrightarrow> k_waiter s \<notin> {Entered, Checked, Registered, Took_Token} \<and> (\<forall>t. k_thread s t \<notin> {K_Wake, K_Won})
     \<and> (k_slot s \<in> {Arming, Armed} \<longrightarrow> (\<exists>t. k_thread s t = K_Dtor)))"

lemma gone_inv_step:
  assumes "waker_step s s'" "core_inv s" "gone_inv s"
  shows "gone_inv s'"
  using assms
proof (induction rule: waker_step.induct)
  case (wake_tries s t q s')
  then show ?case by (elim wake_round_cases) (auto simp: gone_inv_def goes_def)
next
  case (dtor_tries s t q s')
  then show ?case by (elim dtor_round_cases) (auto simp: gone_inv_def goes_def)
next
  case (dtor_posts s t)
  then have "k_slot s \<notin> {Arming, Armed}"
  proof -
    have "claimants s" using dtor_posts(1) by (auto simp: claimants_def intro!: exI [of _ t])
    then have "slot_rel (k_waiter s) (k_slot s) True" using core_rel [OF dtor_posts(3)] by simp
    then show ?thesis using rel_claimed by fastforce
  qed
  with dtor_posts show ?case by (auto simp: gone_inv_def waker_defs)
next
  case (resumes s ec s')
  have "k_gone s' = k_gone s" using resumes(3) by (auto simp: waker_resume_def drop_callback_def Let_def split: if_splits)
  then show ?case using resumes waker_resume_facts [OF resumes(3)] by (simp add: gone_inv_def)
next
  case (suspend_stopped s ec s')
  have "k_gone s' = k_gone s" using suspend_stopped(3) by (auto simp: waker_resume_def drop_callback_def Let_def split: if_splits)
  then show ?case using suspend_stopped waker_resume_facts [OF suspend_stopped(3)] by (simp add: gone_inv_def)
next
  case (suspend_publishes s)
  then show ?case using core_rel [of s] by (simp add: gone_inv_def publish_def)
next
  case (dtor_called s t)
  then show ?case by (auto simp: gone_inv_def goes_def)
qed (auto simp: gone_inv_def waker_defs torn_facts dest: waker_ready_cases claim_armed_cases)

lemma waker_reach_gone: "waker_reach s \<Longrightarrow> core_inv s \<and> flags_inv s \<and> own_inv s \<and> gone_inv s"
proof (induction rule: waker_reach.induct)
  case start
  show ?case by (simp add: core_inv_def slot_inv_def one_claimant_def count_inv_def claimants_def flags_inv_def own_inv_def gone_inv_def waker_init_def)
qed (auto intro: core_step flags_step own_step gone_inv_step)

lemma waker_reach_inv: "waker_reach s \<Longrightarrow> core_inv s \<and> flags_inv s"
  using waker_reach_gone by blast

section \<open>What the waker promises\<close>

text \<open>A run: a wait is suspended, a stop request starts the callback, two threads call \<^verbatim>\<open>wake()\<close> and the first claims the waiter.\<close>

definition demo_suspended :: waker where
  "demo_suspended = publish (arm_slot (register_callback (waker_init\<lparr>k_waiter := Checked\<rparr>)))"

definition demo_claimed :: waker where
  "demo_claimed = goes 0 K_Won (snd (wake_round (goes 1 K_Wake (goes 0 K_Wake (demo_suspended\<lparr>k_stop := True, k_callback := Callback_Runs\<rparr>)))))"

lemmas demo_waker_defs = demo_claimed_def demo_suspended_def waker_init_def waker_defs wake_round_def

lemma demo_checked_reach: "waker_reach (waker_init\<lparr>k_waiter := Checked\<rparr>)"
proof -
  have "waker_step waker_init ((fresh_wait waker_init)\<lparr>k_waiter := Entered\<rparr>)"
    by (rule waker_step.wait_enters) (simp_all add: waker_init_def waker_ready_def fresh_wait_def)
  then have "waker_reach ((fresh_wait waker_init)\<lparr>k_waiter := Entered\<rparr>)" by (rule waker_reach.step [OF waker_reach.start])
  from waker_reach.step [OF this waker_step.suspend_checked] show ?thesis by (simp add: waker_init_def fresh_wait_def)
qed

lemma demo_publishing_reach: "waker_reach (arm_slot (register_callback (waker_init\<lparr>k_waiter := Checked\<rparr>)))"
proof -
  have "waker_reach (register_callback (waker_init\<lparr>k_waiter := Checked\<rparr>))"
    by (rule waker_reach.step [OF demo_checked_reach waker_step.suspend_registers]) simp
  then show ?thesis by (rule waker_reach.step [OF _ waker_step.suspend_arms]) (simp add: register_callback_def)
qed

lemma demo_suspended_reach: "waker_reach demo_suspended"
  unfolding demo_suspended_def
  by (rule waker_reach.step [OF demo_publishing_reach waker_step.suspend_publishes]) (simp_all add: waker_defs waker_init_def)

lemma demo_claimed_reach: "waker_reach demo_claimed"
proof -
  let ?s1 = "demo_suspended\<lparr>k_stop := True\<rparr>" and ?s2 = "demo_suspended\<lparr>k_stop := True, k_callback := Callback_Runs\<rparr>"
  have "waker_reach ?s1" by (rule waker_reach.step [OF demo_suspended_reach waker_step.stop_request])
  from waker_reach.step [OF this waker_step.callback_starts] have "waker_reach ?s2" by (simp add: demo_waker_defs)
  from waker_reach.step [OF this waker_step.wake_called] have "waker_reach (goes 0 K_Wake ?s2)" by (simp add: demo_waker_defs)
  from waker_reach.step [OF this waker_step.wake_called [of _ 1]] have "waker_reach (goes 1 K_Wake (goes 0 K_Wake ?s2))"
    by (simp add: demo_waker_defs)
  from waker_reach.step [OF this waker_step.wake_tries [of _ 0 K_Won]] show ?thesis by (simp add: demo_waker_defs)
qed

lemma demo_claimed_state:
  "k_thread demo_claimed 0 = K_Won" "k_thread demo_claimed 1 = K_Wake" "k_callback demo_claimed = Callback_Runs" "k_slot demo_claimed = Empty"
  "k_waiter demo_claimed = Suspended"
  by (simp_all add: demo_waker_defs)

text \<open>
  C12. Whoever wins the slot owns the waiter: in every reachable state at most one of the stop callback, the threads in \<^verbatim>\<open>wake()\<close> and the
  destructor has claimed the waiter and not posted it yet, and meanwhile the coroutine is suspended and nobody else can claim it. A
  winner that waits for the running stop callback waits only until the callback has looked at the slot once more, which gives it up.
  Only a suspended coroutine can be claimed at all, also when frames of waiting coroutines are destroyed, which may happen at any moment but between a claim and its post,
  where the header takes them to be pinned: the destructor of an awaiter that nobody has claimed finds the slot armed, empties it, and the waker it does this to has not been destroyed yet. A thread, the
  destructor or the callback goes round only while the coroutine is about to publish itself, and \<^verbatim>\<open>await_suspend\<close> that finds the
  slot occupied finds a token there.
\<close>

theorem waker_single_winner:
  assumes "waker_reach s"
  shows "(won (k_thread s t) \<longrightarrow> (\<forall>u. won (k_thread s u) \<longleftrightarrow> u = t) \<and> k_callback s \<noteq> Callback_Won \<and> k_waiter s = Suspended \<and> k_slot s \<noteq> Armed
      \<and> (k_callback s = Callback_Runs \<longrightarrow> fst (claim_armed s) = Some False)
      \<and> (\<forall>u. k_thread s u = K_Wake \<longrightarrow> fst (wake_round s) = K_Idle))
    \<and> (k_callback s = Callback_Won \<longrightarrow> (\<forall>u. \<not> won (k_thread s u)) \<and> k_waiter s = Suspended \<and> k_slot s \<noteq> Armed)
    \<and> (k_slot s = Armed \<longrightarrow> k_waiter s = Suspended \<and> \<not> claimants s)
    \<and> (k_waiter s \<in> {Suspended, Posted} \<and> \<not> claimants s \<and> k_published s \<and> \<not> k_claimed s
         \<longrightarrow> k_slot s = Armed \<and> k_slot (waker_awaiter_destroy s) = Empty \<and> (k_gone s \<longrightarrow> (\<exists>u. k_thread s u = K_Dtor)))
    \<and> ((\<exists>u. k_thread s u = K_Wake \<and> fst (wake_round s) = K_Wake) \<or> (\<exists>u. k_thread s u = K_Dtor \<and> fst (dtor_round s) = K_Dtor)
         \<or> (k_callback s = Callback_Runs \<and> fst (claim_armed s) = None) \<longrightarrow> k_waiter s = Publishing)
    \<and> (k_waiter s = Registered \<and> k_slot s \<noteq> Empty \<longrightarrow> k_slot s = Token)"
proof -
  have i: "core_inv s" "own_inv s" "gone_inv s" using waker_reach_gone [OF assms] by simp_all
  note r = core_rel [OF i(1)]
  have cl: "k_waiter s = Suspended \<and> (k_slot s = Empty \<or> k_slot s = Token)" if "claimants s" using rel_claimed r that by (metis (full_types))
  have round: "k_waiter s = Publishing" if "k_slot s = Arming" using r that by (cases "k_waiter s") simp_all
  have lose: "fst (claim_armed s) = Some False" "fst (wake_round s) = K_Idle" "k_waiter s = Suspended" "k_slot s \<noteq> Armed" if "claimants s"
    using cl [OF that] by (auto simp: claim_armed_def wake_round_def)
  have A: "won (k_thread s t) \<longrightarrow> (\<forall>u. won (k_thread s u) \<longleftrightarrow> u = t) \<and> k_callback s \<noteq> Callback_Won \<and> k_waiter s = Suspended \<and> k_slot s \<noteq> Armed
      \<and> (k_callback s = Callback_Runs \<longrightarrow> fst (claim_armed s) = Some False)
      \<and> (\<forall>u. k_thread s u = K_Wake \<longrightarrow> fst (wake_round s) = K_Idle)"
  proof
    assume t: "won (k_thread s t)"
    then have "claimants s" by (auto simp: claimants_def)
    moreover have "(\<forall>u. won (k_thread s u) \<longleftrightarrow> u = t) \<and> k_callback s \<noteq> Callback_Won" using i(1) t by (auto simp: core_inv_def one_claimant_def)
    ultimately show "(\<forall>u. won (k_thread s u) \<longleftrightarrow> u = t) \<and> k_callback s \<noteq> Callback_Won \<and> k_waiter s = Suspended \<and> k_slot s \<noteq> Armed
      \<and> (k_callback s = Callback_Runs \<longrightarrow> fst (claim_armed s) = Some False)
      \<and> (\<forall>u. k_thread s u = K_Wake \<longrightarrow> fst (wake_round s) = K_Idle)" using lose by simp
  qed
  have B: "k_callback s = Callback_Won \<longrightarrow> (\<forall>u. \<not> won (k_thread s u)) \<and> k_waiter s = Suspended \<and> k_slot s \<noteq> Armed"
    using i(1) lose(3,4) by (simp add: core_inv_def one_claimant_def claimants_def)
  have C: "k_slot s = Armed \<longrightarrow> k_waiter s = Suspended \<and> \<not> claimants s" using rel_armed r by metis
  have "k_slot s = Armed" if "k_waiter s \<in> {Suspended, Posted}" "\<not> claimants s" "\<not> k_claimed s"
    using r i(2) that by (auto simp: own_inv_def)
  moreover have "k_gone s \<longrightarrow> (\<exists>u. k_thread s u = K_Dtor)" if "k_slot s = Armed" using i(3) that by (simp add: gone_inv_def)
  ultimately have D: "k_waiter s \<in> {Suspended, Posted} \<and> \<not> claimants s \<and> k_published s \<and> \<not> k_claimed s
      \<longrightarrow> k_slot s = Armed \<and> k_slot (waker_awaiter_destroy s) = Empty \<and> (k_gone s \<longrightarrow> (\<exists>u. k_thread s u = K_Dtor))"
    by (simp add: torn_facts)
  have "fst (wake_round s) = K_Wake \<Longrightarrow> k_slot s = Arming" "fst (dtor_round s) = K_Dtor \<Longrightarrow> k_slot s = Arming"
    "fst (claim_armed s) = None \<Longrightarrow> k_slot s = Arming"
    by (simp_all add: claim_armed_def wake_round_def dtor_round_def split: slot.splits)
  then have E: "(\<exists>u. k_thread s u = K_Wake \<and> fst (wake_round s) = K_Wake) \<or> (\<exists>u. k_thread s u = K_Dtor \<and> fst (dtor_round s) = K_Dtor)
      \<or> (k_callback s = Callback_Runs \<and> fst (claim_armed s) = None) \<longrightarrow> k_waiter s = Publishing"
    using round by metis
  have F: "k_waiter s = Registered \<and> k_slot s \<noteq> Empty \<longrightarrow> k_slot s = Token" using r by auto
  show ?thesis by (intro conjI A B C D E F)
qed

theorem waker_single_winner_witness:
  "{u. won (k_thread demo_claimed u)} = {0} \<and> fst (claim_armed demo_claimed) = Some False \<and> fst (wake_round demo_claimed) = K_Idle
   \<and> k_slot (waker_awaiter_destroy demo_suspended) = Empty"
proof -
  have "won (k_thread demo_claimed 0)" by (simp add: demo_claimed_state)
  with waker_single_winner [OF demo_claimed_reach, of 0] have f: "\<forall>u. won (k_thread demo_claimed u) \<longleftrightarrow> u = 0"
    "k_callback demo_claimed = Callback_Runs \<longrightarrow> fst (claim_armed demo_claimed) = Some False"
    "\<forall>u. k_thread demo_claimed u = K_Wake \<longrightarrow> fst (wake_round demo_claimed) = K_Idle" by blast+
  from f(1) have "{u. won (k_thread demo_claimed u)} = {0}" by blast
  moreover have "k_waiter demo_suspended = Suspended \<and> \<not> claimants demo_suspended \<and> k_published demo_suspended \<and> \<not> k_claimed demo_suspended"
    by (simp add: demo_waker_defs claimants_def)
  then have "k_slot (waker_awaiter_destroy demo_suspended) = Empty" using waker_single_winner [OF demo_suspended_reach] by blast
  ultimately show ?thesis using f(2,3) demo_claimed_state(2,3) by blast
qed

text \<open>
  No wakeup is lost and none is counted twice: at any time the tokens latched and the waiters claimed by \<^verbatim>\<open>wake()\<close> so far are
  exactly the waits that have succeeded, those whose frame was destroyed before it resumed, the token in the slot if there is one, and the waiter that is posted to resume with
  success if there is one; and while a coroutine is about to consume a token in \<^verbatim>\<open>await_suspend\<close> that token is in the slot.
\<close>

theorem waker_counts_wakeups:
  assumes "waker_reach s"
  shows "k_latched s + k_wakes s = k_woken s + k_dropped s + (if k_slot s = Token then 1 else 0) + (if k_waiter s = Posted \<and> \<not> k_canceled s then 1 else 0)
    \<and> (k_waiter s = Took_Token \<longrightarrow> k_slot s = Token) \<and> (k_waiter s = Registered \<longrightarrow> k_slot s = Empty \<or> k_slot s = Token)
    \<and> (k_waiter s = Suspended \<longrightarrow> k_slot s = Armed \<or> claimants s) \<and> (k_waiter s = Running \<longrightarrow> k_callback s = No_Callback)"
proof -
  have i: "core_inv s" "flags_inv s" using waker_reach_inv [OF assms] by simp_all
  note r = core_rel [OF i(1)]
  have "k_waiter s = Took_Token \<longrightarrow> k_slot s = Token" "k_waiter s = Registered \<longrightarrow> k_slot s = Empty \<or> k_slot s = Token"
    "k_waiter s = Suspended \<longrightarrow> k_slot s = Armed \<or> claimants s" using r by auto
  moreover have "k_waiter s = Running \<longrightarrow> k_callback s = No_Callback" using i(2) by (auto simp: flags_inv_def)
  ultimately show ?thesis using i(1) by (auto simp: core_inv_def count_inv_def)
qed

theorem waker_counts_wakeups_witness:
  "k_latched demo_claimed + k_wakes demo_claimed = k_woken demo_claimed + k_dropped demo_claimed \<and> claimants demo_claimed"
  using waker_counts_wakeups [OF demo_claimed_reach] demo_claimed_state by simp

text \<open>
  C13. The destructor does not wait out the stop callback of a waiter that settles a stop request itself. There is a reachable state
  in which the destructor has returned, no \<^verbatim>\<open>wake()\<close> having been called, and the callback is still running and about to look at
  the slot of the destroyed waker.
\<close>

theorem callback_outlives_waker:
  "\<exists>s. waker_reach s \<and> k_gone s \<and> (\<forall>t. k_thread s t = K_Idle) \<and> k_callback s = Callback_Runs \<and> k_latched s + k_wakes s = 0"
proof -
  let ?s0 = "arm_slot (register_callback (waker_init\<lparr>k_waiter := Checked\<rparr>))"
  let ?s1 = "?s0\<lparr>k_stop := True\<rparr>" and ?s2 = "?s0\<lparr>k_stop := True, k_callback := Callback_Runs\<rparr>"
  let ?s3 = "goes 0 K_Dtor (?s2\<lparr>k_gone := True\<rparr>)"
  have "waker_reach ?s1" by (rule waker_reach.step [OF demo_publishing_reach waker_step.stop_request])
  from waker_reach.step [OF this waker_step.callback_starts] have "waker_reach ?s2" by (simp add: demo_waker_defs)
  from waker_reach.step [OF this waker_step.dtor_called [of _ 0]] have "waker_reach ?s3" by (simp add: demo_waker_defs)
  from waker_reach.step [OF this waker_step.suspend_settles] have s4: "waker_reach (settle_stop ?s3)" by (simp add: demo_waker_defs)
  have "waker_reach (goes 0 K_Idle (settle_stop ?s3))"
    by (rule waker_reach.step [OF s4 waker_step.dtor_tries]) (simp_all add: demo_waker_defs dtor_round_def claim_armed_def)
  then show ?thesis by (intro exI [of _ "goes 0 K_Idle (settle_stop ?s3)"]) (simp add: demo_waker_defs)
qed

end
