(* ===== verification/Work_Guard.thy ===== *)
theory Work_Guard
  imports Thread_Pool
begin

text \<open>
  The work guard \<^verbatim>\<open>ex/work_guard.hpp\<close>: as long as a guard owns work, the executor counts a piece of outstanding work. The locale
  \<open>work_counter\<close> is what a guard needs of its executor; it is interpreted on the thread pool, whose \<^verbatim>\<open>join()\<close> waits for the count.
\<close>

record work_guard =
  wg_owns :: bool

section \<open>The operations of a guard\<close>

definition wg_make :: "('s \<Rightarrow> 's) \<Rightarrow> 's \<Rightarrow> work_guard \<times> 's" where
  "wg_make on_started ex = (\<lparr>wg_owns = True\<rparr>, on_started ex)"

definition wg_copy :: "('s \<Rightarrow> 's) \<Rightarrow> work_guard \<Rightarrow> 's \<Rightarrow> work_guard \<times> 's" where
  "wg_copy on_started other ex = (\<lparr>wg_owns = wg_owns other\<rparr>, if wg_owns other then on_started ex else ex)"

text \<open>The new guard and what is left of the other.\<close>

definition wg_move :: "work_guard \<Rightarrow> work_guard \<times> work_guard" where
  "wg_move other = (\<lparr>wg_owns = wg_owns other\<rparr>, other\<lparr>wg_owns := False\<rparr>)"

definition wg_destroy :: "('s \<Rightarrow> 's) \<Rightarrow> work_guard \<Rightarrow> 's \<Rightarrow> 's" where
  "wg_destroy on_finished g ex = (if wg_owns g then on_finished ex else ex)"

definition wg_reset :: "('s \<Rightarrow> 's) \<Rightarrow> work_guard \<Rightarrow> 's \<Rightarrow> work_guard \<times> 's" where
  "wg_reset on_finished g ex = (if wg_owns g then (g\<lparr>wg_owns := False\<rparr>, on_finished ex) else (g, ex))"

definition wg_owns_work :: "work_guard \<Rightarrow> bool" where
  "wg_owns_work g = wg_owns g"

section \<open>Runs\<close>

text \<open>The living guards of one executor as a list; an index out of range names no guard.\<close>

datatype guard_cmd = Make | Copy nat | Move nat | Reset nat | Destroy nat

fun guard_run :: "('s \<Rightarrow> 's) \<Rightarrow> ('s \<Rightarrow> 's) \<Rightarrow> guard_cmd list \<Rightarrow> work_guard list \<times> 's \<Rightarrow> work_guard list \<times> 's" where
  "guard_run st fin [] (gs, ex) = (gs, ex)"
| "guard_run st fin (Make # cs) (gs, ex) = (let (g, ex) = wg_make st ex in guard_run st fin cs (gs @ [g], ex))"
| "guard_run st fin (Copy i # cs) (gs, ex) =
     (if i < length gs then let (g, ex) = wg_copy st (gs ! i) ex in guard_run st fin cs (gs @ [g], ex) else guard_run st fin cs (gs, ex))"
| "guard_run st fin (Move i # cs) (gs, ex) =
     (if i < length gs then let (g, old) = wg_move (gs ! i) in guard_run st fin cs (gs[i := old] @ [g], ex) else guard_run st fin cs (gs, ex))"
| "guard_run st fin (Reset i # cs) (gs, ex) =
     (if i < length gs then let (g, ex) = wg_reset fin (gs ! i) ex in guard_run st fin cs (gs[i := g], ex) else guard_run st fin cs (gs, ex))"
| "guard_run st fin (Destroy i # cs) (gs, ex) =
     (if i < length gs then guard_run st fin cs (take i gs @ drop (Suc i) gs, wg_destroy fin (gs ! i) ex) else guard_run st fin cs (gs, ex))"

definition owning :: "work_guard list \<Rightarrow> nat" where
  "owning gs = length (filter wg_owns_work gs)"

lemma owning_append [simp]: "owning (gs @ hs) = owning gs + owning hs"
  by (simp add: owning_def)

lemma owning_simps [simp]: "owning (g # gs) = (if wg_owns g then 1 else 0) + owning gs" "owning [] = 0"
  by (simp_all add: owning_def wg_owns_work_def)

lemma owning_split: "i < length gs \<Longrightarrow> owning gs = owning (take i gs) + (if wg_owns (gs ! i) then 1 else 0) + owning (drop (Suc i) gs)"
  using arg_cong [OF id_take_nth_drop [of i gs], of owning] by simp

lemma owning_update: "i < length gs \<Longrightarrow> owning (gs[i := g]) = owning (take i gs) + (if wg_owns g then 1 else 0) + owning (drop (Suc i) gs)"
  by (simp add: upd_conv_take_nth_drop)

section \<open>The interface of the executor\<close>

locale work_counter =
  fixes on_started on_finished :: "'s \<Rightarrow> 's"
    and outstanding :: "'s \<Rightarrow> nat"
    and stopped :: "'s \<Rightarrow> bool"
  assumes started: "outstanding (on_started s) = outstanding s + 1"
    and finished: "0 < outstanding s \<Longrightarrow> outstanding (on_finished s) = outstanding s - 1"
    and started_keeps: "stopped (on_started s) = stopped s"
    and finished_keeps: "1 < outstanding s \<Longrightarrow> stopped (on_finished s) = stopped s"
begin

lemma guard_balance:
  assumes "guard_run on_started on_finished cs (gs, ex) = (gs', ex')" "outstanding ex = n + owning gs"
  shows "outstanding ex' = n + owning gs' \<and> (0 < n \<longrightarrow> stopped ex' = stopped ex)"
  using assms
proof (induction cs arbitrary: gs ex)
  case (Cons c cs)
  show ?case
  proof (cases c)
    case Make
    then show ?thesis using Cons.IH [of "gs @ [\<lparr>wg_owns = True\<rparr>]" "on_started ex"] Cons.prems
      by (simp add: wg_make_def started started_keeps)
  next
    case (Copy i)
    then show ?thesis
      using Cons.IH [of gs ex] Cons.IH [of "gs @ [\<lparr>wg_owns = wg_owns (gs ! i)\<rparr>]" "if wg_owns (gs ! i) then on_started ex else ex"] Cons.prems
      by (simp add: wg_copy_def started started_keeps split: if_splits)
  next
    case (Move i)
    then show ?thesis
      using Cons.IH [of gs ex] Cons.IH [of "gs[i := (gs ! i)\<lparr>wg_owns := False\<rparr>] @ [\<lparr>wg_owns = wg_owns (gs ! i)\<rparr>]" ex] Cons.prems
        owning_split [of i gs] owning_update [of i gs]
      by (simp add: wg_move_def split: if_splits)
  next
    case (Reset i)
    then show ?thesis
      using Cons.IH [of gs ex] Cons.IH [of "gs[i := (gs ! i)\<lparr>wg_owns := False\<rparr>]" "on_finished ex"] Cons.prems
        owning_split [of i gs] owning_update [of i gs] finished [of ex] finished_keeps [of ex]
      by (simp add: wg_reset_def split: if_splits)
  next
    case (Destroy i)
    then show ?thesis
      using Cons.IH [of gs ex] Cons.IH [of "take i gs @ drop (Suc i) gs" "wg_destroy on_finished (gs ! i) ex"] Cons.prems
        owning_split [of i gs] finished [of ex] finished_keeps [of ex]
      by (simp add: wg_destroy_def split: if_splits)
  qed
qed simp

end

section \<open>Guards of a thread pool\<close>

text \<open>The whole of \<^verbatim>\<open>on_work_finished\<close>, when no other thread comes between its steps.\<close>

definition pool_work_finished :: "pool \<Rightarrow> pool" where
  "pool_work_finished p =
     (if 1 < p_outstanding p then p\<lparr>p_outstanding := p_outstanding p - 1\<rparr>
      else finish_recheck (p\<lparr>p_outstanding := p_outstanding p - 1\<rparr>))"

interpretation pool_work: work_counter on_work_started pool_work_finished p_outstanding p_stop
  by unfold_locales (auto simp: on_work_started_def pool_work_finished_def finish_recheck_def notify_all_def done_notify_all_def)

text \<open>
  Guards keep the count of outstanding work balanced: after any run of making, copying, moving, resetting and destroying
  guards of a thread pool, moved-from and reset guards included, the pool's outstanding work has grown by exactly the number of living
  guards that own work; and while there is other outstanding work, none of these operations stops the pool.
\<close>

theorem guards_balance_work:
  assumes "guard_run on_work_started pool_work_finished cs ([], p) = (gs, p')"
  shows "p_outstanding p' = p_outstanding p + length (filter wg_owns_work gs) \<and> (0 < p_outstanding p \<longrightarrow> p_stop p' = p_stop p)"
  using pool_work.guard_balance [OF assms, of "p_outstanding p"] by (simp add: owning_def)

theorem guards_balance_work_witness:
  "p_outstanding (snd (guard_run on_work_started pool_work_finished [Make, Move 0, Copy 1, Reset 1, Destroy 0] ([], pool_init 2 8)))
     = p_outstanding (pool_init 2 8) + 1"
proof -
  let ?r = "guard_run on_work_started pool_work_finished [Make, Move 0, Copy 1, Reset 1, Destroy 0] ([], pool_init 2 8)"
  have "length (filter wg_owns_work (fst ?r)) = 1"
    by (simp add: wg_make_def wg_move_def wg_copy_def wg_reset_def wg_destroy_def wg_owns_work_def)
  then show ?thesis using guards_balance_work [of "[Make, Move 0, Copy 1, Reset 1, Destroy 0]" "pool_init 2 8" "fst ?r" "snd ?r"] by simp
qed

end
