(* ===== verification/When_Join.thy ===== *)
theory When_Join
  imports Errors
begin

text \<open>
  The join that \<^verbatim>\<open>when_all\<close> and \<^verbatim>\<open>when_any\<close> share (\<^verbatim>\<open>when_all_core\<close> and \<^verbatim>\<open>when_any_core\<close>, and the final awaiter and the destructor of
  the promise of a runner): the count of branches that have not finished, the stop request to the branches, and what becomes of
  the parent. \<open>jc_branch\<close>, \<open>jc_parent\<close> and \<open>jc_log\<close> are ghosts: where each branch is, what was done with
  the parent, and how the branches ended. The operations
  act on every extension of the core, the states of \<open>When_All\<close> and \<open>When_Any\<close>.
\<close>

datatype branch_pc = B_Running | B_Ended | B_Done

datatype parent_event = Parent_Resumed | Parent_Abandoned

text \<open>How a branch ends: with a result, an exception (its own, or one thrown by moving its result), or resumed only to unwind because its segment was abandoned.\<close>

datatype 'v outcome = Returned error_code 'v | Threw cpp_exception | Unwound

text \<open>The outcomes of the branches in the order in which the branches ended.\<close>

type_synonym 'v log = "(nat \<times> 'v outcome) list"

record 'v join_core =
  jc_remaining :: nat
  jc_stop :: bool
  jc_lost :: bool
  jc_launched :: nat
  jc_branch :: "branch_pc list"
  jc_parent :: "parent_event list"
  jc_log :: "'v log"

definition request_stop :: "('v, 'a) join_core_scheme \<Rightarrow> ('v, 'a) join_core_scheme" where
  "request_stop s = s\<lparr>jc_stop := True\<rparr>"

definition set_branch :: "nat \<Rightarrow> branch_pc \<Rightarrow> ('v, 'a) join_core_scheme \<Rightarrow> ('v, 'a) join_core_scheme" where
  "set_branch i q s = s\<lparr>jc_branch := (jc_branch s)[i := q]\<rparr>"

text \<open>
  The launcher: \<open>launcher_suspend\<close> is what its \<^verbatim>\<open>await_suspend\<close> does before it starts the runners, with whether the caller was already asked to stop, and
  \<open>launch_one\<close> the post of the next runner. \<open>jc_launched\<close> counts the runners posted so far.
\<close>

definition launcher_suspend :: "bool \<Rightarrow> ('v, 'a) join_core_scheme \<Rightarrow> ('v, 'a) join_core_scheme" where
  "launcher_suspend stop_requested s = (if stop_requested then request_stop s else s)"

definition launch_one :: "('v, 'a) join_core_scheme \<Rightarrow> ('v, 'a) join_core_scheme" where
  "launch_one s = s\<lparr>jc_launched := jc_launched s + 1\<rparr>"

text \<open>A runner whose promise is destroyed before it finished.\<close>

definition lose_branch :: "nat \<Rightarrow> ('v, 'a) join_core_scheme \<Rightarrow> ('v, 'a) join_core_scheme" where
  "lose_branch i s =
     (let s = set_branch i B_Done (request_stop (s\<lparr>jc_lost := True\<rparr>));
          remaining = jc_remaining s;
          s = s\<lparr>jc_remaining := remaining - 1\<rparr>
      in if remaining = 1 then s\<lparr>jc_parent := jc_parent s @ [Parent_Abandoned]\<rparr> else s)"

text \<open>The final awaiter of a runner; \<open>ab\<close> is whether its segment was abandoned.\<close>

definition final_suspend :: "nat \<Rightarrow> bool \<Rightarrow> ('v, 'a) join_core_scheme \<Rightarrow> ('v, 'a) join_core_scheme" where
  "final_suspend i ab s =
     (let s = set_branch i B_Done s;
          s = (if ab then request_stop (s\<lparr>jc_lost := True\<rparr>) else s);
          remaining = jc_remaining s;
          s = s\<lparr>jc_remaining := remaining - 1\<rparr>
      in if remaining \<noteq> 1 then s
         else if jc_lost s then s\<lparr>jc_parent := jc_parent s @ [Parent_Abandoned]\<rparr>
         else s\<lparr>jc_parent := jc_parent s @ [Parent_Resumed]\<rparr>)"

text \<open>A branch ends: the body of its runner runs from the outcome of the branch on.\<close>

definition branch_ends :: "('v outcome \<Rightarrow> ('v, 'a) join_core_scheme \<Rightarrow> ('v, 'a) join_core_scheme) \<Rightarrow> nat \<Rightarrow> 'v outcome
    \<Rightarrow> ('v, 'a) join_core_scheme \<Rightarrow> ('v, 'a) join_core_scheme" where
  "branch_ends body i out s = set_branch i B_Ended ((body out s)\<lparr>jc_log := jc_log s @ [(i, out)]\<rparr>)"

section \<open>Runs of a join\<close>

text \<open>
  The launcher posts the runners one after another, and a runner that was posted may run before the next is. The branches end in any order, each on its own thread; between the end of a branch and its final awaiter other branches may end. The body of a
  runner after its branch is one step: the flags it claims are atomic, and what it writes besides is its own slot or under a lock. A runner may be destroyed
  before its branch ended, a branch that was unwound reaches its final awaiter as abandoned, and a stop request of the caller may come at any time.
\<close>

inductive join_step :: "(nat \<Rightarrow> 'v outcome \<Rightarrow> ('v, 'a) join_core_scheme \<Rightarrow> ('v, 'a) join_core_scheme) \<Rightarrow> ('v, 'a) join_core_scheme \<Rightarrow> ('v, 'a) join_core_scheme \<Rightarrow> bool"
  for body where
  launches: "jc_launched s < length (jc_branch s) \<Longrightarrow> join_step body s (launch_one s)"
| ends: "\<lbrakk>i < jc_launched s; jc_branch s ! i = B_Running\<rbrakk> \<Longrightarrow> join_step body s (branch_ends (body i) i out s)"
| finals: "\<lbrakk>i < length (jc_branch s); jc_branch s ! i = B_Ended; (i, Unwound) \<in> set (jc_log s) \<longrightarrow> ab\<rbrakk> \<Longrightarrow> join_step body s (final_suspend i ab s)"
| loses: "\<lbrakk>i < jc_launched s; jc_branch s ! i = B_Running\<rbrakk> \<Longrightarrow> join_step body s (lose_branch i s)"
| caller_stops: "join_step body s (request_stop s)"

inductive join_reach :: "(nat \<Rightarrow> 'v outcome \<Rightarrow> ('v, 'a) join_core_scheme \<Rightarrow> ('v, 'a) join_core_scheme) \<Rightarrow> ('v, 'a) join_core_scheme \<Rightarrow> ('v, 'a) join_core_scheme \<Rightarrow> bool"
  for body s0 where
  start: "join_reach body s0 (launcher_suspend stop_requested s0)"
| step: "join_reach body s0 s \<Longrightarrow> join_step body s s' \<Longrightarrow> join_reach body s0 s'"

section \<open>The invariant of the join\<close>

definition unfinished :: "branch_pc list \<Rightarrow> nat" where
  "unfinished bs = length (filter (\<lambda>q. q \<noteq> B_Done) bs)"

definition join_inv :: "nat \<Rightarrow> ('v, 'a) join_core_scheme \<Rightarrow> bool" where
  "join_inv n s \<longleftrightarrow> length (jc_branch s) = n \<and> jc_remaining s = unfinished (jc_branch s)
     \<and> jc_parent s = (if unfinished (jc_branch s) = 0 then [if jc_lost s then Parent_Abandoned else Parent_Resumed] else [])
     \<and> (jc_lost s \<longrightarrow> jc_stop s)"

lemma unfinished_update:
  assumes "i < length bs" "bs ! i \<noteq> B_Done"
  shows "unfinished (bs[i := B_Done]) = unfinished bs - 1" "0 < unfinished bs" "q \<noteq> B_Done \<Longrightarrow> unfinished (bs[i := q]) = unfinished bs"
proof -
  have s: "bs = take i bs @ bs ! i # drop (Suc i) bs" by (rule id_take_nth_drop [OF assms(1)])
  have u: "unfinished bs = unfinished (take i bs) + 1 + unfinished (drop (Suc i) bs)"
    using arg_cong [OF s, of unfinished] assms(2) by (simp add: unfinished_def)
  then show "unfinished (bs[i := B_Done]) = unfinished bs - 1" "0 < unfinished bs" "q \<noteq> B_Done \<Longrightarrow> unfinished (bs[i := q]) = unfinished bs"
    using assms(1) by (simp_all add: upd_conv_take_nth_drop unfinished_def)
qed

lemma unfinished_0: "unfinished bs = 0 \<longleftrightarrow> (\<forall>i < length bs. bs ! i = B_Done)"
  by (auto simp: unfinished_def filter_empty_conv all_set_conv_all_nth)

lemma join_inv_init: "0 < n \<Longrightarrow> jc_remaining s = n \<Longrightarrow> \<not> jc_lost s \<Longrightarrow> jc_branch s = replicate n B_Running \<Longrightarrow> jc_parent s = [] \<Longrightarrow> join_inv n s"
  by (simp add: join_inv_def unfinished_def)

lemma join_inv_ended:
  "join_inv n s \<Longrightarrow> i < n \<Longrightarrow> jc_branch s ! i = B_Running \<Longrightarrow> jc_branch s' = (jc_branch s)[i := B_Ended] \<Longrightarrow> jc_remaining s' = jc_remaining s
   \<Longrightarrow> jc_parent s' = jc_parent s \<Longrightarrow> jc_lost s' = jc_lost s \<Longrightarrow> (jc_stop s \<Longrightarrow> jc_stop s') \<Longrightarrow> join_inv n s'"
  using unfinished_update(3) [of i "jc_branch s" B_Ended] by (simp add: join_inv_def)

lemma join_inv_lose: "join_inv n s \<Longrightarrow> i < n \<Longrightarrow> jc_branch s ! i \<noteq> B_Done \<Longrightarrow> join_inv n (lose_branch i s)"
  using unfinished_update(1,2) [of i "jc_branch s"] by (auto simp: join_inv_def lose_branch_def set_branch_def request_stop_def Let_def)

lemma join_inv_final: "join_inv n s \<Longrightarrow> i < n \<Longrightarrow> jc_branch s ! i \<noteq> B_Done \<Longrightarrow> join_inv n (final_suspend i ab s)"
  using unfinished_update(1,2) [of i "jc_branch s"] by (auto simp: join_inv_def final_suspend_def set_branch_def request_stop_def Let_def)

lemma join_frame:
  "jc_branch (lose_branch i s) = (jc_branch s)[i := B_Done]" "jc_branch (final_suspend i ab s) = (jc_branch s)[i := B_Done]"
  "jc_lost (lose_branch i s)" "jc_lost (final_suspend i ab s) \<longleftrightarrow> jc_lost s \<or> ab" "jc_stop (lose_branch i s)"
  "jc_stop (final_suspend i ab s) \<longleftrightarrow> jc_stop s \<or> ab"
  "join_core.more (lose_branch i s) = join_core.more s" "join_core.more (final_suspend i ab s) = join_core.more s"
  "jc_launched (lose_branch i s) = jc_launched s" "jc_launched (final_suspend i ab s) = jc_launched s"
  "jc_log (lose_branch i s) = jc_log s" "jc_log (final_suspend i ab s) = jc_log s"
  by (simp_all add: lose_branch_def final_suspend_def set_branch_def request_stop_def Let_def)

section \<open>The log of a join\<close>

fun thrown :: "nat \<times> 'v outcome \<Rightarrow> cpp_exception option" where
  "thrown (i, Threw e) = Some e" | "thrown _ = None"

fun erred :: "nat \<times> 'v outcome \<Rightarrow> error_code option" where
  "erred (i, Returned ec v) = (if failed ec then Some ec else None)" | "erred _ = None"

fun succeeded :: "nat \<times> 'v outcome \<Rightarrow> (nat \<times> 'v) option" where
  "succeeded (i, Returned ec v) = (if failed ec then None else Some (i, v))" | "succeeded _ = None"

fun first_some :: "('a \<Rightarrow> 'b option) \<Rightarrow> 'a list \<Rightarrow> 'b option" where
  "first_some f [] = None"
| "first_some f (x # xs) = (case f x of Some y \<Rightarrow> Some y | None \<Rightarrow> first_some f xs)"

lemma first_some_snoc: "first_some f (xs @ [x]) = (case first_some f xs of Some y \<Rightarrow> Some y | None \<Rightarrow> f x)"
  by (induction xs) (auto split: option.split)

lemma first_some_None: "first_some f xs = None \<longleftrightarrow> (\<forall>x \<in> set xs. f x = None)"
  by (induction xs) (auto split: option.split)


section \<open>What every join keeps\<close>

definition logged :: "nat \<Rightarrow> ('v, 'a) join_core_scheme \<Rightarrow> bool" where
  "logged n s \<longleftrightarrow> distinct (map fst (jc_log s)) \<and> fst ` set (jc_log s) \<subseteq> {..<n} \<and> (\<forall>i < n. jc_branch s ! i = B_Running \<longrightarrow> i \<notin> fst ` set (jc_log s))
     \<and> (\<not> jc_lost s \<longrightarrow> (\<forall>i < n. jc_branch s ! i \<noteq> B_Running \<longrightarrow> (\<exists>out. (i, out) \<in> set (jc_log s) \<and> (jc_branch s ! i = B_Done \<longrightarrow> out \<noteq> Unwound))))"

definition launched_ok :: "nat \<Rightarrow> ('v, 'a) join_core_scheme \<Rightarrow> bool" where
  "launched_ok n s \<longleftrightarrow> jc_launched s \<le> n \<and> (\<forall>i < n. jc_launched s \<le> i \<longrightarrow> jc_branch s ! i = B_Running)"

definition join_ok :: "nat \<Rightarrow> ('v, 'a) join_core_scheme \<Rightarrow> bool" where
  "join_ok n s \<longleftrightarrow> join_inv n s \<and> logged n s \<and> launched_ok n s"

lemma join_ok_length: "join_ok n s \<Longrightarrow> length (jc_branch s) = n"
  by (simp add: join_ok_def join_inv_def)

lemma join_ok_init:
  "0 < n \<Longrightarrow> jc_remaining s = n \<Longrightarrow> \<not> jc_lost s \<Longrightarrow> jc_branch s = replicate n B_Running \<Longrightarrow> jc_parent s = [] \<Longrightarrow> jc_log s = []
   \<Longrightarrow> jc_launched s = 0 \<Longrightarrow> join_ok n s"
  by (simp add: join_ok_def join_inv_init logged_def launched_ok_def)

lemma join_ok_stop: "join_ok n s \<Longrightarrow> join_ok n (request_stop s)"
  by (simp add: join_ok_def join_inv_def request_stop_def logged_def launched_ok_def)

lemma join_ok_launches: "join_ok n s \<Longrightarrow> jc_launched s < n \<Longrightarrow> join_ok n (launch_one s)"
  by (auto simp: join_ok_def join_inv_def launch_one_def logged_def launched_ok_def)

lemma join_ok_launched: "join_ok n s \<Longrightarrow> jc_launched s \<le> n"
  by (simp add: join_ok_def launched_ok_def)

text \<open>While the launcher has runners to post, and so touches the state of the join, the parent has not been continued.\<close>

lemma launcher_safe: "join_ok n s \<Longrightarrow> jc_launched s < n \<Longrightarrow> jc_parent s = []"
  by (auto simp: join_ok_def join_inv_def launched_ok_def unfinished_0)

lemma join_ok_running: "join_ok n s \<Longrightarrow> i < n \<Longrightarrow> jc_branch s ! i = B_Running \<Longrightarrow> i \<notin> fst ` set (jc_log s)"
  by (simp add: join_ok_def logged_def)

lemma join_parent:
  assumes "join_ok n s"
  shows "jc_parent s = (if \<exists>i < n. jc_branch s ! i \<noteq> B_Done then [] else [if jc_lost s then Parent_Abandoned else Parent_Resumed])"
  using assms by (auto simp: join_ok_def join_inv_def unfinished_0)

text \<open>When the parent is resumed every branch has ended and its outcome is in the log.\<close>

lemma resumed_log:
  assumes "join_ok n s" "jc_parent s = [Parent_Resumed]" "i < n"
  obtains out where "map_of (jc_log s) i = Some out" "(i, out) \<in> set (jc_log s)" "out \<noteq> Unwound"
proof -
  have j: "join_inv n s" "logged n s" using assms(1) by (simp_all add: join_ok_def)
  then have "\<not> jc_lost s" "jc_branch s ! i = B_Done"
    using assms(2,3) by (auto simp: join_inv_def unfinished_0 split: if_splits)
  with j(2) assms(3) obtain out where "(i, out) \<in> set (jc_log s)" "out \<noteq> Unwound" unfolding logged_def by force
  then show ?thesis using that j(2) by (auto simp: logged_def)
qed

text \<open>A branch that ends and then reaches its final awaiter.\<close>

definition run_branch :: "(nat \<Rightarrow> 'v outcome \<Rightarrow> ('v, 'a) join_core_scheme \<Rightarrow> ('v, 'a) join_core_scheme) \<Rightarrow> nat \<Rightarrow> 'v outcome
    \<Rightarrow> ('v, 'a) join_core_scheme \<Rightarrow> ('v, 'a) join_core_scheme" where
  "run_branch body i out s = final_suspend i False (branch_ends (body i) i out s)"

lemmas run_branch_defs = run_branch_def launch_one_def branch_ends_def final_suspend_def set_branch_def request_stop_def Let_def

text \<open>The body of a runner leaves the join alone, except that it may request stop.\<close>

locale join_body =
  fixes body :: "nat \<Rightarrow> 'v outcome \<Rightarrow> ('v, 'a) join_core_scheme \<Rightarrow> ('v, 'a) join_core_scheme"
  assumes frame: "jc_branch (body i out s) = jc_branch s" "jc_remaining (body i out s) = jc_remaining s" "jc_parent (body i out s) = jc_parent s"
      "jc_lost (body i out s) = jc_lost s" "jc_launched (body i out s) = jc_launched s"
    and keeps_stop: "jc_stop s \<Longrightarrow> jc_stop (body i out s)"
begin

lemma ok_ends:
  assumes "join_ok n s" "i < jc_launched s" "jc_branch s ! i = B_Running"
  shows "join_ok n (branch_ends (body i) i out s)"
proof -
  have i: "i < n" using assms(1,2) join_ok_launched [OF assms(1)] by simp
  have j: "join_inv n s" "logged n s" "launched_ok n s" "i \<notin> fst ` set (jc_log s)" "length (jc_branch s) = n"
    using assms join_ok_running [OF assms(1) i assms(3)] join_ok_length [OF assms(1)] by (simp_all add: join_ok_def)
  have "join_inv n (branch_ends (body i) i out s)"
    by (rule join_inv_ended [OF j(1), of i]) (use assms i j(5) in \<open>simp_all add: branch_ends_def set_branch_def frame keeps_stop\<close>)
  then show ?thesis using j i assms(2,3)
    by (auto simp: join_ok_def logged_def launched_ok_def branch_ends_def set_branch_def frame nth_list_update split: if_splits)
qed

lemma ok_finals:
  assumes "join_ok n s" "i < n" "jc_branch s ! i = B_Ended" "(i, Unwound) \<in> set (jc_log s) \<longrightarrow> ab"
  shows "join_ok n (final_suspend i ab s)"
  using assms join_ok_length [OF assms(1)] join_inv_final [of n s i ab]
  by (auto simp: join_ok_def logged_def launched_ok_def join_frame nth_list_update split: if_splits)

lemma ok_loses:
  assumes "join_ok n s" "i < jc_launched s" "jc_branch s ! i = B_Running"
  shows "join_ok n (lose_branch i s)"
  using assms join_ok_length [OF assms(1)] join_ok_launched [OF assms(1)] join_inv_lose [of n s i]
  by (auto simp: join_ok_def logged_def launched_ok_def join_frame nth_list_update split: if_splits)

text \<open>A property of the states of a join that only the ends of branches can break.\<close>

lemma reach_induct:
  assumes "join_reach body s0 s" "join_ok n s0" "P s0"
    and ends: "\<And>s i out. \<lbrakk>join_ok n s; P s; i < n; i \<notin> fst ` set (jc_log s)\<rbrakk> \<Longrightarrow> P (branch_ends (body i) i out s)"
    and cong: "\<And>s t. \<lbrakk>P s; jc_log t = jc_log s; join_core.more t = join_core.more s; jc_stop s \<Longrightarrow> jc_stop t\<rbrakk> \<Longrightarrow> P t"
  shows "join_ok n s \<and> P s"
  using assms(1)
proof (induction rule: join_reach.induct)
  case (start stop_requested)
  then show ?case using assms(2) cong [OF assms(3), of "launcher_suspend stop_requested s0"] join_ok_stop [OF assms(2)]
    by (simp add: launcher_suspend_def request_stop_def)
next
  case (step s s')
  note ok = step.IH [THEN conjunct1] and P = step.IH [THEN conjunct2]
  from step.hyps(2) show ?case
  proof (cases rule: join_step.cases)
    case launches
    then show ?thesis using ok join_ok_launches [OF ok] cong [OF P, of s'] join_ok_length [OF ok] by (simp add: launch_one_def)
  next
    case (ends i out)
    then show ?thesis using ok P assms(4) [of s i out] ok_ends [of n s i out] join_ok_running [of n s i] join_ok_launched [OF ok] by simp
  next
    case (finals i ab)
    then show ?thesis using ok ok_finals [of n s i ab] cong [OF P, of s'] join_ok_length [OF ok] by (simp add: join_frame)
  next
    case (loses i)
    then show ?thesis using ok ok_loses [of n s i] join_ok_launched [OF ok] cong [OF P, of s'] join_ok_length [OF ok] by (simp add: join_frame)
  next
    case caller_stops
    then show ?thesis using join_ok_stop [OF ok] cong [OF P, of s'] by (simp add: request_stop_def)
  qed
qed

lemma reach_launch: "join_reach body s0 s \<Longrightarrow> jc_launched s < length (jc_branch s) \<Longrightarrow> join_reach body s0 (launch_one s)"
  by (rule join_reach.step [OF _ join_step.launches])

lemma reach_start: "join_reach body s0 s0"
  using join_reach.start [of body s0 False] by (simp add: launcher_suspend_def)

lemma reach_branch:
  assumes "join_reach body s0 s" "i < jc_launched s" "jc_launched s \<le> length (jc_branch s)" "jc_branch s ! i = B_Running" "out \<noteq> Unwound" "i \<notin> fst ` set (jc_log s)"
  shows "join_reach body s0 (run_branch body i out s)"
proof -
  have e: "join_reach body s0 (branch_ends (body i) i out s)" by (rule join_reach.step [OF assms(1) join_step.ends [OF assms(2,4)]])
  show ?thesis unfolding run_branch_def
    by (rule join_reach.step [OF e join_step.finals]) (use assms in \<open>force simp: branch_ends_def set_branch_def frame\<close>)+
qed

end

end
