(* ===== verification/When_All.thy ===== *)
theory When_All
  imports When_Join
begin

text \<open>
  \<^verbatim>\<open>when_all\<close> (\<^verbatim>\<open>when_all.hpp\<close>, \<^verbatim>\<open>detail/results_combinators.hpp\<close>): the range overload, whose state keeps the payload of each branch that
  succeeds, and the variadic overload, whose state keeps the whole result of each branch that returns.
\<close>

record ('v, 'r) when_all_state = "'v join_core" +
  wa_has_exception :: bool
  wa_first_exception :: "cpp_exception option"
  wa_has_error :: bool
  wa_first_error :: error_code
  wa_results :: "'r option list"

definition when_all_init :: "nat \<Rightarrow> ('v, 'r) when_all_state" where
  "when_all_init count = \<lparr>jc_remaining = count, jc_stop = False, jc_lost = False, jc_launched = 0, jc_branch = replicate count B_Running, jc_parent = [], jc_log = [],
     wa_has_exception = False, wa_first_exception = None, wa_has_error = False, wa_first_error = success,
     wa_results = replicate count None\<rparr>"

section \<open>The runners\<close>

definition capture_exception :: "cpp_exception \<Rightarrow> ('v, 'r) when_all_state \<Rightarrow> ('v, 'r) when_all_state" where
  "capture_exception ep s = (if \<not> wa_has_exception s then s\<lparr>wa_has_exception := True, wa_first_exception := Some ep\<rparr> else s)"

definition record_error :: "error_code \<Rightarrow> ('v, 'r) when_all_state \<Rightarrow> ('v, 'r) when_all_state" where
  "record_error ec s = (if \<not> wa_has_error s then s\<lparr>wa_has_error := True, wa_first_error := ec\<rparr> else s)"

definition unhandled_exception :: "cpp_exception \<Rightarrow> ('v, 'r) when_all_state \<Rightarrow> ('v, 'r) when_all_state" where
  "unhandled_exception ep s = request_stop (capture_exception ep s)"

definition set_result :: "nat \<Rightarrow> 'r \<Rightarrow> ('v, 'r) when_all_state \<Rightarrow> ('v, 'r) when_all_state" where
  "set_result i v s = s\<lparr>wa_results := (wa_results s)[i := Some v]\<rparr>"

text \<open>The body of a runner of the range overload and of the variadic overload, from the outcome of its branch on.\<close>

fun range_body :: "nat \<Rightarrow> 'v outcome \<Rightarrow> ('v, 'v) when_all_state \<Rightarrow> ('v, 'v) when_all_state" where
  "range_body i (Returned ec v) s = (if failed ec then request_stop (record_error ec s) else set_result i v s)"
| "range_body i (Threw e) s = unhandled_exception e s"
| "range_body i Unwound s = s"

fun variadic_body :: "nat \<Rightarrow> 'v outcome \<Rightarrow> ('v, error_code \<times> 'v) when_all_state \<Rightarrow> ('v, error_code \<times> 'v) when_all_state" where
  "variadic_body i (Returned ec v) s =
     (let s = set_result i (ec, v) s in if failed ec then request_stop (record_error ec s) else s)"
| "variadic_body i (Threw e) s = unhandled_exception e s"
| "variadic_body i Unwound s = s"

text \<open>A runner of the range overload over branches without values.\<close>

fun void_body :: "nat \<Rightarrow> unit outcome \<Rightarrow> (unit, unit) when_all_state \<Rightarrow> (unit, unit) when_all_state" where
  "void_body i (Returned ec v) s = (if failed ec then request_stop (record_error ec s) else s)"
| "void_body i (Threw e) s = unhandled_exception e s"
| "void_body i Unwound s = s"

section \<open>The parent\<close>

text \<open>An empty optional that is read is \<open>None\<close>.\<close>

definition when_all_range_finish :: "('v, 'v) when_all_state \<Rightarrow> (cpp_exception + error_code \<times> 'v list) option" where
  "when_all_range_finish s =
     (case wa_first_exception s of
        Some e \<Rightarrow> Some (Inl e)
      | None \<Rightarrow>
          if wa_has_error s then Some (Inr (wa_first_error s, []))
          else if None \<in> set (wa_results s) then None
          else Some (Inr (success, map the (wa_results s))))"

definition when_all_void_finish :: "(unit, unit) when_all_state \<Rightarrow> cpp_exception + error_code" where
  "when_all_void_finish s =
     (case wa_first_exception s of
        Some e \<Rightarrow> Inl e
      | None \<Rightarrow> if wa_has_error s then Inr (wa_first_error s) else Inr success)"

text \<open>The error of the first branch, in the order of the branches, that failed.\<close>

fun build_error :: "(error_code \<times> 'v) list \<Rightarrow> error_code" where
  "build_error [] = success"
| "build_error ((ec, v) # rs) = (if failed ec then ec else build_error rs)"

definition build_when_all_results :: "(error_code \<times> 'v) list \<Rightarrow> error_code \<times> 'v list" where
  "build_when_all_results rs = (build_error rs, map snd rs)"

definition when_all_variadic_finish :: "('v, error_code \<times> 'v) when_all_state \<Rightarrow> (cpp_exception + error_code \<times> 'v list) option" where
  "when_all_variadic_finish s =
     (case wa_first_exception s of
        Some e \<Rightarrow> Some (Inl e)
      | None \<Rightarrow>
          if None \<in> set (wa_results s) then None
          else let (ec, vs) = build_when_all_results (map the (wa_results s))
               in Some (Inr (if wa_has_error s then wa_first_error s else ec, vs)))"

text \<open>The range overload on a range without elements throws before anything is started.\<close>

definition when_all_range_start :: "nat \<Rightarrow> cpp_exception + ('v, 'v) when_all_state" where
  "when_all_range_start count =
     (if count = 0 then Inl (invalid_argument ''when_all requires at least one awaitable'') else Inr (when_all_init count))"

section \<open>What the runners of both overloads do\<close>

text \<open>\<open>store\<close> is what a runner keeps of an outcome.\<close>

locale all_runner = join_body body for body :: "nat \<Rightarrow> 'v outcome \<Rightarrow> ('v, 'r) when_all_state \<Rightarrow> ('v, 'r) when_all_state" +
  fixes store :: "'v outcome \<Rightarrow> 'r option"
  assumes stops: "jc_stop (body i out s) \<longleftrightarrow> jc_stop s \<or> thrown (i, out) \<noteq> None \<or> erred (i, out) \<noteq> None"
    and exceptions: "wa_has_exception (body i out s) \<longleftrightarrow> wa_has_exception s \<or> thrown (i, out) \<noteq> None"
      "wa_first_exception (body i out s) = (if wa_has_exception s then wa_first_exception s else case thrown (i, out) of None \<Rightarrow> wa_first_exception s | e \<Rightarrow> e)"
    and errors: "wa_has_error (body i out s) \<longleftrightarrow> wa_has_error s \<or> erred (i, out) \<noteq> None"
      "wa_first_error (body i out s) = (if wa_has_error s then wa_first_error s else case erred (i, out) of None \<Rightarrow> wa_first_error s | Some ec \<Rightarrow> ec)"
    and results: "wa_results (body i out s) = (case store out of None \<Rightarrow> wa_results s | r \<Rightarrow> (wa_results s)[i := r])"
begin

definition recorded :: "('v, 'r) when_all_state \<Rightarrow> bool" where
  "recorded s \<longleftrightarrow> wa_first_exception s = first_some thrown (jc_log s) \<and> (wa_has_exception s \<longleftrightarrow> first_some thrown (jc_log s) \<noteq> None)
     \<and> (wa_has_error s \<longleftrightarrow> first_some erred (jc_log s) \<noteq> None)
     \<and> wa_first_error s = (case first_some erred (jc_log s) of None \<Rightarrow> success | Some ec \<Rightarrow> ec)
     \<and> (wa_has_exception s \<or> wa_has_error s \<longrightarrow> jc_stop s)"

definition kept :: "nat \<Rightarrow> ('v, 'r) when_all_state \<Rightarrow> bool" where
  "kept n s \<longleftrightarrow> length (wa_results s) = n
     \<and> (\<forall>i < n. wa_results s ! i = (case map_of (jc_log s) i of None \<Rightarrow> None | Some out \<Rightarrow> store out))"

lemma recorded_ends: "recorded s \<Longrightarrow> recorded (branch_ends (body i) i out s)"
  by (auto simp: recorded_def branch_ends_def set_branch_def exceptions errors stops first_some_snoc split: option.splits)

lemma kept_ends:
  assumes "kept n s" "i < n" "i \<notin> fst ` set (jc_log s)"
  shows "kept n (branch_ends (body i) i out s)"
proof -
  have none: "map_of (jc_log s) i = None" using assms(3) by (simp add: map_of_eq_None_iff)
  then have "map_of (jc_log s @ [(i, out)]) j = (if j = i then Some out else map_of (jc_log s) j)" for j
    by (auto simp: map_add_def split: option.split)
  with none show ?thesis using assms(1,2) by (auto simp: kept_def branch_ends_def set_branch_def results nth_list_update split: option.split)
qed

lemma run_inv:
  assumes "join_reach body (when_all_init n) s" "0 < n"
  shows "join_ok n s" "recorded s" "kept n s"
proof -
  have "join_ok n s \<and> recorded s \<and> kept n s"
  proof (rule reach_induct [OF assms(1), of n "\<lambda>s. recorded s \<and> kept n s"])
    show "join_ok n (when_all_init n)" using assms(2) by (simp add: when_all_init_def join_ok_init)
    show "recorded (when_all_init n) \<and> kept n (when_all_init n)" by (simp add: when_all_init_def recorded_def kept_def)
  next
    fix s i out assume "recorded s \<and> kept n s" "i < n" "i \<notin> fst ` set (jc_log s)"
    then show "recorded (branch_ends (body i) i out s) \<and> kept n (branch_ends (body i) i out s)" by (simp add: recorded_ends kept_ends)
  next
    fix s t :: "('v, 'r) when_all_state"
    assume "recorded s \<and> kept n s" "jc_log t = jc_log s" "join_core.more t = join_core.more s" "jc_stop s \<Longrightarrow> jc_stop t"
    then show "recorded t \<and> kept n t" by (cases s; cases t) (auto simp: recorded_def kept_def)
  qed
  then show "join_ok n s" "recorded s" "kept n s" by simp_all
qed

end

fun range_store :: "'v outcome \<Rightarrow> 'v option" where
  "range_store (Returned ec v) = (if failed ec then None else Some v)" | "range_store _ = None"

fun variadic_store :: "'v outcome \<Rightarrow> (error_code \<times> 'v) option" where
  "variadic_store (Returned ec v) = Some (ec, v)" | "variadic_store _ = None"

lemmas body_defs = record_error_def capture_exception_def unhandled_exception_def set_result_def

interpretation range_all: all_runner range_body range_store
proof
  fix i :: nat and out :: "'v outcome" and s :: "('v, 'v) when_all_state"
  show "jc_branch (range_body i out s) = jc_branch s" "jc_remaining (range_body i out s) = jc_remaining s"
    "jc_parent (range_body i out s) = jc_parent s" "jc_lost (range_body i out s) = jc_lost s" "jc_launched (range_body i out s) = jc_launched s"
    "jc_stop s \<Longrightarrow> jc_stop (range_body i out s)"
    "jc_stop (range_body i out s) \<longleftrightarrow> jc_stop s \<or> thrown (i, out) \<noteq> None \<or> erred (i, out) \<noteq> None"
    "wa_has_exception (range_body i out s) \<longleftrightarrow> wa_has_exception s \<or> thrown (i, out) \<noteq> None"
    "wa_first_exception (range_body i out s) = (if wa_has_exception s then wa_first_exception s else case thrown (i, out) of None \<Rightarrow> wa_first_exception s | e \<Rightarrow> e)"
    "wa_has_error (range_body i out s) \<longleftrightarrow> wa_has_error s \<or> erred (i, out) \<noteq> None"
    "wa_first_error (range_body i out s) = (if wa_has_error s then wa_first_error s else case erred (i, out) of None \<Rightarrow> wa_first_error s | Some ec \<Rightarrow> ec)"
    "wa_results (range_body i out s) = (case range_store out of None \<Rightarrow> wa_results s | r \<Rightarrow> (wa_results s)[i := r])"
    by (cases out; simp add: body_defs request_stop_def; fail)+
qed

interpretation variadic_all: all_runner variadic_body variadic_store
proof
  fix i :: nat and out :: "'v outcome" and s :: "('v, error_code \<times> 'v) when_all_state"
  show "jc_branch (variadic_body i out s) = jc_branch s" "jc_remaining (variadic_body i out s) = jc_remaining s"
    "jc_parent (variadic_body i out s) = jc_parent s" "jc_lost (variadic_body i out s) = jc_lost s" "jc_launched (variadic_body i out s) = jc_launched s"
    "jc_stop s \<Longrightarrow> jc_stop (variadic_body i out s)"
    "jc_stop (variadic_body i out s) \<longleftrightarrow> jc_stop s \<or> thrown (i, out) \<noteq> None \<or> erred (i, out) \<noteq> None"
    "wa_has_exception (variadic_body i out s) \<longleftrightarrow> wa_has_exception s \<or> thrown (i, out) \<noteq> None"
    "wa_first_exception (variadic_body i out s) = (if wa_has_exception s then wa_first_exception s else case thrown (i, out) of None \<Rightarrow> wa_first_exception s | e \<Rightarrow> e)"
    "wa_has_error (variadic_body i out s) \<longleftrightarrow> wa_has_error s \<or> erred (i, out) \<noteq> None"
    "wa_first_error (variadic_body i out s) = (if wa_has_error s then wa_first_error s else case erred (i, out) of None \<Rightarrow> wa_first_error s | Some ec \<Rightarrow> ec)"
    "wa_results (variadic_body i out s) = (case variadic_store out of None \<Rightarrow> wa_results s | r \<Rightarrow> (wa_results s)[i := r])"
    by (cases out; simp add: body_defs request_stop_def Let_def; fail)+
qed

interpretation void_all: all_runner void_body "\<lambda>_. None"
proof
  fix i :: nat and out :: "unit outcome" and s :: "(unit, unit) when_all_state"
  show "jc_branch (void_body i out s) = jc_branch s" "jc_remaining (void_body i out s) = jc_remaining s"
    "jc_parent (void_body i out s) = jc_parent s" "jc_lost (void_body i out s) = jc_lost s" "jc_launched (void_body i out s) = jc_launched s"
    "jc_stop s \<Longrightarrow> jc_stop (void_body i out s)"
    "jc_stop (void_body i out s) \<longleftrightarrow> jc_stop s \<or> thrown (i, out) \<noteq> None \<or> erred (i, out) \<noteq> None"
    "wa_has_exception (void_body i out s) \<longleftrightarrow> wa_has_exception s \<or> thrown (i, out) \<noteq> None"
    "wa_first_exception (void_body i out s) = (if wa_has_exception s then wa_first_exception s else case thrown (i, out) of None \<Rightarrow> wa_first_exception s | e \<Rightarrow> e)"
    "wa_has_error (void_body i out s) \<longleftrightarrow> wa_has_error s \<or> erred (i, out) \<noteq> None"
    "wa_first_error (void_body i out s) = (if wa_has_error s then wa_first_error s else case erred (i, out) of None \<Rightarrow> wa_first_error s | Some ec \<Rightarrow> ec)"
    "wa_results (void_body i out s) = (case (\<lambda>_. None) out of None \<Rightarrow> wa_results s | r \<Rightarrow> (wa_results s)[i := r])"
    by (cases out; simp add: body_defs request_stop_def; fail)+
qed

section \<open>What when_all returns\<close>

fun returned :: "'v outcome option \<Rightarrow> 'v option" where
  "returned (Some (Returned ec v)) = Some v" | "returned _ = None"

text \<open>What the two overloads promise of the outcomes of their branches.\<close>

definition all_range_spec :: "nat \<Rightarrow> 'v log \<Rightarrow> cpp_exception + error_code \<times> 'v list \<Rightarrow> bool" where
  "all_range_spec n log r \<longleftrightarrow>
     (case first_some thrown log of
        Some e \<Rightarrow> r = Inl e
      | None \<Rightarrow> (case first_some erred log of
            Some ec \<Rightarrow> r = Inr (ec, [])
          | None \<Rightarrow> (\<exists>vs. r = Inr (success, vs) \<and> map Some vs = map (returned \<circ> map_of log) [0..<n])))"

definition all_variadic_spec :: "nat \<Rightarrow> 'v log \<Rightarrow> cpp_exception + error_code \<times> 'v list \<Rightarrow> bool" where
  "all_variadic_spec n log r \<longleftrightarrow>
     (case first_some thrown log of
        Some e \<Rightarrow> r = Inl e
      | None \<Rightarrow> (\<exists>vs. r = Inr (case first_some erred log of Some ec \<Rightarrow> ec | None \<Rightarrow> success, vs)
                  \<and> map Some vs = map (returned \<circ> map_of log) [0..<n]))"

lemma list_eqI_map_Some: "None \<notin> set xs \<Longrightarrow> map Some (map the xs) = xs"
  by (induction xs) auto

lemma range_finish_spec:
  assumes "join_ok n s" "range_all.recorded s" "range_all.kept n s" "jc_parent s = [Parent_Resumed]"
  shows "\<exists>r. when_all_range_finish s = Some r \<and> all_range_spec n (jc_log s) r"
proof (cases "first_some thrown (jc_log s) = None \<and> first_some erred (jc_log s) = None")
  case True
  have k: "length (wa_results s) = n" "\<And>i. i < n \<Longrightarrow> wa_results s ! i = (case map_of (jc_log s) i of None \<Rightarrow> None | Some out \<Rightarrow> range_store out)"
    using assms(3) by (simp_all add: range_all.kept_def)
  have r: "wa_results s ! i = returned (map_of (jc_log s) i) \<and> wa_results s ! i \<noteq> None" if le: "i < n" for i
  proof -
    obtain out where o: "map_of (jc_log s) i = Some out" "(i, out) \<in> set (jc_log s)" "out \<noteq> Unwound"
      using resumed_log [OF assms(1,4) le] by blast
    then have "thrown (i, out) = None" "erred (i, out) = None" using True by (auto simp: first_some_None)
    then show ?thesis using o k(2) [OF le] by (cases out) (auto split: if_splits)
  qed
  have "None \<notin> set (wa_results s)" using r k(1) by (metis in_set_conv_nth)
  moreover have "wa_results s = map (returned \<circ> map_of (jc_log s)) [0..<n]" using r k(1) by (auto intro: nth_equalityI)
  ultimately show ?thesis using True assms(2) list_eqI_map_Some [of "wa_results s"]
    by (auto simp: when_all_range_finish_def all_range_spec_def range_all.recorded_def)
next
  case False
  then show ?thesis using assms(2)
    by (auto simp: when_all_range_finish_def all_range_spec_def range_all.recorded_def split: option.splits)
qed

lemma build_error_success: "(\<forall>x \<in> set rs. \<not> failed (fst x)) \<Longrightarrow> build_error rs = success"
  by (induction rs rule: build_error.induct) auto

lemma variadic_finish_spec:
  assumes "join_ok n s" "variadic_all.recorded s" "variadic_all.kept n s" "jc_parent s = [Parent_Resumed]"
  shows "\<exists>r. when_all_variadic_finish s = Some r \<and> all_variadic_spec n (jc_log s) r"
proof (cases "first_some thrown (jc_log s) = None")
  case True
  have k: "length (wa_results s) = n" "\<And>i. i < n \<Longrightarrow> wa_results s ! i = (case map_of (jc_log s) i of None \<Rightarrow> None | Some out \<Rightarrow> variadic_store out)"
    using assms(3) by (simp_all add: variadic_all.kept_def)
  have r: "\<exists>ec v. wa_results s ! i = Some (ec, v) \<and> returned (map_of (jc_log s) i) = Some v \<and> (i, Returned ec v) \<in> set (jc_log s)" if le: "i < n" for i
  proof -
    obtain out where o: "map_of (jc_log s) i = Some out" "(i, out) \<in> set (jc_log s)" "out \<noteq> Unwound"
      using resumed_log [OF assms(1,4) le] by blast
    then have "thrown (i, out) = None" using True by (auto simp: first_some_None)
    then show ?thesis using o k(2) [OF le] by (cases out) auto
  qed
  have none: "None \<notin> set (wa_results s)" using r k(1) by (metis in_set_conv_nth option.distinct(1))
  have vs: "map Some (map snd (map the (wa_results s))) = map (returned \<circ> map_of (jc_log s)) [0..<n]"
    by (rule nth_equalityI) (use r k(1) in fastforce)+
  have "first_some erred (jc_log s) = None \<Longrightarrow> build_error (map the (wa_results s)) = success"
  proof (rule build_error_success, rule ballI)
    fix x assume e: "first_some erred (jc_log s) = None" "x \<in> set (map the (wa_results s))"
    then obtain i where "i < n" "x = the (wa_results s ! i)" using k(1) by (auto simp: in_set_conv_nth)
    with r e(1) show "\<not> failed (fst x)" by (fastforce simp: first_some_None split: if_splits)
  qed
  with True none vs assms(2) show ?thesis
    by (auto simp: when_all_variadic_finish_def all_variadic_spec_def build_when_all_results_def variadic_all.recorded_def Let_def split: option.split)
next
  case False
  then show ?thesis using assms(2)
    by (auto simp: when_all_variadic_finish_def all_variadic_spec_def variadic_all.recorded_def)
qed

lemma range_run: "join_reach range_body (when_all_init 2) (run_branch range_body 0 (Returned success (7 :: nat)) (run_branch range_body 1 (Returned (make_error_code eof) 5) (launch_one (launch_one (when_all_init 2)))))"
  by (intro range_all.reach_branch range_all.reach_launch range_all.reach_start)
    (simp_all add: when_all_init_def run_branch_defs body_defs)

text \<open>
  C9. The range overload of \<^verbatim>\<open>when_all\<close> over \<open>n\<close> branches, whatever the order in which they end, are lost or unwind: the parent is continued exactly once,
  only when every branch is done, and so never while the launcher still posts runners; it is abandoned when a branch was lost and resumed otherwise. A lost branch, an exception and an error each
  request stop of the others. The parent that is resumed finds no missing value: it rethrows the first exception, or returns the first error in the order
  of completion with no values, or returns success with the value of every branch in the order of the branches.
\<close>

theorem when_all_range_result:
  assumes "join_reach range_body (when_all_init n) s" "0 < n"
  shows "jc_parent s = (if \<exists>i < n. jc_branch s ! i \<noteq> B_Done then [] else [if jc_lost s then Parent_Abandoned else Parent_Resumed])
    \<and> (jc_launched s < n \<longrightarrow> jc_parent s = [])
    \<and> (jc_lost s \<or> first_some thrown (jc_log s) \<noteq> None \<or> first_some erred (jc_log s) \<noteq> None \<longrightarrow> jc_stop s)
    \<and> (jc_parent s = [Parent_Resumed] \<longrightarrow> (\<exists>r. when_all_range_finish s = Some r \<and> all_range_spec n (jc_log s) r))"
proof -
  note i = range_all.run_inv [OF assms]
  then have "jc_lost s \<or> first_some thrown (jc_log s) \<noteq> None \<or> first_some erred (jc_log s) \<noteq> None \<longrightarrow> jc_stop s"
    by (auto simp: join_ok_def join_inv_def range_all.recorded_def)
  with join_parent [OF i(1)] launcher_safe [OF i(1)] range_finish_spec [OF i] show ?thesis by blast
qed

theorem when_all_range_result_witness:
  "jc_parent (run_branch range_body 0 (Returned success (7 :: nat)) (run_branch range_body 1 (Returned (make_error_code eof) 5) (launch_one (launch_one (when_all_init 2))))) = [Parent_Resumed]
   \<and> (\<exists>r. when_all_range_finish (run_branch range_body 0 (Returned success (7 :: nat)) (run_branch range_body 1 (Returned (make_error_code eof) 5) (launch_one (launch_one (when_all_init 2))))) = Some r
        \<and> all_range_spec 2 [(1, Returned (make_error_code eof) 5), (0, Returned success 7)] r)"
proof -
  let ?s = "run_branch range_body 0 (Returned success (7 :: nat)) (run_branch range_body 1 (Returned (make_error_code eof) 5) (launch_one (launch_one (when_all_init 2))))"
  have p: "jc_parent ?s = [Parent_Resumed]"
    by (simp add: when_all_init_def run_branch_defs body_defs)
  have "jc_log ?s = [(1, Returned (make_error_code eof) 5), (0, Returned success 7)]"
    by (simp add: when_all_init_def run_branch_defs body_defs)
  then show ?thesis using when_all_range_result [OF range_run] p by simp
qed

lemma variadic_run: "join_reach variadic_body (when_all_init 2) (run_branch variadic_body 0 (Returned success (7 :: nat)) (run_branch variadic_body 1 (Returned (make_error_code eof) 5) (launch_one (launch_one (when_all_init 2)))))"
  by (intro variadic_all.reach_branch variadic_all.reach_launch variadic_all.reach_start)
    (simp_all add: when_all_init_def run_branch_defs body_defs)

text \<open>
  The variadic overload of \<^verbatim>\<open>when_all\<close>: the parent is continued exactly once, when every branch is done, and resumed only when no branch was lost. It then rethrows
  the first exception, or returns the values of all branches, those that failed included, with the first error in the order of completion, success when
  there was none.
\<close>

theorem when_all_variadic_result:
  assumes "join_reach variadic_body (when_all_init n) s" "0 < n"
  shows "jc_parent s = (if \<exists>i < n. jc_branch s ! i \<noteq> B_Done then [] else [if jc_lost s then Parent_Abandoned else Parent_Resumed])
    \<and> (jc_launched s < n \<longrightarrow> jc_parent s = [])
    \<and> (jc_lost s \<or> first_some thrown (jc_log s) \<noteq> None \<or> first_some erred (jc_log s) \<noteq> None \<longrightarrow> jc_stop s)
    \<and> (jc_parent s = [Parent_Resumed] \<longrightarrow> (\<exists>r. when_all_variadic_finish s = Some r \<and> all_variadic_spec n (jc_log s) r))"
proof -
  note i = variadic_all.run_inv [OF assms]
  then have "jc_lost s \<or> first_some thrown (jc_log s) \<noteq> None \<or> first_some erred (jc_log s) \<noteq> None \<longrightarrow> jc_stop s"
    by (auto simp: join_ok_def join_inv_def variadic_all.recorded_def)
  with join_parent [OF i(1)] launcher_safe [OF i(1)] variadic_finish_spec [OF i] show ?thesis by blast
qed

theorem when_all_variadic_result_witness:
  "jc_parent (run_branch variadic_body 0 (Returned success (7 :: nat)) (run_branch variadic_body 1 (Returned (make_error_code eof) 5) (launch_one (launch_one (when_all_init 2))))) = [Parent_Resumed]
   \<and> (\<exists>r. when_all_variadic_finish (run_branch variadic_body 0 (Returned success (7 :: nat)) (run_branch variadic_body 1 (Returned (make_error_code eof) 5) (launch_one (launch_one (when_all_init 2))))) = Some r
        \<and> all_variadic_spec 2 [(1, Returned (make_error_code eof) 5), (0, Returned success 7)] r)"
proof -
  let ?s = "run_branch variadic_body 0 (Returned success (7 :: nat)) (run_branch variadic_body 1 (Returned (make_error_code eof) 5) (launch_one (launch_one (when_all_init 2))))"
  have p: "jc_parent ?s = [Parent_Resumed]"
    by (simp add: when_all_init_def run_branch_defs body_defs)
  have "jc_log ?s = [(1, Returned (make_error_code eof) 5), (0, Returned success 7)]"
    by (simp add: when_all_init_def run_branch_defs body_defs)
  then show ?thesis using when_all_variadic_result [OF variadic_run] p by simp
qed

text \<open>The range overload of \<^verbatim>\<open>when_all\<close> over branches without values.\<close>

theorem when_all_void_result:
  assumes "join_reach void_body (when_all_init n) s" "0 < n"
  shows "jc_parent s = (if \<exists>i < n. jc_branch s ! i \<noteq> B_Done then [] else [if jc_lost s then Parent_Abandoned else Parent_Resumed])
    \<and> (jc_lost s \<or> first_some thrown (jc_log s) \<noteq> None \<or> first_some erred (jc_log s) \<noteq> None \<longrightarrow> jc_stop s)
    \<and> when_all_void_finish s =
        (case first_some thrown (jc_log s) of
           Some e \<Rightarrow> Inl e
         | None \<Rightarrow> Inr (case first_some erred (jc_log s) of Some ec \<Rightarrow> ec | None \<Rightarrow> success))"
proof -
  note i = void_all.run_inv [OF assms]
  then have "jc_lost s \<or> first_some thrown (jc_log s) \<noteq> None \<or> first_some erred (jc_log s) \<noteq> None \<longrightarrow> jc_stop s"
    by (auto simp: join_ok_def join_inv_def void_all.recorded_def)
  with join_parent [OF i(1)] i(2) show ?thesis
    by (auto simp: when_all_void_finish_def void_all.recorded_def split: option.split)
qed

end
