(* ===== verification/When_Any.thy ===== *)
theory When_Any
  imports When_Join
begin

text \<open>
  \<^verbatim>\<open>when_any\<close> (\<^verbatim>\<open>when_any.hpp\<close>): the range overloads, with and without values, and the variadic overload. Only a branch that succeeds can win. The value of the
  winner is moved into the state of the join by the move constructor of its type, which is not part of the library: \<open>move v\<close> is the exception it throws,
  if it throws.
\<close>

record ('v, 'r) when_any_state = "'v join_core" +
  wy_has_winner :: bool
  wy_winner_index :: nat
  wy_winner_exception :: "cpp_exception option"
  wy_result :: "'r option"
  wy_last_error :: error_code
  wy_last_exception :: "cpp_exception option"

definition when_any_init :: "nat \<Rightarrow> ('v, 'r) when_any_state" where
  "when_any_init count = \<lparr>jc_remaining = count, jc_stop = False, jc_lost = False, jc_launched = 0, jc_branch = replicate count B_Running, jc_parent = [], jc_log = [],
     wy_has_winner = False, wy_winner_index = 0, wy_winner_exception = None, wy_result = None, wy_last_error = success, wy_last_exception = None\<rparr>"

section \<open>The runners\<close>

text \<open>Claims the win; whether the claim succeeded.\<close>

definition try_win :: "nat \<Rightarrow> ('v, 'r) when_any_state \<Rightarrow> bool \<times> ('v, 'r) when_any_state" where
  "try_win index s =
     (if \<not> wy_has_winner s then (True, request_stop (s\<lparr>wy_has_winner := True, wy_winner_index := index\<rparr>)) else (False, s))"

definition set_winner_exception :: "cpp_exception \<Rightarrow> ('v, 'r) when_any_state \<Rightarrow> ('v, 'r) when_any_state" where
  "set_winner_exception ep s = s\<lparr>wy_winner_exception := Some ep\<rparr>"

definition any_record_error :: "error_code \<Rightarrow> ('v, 'r) when_any_state \<Rightarrow> ('v, 'r) when_any_state" where
  "any_record_error ec s = s\<lparr>wy_last_error := ec, wy_last_exception := None\<rparr>"

definition any_record_exception :: "cpp_exception \<Rightarrow> ('v, 'r) when_any_state \<Rightarrow> ('v, 'r) when_any_state" where
  "any_record_exception ep s = s\<lparr>wy_last_exception := Some ep, wy_last_error := success\<rparr>"

text \<open>The bodies of the runners of the variadic overload, the range overload, and the range overload without values.\<close>

fun any_variadic_body :: "('v \<Rightarrow> cpp_exception option) \<Rightarrow> nat \<Rightarrow> 'v outcome \<Rightarrow> ('v, nat \<times> 'v) when_any_state \<Rightarrow> ('v, nat \<times> 'v) when_any_state" where
  "any_variadic_body move i (Returned ec v) s =
     (if \<not> failed ec
      then let (won, s) = try_win i s
           in if won then (case move v of None \<Rightarrow> s\<lparr>wy_result := Some (i, v)\<rparr> | Some e \<Rightarrow> set_winner_exception e s) else s
      else any_record_error ec s)"
| "any_variadic_body move i (Threw e) s = any_record_exception e s"
| "any_variadic_body move i Unwound s = s"

fun any_range_body :: "('v \<Rightarrow> cpp_exception option) \<Rightarrow> nat \<Rightarrow> 'v outcome \<Rightarrow> ('v, 'v) when_any_state \<Rightarrow> ('v, 'v) when_any_state" where
  "any_range_body move i (Returned ec v) s =
     (if \<not> failed ec
      then let (won, s) = try_win i s
           in if won then (case move v of None \<Rightarrow> s\<lparr>wy_result := Some v\<rparr> | Some e \<Rightarrow> set_winner_exception e s) else s
      else any_record_error ec s)"
| "any_range_body move i (Threw e) s = any_record_exception e s"
| "any_range_body move i Unwound s = s"

fun any_void_body :: "nat \<Rightarrow> unit outcome \<Rightarrow> (unit, unit) when_any_state \<Rightarrow> (unit, unit) when_any_state" where
  "any_void_body i (Returned ec v) s = (if \<not> failed ec then snd (try_win i s) else any_record_error ec s)"
| "any_void_body i (Threw e) s = any_record_exception e s"
| "any_void_body i Unwound s = s"

section \<open>The parent\<close>

text \<open>Of the variant that is returned, index 0 is \<open>Inl\<close>. An empty optional that is read is \<open>None\<close>.\<close>

definition report_failure :: "('v, 'r) when_any_state \<Rightarrow> cpp_exception + (error_code + 'w)" where
  "report_failure s = (case wy_last_exception s of Some e \<Rightarrow> Inl e | None \<Rightarrow> Inr (Inl (wy_last_error s)))"

definition any_range_finish :: "('v, 'v) when_any_state \<Rightarrow> (cpp_exception + (error_code + nat \<times> 'v)) option" where
  "any_range_finish s =
     (if wy_has_winner s
      then (case wy_winner_exception s of
              Some e \<Rightarrow> Some (Inl e)
            | None \<Rightarrow> map_option (\<lambda>v. Inr (Inr (wy_winner_index s, v))) (wy_result s))
      else Some (report_failure s))"

definition any_void_finish :: "(unit, unit) when_any_state \<Rightarrow> (cpp_exception + (error_code + nat)) option" where
  "any_void_finish s =
     (if wy_has_winner s
      then (case wy_winner_exception s of Some e \<Rightarrow> Some (Inl e) | None \<Rightarrow> Some (Inr (Inr (wy_winner_index s))))
      else Some (report_failure s))"

definition any_variadic_finish :: "('v, nat \<times> 'v) when_any_state \<Rightarrow> (cpp_exception + (error_code + nat \<times> 'v)) option" where
  "any_variadic_finish s =
     (case wy_result s of
        Some r \<Rightarrow> Some (Inr (Inr r))
      | None \<Rightarrow> (case wy_winner_exception s of Some e \<Rightarrow> Some (Inl e) | None \<Rightarrow> Some (report_failure s)))"

text \<open>The range overloads on a range without elements throw before anything is started.\<close>

definition when_any_range_start :: "nat \<Rightarrow> cpp_exception + ('v, 'r) when_any_state" where
  "when_any_range_start count =
     (if count = 0 then Inl (invalid_argument ''when_any requires at least one awaitable'') else Inr (when_any_init count))"

section \<open>What the runners of all overloads do\<close>

fun note_failure :: "'v outcome \<Rightarrow> error_code \<times> cpp_exception option \<Rightarrow> error_code \<times> cpp_exception option" where
  "note_failure (Returned ec v) f = (if failed ec then (ec, None) else f)"
| "note_failure (Threw e) f = (success, Some e)"
| "note_failure Unwound f = f"

definition won_by :: "('v, 'r) when_any_state \<Rightarrow> nat \<Rightarrow> cpp_exception + 'r option \<Rightarrow> bool" where
  "won_by s i r \<longleftrightarrow> wy_has_winner s \<and> wy_winner_index s = i \<and> jc_stop s
     \<and> (case r of Inl e \<Rightarrow> wy_winner_exception s = Some e \<and> wy_result s = None | Inr v \<Rightarrow> wy_winner_exception s = None \<and> wy_result s = v)"

definition unwon :: "('v, 'r) when_any_state \<Rightarrow> bool" where
  "unwon s \<longleftrightarrow> \<not> wy_has_winner s \<and> wy_winner_exception s = None \<and> wy_result s = None"

lemma succeeded_index: "succeeded (i, out) = Some (j, v) \<Longrightarrow> j = i"
  by (cases out) (auto split: if_splits)

lemma won_frame [simp]:
  "won_by (set_branch i q (s\<lparr>jc_log := l\<rparr>)) k r = won_by s k r" "unwon (set_branch i q (s\<lparr>jc_log := l\<rparr>)) = unwon s"
  by (simp_all add: won_by_def unwon_def set_branch_def split: sum.split)

text \<open>\<open>store i v\<close> is what the runner \<open>i\<close> leaves when it wins with \<open>v\<close>.\<close>

locale any_runner = join_body body for body :: "nat \<Rightarrow> 'v outcome \<Rightarrow> ('v, 'r) when_any_state \<Rightarrow> ('v, 'r) when_any_state" +
  fixes store :: "nat \<Rightarrow> 'v \<Rightarrow> cpp_exception + 'r option"
  assumes wins: "unwon s \<Longrightarrow> succeeded (i, out) = Some (j, v) \<Longrightarrow> won_by (body i out s) i (store i v)"
    and unwon: "unwon s \<Longrightarrow> succeeded (i, out) = None \<Longrightarrow> unwon (body i out s)"
    and won: "won_by s k r \<Longrightarrow> won_by (body i out s) k r"
    and failures: "(wy_last_error (body i out s), wy_last_exception (body i out s)) = note_failure out (wy_last_error s, wy_last_exception s)"
begin

definition recorded :: "('v, 'r) when_any_state \<Rightarrow> bool" where
  "recorded s \<longleftrightarrow> (case first_some succeeded (jc_log s) of None \<Rightarrow> unwon s | Some (i, v) \<Rightarrow> won_by s i (store i v))
     \<and> (wy_last_error s, wy_last_exception s) = fold (note_failure \<circ> snd) (jc_log s) (success, None)"

lemma recorded_ends:
  assumes "recorded s"
  shows "recorded (branch_ends (body i) i out s)"
proof -
  let ?w = "first_some succeeded (jc_log s)" and ?s = "branch_ends (body i) i out s"
  have "case first_some succeeded (jc_log ?s) of None \<Rightarrow> unwon ?s | Some (k, v) \<Rightarrow> won_by ?s k (store k v)"
  proof (cases ?w)
    case None
    then have "unwon s" using assms by (simp add: recorded_def)
    then show ?thesis using None wins [of s i out] unwon [of s i out]
      by (cases "succeeded (i, out)") (auto simp: branch_ends_def first_some_snoc set_branch_def won_by_def unwon_def dest: succeeded_index split: sum.splits)
  next
    case (Some p)
    then show ?thesis using assms won [of s "fst p" "store (fst p) (snd p)" i out]
      by (auto simp: recorded_def branch_ends_def first_some_snoc set_branch_def won_by_def split: sum.splits)
  qed
  moreover have "(wy_last_error ?s, wy_last_exception ?s) = fold (note_failure \<circ> snd) (jc_log ?s) (success, None)"
    using assms failures [of i out s] by (simp add: recorded_def branch_ends_def set_branch_def)
  ultimately show ?thesis by (simp add: recorded_def)
qed

lemma run_inv:
  assumes "join_reach body (when_any_init n) s" "0 < n"
  shows "join_ok n s" "recorded s"
proof -
  have "join_ok n s \<and> recorded s"
  proof (rule reach_induct [OF assms(1), of n recorded])
    show "join_ok n (when_any_init n)" using assms(2) by (simp add: when_any_init_def join_ok_init)
    show "recorded (when_any_init n)" by (simp add: when_any_init_def recorded_def unwon_def)
  next
    fix s i out assume "recorded s"
    then show "recorded (branch_ends (body i) i out s)" by (rule recorded_ends)
  next
    fix s t :: "('v, 'r) when_any_state"
    assume "recorded s" "jc_log t = jc_log s" "join_core.more t = join_core.more s" "jc_stop s \<Longrightarrow> jc_stop t"
    then show "recorded t"
      by (cases s; cases t) (auto simp: recorded_def won_by_def unwon_def split: option.splits sum.splits)
  qed
  then show "join_ok n s" "recorded s" by simp_all
qed

end


section \<open>The overloads\<close>

fun any_store :: "('v \<Rightarrow> cpp_exception option) \<Rightarrow> (nat \<times> 'v \<Rightarrow> 'r option) \<Rightarrow> nat \<Rightarrow> 'v \<Rightarrow> cpp_exception + 'r option" where
  "any_store move keep i v = (case move v of None \<Rightarrow> Inr (keep (i, v)) | Some e \<Rightarrow> Inl e)"

lemmas any_body_defs = try_win_def set_winner_exception_def any_record_error_def any_record_exception_def

interpretation variadic_any: any_runner "any_variadic_body move" "any_store move Some" for move :: "'v \<Rightarrow> cpp_exception option"
proof
  fix i k j :: nat and out :: "'v outcome" and s :: "('v, nat \<times> 'v) when_any_state" and r v
  let ?s = "any_variadic_body move i out s"
  show "jc_branch ?s = jc_branch s" "jc_remaining ?s = jc_remaining s" "jc_parent ?s = jc_parent s" "jc_lost ?s = jc_lost s" "jc_launched ?s = jc_launched s" "jc_stop s \<Longrightarrow> jc_stop ?s"
    "unwon s \<Longrightarrow> succeeded (i, out) = Some (j, v) \<Longrightarrow> won_by ?s i (any_store move Some i v)"
    "unwon s \<Longrightarrow> succeeded (i, out) = None \<Longrightarrow> unwon ?s" "won_by s k r \<Longrightarrow> won_by ?s k r"
    "(wy_last_error ?s, wy_last_exception ?s) = note_failure out (wy_last_error s, wy_last_exception s)"
    by (cases out; simp add: any_body_defs request_stop_def won_by_def unwon_def split: option.splits if_splits sum.splits; fail)+
qed

interpretation range_any: any_runner "any_range_body move" "any_store move (Some \<circ> snd)" for move :: "'v \<Rightarrow> cpp_exception option"
proof
  fix i k j :: nat and out :: "'v outcome" and s :: "('v, 'v) when_any_state" and r v
  let ?s = "any_range_body move i out s"
  show "jc_branch ?s = jc_branch s" "jc_remaining ?s = jc_remaining s" "jc_parent ?s = jc_parent s" "jc_lost ?s = jc_lost s" "jc_launched ?s = jc_launched s" "jc_stop s \<Longrightarrow> jc_stop ?s"
    "unwon s \<Longrightarrow> succeeded (i, out) = Some (j, v) \<Longrightarrow> won_by ?s i (any_store move (Some \<circ> snd) i v)"
    "unwon s \<Longrightarrow> succeeded (i, out) = None \<Longrightarrow> unwon ?s" "won_by s k r \<Longrightarrow> won_by ?s k r"
    "(wy_last_error ?s, wy_last_exception ?s) = note_failure out (wy_last_error s, wy_last_exception s)"
    by (cases out; simp add: any_body_defs request_stop_def won_by_def unwon_def split: option.splits if_splits sum.splits; fail)+
qed

interpretation void_any: any_runner any_void_body "any_store (\<lambda>_. None) (\<lambda>_. None)"
proof
  fix i k j :: nat and out :: "unit outcome" and s :: "(unit, unit) when_any_state" and r v
  let ?s = "any_void_body i out s"
  show "jc_branch ?s = jc_branch s" "jc_remaining ?s = jc_remaining s" "jc_parent ?s = jc_parent s" "jc_lost ?s = jc_lost s" "jc_launched ?s = jc_launched s" "jc_stop s \<Longrightarrow> jc_stop ?s"
    "unwon s \<Longrightarrow> succeeded (i, out) = Some (j, v) \<Longrightarrow> won_by ?s i (any_store (\<lambda>_. None) (\<lambda>_. None) i v)"
    "unwon s \<Longrightarrow> succeeded (i, out) = None \<Longrightarrow> unwon ?s" "won_by s k r \<Longrightarrow> won_by ?s k r"
    "(wy_last_error ?s, wy_last_exception ?s) = note_failure out (wy_last_error s, wy_last_exception s)"
    by (cases out; simp add: any_body_defs request_stop_def won_by_def unwon_def split: option.splits if_splits sum.splits; fail)+
qed

section \<open>What when_any returns\<close>

text \<open>What all overloads promise of the outcomes of their branches; \<open>wrap\<close> is what the overload returns of the winner.\<close>

definition any_spec :: "('v \<Rightarrow> cpp_exception option) \<Rightarrow> (nat \<times> 'v \<Rightarrow> 'w) \<Rightarrow> 'v log \<Rightarrow> cpp_exception + (error_code + 'w) \<Rightarrow> bool" where
  "any_spec move wrap log r \<longleftrightarrow>
     (case first_some succeeded log of
        Some (i, v) \<Rightarrow> r = (case move v of None \<Rightarrow> Inr (Inr (wrap (i, v))) | Some e \<Rightarrow> Inl e)
      | None \<Rightarrow> log \<noteq> [] \<and> ((\<exists>i ec v. last log = (i, Returned ec v) \<and> failed ec \<and> r = Inr (Inl ec)) \<or> (\<exists>i e. last log = (i, Threw e) \<and> r = Inl e)))"

lemma fold_note_failure:
  assumes "log \<noteq> []" "succeeded (last log) = None" "snd (last log) \<noteq> Unwound"
  shows "(\<exists>i ec v. last log = (i, Returned ec v) \<and> failed ec \<and> fold (note_failure \<circ> snd) log f = (ec, None))
    \<or> (\<exists>i e. last log = (i, Threw e) \<and> fold (note_failure \<circ> snd) log f = (success, Some e))"
proof -
  obtain i out where l: "last log = (i, out)" by fastforce
  then obtain xs where "log = xs @ [(i, out)]" using append_butlast_last_id [OF assms(1)] by metis
  then show ?thesis using assms(2,3) l by (cases out) (auto split: if_splits)
qed

lemma resumed_no_unwound:
  assumes "join_ok n s" "jc_parent s = [Parent_Resumed]" "0 < n"
  shows "jc_log s \<noteq> []" "\<And>x. x \<in> set (jc_log s) \<Longrightarrow> snd x \<noteq> Unwound"
proof -
  show "jc_log s \<noteq> []" using resumed_log [OF assms] by fastforce
  fix x assume x: "x \<in> set (jc_log s)"
  have d: "distinct (map fst (jc_log s))" and "fst x < n" using assms(1) x by (auto simp: join_ok_def logged_def)
  then obtain out where "map_of (jc_log s) (fst x) = Some out" "out \<noteq> Unwound" using resumed_log [OF assms(1,2)] by metis
  moreover have "map_of (jc_log s) (fst x) = Some (snd x)" using d x by simp
  ultimately show "snd x \<noteq> Unwound" by simp
qed

lemma failure_spec:
  assumes "join_ok n s" "jc_parent s = [Parent_Resumed]" "0 < n" "first_some succeeded (jc_log s) = None"
    and "(wy_last_error s, wy_last_exception s) = fold (note_failure \<circ> snd) (jc_log s) (success, None)"
  shows "any_spec move wrap (jc_log s) (report_failure s)"
proof -
  have l: "jc_log s \<noteq> []" "succeeded (last (jc_log s)) = None" "snd (last (jc_log s)) \<noteq> Unwound"
    using resumed_no_unwound [OF assms(1-3)] assms(4) by (simp_all add: first_some_None)
  show ?thesis using fold_note_failure [OF l, of "(success, None)"] l(1) assms(4,5)
    by (auto simp: any_spec_def report_failure_def)
qed


lemma range_any_finish:
  assumes "join_ok n s" "range_any.recorded move s" "jc_parent s = [Parent_Resumed]" "0 < n"
  shows "\<exists>r. any_range_finish s = Some r \<and> any_spec move (\<lambda>w. w) (jc_log s) r"
proof (cases "first_some succeeded (jc_log s)")
  case None
  have f: "(wy_last_error s, wy_last_exception s) = fold (note_failure \<circ> snd) (jc_log s) (success, None)"
    using assms(2) by (simp add: range_any.recorded_def)
  show ?thesis using failure_spec [OF assms(1,3,4) None f] None assms(2)
    by (auto simp: any_range_finish_def range_any.recorded_def unwon_def)
next
  case (Some p)
  then show ?thesis using assms(2)
    by (cases p) (auto simp: any_range_finish_def range_any.recorded_def won_by_def any_spec_def split: option.splits)
qed

lemma variadic_any_finish:
  assumes "join_ok n s" "variadic_any.recorded move s" "jc_parent s = [Parent_Resumed]" "0 < n"
  shows "\<exists>r. any_variadic_finish s = Some r \<and> any_spec move (\<lambda>w. w) (jc_log s) r"
proof (cases "first_some succeeded (jc_log s)")
  case None
  have f: "(wy_last_error s, wy_last_exception s) = fold (note_failure \<circ> snd) (jc_log s) (success, None)"
    using assms(2) by (simp add: variadic_any.recorded_def)
  show ?thesis using failure_spec [OF assms(1,3,4) None f] None assms(2)
    by (auto simp: any_variadic_finish_def variadic_any.recorded_def unwon_def)
next
  case (Some p)
  then show ?thesis using assms(2)
    by (cases p) (auto simp: any_variadic_finish_def variadic_any.recorded_def won_by_def any_spec_def split: option.splits)
qed

lemma void_any_finish:
  assumes "join_ok n s" "void_any.recorded s" "jc_parent s = [Parent_Resumed]" "0 < n"
  shows "\<exists>r. any_void_finish s = Some r \<and> any_spec (\<lambda>_. None) fst (jc_log s) r"
proof (cases "first_some succeeded (jc_log s)")
  case None
  have f: "(wy_last_error s, wy_last_exception s) = fold (note_failure \<circ> snd) (jc_log s) (success, None)"
    using assms(2) by (simp add: void_any.recorded_def)
  show ?thesis using failure_spec [OF assms(1,3,4) None f] None assms(2)
    by (auto simp: any_void_finish_def void_any.recorded_def unwon_def)
next
  case (Some p)
  then show ?thesis using assms(2)
    by (cases p) (auto simp: any_void_finish_def void_any.recorded_def won_by_def any_spec_def split: option.splits)
qed

lemma any_range_run: "join_reach (any_range_body (\<lambda>_. None)) (when_any_init 2) (run_branch (any_range_body (\<lambda>_. None)) 0 (Returned success (7 :: nat)) (run_branch (any_range_body (\<lambda>_. None)) 1 (Returned (make_error_code eof) 5) (launch_one (launch_one (when_any_init 2)))))"
  by (intro range_any.reach_branch range_any.reach_launch range_any.reach_start) (simp_all add: when_any_init_def run_branch_defs any_body_defs)

text \<open>
  C10. The range overload of \<^verbatim>\<open>when_any\<close>, whatever the order in which its branches end, are lost or unwind: the parent is continued exactly once, when every branch is
  done, abandoned when a branch was lost and resumed otherwise. A success and a loss request stop of the others. The parent that is resumed finds the value it reads:
  when a branch succeeded it returns the index and the value of the first that did, or rethrows the exception thrown by moving that value; when none did it reports
  the failure of the branch that ended last, its error or its exception.
\<close>

theorem when_any_range_result:
  assumes "join_reach (any_range_body move) (when_any_init n) s" "0 < n"
  shows "jc_parent s = (if \<exists>i < n. jc_branch s ! i \<noteq> B_Done then [] else [if jc_lost s then Parent_Abandoned else Parent_Resumed])
    \<and> (jc_launched s < n \<longrightarrow> jc_parent s = [])
    \<and> (jc_lost s \<or> first_some succeeded (jc_log s) \<noteq> None \<longrightarrow> jc_stop s)
    \<and> (jc_parent s = [Parent_Resumed] \<longrightarrow> (\<exists>r. any_range_finish s = Some r \<and> any_spec move (\<lambda>w. w) (jc_log s) r))"
proof -
  note i = range_any.run_inv [OF assms]
  then have "jc_lost s \<or> first_some succeeded (jc_log s) \<noteq> None \<longrightarrow> jc_stop s"
    by (auto simp: join_ok_def join_inv_def range_any.recorded_def won_by_def split: option.splits)
  with join_parent [OF i(1)] launcher_safe [OF i(1)] range_any_finish [OF i _ assms(2)] show ?thesis by blast
qed

theorem when_any_range_result_witness:
  "\<exists>s r. jc_parent s = [Parent_Resumed] \<and> jc_stop s \<and> jc_log s = [(1, Returned (make_error_code eof) 5), (0, Returned success (7 :: nat))]
     \<and> any_range_finish s = Some r \<and> any_spec (\<lambda>_. None) (\<lambda>w. w) (jc_log s) r"
proof -
  let ?s = "run_branch (any_range_body (\<lambda>_. None)) 0 (Returned success (7 :: nat)) (run_branch (any_range_body (\<lambda>_. None)) 1 (Returned (make_error_code eof) 5) (launch_one (launch_one (when_any_init 2))))"
  have l: "jc_log ?s = [(1, Returned (make_error_code eof) 5), (0, Returned success 7)]" "jc_parent ?s = [Parent_Resumed]" "jc_stop ?s"
    by (simp_all add: when_any_init_def run_branch_defs any_body_defs)
  have "\<exists>r. any_range_finish ?s = Some r \<and> any_spec (\<lambda>_. None) (\<lambda>w. w) (jc_log ?s) r"
    using when_any_range_result [OF any_range_run] l(2) by (metis zero_less_numeral)
  with l show ?thesis by blast
qed

lemma any_variadic_run: "join_reach (any_variadic_body (\<lambda>_. None)) (when_any_init 2) (run_branch (any_variadic_body (\<lambda>_. None)) 0 (Returned success (7 :: nat)) (run_branch (any_variadic_body (\<lambda>_. None)) 1 (Returned (make_error_code eof) 5) (launch_one (launch_one (when_any_init 2)))))"
  by (intro variadic_any.reach_branch variadic_any.reach_launch variadic_any.reach_start) (simp_all add: when_any_init_def run_branch_defs any_body_defs)

text \<open>
  The variadic overload of \<^verbatim>\<open>when_any\<close> makes the same promise, with the alternative of the variant that holds the value as the index of the winner.
\<close>

theorem when_any_variadic_result:
  assumes "join_reach (any_variadic_body move) (when_any_init n) s" "0 < n"
  shows "jc_parent s = (if \<exists>i < n. jc_branch s ! i \<noteq> B_Done then [] else [if jc_lost s then Parent_Abandoned else Parent_Resumed])
    \<and> (jc_launched s < n \<longrightarrow> jc_parent s = [])
    \<and> (jc_lost s \<or> first_some succeeded (jc_log s) \<noteq> None \<longrightarrow> jc_stop s)
    \<and> (jc_parent s = [Parent_Resumed] \<longrightarrow> (\<exists>r. any_variadic_finish s = Some r \<and> any_spec move (\<lambda>w. w) (jc_log s) r))"
proof -
  note i = variadic_any.run_inv [OF assms]
  then have "jc_lost s \<or> first_some succeeded (jc_log s) \<noteq> None \<longrightarrow> jc_stop s"
    by (auto simp: join_ok_def join_inv_def variadic_any.recorded_def won_by_def split: option.splits)
  with join_parent [OF i(1)] launcher_safe [OF i(1)] variadic_any_finish [OF i _ assms(2)] show ?thesis by blast
qed

theorem when_any_variadic_result_witness:
  "\<exists>s r. jc_parent s = [Parent_Resumed] \<and> jc_stop s \<and> jc_log s = [(1, Returned (make_error_code eof) 5), (0, Returned success (7 :: nat))]
     \<and> any_variadic_finish s = Some r \<and> any_spec (\<lambda>_. None) (\<lambda>w. w) (jc_log s) r"
proof -
  let ?s = "run_branch (any_variadic_body (\<lambda>_. None)) 0 (Returned success (7 :: nat)) (run_branch (any_variadic_body (\<lambda>_. None)) 1 (Returned (make_error_code eof) 5) (launch_one (launch_one (when_any_init 2))))"
  have l: "jc_log ?s = [(1, Returned (make_error_code eof) 5), (0, Returned success 7)]" "jc_parent ?s = [Parent_Resumed]" "jc_stop ?s"
    by (simp_all add: when_any_init_def run_branch_defs any_body_defs)
  have "\<exists>r. any_variadic_finish ?s = Some r \<and> any_spec (\<lambda>_. None) (\<lambda>w. w) (jc_log ?s) r"
    using when_any_variadic_result [OF any_variadic_run] l(2) by (metis zero_less_numeral)
  with l show ?thesis by blast
qed

text \<open>
  The range overload over branches without values.
\<close>

theorem when_any_void_result:
  assumes "join_reach any_void_body (when_any_init n) s" "0 < n"
  shows "jc_parent s = (if \<exists>i < n. jc_branch s ! i \<noteq> B_Done then [] else [if jc_lost s then Parent_Abandoned else Parent_Resumed])
    \<and> (jc_launched s < n \<longrightarrow> jc_parent s = [])
    \<and> (jc_lost s \<or> first_some succeeded (jc_log s) \<noteq> None \<longrightarrow> jc_stop s)
    \<and> (jc_parent s = [Parent_Resumed] \<longrightarrow> (\<exists>r. any_void_finish s = Some r \<and> any_spec (\<lambda>_. None) fst (jc_log s) r))"
proof -
  note i = void_any.run_inv [OF assms]
  then have "jc_lost s \<or> first_some succeeded (jc_log s) \<noteq> None \<longrightarrow> jc_stop s"
    by (auto simp: join_ok_def join_inv_def void_any.recorded_def won_by_def split: option.splits)
  with join_parent [OF i(1)] launcher_safe [OF i(1)] void_any_finish [OF i _ assms(2)] show ?thesis by blast
qed

end
