(* ===== verification/Task_Chain.thy ===== *)
theory Task_Chain
  imports Errors
begin

text \<open>
  The coroutine types \<^verbatim>\<open>task\<close> (\<^verbatim>\<open>task.hpp\<close>) and \<^verbatim>\<open>quitter\<close> (\<^verbatim>\<open>quitter.hpp\<close>) and what starts them, \<^verbatim>\<open>run_async\<close> (\<^verbatim>\<open>ex/run_async.hpp\<close>, \<^verbatim>\<open>detail/run_callbacks.hpp\<close>)
  and \<^verbatim>\<open>run\<close> without an executor (\<^verbatim>\<open>ex/run.hpp\<close>). A coroutine body is a tree: it returns, throws, awaits an operation, or awaits another coroutine; what
  it does next is a function of what the \<^verbatim>\<open>co_await\<close> returned or threw. A machine of frames with their promises, linked by the continuations the awaiters store,
  runs the body the way the language's coroutine transformation does: the awaiters of the initial and the final suspend point, the awaiter that each
  \<^verbatim>\<open>co_await\<close> is transformed to, \<^verbatim>\<open>return_value\<close>, \<^verbatim>\<open>unhandled_exception\<close>, and the destruction of frames.
\<close>

section \<open>Bodies\<close>

datatype task_kind = Task | Quitter

text \<open>The stop token and the allocator given to \<^verbatim>\<open>run\<close>, where they are given.\<close>

record run_opts =
  ro_token :: "nat option"
  ro_allocator :: "nat option"

text \<open>A child is awaited directly (\<open>None\<close>) or through \<^verbatim>\<open>run\<close>.\<close>

datatype 'v coro =
    Co_Return 'v
  | Co_Throw cpp_exception
  | Co_Await_Op nat "cpp_exception + 'v \<Rightarrow> 'v coro"
  | Co_Await_Task "run_opts option" task_kind "'v coro" "cpp_exception + 'v \<Rightarrow> 'v coro"

section \<open>Frames and the machine\<close>

text \<open>The part of \<^verbatim>\<open>await_context\<close> that a chain on one executor distinguishes.\<close>

record await_context =
  ac_token :: nat
  ac_allocator :: nat

datatype cont = Noop | To nat | To_Trampoline

datatype 'v suspended =
    At_Start "'v coro"
  | At_Op nat "cpp_exception + 'v \<Rightarrow> 'v coro"
  | At_Child nat "cpp_exception + 'v \<Rightarrow> 'v coro"
  | At_Final
  | Active

text \<open>
  A promise, with the flag \<^verbatim>\<open>lent_\<close> of the task that owns the frame, where the body stands, and the memory resource the frame came from.
\<close>

record 'v frame =
  fr_kind :: task_kind
  fr_cont :: cont
  fr_env :: "await_context option"
  fr_result :: "'v option"
  fr_ep :: "cpp_exception option"
  fr_stopped :: bool
  fr_lent :: bool
  fr_at :: "'v suspended"
  fr_mr :: nat

datatype 'v control = Exec nat "'v coro" | Resuming nat | Resuming_Trampoline | Idle

datatype handlers = Default_Handler | Handler_Pair_Default bool | Handler_Pair

datatype 'v handled = H1_Value 'v | H1_Exception cpp_exception | H2_Exception cpp_exception

text \<open>
  The frames, what the thread that runs the chain is doing and its thread-local frame allocator, the stop tokens with a request, the promise of the trampoline
  (\<open>mc_task\<close> is \<^verbatim>\<open>task_h_\<close>, \<open>mc_work\<close> its work guard, \<open>mc_abandoned\<close> its owner's mark), the calls of handlers, and whether \<^verbatim>\<open>std::terminate\<close> was called.
\<close>

record 'v machine =
  mc_frames :: "nat \<rightharpoonup> 'v frame"
  mc_next :: nat
  mc_control :: "'v control"
  mc_tls :: nat
  mc_stop :: "nat \<Rightarrow> bool"
  mc_task :: "nat option"
  mc_trampoline :: bool
  mc_work :: bool
  mc_abandoned :: bool
  mc_handlers :: handlers
  mc_log :: "'v handled list"
  mc_terminated :: bool

section \<open>Promises and awaiters\<close>

definition new_frame :: "task_kind \<Rightarrow> 'v coro \<Rightarrow> nat \<Rightarrow> 'v frame" where
  "new_frame kind body mr = \<lparr>fr_kind = kind, fr_cont = Noop, fr_env = None, fr_result = None, fr_ep = None, fr_stopped = False, fr_lent = False,
     fr_at = At_Start body, fr_mr = mr\<rparr>"

definition set_continuation :: "cont \<Rightarrow> 'v frame \<Rightarrow> 'v frame" where
  "set_continuation c f = f\<lparr>fr_cont := c\<rparr>"

definition set_environment :: "await_context \<Rightarrow> 'v frame \<Rightarrow> 'v frame" where
  "set_environment e f = f\<lparr>fr_env := Some e\<rparr>"

text \<open>\<^verbatim>\<open>await_suspend\<close> of a task or a quitter.\<close>

definition task_await_suspend :: "cont \<Rightarrow> await_context \<Rightarrow> 'v frame \<Rightarrow> 'v frame" where
  "task_await_suspend c e f = (set_environment e (set_continuation c f))\<lparr>fr_lent := True\<rparr>"

text \<open>The environment that \<^verbatim>\<open>run_awaitable\<close> makes for its task.\<close>

definition run_env :: "run_opts option \<Rightarrow> await_context \<Rightarrow> await_context" where
  "run_env opts e =
     (case opts of
        None \<Rightarrow> e
      | Some o' \<Rightarrow> \<lparr>ac_token = (case ro_token o' of None \<Rightarrow> ac_token e | Some t \<Rightarrow> t),
                  ac_allocator = (case ro_allocator o' of None \<Rightarrow> ac_allocator e | Some a \<Rightarrow> a)\<rparr>)"

text \<open>The allocator in force while the argument of \<^verbatim>\<open>run\<close> is evaluated, and so the frame made.\<close>

definition run_wrapper_tls :: "run_opts option \<Rightarrow> nat \<Rightarrow> nat" where
  "run_wrapper_tls opts tls = (case opts of None \<Rightarrow> tls | Some o' \<Rightarrow> (case ro_allocator o' of None \<Rightarrow> tls | Some a \<Rightarrow> a))"

text \<open>The result of a finished child; an empty optional that is read is \<open>None\<close>.\<close>

definition task_await_resume :: "'v frame \<Rightarrow> (cpp_exception + 'v) option" where
  "task_await_resume f =
     (case fr_kind f of
        Task \<Rightarrow> (case fr_ep f of Some e \<Rightarrow> Some (Inl e) | None \<Rightarrow> map_option Inr (fr_result f))
      | Quitter \<Rightarrow>
          if fr_stopped f then Some (Inl stop_requested_exception)
          else (case fr_ep f of Some e \<Rightarrow> Some (Inl e) | None \<Rightarrow> map_option Inr (fr_result f)))"

definition return_value :: "'v \<Rightarrow> 'v frame \<Rightarrow> 'v frame" where
  "return_value v f = f\<lparr>fr_result := Some v\<rparr>"

definition task_unhandled_exception :: "cpp_exception \<Rightarrow> 'v frame \<Rightarrow> 'v frame" where
  "task_unhandled_exception e f =
     (case fr_kind f of
        Task \<Rightarrow> f\<lparr>fr_ep := Some e\<rparr>
      | Quitter \<Rightarrow> if e = stop_requested_exception then f\<lparr>fr_ep := Some e, fr_stopped := True\<rparr> else f\<lparr>fr_ep := Some e\<rparr>)"

text \<open>Whether resuming a body throws instead: a quitter looks at its stop token first.\<close>

definition quits :: "(nat \<Rightarrow> bool) \<Rightarrow> await_context \<Rightarrow> task_kind \<Rightarrow> bool" where
  "quits stop e kind \<longleftrightarrow> kind = Quitter \<and> stop (ac_token e)"

section \<open>The machine\<close>

definition transfer :: "cont \<Rightarrow> 'v control" where
  "transfer c = (case c of Noop \<Rightarrow> Idle | To h \<Rightarrow> Resuming h | To_Trampoline \<Rightarrow> Resuming_Trampoline)"

definition put_frame :: "nat \<Rightarrow> 'v frame \<Rightarrow> 'v machine \<Rightarrow> 'v machine" where
  "put_frame h f s = s\<lparr>mc_frames := (mc_frames s)(h \<mapsto> f)\<rparr>"

text \<open>The body of a frame goes on: the awaiter restores the frame allocator of the environment first.\<close>

definition enter :: "nat \<Rightarrow> 'v frame \<Rightarrow> 'v coro \<Rightarrow> 'v machine \<Rightarrow> 'v machine" where
  "enter h f b s = (put_frame h (f\<lparr>fr_at := Active\<rparr>) s)\<lparr>mc_tls := ac_allocator (the (fr_env f)), mc_control := Exec h b\<rparr>"

definition initial_resume :: "nat \<Rightarrow> 'v frame \<Rightarrow> 'v coro \<Rightarrow> 'v machine \<Rightarrow> 'v machine" where
  "initial_resume h f b s = enter h f (if quits (mc_stop s) (the (fr_env f)) (fr_kind f) then Co_Throw stop_requested_exception else b) s"

definition transform_resume :: "nat \<Rightarrow> 'v frame \<Rightarrow> (cpp_exception + 'v \<Rightarrow> 'v coro) \<Rightarrow> cpp_exception + 'v \<Rightarrow> 'v machine \<Rightarrow> 'v machine" where
  "transform_resume h f k r s = enter h f (k (if quits (mc_stop s) (the (fr_env f)) (fr_kind f) then Inl stop_requested_exception else r)) s"

text \<open>The final suspend point: the continuation is taken out of the promise and resumed.\<close>

definition task_final_suspend :: "nat \<Rightarrow> 'v frame \<Rightarrow> 'v machine \<Rightarrow> 'v machine" where
  "task_final_suspend h f s = (put_frame h (f\<lparr>fr_cont := Noop, fr_at := At_Final\<rparr>) s)\<lparr>mc_control := transfer (fr_cont f)\<rparr>"

definition co_suspend_op :: "nat \<Rightarrow> 'v frame \<Rightarrow> nat \<Rightarrow> (cpp_exception + 'v \<Rightarrow> 'v coro) \<Rightarrow> 'v machine \<Rightarrow> 'v machine" where
  "co_suspend_op h f op k s = (put_frame h (f\<lparr>fr_at := At_Op op k\<rparr>) s)\<lparr>mc_control := Idle\<rparr>"

text \<open>A child is made and awaited: its frame comes from the thread-local allocator, and control goes to it.\<close>

definition co_await_task :: "nat \<Rightarrow> 'v frame \<Rightarrow> run_opts option \<Rightarrow> task_kind \<Rightarrow> 'v coro \<Rightarrow> (cpp_exception + 'v \<Rightarrow> 'v coro) \<Rightarrow> 'v machine \<Rightarrow> 'v machine" where
  "co_await_task h f opts kind b k s =
     (let c = mc_next s;
          g = task_await_suspend (To h) (run_env opts (the (fr_env f))) (new_frame kind b (run_wrapper_tls opts (mc_tls s)))
      in (put_frame c g (put_frame h (f\<lparr>fr_at := At_Child c k\<rparr>) s))\<lparr>mc_next := c + 1, mc_control := Resuming c\<rparr>)"

text \<open>
  Destroying the frame of a coroutine destroys the child it awaits; a child that is still awaited may only go when the chain is abandoned. \<open>n\<close> bounds the length of
  the chain.
\<close>

fun destroy_coro :: "nat \<Rightarrow> nat \<Rightarrow> 'v machine \<Rightarrow> 'v machine" and task_destroy :: "nat \<Rightarrow> nat \<Rightarrow> 'v machine \<Rightarrow> 'v machine" where
  "destroy_coro 0 h s = s"
| "destroy_coro (Suc n) h s =
     (case mc_frames s h of
        None \<Rightarrow> s
      | Some f \<Rightarrow>
          let s = (case fr_at f of At_Child c k \<Rightarrow> task_destroy n c s | _ \<Rightarrow> s)
          in s\<lparr>mc_frames := (mc_frames s)(h := None)\<rparr>)"
| "task_destroy n h s =
     (case mc_frames s h of
        None \<Rightarrow> s
      | Some f \<Rightarrow>
          let s = (if fr_lent f \<and> (case fr_at f of At_Final \<Rightarrow> False | _ \<Rightarrow> True) \<and> \<not> mc_abandoned s then s\<lparr>mc_terminated := True\<rparr> else s)
          in destroy_coro n h s)"

text \<open>The awaiting frame is resumed: it takes the result of the child and destroys it.\<close>

definition child_resume :: "nat \<Rightarrow> 'v frame \<Rightarrow> nat \<Rightarrow> 'v frame \<Rightarrow> (cpp_exception + 'v \<Rightarrow> 'v coro) \<Rightarrow> cpp_exception + 'v \<Rightarrow> 'v machine \<Rightarrow> 'v machine" where
  "child_resume h f c g k r s =
     (let taken = put_frame c (g\<lparr>fr_lent := (fr_lent g \<and> quits (mc_stop s) (the (fr_env f)) (fr_kind f))\<rparr>) s
      in transform_resume h f k r (task_destroy (mc_next s) c taken))"

section \<open>run_async\<close>

text \<open>
  What a call of a handler does: the calls of the handlers of the caller, and whether an exception leaves the handler, which the trampoline answers with
  \<^verbatim>\<open>std::terminate\<close>. The handlers of the caller return. \<open>Handler_Pair_Default b\<close> is one handler of the caller, which takes exceptions itself when \<open>b\<close>.
\<close>

definition default_handler_ep :: "cpp_exception \<Rightarrow> 'v handled list \<times> bool" where
  "default_handler_ep e = ([], e \<noteq> stop_requested_exception)"

fun call_value :: "handlers \<Rightarrow> 'v \<Rightarrow> 'v handled list \<times> bool" where
  "call_value Default_Handler v = ([], False)"
| "call_value (Handler_Pair_Default b) v = ([H1_Value v], False)"
| "call_value Handler_Pair v = ([H1_Value v], False)"

fun call_exception :: "handlers \<Rightarrow> cpp_exception \<Rightarrow> 'v handled list \<times> bool" where
  "call_exception Default_Handler e = default_handler_ep e"
| "call_exception (Handler_Pair_Default b) e = (if b then ([H1_Exception e], False) else default_handler_ep e)"
| "call_exception Handler_Pair e = ([H2_Exception e], False)"

text \<open>The call of the handlers with what the promise holds; an empty optional that is read is \<open>None\<close>.\<close>

definition invoke_impl :: "handlers \<Rightarrow> 'v frame \<Rightarrow> ('v handled list \<times> bool) option" where
  "invoke_impl hs f =
     (case fr_ep f of
        Some e \<Rightarrow> Some (call_exception hs e)
      | None \<Rightarrow> map_option (call_value hs) (fr_result f))"

text \<open>
  The body of the trampoline once it is resumed, up to the destruction of its own frame with the work guard. Reading an empty result counts as termination.
\<close>

definition trampoline_body :: "'v machine \<Rightarrow> 'v machine" where
  "trampoline_body s =
     (case mc_task s of
        None \<Rightarrow> s\<lparr>mc_control := Idle\<rparr>
      | Some h \<Rightarrow>
          let (calls, bad) =
                (if mc_abandoned s then ([], False)
                 else case mc_frames s h of
                        None \<Rightarrow> ([], True)
                      | Some f \<Rightarrow> (case invoke_impl (mc_handlers s) f of None \<Rightarrow> ([], True) | Some r \<Rightarrow> r));
              s = destroy_coro (mc_next s) h (s\<lparr>mc_log := mc_log s @ calls, mc_terminated := (mc_terminated s \<or> bad)\<rparr>)
          in s\<lparr>mc_task := None, mc_trampoline := False, mc_work := False, mc_control := Idle\<rparr>)"

text \<open>The trampoline is destroyed instead of resumed: by a closed executor, or by the wrapper when the executor refused the task.\<close>

definition trampoline_destroy :: "'v machine \<Rightarrow> 'v machine" where
  "trampoline_destroy s =
     (let s = (case mc_task s of None \<Rightarrow> s | Some h \<Rightarrow> destroy_coro (mc_next s) h s)
      in s\<lparr>mc_task := None, mc_trampoline := False, mc_work := False, mc_control := Idle\<rparr>)"

text \<open>
  \<^verbatim>\<open>run_async(ex, st, mr, handlers)(task)\<close>: the task's frame is made with the allocator of the wrapper in force, linked to the trampoline and dispatched; the
  executor either has the caller resume it (\<open>inline\<close>) or queues it.
\<close>

definition run_async_start :: "handlers \<Rightarrow> nat \<Rightarrow> nat \<Rightarrow> task_kind \<Rightarrow> 'v coro \<Rightarrow> (nat \<Rightarrow> bool) \<Rightarrow> bool \<Rightarrow> 'v machine" where
  "run_async_start hs token mr kind body stop inline =
     \<lparr>mc_frames = [0 \<mapsto> set_environment \<lparr>ac_token = token, ac_allocator = mr\<rparr> (set_continuation To_Trampoline (new_frame kind body mr))],
      mc_next = 1, mc_control = (if inline then Resuming 0 else Idle), mc_tls = mr, mc_stop = stop, mc_task = Some 0, mc_trampoline = True,
      mc_work = True, mc_abandoned = False, mc_handlers = hs, mc_log = [], mc_terminated = False\<rparr>"

section \<open>Runs\<close>

text \<open>
  \<open>res\<close> is what each operation gives. An operation may be ready at once or suspend the chain; the thread that resumes the chain has any frame allocator \<open>x\<close>.
\<close>

inductive co_step :: "(nat \<Rightarrow> cpp_exception + 'v) \<Rightarrow> 'v machine \<Rightarrow> 'v machine \<Rightarrow> bool" for res where
  starts: "\<lbrakk>mc_control s = Idle; mc_frames s h = Some f; fr_at f = At_Start b\<rbrakk> \<Longrightarrow> co_step res s (s\<lparr>mc_tls := x, mc_control := Resuming h\<rparr>)"
| begins: "\<lbrakk>mc_control s = Resuming h; mc_frames s h = Some f; fr_at f = At_Start b\<rbrakk> \<Longrightarrow> co_step res s (initial_resume h f b s)"
| ready: "\<lbrakk>mc_control s = Exec h (Co_Await_Op op k); mc_frames s h = Some f\<rbrakk> \<Longrightarrow> co_step res s (transform_resume h f k (res op) s)"
| suspends: "\<lbrakk>mc_control s = Exec h (Co_Await_Op op k); mc_frames s h = Some f\<rbrakk> \<Longrightarrow> co_step res s (co_suspend_op h f op k s)"
| completes: "\<lbrakk>mc_control s = Idle; mc_frames s h = Some f; fr_at f = At_Op op k\<rbrakk> \<Longrightarrow> co_step res s (transform_resume h f k (res op) (s\<lparr>mc_tls := x\<rparr>))"
| calls: "\<lbrakk>mc_control s = Exec h (Co_Await_Task opts kind b k); mc_frames s h = Some f\<rbrakk> \<Longrightarrow> co_step res s (co_await_task h f opts kind b k s)"
| child_done: "\<lbrakk>mc_control s = Resuming h; mc_frames s h = Some f; fr_at f = At_Child c k; mc_frames s c = Some g; task_await_resume g = Some r\<rbrakk>
    \<Longrightarrow> co_step res s (child_resume h f c g k r s)"
| returns: "\<lbrakk>mc_control s = Exec h (Co_Return v); mc_frames s h = Some f\<rbrakk> \<Longrightarrow> co_step res s (task_final_suspend h (return_value v f) s)"
| throws: "\<lbrakk>mc_control s = Exec h (Co_Throw e); mc_frames s h = Some f\<rbrakk> \<Longrightarrow> co_step res s (task_final_suspend h (task_unhandled_exception e f) s)"
| trampoline: "mc_control s = Resuming_Trampoline \<Longrightarrow> co_step res s (trampoline_body s)"

inductive co_run :: "(nat \<Rightarrow> cpp_exception + 'v) \<Rightarrow> 'v machine \<Rightarrow> 'v machine \<Rightarrow> bool" for res s0 where
  start: "co_run res s0 s0"
| step: "co_run res s0 s \<Longrightarrow> co_step res s s' \<Longrightarrow> co_run res s0 s'"

text \<open>Runs during which stop requests arrive.\<close>

inductive co_reach :: "(nat \<Rightarrow> cpp_exception + 'v) \<Rightarrow> 'v machine \<Rightarrow> 'v machine \<Rightarrow> bool" for res s0 where
  start: "co_reach res s0 s0"
| step: "co_reach res s0 s \<Longrightarrow> co_step res s s' \<Longrightarrow> co_reach res s0 s'"
| stops: "co_reach res s0 s \<Longrightarrow> co_reach res s0 (s\<lparr>mc_stop := (mc_stop s)(t := True)\<rparr>)"

section \<open>What a chain computes\<close>

text \<open>The reference: a body evaluated in direct style, with the stop requests fixed.\<close>

primrec co_eval :: "(nat \<Rightarrow> cpp_exception + 'v) \<Rightarrow> (nat \<Rightarrow> bool) \<Rightarrow> 'v coro \<Rightarrow> await_context \<Rightarrow> task_kind \<Rightarrow> cpp_exception + 'v" where
  "co_eval res stop (Co_Return v) e kind = Inr v"
| "co_eval res stop (Co_Throw x) e kind = Inl x"
| "co_eval res stop (Co_Await_Op op k) e kind =
     co_eval res stop (k (if quits stop e kind then Inl stop_requested_exception else res op)) e kind"
| "co_eval res stop (Co_Await_Task opts kind' b k) e kind =
     (let e' = run_env opts e;
          r = (if quits stop e' kind' then Inl stop_requested_exception else co_eval res stop b e' kind')
      in co_eval res stop (k (if quits stop e kind then Inl stop_requested_exception else r)) e kind)"

definition co_start :: "(nat \<Rightarrow> cpp_exception + 'v) \<Rightarrow> (nat \<Rightarrow> bool) \<Rightarrow> 'v coro \<Rightarrow> await_context \<Rightarrow> task_kind \<Rightarrow> cpp_exception + 'v" where
  "co_start res stop b e kind = (if quits stop e kind then Inl stop_requested_exception else co_eval res stop b e kind)"

text \<open>The calls of handlers that a result asks for.\<close>

definition deliver :: "handlers \<Rightarrow> cpp_exception + 'v \<Rightarrow> 'v handled list \<times> bool" where
  "deliver hs r = (case r of Inl e \<Rightarrow> call_exception hs e | Inr v \<Rightarrow> call_value hs v)"

section \<open>The chain as a stack\<close>

text \<open>
  The abstract machine: no frames and no pointers, only the coroutine that runs and, for each coroutine that waits below it, its environment, its kind
  and what it does next.
\<close>

type_synonym 'v waiting = "(await_context \<times> task_kind \<times> (cpp_exception + 'v \<Rightarrow> 'v coro)) list"

datatype 'v config =
    A_Queued await_context task_kind "'v coro" "'v waiting"
  | A_Start await_context task_kind "'v coro" "'v waiting"
  | A_Exec await_context task_kind "'v coro" "'v waiting"
  | A_Wait await_context task_kind nat "cpp_exception + 'v \<Rightarrow> 'v coro" "'v waiting"
  | A_Ret "cpp_exception + 'v" "'v waiting"
  | A_Done "cpp_exception + 'v"

abbreviation seen :: "(nat \<Rightarrow> bool) \<Rightarrow> await_context \<Rightarrow> task_kind \<Rightarrow> cpp_exception + 'v \<Rightarrow> cpp_exception + 'v" where
  "seen stop e kind r \<equiv> (if quits stop e kind then Inl stop_requested_exception else r)"

inductive a_step :: "(nat \<Rightarrow> cpp_exception + 'v) \<Rightarrow> (nat \<Rightarrow> bool) \<Rightarrow> 'v config \<Rightarrow> 'v config \<Rightarrow> bool" for res stop where
  "a_step res stop (A_Queued e kind b st) (A_Start e kind b st)"
| "a_step res stop (A_Start e kind b st) (A_Exec e kind (if quits stop e kind then Co_Throw stop_requested_exception else b) st)"
| "a_step res stop (A_Exec e kind (Co_Await_Op op k) st) (A_Exec e kind (k (seen stop e kind (res op))) st)"
| "a_step res stop (A_Exec e kind (Co_Await_Op op k) st) (A_Wait e kind op k st)"
| "a_step res stop (A_Wait e kind op k st) (A_Exec e kind (k (seen stop e kind (res op))) st)"
| "a_step res stop (A_Exec e kind (Co_Await_Task opts kind' b k) st) (A_Start (run_env opts e) kind' b ((e, kind, k) # st))"
| "a_step res stop (A_Exec e kind (Co_Return v) st) (A_Ret (Inr v) st)"
| "a_step res stop (A_Exec e kind (Co_Throw x) st) (A_Ret (Inl x) st)"
| "a_step res stop (A_Ret r ((e, kind, k) # st)) (A_Exec e kind (k (seen stop e kind r)) st)"
| "a_step res stop (A_Ret r []) (A_Done r)"

inductive_cases a_step_cases [elim!]:
  "a_step res stop (A_Queued e kind b st) c" "a_step res stop (A_Start e kind b st) c" "a_step res stop (A_Wait e kind op k st) c"
  "a_step res stop (A_Exec e kind (Co_Await_Op op k) st) c" "a_step res stop (A_Exec e kind (Co_Await_Task opts kind' b k) st) c"
  "a_step res stop (A_Exec e kind (Co_Return v) st) c" "a_step res stop (A_Exec e kind (Co_Throw x) st) c"
  "a_step res stop (A_Ret r st) c" "a_step res stop (A_Done r) c"

text \<open>What a configuration will deliver, and that no step changes it.\<close>

fun den_ret :: "(nat \<Rightarrow> cpp_exception + 'v) \<Rightarrow> (nat \<Rightarrow> bool) \<Rightarrow> cpp_exception + 'v \<Rightarrow> 'v waiting \<Rightarrow> cpp_exception + 'v" where
  "den_ret res stop r [] = r"
| "den_ret res stop r ((e, kind, k) # st) = den_ret res stop (co_eval res stop (k (seen stop e kind r)) e kind) st"

fun den :: "(nat \<Rightarrow> cpp_exception + 'v) \<Rightarrow> (nat \<Rightarrow> bool) \<Rightarrow> 'v config \<Rightarrow> cpp_exception + 'v" where
  "den res stop (A_Queued e kind b st) = den_ret res stop (co_start res stop b e kind) st"
| "den res stop (A_Start e kind b st) = den_ret res stop (co_start res stop b e kind) st"
| "den res stop (A_Exec e kind b st) = den_ret res stop (co_eval res stop b e kind) st"
| "den res stop (A_Wait e kind op k st) = den_ret res stop (co_eval res stop (k (seen stop e kind (res op))) e kind) st"
| "den res stop (A_Ret r st) = den_ret res stop r st"
| "den res stop (A_Done r) = r"

lemma a_step_den: "a_step res stop c c' \<Longrightarrow> den res stop c' = den res stop c"
  by (induction rule: a_step.induct) (simp_all add: co_start_def Let_def)

text \<open>Every run of the abstract machine ends.\<close>

abbreviation ends :: "(nat \<Rightarrow> cpp_exception + 'v) \<Rightarrow> (nat \<Rightarrow> bool) \<Rightarrow> 'v config \<Rightarrow> bool" where
  "ends res stop \<equiv> Wellfounded.accp (\<lambda>c' c. a_step res stop c c')"

lemma exec_ends: "(\<And>r. ends res stop (A_Ret r st)) \<Longrightarrow> ends res stop (A_Exec e kind b st)"
proof (induction b arbitrary: e kind st)
  case (Co_Return v)
  show ?case by (rule accp.accI) (auto intro: Co_Return)
next
  case (Co_Throw x)
  show ?case by (rule accp.accI) (auto intro: Co_Throw)
next
  case (Co_Await_Op op k)
  have k: "ends res stop (A_Exec e kind (k r) st)" for r by (rule Co_Await_Op.IH) (auto intro: Co_Await_Op.prems)
  have w: "ends res stop (A_Wait e kind op k st)" by (rule accp.accI) (auto intro: k)
  show ?case by (rule accp.accI) (auto intro: k w)
next
  case (Co_Await_Task opts kind' b k)
  have k: "ends res stop (A_Exec e kind (k r) st)" for r by (rule Co_Await_Task.IH(2)) (auto intro: Co_Await_Task.prems)
  have r: "ends res stop (A_Ret r ((e, kind, k) # st))" for r by (rule accp.accI) (auto intro: k)
  have t: "ends res stop (A_Exec e' kind'' (Co_Throw x) ((e, kind, k) # st))" for e' kind'' x by (rule accp.accI) (auto intro: r)
  have b: "ends res stop (A_Exec e' kind'' b ((e, kind, k) # st))" for e' kind'' by (rule Co_Await_Task.IH(1)) (rule r)
  have s: "ends res stop (A_Start e' kind'' b ((e, kind, k) # st))" for e' kind'' by (rule accp.accI) (auto intro: t b)
  show ?case by (rule accp.accI) (auto intro: s)
qed

lemma ret_ends: "ends res stop (A_Ret r st)"
proof (induction st arbitrary: r)
  case Nil
  have d: "ends res stop (A_Done r)" for r by (rule accp.accI) auto
  show ?case by (rule accp.accI) (auto intro: d)
next
  case (Cons f st)
  show ?case by (rule accp.accI) (auto intro: exec_ends Cons)
qed

lemma config_ends: "ends res stop c"
proof -
  have e: "ends res stop (A_Exec e kind b st)" for e kind b st by (rule exec_ends) (rule ret_ends)
  have s: "ends res stop (A_Start e kind b st)" for e kind b st by (rule accp.accI) (auto intro: e)
  have d: "ends res stop (A_Done r)" for r by (rule accp.accI) auto
  have w: "ends res stop (A_Wait e kind op k st)" for e kind op k st by (rule accp.accI) (auto intro: e)
  have q: "ends res stop (A_Queued e kind b st)" for e kind b st by (rule accp.accI) (auto intro: s)
  show ?thesis by (cases c) (auto intro: e s d w q ret_ends)
qed

section \<open>The machine refines the stack\<close>

fun cont_of :: "nat list \<Rightarrow> cont" where
  "cont_of [] = To_Trampoline"
| "cont_of (h # hs) = To h"

text \<open>A frame that has not finished, above the frames \<open>hs\<close>.\<close>

definition open_frame :: "await_context \<Rightarrow> task_kind \<Rightarrow> nat list \<Rightarrow> 'v frame \<Rightarrow> bool" where
  "open_frame e kind hs f \<longleftrightarrow> fr_env f = Some e \<and> fr_kind f = kind \<and> fr_mr f = ac_allocator e \<and> fr_cont f = cont_of hs
     \<and> fr_result f = None \<and> fr_ep f = None \<and> \<not> fr_stopped f"

fun stacked :: "(nat \<rightharpoonup> 'v frame) \<Rightarrow> nat \<Rightarrow> nat list \<Rightarrow> 'v waiting \<Rightarrow> bool" where
  "stacked m c [] st \<longleftrightarrow> st = []"
| "stacked m c (h # hs) st \<longleftrightarrow> (\<exists>f e kind k st'. st = (e, kind, k) # st' \<and> m h = Some f \<and> fr_at f = At_Child c k \<and> open_frame e kind hs f \<and> stacked m h hs st')"

text \<open>The frames are those of a chain, top first, of a trampoline that has not run.\<close>

definition framed :: "'v machine \<Rightarrow> nat list \<Rightarrow> bool" where
  "framed s hs \<longleftrightarrow> hs \<noteq> [] \<and> distinct hs \<and> dom (mc_frames s) = set hs \<and> (\<forall>h \<in> set hs. h < mc_next s) \<and> mc_task s = Some (last hs)
     \<and> mc_trampoline s \<and> mc_work s \<and> \<not> mc_abandoned s \<and> mc_log s = [] \<and> \<not> mc_terminated s"

definition topmost :: "'v machine \<Rightarrow> nat \<Rightarrow> nat list \<Rightarrow> 'v waiting \<Rightarrow> await_context \<Rightarrow> task_kind \<Rightarrow> 'v suspended \<Rightarrow> bool" where
  "topmost s h hs st e kind at \<longleftrightarrow> framed s (h # hs) \<and> stacked (mc_frames s) h hs st
     \<and> (\<exists>f. mc_frames s h = Some f \<and> fr_at f = at \<and> open_frame e kind hs f)"

fun sim :: "'v machine \<Rightarrow> 'v config \<Rightarrow> bool" where
  "sim s (A_Queued e kind b st) \<longleftrightarrow> (\<exists>h hs. topmost s h hs st e kind (At_Start b) \<and> mc_control s = Idle)"
| "sim s (A_Start e kind b st) \<longleftrightarrow> (\<exists>h hs. topmost s h hs st e kind (At_Start b) \<and> mc_control s = Resuming h)"
| "sim s (A_Exec e kind b st) \<longleftrightarrow> (\<exists>h hs. topmost s h hs st e kind Active \<and> mc_control s = Exec h b \<and> mc_tls s = ac_allocator e)"
| "sim s (A_Wait e kind op k st) \<longleftrightarrow> (\<exists>h hs. topmost s h hs st e kind (At_Op op k) \<and> mc_control s = Idle)"
| "sim s (A_Ret r st) \<longleftrightarrow> (\<exists>h hs f. framed s (h # hs) \<and> stacked (mc_frames s) h hs st \<and> mc_frames s h = Some f \<and> fr_at f = At_Final
     \<and> task_await_resume f = Some r \<and> invoke_impl (mc_handlers s) f = Some (deliver (mc_handlers s) r) \<and> mc_control s = transfer (cont_of hs))"
| "sim s (A_Done r) \<longleftrightarrow> mc_frames s = Map.empty \<and> mc_control s = Idle \<and> mc_task s = None \<and> \<not> mc_trampoline s \<and> \<not> mc_work s
     \<and> \<not> mc_abandoned s \<and> (mc_log s, mc_terminated s) = deliver (mc_handlers s) r"

lemma stacked_upd [simp]: "h \<notin> set hs \<Longrightarrow> stacked (m(h := x)) c hs st = stacked m c hs st"
  by (induction hs arbitrary: c st) auto

lemma stacked_child: "stacked m c hs st \<Longrightarrow> h \<in> set hs \<Longrightarrow> \<exists>f c' k. m h = Some f \<and> fr_at f = At_Child c' k"
  by (induction hs arbitrary: c st) auto

lemma top_framed: "topmost s h hs st e kind at \<Longrightarrow> framed s (h # hs)"
  by (simp add: topmost_def)

lemma top_frame: "topmost s h hs st e kind at \<Longrightarrow> mc_frames s h = Some f \<Longrightarrow> fr_at f = at \<and> open_frame e kind hs f"
  by (auto simp: topmost_def)

text \<open>The only frame that is not waiting for a child is the top.\<close>

lemma top_unique:
  assumes "topmost s h hs st e kind at" "mc_frames s h' = Some f" "\<And>c k. fr_at f \<noteq> At_Child c k"
  shows "h' = h"
proof -
  have "h' \<in> set (h # hs)" using assms(1,2) by (auto simp: topmost_def framed_def)
  then show ?thesis using assms stacked_child [of "mc_frames s" h hs st h'] by (auto simp: topmost_def)
qed

lemma topmost_frame [simp]: "topmost (s\<lparr>mc_tls := x\<rparr>) h hs st e kind at = topmost s h hs st e kind at"
  "topmost (s\<lparr>mc_control := c\<rparr>) h hs st e kind at = topmost s h hs st e kind at"
  by (simp_all add: topmost_def framed_def)

text \<open>Updating the top frame.\<close>

lemma top_put:
  assumes "topmost s h hs st e kind at" "open_frame e kind hs f"
  shows "topmost (put_frame h f s) h hs st e kind (fr_at f)"
  using assms by (auto simp: topmost_def framed_def put_frame_def)

lemma sim_enter:
  assumes "topmost s h hs st e kind at" "mc_frames s h = Some f"
  shows "sim (enter h f b s) (A_Exec e kind b st)"
proof -
  have o: "open_frame e kind hs f" using top_frame [OF assms] by simp
  then have "open_frame e kind hs (f\<lparr>fr_at := Active\<rparr>)" by (simp add: open_frame_def)
  then have "topmost (enter h f b s) h hs st e kind Active"
    using top_put [OF assms(1), of "f\<lparr>fr_at := Active\<rparr>"] by (simp add: enter_def)
  moreover have "mc_control (enter h f b s) = Exec h b" "mc_tls (enter h f b s) = ac_allocator e"
    using o by (simp_all add: enter_def put_frame_def open_frame_def)
  ultimately show ?thesis by auto
qed

lemma sim_transform_resume:
  assumes "topmost s h hs st e kind at" "mc_frames s h = Some f"
  shows "sim (transform_resume h f k r s) (A_Exec e kind (k (seen (mc_stop s) e kind r)) st)"
  using sim_enter [OF assms] top_frame [OF assms] by (simp add: transform_resume_def open_frame_def del: sim.simps)

lemma sim_queued:
  assumes "sim s (A_Queued e kind b st)" "co_step res s s'"
  shows "\<exists>c. a_step res (mc_stop s) (A_Queued e kind b st) c \<and> sim s' c"
proof -
  obtain h hs where t: "topmost s h hs st e kind (At_Start b)" "mc_control s = Idle" using assms(1) by auto
  from assms(2) show ?thesis
  proof cases
    case (starts h' f b' x)
    have "h' = h" by (rule top_unique [OF t(1) starts(3)]) (simp add: starts)
    then have "sim s' (A_Start e kind b st)" using t starts by auto
    then show ?thesis by (blast intro: a_step.intros)
  next
    case (completes h' f op k x)
    have "h' = h" by (rule top_unique [OF t(1) completes(3)]) (simp add: completes)
    then show ?thesis using top_frame [OF t(1)] completes by simp
  qed (use t in simp_all)
qed

lemma sim_start:
  assumes "sim s (A_Start e kind b st)" "co_step res s s'"
  shows "\<exists>c. a_step res (mc_stop s) (A_Start e kind b st) c \<and> sim s' c"
proof -
  obtain h hs where t: "topmost s h hs st e kind (At_Start b)" "mc_control s = Resuming h" using assms(1) by auto
  from assms(2) show ?thesis
  proof cases
    case (begins h' f b')
    then have f: "h' = h" "fr_at f = At_Start b" "open_frame e kind hs f" using t top_frame [OF t(1)] by auto
    then have "b' = b" using begins by simp
    with f have "sim s' (A_Exec e kind (if quits (mc_stop s) e kind then Co_Throw stop_requested_exception else b) st)"
      using sim_enter [OF t(1)] begins by (simp add: initial_resume_def open_frame_def del: sim.simps)
    then show ?thesis by (blast intro: a_step.intros)
  next
    case (child_done h' f c k g r)
    then show ?thesis using t top_frame [OF t(1)] by auto
  qed (use t in simp_all)
qed

lemma sim_wait:
  assumes "sim s (A_Wait e kind op k st)" "co_step res s s'"
  shows "\<exists>c. a_step res (mc_stop s) (A_Wait e kind op k st) c \<and> sim s' c"
proof -
  obtain h hs where t: "topmost s h hs st e kind (At_Op op k)" "mc_control s = Idle" using assms(1) by auto
  from assms(2) show ?thesis
  proof cases
    case (starts h' f b' x)
    have "h' = h" by (rule top_unique [OF t(1) starts(3)]) (simp add: starts)
    then show ?thesis using top_frame [OF t(1)] starts by simp
  next
    case (completes h' f op' k' x)
    have h: "h' = h" by (rule top_unique [OF t(1) completes(3)]) (simp add: completes)
    then have "op' = op" "k' = k" using top_frame [OF t(1)] completes by auto
    then have "sim s' (A_Exec e kind (k (seen (mc_stop s) e kind (res op))) st)"
      using sim_transform_resume [of "s\<lparr>mc_tls := x\<rparr>" h hs st e kind "At_Op op k" f k "res op"] h t completes by (simp del: sim.simps)
    then show ?thesis by (blast intro: a_step.intros)
  qed (use t in simp_all)
qed

text \<open>A child is put on top.\<close>

lemma topmost_push:
  assumes "topmost s h hs st e kind at" "mc_frames s h = Some f" "mc_tls s = ac_allocator e"
  shows "topmost (co_await_task h f opts kind' b k s) (mc_next s) (h # hs) ((e, kind, k) # st) (run_env opts e) kind' (At_Start b)"
proof -
  have f: "fr_env f = Some e" "open_frame e kind hs f" and fr: "framed s (h # hs)" "stacked (mc_frames s) h hs st"
    using assms top_frame [OF assms(1,2)] by (auto simp: topmost_def open_frame_def)
  have n: "mc_next s \<notin> set (h # hs)" "mc_next s \<noteq> h" using fr(1) by (auto simp: framed_def)
  have "open_frame e kind hs (f\<lparr>fr_at := At_Child (mc_next s) k\<rparr>)" using f(2) by (simp add: open_frame_def)
  moreover have "run_wrapper_tls opts (mc_tls s) = ac_allocator (run_env opts e)"
    using assms(3) by (simp add: run_wrapper_tls_def run_env_def split: option.split)
  ultimately show ?thesis using f(1) fr n
    by (auto simp: topmost_def framed_def co_await_task_def Let_def put_frame_def task_await_suspend_def set_environment_def set_continuation_def
        new_frame_def open_frame_def)
qed

text \<open>The top frame finishes.\<close>

lemma finished_frame:
  "task_await_resume (g\<lparr>fr_cont := c, fr_at := at\<rparr>) = task_await_resume g" "invoke_impl hs (g\<lparr>fr_cont := c, fr_at := at\<rparr>) = invoke_impl hs g"
  by (simp_all add: task_await_resume_def invoke_impl_def cong: option.case_cong task_kind.case_cong)

lemma sim_finish:
  assumes "topmost s h hs st e kind at" "mc_frames s h = Some f" "fr_cont g = fr_cont f" "task_await_resume g = Some r"
    "invoke_impl (mc_handlers s) g = Some (deliver (mc_handlers s) r)"
  shows "sim (task_final_suspend h g s) (A_Ret r st)"
proof -
  have c: "fr_cont g = cont_of hs" using top_frame [OF assms(1,2)] assms(3) by (simp add: open_frame_def)
  let ?g = "g\<lparr>fr_cont := Noop, fr_at := At_Final\<rparr>"
  have "framed (task_final_suspend h g s) (h # hs)" "stacked (mc_frames (task_final_suspend h g s)) h hs st"
    using assms(1,2) by (auto simp: topmost_def framed_def task_final_suspend_def put_frame_def)
  moreover have "task_await_resume ?g = Some r" "invoke_impl (mc_handlers s) ?g = Some (deliver (mc_handlers s) r)"
    using assms(4,5) by (simp_all add: finished_frame)
  ultimately show ?thesis using c by (auto simp: task_final_suspend_def put_frame_def)
qed

lemma sim_exec:
  assumes "sim s (A_Exec e kind b st)" "co_step res s s'"
  shows "\<exists>c. a_step res (mc_stop s) (A_Exec e kind b st) c \<and> sim s' c"
proof -
  obtain h hs where t: "topmost s h hs st e kind Active" "mc_control s = Exec h b" "mc_tls s = ac_allocator e" using assms(1) by auto
  from assms(2) show ?thesis
  proof cases
    case (ready h' op k f)
    then have "sim s' (A_Exec e kind (k (seen (mc_stop s) e kind (res op))) st)" "b = Co_Await_Op op k"
      using sim_transform_resume [OF t(1)] t(2) by (simp_all del: sim.simps)
    then show ?thesis by (blast intro: a_step.intros)
  next
    case (suspends h' op k f)
    then have f: "h' = h" "b = Co_Await_Op op k" "open_frame e kind hs (f\<lparr>fr_at := At_Op op k\<rparr>)"
      using t(2) top_frame [OF t(1)] by (auto simp: open_frame_def)
    with suspends have "topmost s' h hs st e kind (At_Op op k)" "mc_control s' = Idle"
      using top_put [OF t(1) f(3)] by (simp_all add: co_suspend_op_def)
    then have "sim s' (A_Wait e kind op k st)" by auto
    then show ?thesis unfolding f(2) by (blast intro: a_step.intros)
  next
    case (calls h' opts kind' b' k f)
    then have h: "h' = h" "b = Co_Await_Task opts kind' b' k" using t(2) by simp_all
    have "topmost s' (mc_next s) (h # hs) ((e, kind, k) # st) (run_env opts e) kind' (At_Start b')" "mc_control s' = Resuming (mc_next s)"
      using topmost_push [OF t(1) _ t(3), of f] calls h by (auto simp: co_await_task_def Let_def)
    then have "sim s' (A_Start (run_env opts e) kind' b' ((e, kind, k) # st))" by auto
    with h show ?thesis by (blast intro: a_step.intros)
  next
    case (returns h' v f)
    then have o: "open_frame e kind hs f" "h' = h" "b = Co_Return v" using t(2) top_frame [OF t(1)] by auto
    have "sim s' (A_Ret (Inr v) st)" unfolding returns(1)
      by (rule sim_finish [of s h' hs st e kind Active f])
        (use o returns t(1) in \<open>auto simp: return_value_def open_frame_def task_await_resume_def invoke_impl_def deliver_def split: task_kind.split\<close>)
    then show ?thesis unfolding o(3) by (blast intro: a_step.intros)
  next
    case (throws h' x f)
    then have o: "open_frame e kind hs f" "h' = h" "b = Co_Throw x" using t(2) top_frame [OF t(1)] by auto
    have "sim s' (A_Ret (Inl x) st)" unfolding throws(1)
      by (rule sim_finish [of s h' hs st e kind Active f])
        (use o throws t(1) in \<open>auto simp: task_unhandled_exception_def open_frame_def task_await_resume_def invoke_impl_def deliver_def split: task_kind.split\<close>)
    then show ?thesis unfolding o(3) by (blast intro: a_step.intros)
  qed (use t in simp_all)
qed

text \<open>Destroying a chain from its root.\<close>

fun tower :: "(nat \<rightharpoonup> 'v frame) \<Rightarrow> nat \<Rightarrow> nat list \<Rightarrow> bool" where
  "tower m h [] \<longleftrightarrow> (\<exists>f. m h = Some f \<and> (\<forall>c k. fr_at f \<noteq> At_Child c k))"
| "tower m h (c # cs) \<longleftrightarrow> (\<exists>f k. m h = Some f \<and> fr_at f = At_Child c k \<and> tower m c cs)"

lemma stacked_tower: "stacked m c hs st \<Longrightarrow> tower m c cs \<Longrightarrow> tower m (last (c # hs)) (tl (rev (c # hs)) @ cs)"
proof (induction hs arbitrary: c cs st)
  case Nil
  then show ?case by simp
next
  case (Cons h hs)
  then obtain st' where "stacked m h hs st'" "tower m h (c # cs)" by auto
  from Cons.IH [OF this] show ?case by (simp add: tl_append split: list.split) (cases "rev hs"; simp)
qed

lemma destroy_leaf: "0 < n \<Longrightarrow> mc_frames s h = Some f \<Longrightarrow> (\<And>c k. fr_at f \<noteq> At_Child c k) \<Longrightarrow> destroy_coro n h s = s\<lparr>mc_frames := (mc_frames s)(h := None)\<rparr>"
  by (cases n) (auto simp: Let_def split: suspended.splits)

lemma destroy_tower:
  "tower (mc_frames s) h cs \<Longrightarrow> length cs < n \<Longrightarrow> mc_abandoned s
   \<Longrightarrow> destroy_coro n h s = s\<lparr>mc_frames := mc_frames s |` (- set (h # cs))\<rparr>"
proof (induction cs arbitrary: h n)
  case Nil
  then show ?case by (auto simp: destroy_leaf restrict_map_def fun_eq_iff)
next
  case (Cons c cs)
  then obtain n' f k where n: "n = Suc n'" and f: "mc_frames s h = Some f" "fr_at f = At_Child c k" "tower (mc_frames s) c cs" by (cases n) auto
  obtain g where "mc_frames s c = Some g" using f(3) by (cases cs) auto
  then have "task_destroy n' c s = destroy_coro n' c s" using Cons.prems(3) by simp
  with n f Cons.IH [OF f(3), of n'] Cons.prems show ?case
    by (simp add: Let_def) (auto simp: restrict_map_def fun_eq_iff)
qed

lemma destroy_final:
  assumes "mc_frames s h = Some f" "fr_at f = At_Final" "0 < n"
  shows "task_destroy n h s = s\<lparr>mc_frames := (mc_frames s)(h := None)\<rparr>"
  using assms destroy_leaf [of n s h f] by simp

lemma sim_child_resume:
  assumes "framed s (c # h # hs)" "stacked (mc_frames s) c (h # hs) ((e, kind, k) # st)" "mc_frames s c = Some g" "fr_at g = At_Final" "mc_frames s h = Some f"
  shows "sim (child_resume h f c g k r s) (A_Exec e kind (k (seen (mc_stop s) e kind r)) st)"
proof -
  let ?s = "s\<lparr>mc_frames := (mc_frames s)(c := None)\<rparr>"
  have n: "0 < mc_next s" "c \<noteq> h" "c \<notin> set hs" using assms(1) by (auto simp: framed_def)
  have "task_destroy (mc_next s) c (put_frame c (g\<lparr>fr_lent := l\<rparr>) s) = ?s" for l
    using destroy_final [of "put_frame c (g\<lparr>fr_lent := l\<rparr>) s" c "g\<lparr>fr_lent := l\<rparr>" "mc_next s"] assms(4) n(1) by (simp add: put_frame_def del: task_destroy.simps)
  moreover have "topmost ?s h hs st e kind (At_Child c k)" "mc_frames ?s h = Some f"
    using assms n by (auto simp: topmost_def framed_def)
  ultimately show ?thesis using sim_transform_resume [of ?s h hs st e kind "At_Child c k" f k r]
    by (simp add: child_resume_def Let_def del: sim.simps task_destroy.simps)
qed

lemma sim_trampoline:
  assumes "framed s [h]" "mc_frames s h = Some f" "fr_at f = At_Final" "invoke_impl (mc_handlers s) f = Some (deliver (mc_handlers s) r)"
  shows "sim (trampoline_body s) (A_Done r)"
proof -
  obtain calls bad where d: "deliver (mc_handlers s) r = (calls, bad)" by fastforce
  have s: "mc_task s = Some h" "\<not> mc_abandoned s" "0 < mc_next s" "dom (mc_frames s) = {h}" "mc_log s = []" "\<not> mc_terminated s"
    using assms(1) by (auto simp: framed_def)
  have "(mc_frames s)(h := None) = Map.empty" using s(4) by (auto simp: fun_eq_iff)
  then show ?thesis using assms(2-4) s d by (simp add: trampoline_body_def Let_def destroy_leaf)
qed

lemma sim_ret:
  assumes "sim s (A_Ret r st)" "co_step res s s'"
  shows "\<exists>c. a_step res (mc_stop s) (A_Ret r st) c \<and> sim s' c"
proof -
  obtain h hs f where t: "framed s (h # hs)" "stacked (mc_frames s) h hs st" "mc_frames s h = Some f" "fr_at f = At_Final" "task_await_resume f = Some r"
      "invoke_impl (mc_handlers s) f = Some (deliver (mc_handlers s) r)" "mc_control s = transfer (cont_of hs)"
    using assms(1) by auto
  show ?thesis
  proof (cases hs)
    case Nil
    then have n: "st = []" "mc_control s = Resuming_Trampoline" using t by (simp_all add: transfer_def)
    from assms(2) n(2) have "s' = trampoline_body s" by (cases rule: co_step.cases) auto
    then show ?thesis using sim_trampoline [of s h f r] t Nil n(1) by (auto intro: a_step.intros simp del: sim.simps)
  next
    case (Cons h2 hs2)
    then have c: "mc_control s = Resuming h2" using t(7) by (simp add: transfer_def)
    obtain f2 e kind k st2 where f2: "st = (e, kind, k) # st2" "mc_frames s h2 = Some f2" "fr_at f2 = At_Child h k" using t(2) Cons by auto
    from assms(2) c f2 t(3,5) have "s' = child_resume h2 f2 h f k r s" by (cases rule: co_step.cases) auto
    then have "sim s' (A_Exec e kind (k (seen (mc_stop s) e kind r)) st2)"
      using sim_child_resume [of s h h2 hs2 e kind k st2 f f2 r] t Cons f2 by (simp del: sim.simps)
    then show ?thesis unfolding f2(1) by (blast intro: a_step.intros)
  qed
qed

lemma sim_done:
  assumes "sim s (A_Done r)" "co_step res s s'"
  shows False
  using assms(2,1) by (cases rule: co_step.cases) auto

text \<open>The functional refinement: each step of the machine is a step of the stack.\<close>

lemma co_step_refines: "sim s c \<Longrightarrow> co_step res s s' \<Longrightarrow> \<exists>c'. a_step res (mc_stop s) c c' \<and> sim s' c'"
  by (cases c) (blast dest: sim_queued sim_start sim_exec sim_wait sim_ret sim_done)+

lemma sim_progress:
  assumes "sim s c" "\<And>r. c \<noteq> A_Done r"
  shows "\<exists>s'. co_step res s s'"
proof (cases c)
  case (A_Exec e kind b st)
  then obtain h f where "mc_control s = Exec h b" "mc_frames s h = Some f" using assms(1) by (auto simp: topmost_def)
  then show ?thesis by (cases b) (blast intro: co_step.intros)+
next
  case (A_Ret r st)
  then obtain h hs f where t: "stacked (mc_frames s) h hs st" "mc_frames s h = Some f" "task_await_resume f = Some r" "mc_control s = transfer (cont_of hs)"
    using assms(1) by auto
  then show ?thesis by (cases hs) (auto simp: transfer_def intro: co_step.intros)
qed (use assms in \<open>auto simp: topmost_def intro: co_step.intros\<close>)

section \<open>What run_async promises\<close>

lemma destroy_frame_rules [simp]:
  "mc_stop (destroy_coro n h s) = mc_stop s \<and> mc_handlers (destroy_coro n h s) = mc_handlers s"
  "mc_stop (task_destroy n h s) = mc_stop s \<and> mc_handlers (task_destroy n h s) = mc_handlers s"
  by (induction n h s and n h s rule: destroy_coro_task_destroy.induct) (auto simp: Let_def split: option.split suspended.split)

lemma co_step_frame: "co_step res s s' \<Longrightarrow> mc_stop s' = mc_stop s \<and> mc_handlers s' = mc_handlers s"
  by (induction rule: co_step.induct)
    (simp_all add: initial_resume_def transform_resume_def enter_def put_frame_def co_suspend_op_def co_await_task_def child_resume_def task_final_suspend_def
      trampoline_body_def Let_def del: destroy_coro.simps task_destroy.simps split: option.split prod.split)

definition start_config :: "nat \<Rightarrow> nat \<Rightarrow> task_kind \<Rightarrow> 'v coro \<Rightarrow> bool \<Rightarrow> 'v config" where
  "start_config token mr kind b inline =
     (if inline then A_Start \<lparr>ac_token = token, ac_allocator = mr\<rparr> kind b [] else A_Queued \<lparr>ac_token = token, ac_allocator = mr\<rparr> kind b [])"

lemma sim_run_async: "sim (run_async_start hs token mr kind b stop inline) (start_config token mr kind b inline)"
  by (auto simp: start_config_def run_async_start_def topmost_def framed_def open_frame_def set_environment_def set_continuation_def new_frame_def)

lemma co_run_sim:
  assumes "co_run res (run_async_start hs token mr kind b stop inline) s"
  shows "\<exists>c. sim s c \<and> den res stop c = co_start res stop b \<lparr>ac_token = token, ac_allocator = mr\<rparr> kind \<and> mc_stop s = stop \<and> mc_handlers s = hs"
  using assms
proof (induction rule: co_run.induct)
  case start
  show ?case by (rule exI [of _ "start_config token mr kind b inline"]) (simp add: sim_run_async, simp add: start_config_def run_async_start_def)
next
  case (step s s')
  then obtain c where c: "sim s c" "den res stop c = co_start res stop b \<lparr>ac_token = token, ac_allocator = mr\<rparr> kind" "mc_stop s = stop" "mc_handlers s = hs" by blast
  from co_step_refines [OF c(1) step.hyps(2)] obtain c' where "a_step res stop c c'" "sim s' c'" using c(3) by auto
  then show ?case using a_step_den [of res stop c c'] c co_step_frame [OF step.hyps(2)] by metis
qed

lemma sim_alive: "sim s c \<Longrightarrow> (\<exists>r. c = A_Done r) \<longleftrightarrow> \<not> mc_trampoline s"
  by (cases c) (auto simp: topmost_def framed_def)

lemma no_infinite_run:
  assumes "sim s c"
  shows "\<not> (\<exists>\<sigma>. \<sigma> 0 = s \<and> (\<forall>i. co_step res (\<sigma> i) (\<sigma> (Suc i))))"
proof -
  have "\<forall>s. sim s c \<and> mc_stop s = stop \<longrightarrow> \<not> (\<exists>\<sigma>. \<sigma> 0 = s \<and> (\<forall>i. co_step res (\<sigma> i) (\<sigma> (Suc i))))" for stop
    using config_ends [of res stop c]
  proof (induction rule: accp.induct)
    case (accI c)
    show ?case
    proof (intro allI impI notI, elim conjE exE)
      fix s and \<sigma> :: "nat \<Rightarrow> 'a machine"
      assume s: "sim s c" "mc_stop s = stop" and \<sigma>: "\<sigma> 0 = s" "\<forall>i. co_step res (\<sigma> i) (\<sigma> (Suc i))"
      have st: "co_step res s (\<sigma> 1)" using \<sigma> by (metis One_nat_def)
      obtain c' where "a_step res stop c c'" "sim (\<sigma> 1) c'" using co_step_refines [OF s(1) st] s(2) by auto
      moreover have "mc_stop (\<sigma> 1) = stop" using co_step_frame [OF st] s(2) by simp
      moreover have "\<exists>\<tau>. \<tau> 0 = \<sigma> 1 \<and> (\<forall>i. co_step res (\<tau> i) (\<tau> (Suc i)))" by (rule exI [of _ "\<lambda>i. \<sigma> (Suc i)"]) (use \<sigma>(2) in simp)
      ultimately show False using accI.IH by blast
    qed
  qed
  then show ?thesis using assms by blast
qed

text \<open>
  C15. A task or quitter given to \<^verbatim>\<open>run_async\<close>, whatever coroutines it awaits in turn and whether its operations complete at once or later: no run goes on for ever, and
  none gets stuck before the trampoline is done. When it is done every frame has been destroyed, the work guard is released, and the handlers were called exactly as
  the result asks for that the bodies give when they are evaluated in direct style: values and exceptions reach the coroutine that awaits them, and a quitter with a
  stop request throws at its start and at every \<^verbatim>\<open>co_await\<close> instead of taking the result.
\<close>

theorem run_async_result:
  assumes "co_run res (run_async_start hs token mr kind b stop inline) s"
  shows "(mc_trampoline s \<longrightarrow> (\<exists>s'. co_step res s s'))
    \<and> (\<not> mc_trampoline s \<longrightarrow> mc_frames s = Map.empty \<and> \<not> mc_work s
         \<and> (mc_log s, mc_terminated s) = deliver hs (co_start res stop b \<lparr>ac_token = token, ac_allocator = mr\<rparr> kind))
    \<and> \<not> (\<exists>\<sigma>. \<sigma> 0 = s \<and> (\<forall>i. co_step res (\<sigma> i) (\<sigma> (Suc i))))"
proof -
  obtain c where c: "sim s c" "den res stop c = co_start res stop b \<lparr>ac_token = token, ac_allocator = mr\<rparr> kind" "mc_handlers s = hs"
    using co_run_sim [OF assms] by blast
  have "mc_trampoline s \<longrightarrow> (\<exists>s'. co_step res s s')" using sim_progress [OF c(1)] sim_alive [OF c(1)] by metis
  moreover have "mc_frames s = Map.empty \<and> \<not> mc_work s
      \<and> (mc_log s, mc_terminated s) = deliver hs (co_start res stop b \<lparr>ac_token = token, ac_allocator = mr\<rparr> kind)" if "\<not> mc_trampoline s"
    using that sim_alive [OF c(1)] c by auto
  ultimately show ?thesis using no_infinite_run [OF c(1)] by blast
qed

abbreviation demo_body :: "nat coro" where
  "demo_body \<equiv> Co_Await_Op 0 (\<lambda>r. case r of Inl e \<Rightarrow> Co_Throw e | Inr v \<Rightarrow> Co_Return (v * 2))"

theorem run_async_result_witness:
  "\<exists>s. co_run (\<lambda>_. Inr 7) (run_async_start Handler_Pair 0 0 Task demo_body (\<lambda>_. False) True) s \<and> \<not> mc_trampoline s
     \<and> mc_frames s = Map.empty \<and> (mc_log s, mc_terminated s) = deliver Handler_Pair (Inr 14)"
proof -
  let ?s = "run_async_start Handler_Pair 0 0 Task demo_body (\<lambda>_. False) True"
  let ?f = "the (mc_frames ?s 0)"
  let ?s1 = "initial_resume 0 ?f demo_body ?s"
  let ?s2 = "transform_resume 0 (the (mc_frames ?s1 0)) (\<lambda>r. case r of Inl e \<Rightarrow> Co_Throw e | Inr v \<Rightarrow> Co_Return (v * 2)) (Inr 7) ?s1"
  let ?s3 = "task_final_suspend 0 (return_value 14 (the (mc_frames ?s2 0))) ?s2"
  note defs = run_async_start_def initial_resume_def transform_resume_def enter_def put_frame_def set_environment_def set_continuation_def new_frame_def quits_def
  have 1: "co_run (\<lambda>_. Inr 7) ?s ?s1" by (rule co_run.step [OF co_run.start co_step.begins]) (simp_all add: defs)
  have 2: "co_run (\<lambda>_. Inr 7) ?s ?s2" by (rule co_run.step [OF 1 co_step.ready [of _ _ 0]]) (simp_all add: defs)
  have 3: "co_run (\<lambda>_. Inr 7) ?s ?s3" by (rule co_run.step [OF 2 co_step.returns]) (simp_all add: defs)
  have 4: "co_run (\<lambda>_. Inr 7) ?s (trampoline_body ?s3)"
    by (rule co_run.step [OF 3 co_step.trampoline]) (simp add: defs task_final_suspend_def return_value_def transfer_def)
  moreover have "\<not> mc_trampoline (trampoline_body ?s3)"
    by (simp add: trampoline_body_def Let_def defs task_final_suspend_def return_value_def split: option.split prod.split)
  ultimately show ?thesis using run_async_result [OF 4] by (auto simp: co_start_def quits_def)
qed

lemma co_reach_sim:
  assumes "co_reach res (run_async_start hs token mr kind b stop inline) s"
  shows "\<exists>c. sim s c"
  using assms
proof (induction rule: co_reach.induct)
  case start
  show ?case using sim_run_async by blast
next
  case (step s s')
  then show ?case using co_step_refines by blast
next
  case (stops s t)
  then obtain c where "sim s c" by blast
  then have "sim (s\<lparr>mc_stop := (mc_stop s)(t := True)\<rparr>) c" by (cases c) (auto simp: topmost_def framed_def)
  then show ?case by blast
qed

text \<open>Every frame of a chain, destroyed from the root.\<close>

lemma destroy_chain:
  assumes "topmost s h hs st e kind at" "\<And>c k. at \<noteq> At_Child c k" "mc_frames s' = mc_frames s" "mc_abandoned s'"
  shows "destroy_coro (mc_next s) (last (h # hs)) s' = s'\<lparr>mc_frames := Map.empty\<rparr>"
proof -
  let ?cs = "tl (rev (h # hs))"
  have fr: "framed s (h # hs)" "stacked (mc_frames s) h hs st" "tower (mc_frames s) h []" using assms(1,2) by (auto simp: topmost_def)
  have "set (h # hs) \<subseteq> {..<mc_next s}" "distinct (h # hs)" using fr(1) by (auto simp: framed_def)
  then have "length (h # hs) \<le> mc_next s" by (metis card_lessThan card_mono distinct_card finite_lessThan)
  moreover have "tower (mc_frames s') (last (h # hs)) ?cs" using stacked_tower [OF fr(2,3)] assms(3) by simp
  moreover have "set (last (h # hs) # ?cs) = set (h # hs)" by (metis hd_rev list.collapse list.simps(3) rev_is_Nil_conv set_rev)
  moreover have "mc_frames s |` (- set (h # hs)) = Map.empty" using fr(1) by (auto simp: framed_def restrict_map_def fun_eq_iff dom_def)
  ultimately show ?thesis using destroy_tower [of s' "last (h # hs)" ?cs "mc_next s"] assms(3,4) by simp
qed

lemma idle_topmost:
  assumes "sim s c" "mc_control s = Idle" "mc_trampoline s"
  obtains h hs st e kind at where "topmost s h hs st e kind at" "\<And>c k. at \<noteq> At_Child c k"
proof (cases c)
  case (A_Ret r st)
  then obtain hs where "Idle = (transfer (cont_of hs) :: 'a control)" using assms by auto
  then show ?thesis by (cases hs) (simp_all add: transfer_def)
qed (use assms that in auto)

text \<open>A task that awaits a quitter, which \<^verbatim>\<open>run\<close> gave an allocator of its own and which waits for an operation.\<close>

abbreviation demo_child :: "nat coro" where
  "demo_child \<equiv> Co_Await_Op 0 (\<lambda>r. Co_Return 1)"

abbreviation demo_parent :: "nat coro" where
  "demo_parent \<equiv> Co_Await_Task (Some \<lparr>ro_token = None, ro_allocator = Some 9\<rparr>) Quitter demo_child (\<lambda>r. Co_Return 2)"

definition demo_chain :: "nat machine" where
  "demo_chain =
     (let s0 = run_async_start Handler_Pair 0 5 Task demo_parent (\<lambda>_. False) True;
          s1 = initial_resume 0 (the (mc_frames s0 0)) demo_parent s0;
          s2 = co_await_task 0 (the (mc_frames s1 0)) (Some \<lparr>ro_token = None, ro_allocator = Some 9\<rparr>) Quitter demo_child (\<lambda>r. Co_Return 2) s1;
          s3 = initial_resume 1 (the (mc_frames s2 1)) demo_child s2
      in co_suspend_op 1 (the (mc_frames s3 1)) 0 (\<lambda>r. Co_Return 1) s3)"

lemmas demo_chain_defs = run_async_start_def initial_resume_def enter_def put_frame_def set_environment_def set_continuation_def new_frame_def quits_def
  co_await_task_def co_suspend_op_def task_await_suspend_def run_env_def run_wrapper_tls_def Let_def

lemma demo_chain_reached: "co_reach (\<lambda>_. Inr 7) (run_async_start Handler_Pair 0 5 Task demo_parent (\<lambda>_. False) True) demo_chain"
proof -
  let ?r = "\<lambda>_. Inr 7"
  let ?s0 = "run_async_start Handler_Pair 0 5 Task demo_parent (\<lambda>_. False) True"
  let ?s1 = "initial_resume 0 (the (mc_frames ?s0 0)) demo_parent ?s0"
  let ?s2 = "co_await_task 0 (the (mc_frames ?s1 0)) (Some \<lparr>ro_token = None, ro_allocator = Some 9\<rparr>) Quitter demo_child (\<lambda>r. Co_Return 2) ?s1"
  let ?s3 = "initial_resume 1 (the (mc_frames ?s2 1)) demo_child ?s2"
  have 1: "co_reach ?r ?s0 ?s1" by (rule co_reach.step [OF co_reach.start co_step.begins]) (simp_all add: demo_chain_defs)
  have 2: "co_reach ?r ?s0 ?s2" by (rule co_reach.step [OF 1 co_step.calls]) (simp_all add: demo_chain_defs)
  have 3: "co_reach ?r ?s0 ?s3" by (rule co_reach.step [OF 2 co_step.begins]) (simp_all add: demo_chain_defs)
  have "co_reach ?r ?s0 (co_suspend_op 1 (the (mc_frames ?s3 1)) 0 (\<lambda>r. Co_Return 1) ?s3)"
    by (rule co_reach.step [OF 3 co_step.suspends]) (simp_all add: demo_chain_defs)
  then show ?thesis by (simp add: demo_chain_def Let_def)
qed

text \<open>
  C16. Abandonment. At any point where the chain is suspended, with stop requests before it or not, the owner of its segment can abandon it: whether the trampoline is then
  resumed or destroyed, every frame of the chain is destroyed, no handler is called, the work guard is released, and nothing terminates the program although every
  task of the chain but the first is still lent to the one that awaits it.
\<close>

theorem abandon_unwinds_chain:
  assumes "co_reach res (run_async_start hs token mr kind b stop inline) s" "mc_control s = Idle" "mc_trampoline s"
  shows "mc_frames (trampoline_body (s\<lparr>mc_abandoned := True\<rparr>)) = Map.empty \<and> mc_log (trampoline_body (s\<lparr>mc_abandoned := True\<rparr>)) = []
    \<and> \<not> mc_terminated (trampoline_body (s\<lparr>mc_abandoned := True\<rparr>)) \<and> \<not> mc_work (trampoline_body (s\<lparr>mc_abandoned := True\<rparr>))
    \<and> trampoline_destroy (s\<lparr>mc_abandoned := True\<rparr>) = trampoline_body (s\<lparr>mc_abandoned := True\<rparr>)"
proof -
  obtain c where "sim s c" using co_reach_sim [OF assms(1)] by blast
  then obtain h ws st e kind at where t: "topmost s h ws st e kind at" "\<And>c k. at \<noteq> At_Child c k" using idle_topmost assms(2,3) by metis
  have f: "mc_task s = Some (last (h # ws))" "mc_log s = []" "\<not> mc_terminated s" using t(1) by (auto simp: topmost_def framed_def)
  then show ?thesis using destroy_chain [OF t]
    by (simp add: trampoline_body_def trampoline_destroy_def Let_def del: destroy_coro.simps last.simps)
qed

theorem abandon_unwinds_chain_witness:
  "dom (mc_frames demo_chain) = {0, 1} \<and> mc_frames (trampoline_body (demo_chain\<lparr>mc_abandoned := True\<rparr>)) = Map.empty
   \<and> mc_log (trampoline_body (demo_chain\<lparr>mc_abandoned := True\<rparr>)) = [] \<and> \<not> mc_terminated (trampoline_body (demo_chain\<lparr>mc_abandoned := True\<rparr>))"
proof -
  have "mc_control demo_chain = Idle" "mc_trampoline demo_chain" by (simp_all add: demo_chain_def demo_chain_defs)
  moreover have "dom (mc_frames demo_chain) = {0, 1}" by (auto simp: demo_chain_def demo_chain_defs)
  ultimately show ?thesis using abandon_unwinds_chain [OF demo_chain_reached] by blast
qed

lemma transfer_not_exec [simp]: "transfer c \<noteq> Exec h b" "Exec h b \<noteq> transfer c"
  by (cases c; simp add: transfer_def)+

lemma framed_allocator:
  assumes "framed s (h # ws)" "stacked (mc_frames s) h ws st" "mc_frames s h' = Some f" "h' \<noteq> h"
  shows "\<exists>e. fr_env f = Some e \<and> fr_mr f = ac_allocator e"
proof -
  have "stacked m h ws st \<Longrightarrow> h' \<in> set ws \<Longrightarrow> m h' = Some f \<Longrightarrow> \<exists>e. fr_env f = Some e \<and> fr_mr f = ac_allocator e" for m :: "nat \<rightharpoonup> 'a frame" and h ws st
    by (induction ws arbitrary: h st) (auto simp: open_frame_def)
  moreover have "h' \<in> set ws" using assms by (auto simp: framed_def dom_def)
  ultimately show ?thesis using assms by blast
qed

lemma topmost_allocator: "topmost s h ws st e kind at \<Longrightarrow> mc_frames s h' = Some f \<Longrightarrow> \<exists>e. fr_env f = Some e \<and> fr_mr f = ac_allocator e"
  using framed_allocator [of s h ws st h' f] by (cases "h' = h") (auto simp: topmost_def open_frame_def)

text \<open>
  The frame allocator travels with the chain: in every state before the trampoline is done, whichever threads resumed the chain and with which allocators of their own, each frame
  was made with the allocator of the environment its coroutine runs in, and while the body of a coroutine runs the thread's frame allocator is the one of its
  environment.
\<close>

theorem frames_from_environment_allocator:
  assumes "co_reach res (run_async_start hs token mr kind b stop inline) s" "mc_trampoline s"
  shows "(\<forall>h f. mc_frames s h = Some f \<longrightarrow> fr_at f \<noteq> At_Final \<longrightarrow> (\<exists>e. fr_env f = Some e \<and> fr_mr f = ac_allocator e))
    \<and> (\<forall>h b. mc_control s = Exec h b \<longrightarrow> (\<exists>f e. mc_frames s h = Some f \<and> fr_env f = Some e \<and> mc_tls s = ac_allocator e))"
proof -
  obtain c where c: "sim s c" using co_reach_sim [OF assms(1)] by blast
  have "\<exists>e. fr_env f = Some e \<and> fr_mr f = ac_allocator e" if f: "mc_frames s h' = Some f" "fr_at f \<noteq> At_Final" for h' f
  proof (cases c)
    case (A_Ret r st)
    then obtain h ws g where "framed s (h # ws)" "stacked (mc_frames s) h ws st" "mc_frames s h = Some g" "fr_at g = At_Final" using c by auto
    then show ?thesis using framed_allocator [of s h ws st h' f] f by (cases "h' = h") auto
  next
    case (A_Done r)
    then show ?thesis using c assms(2) by simp
  qed (use c f topmost_allocator in \<open>auto simp del: topmost_frame\<close>)
  moreover have "\<exists>f e. mc_frames s h = Some f \<and> fr_env f = Some e \<and> mc_tls s = ac_allocator e" if "mc_control s = Exec h b" for h b
    using c that by (cases c) (auto simp: topmost_def open_frame_def)
  ultimately show ?thesis by blast
qed

theorem frames_from_environment_allocator_witness:
  "\<exists>f e. mc_frames demo_chain 1 = Some f \<and> fr_env f = Some e \<and> fr_mr f = ac_allocator e \<and> ac_allocator e = 9"
proof -
  have "mc_trampoline demo_chain" by (simp add: demo_chain_def demo_chain_defs)
  moreover obtain f where f: "mc_frames demo_chain 1 = Some f" "fr_at f \<noteq> At_Final" "ac_allocator (the (fr_env f)) = 9" by (simp add: demo_chain_def demo_chain_defs)
  ultimately show ?thesis using frames_from_environment_allocator [OF demo_chain_reached] by fastforce
qed

text \<open>A quitter with a stop request computes the same whatever its operations and its children give.\<close>

lemma quitter_ignores_results: "stop (ac_token e) \<Longrightarrow> co_eval res stop b e Quitter = co_eval res' stop b e Quitter"
  by (induction b) (simp_all add: quits_def Let_def)

end
