(* ===== verification/Run_Boundary.thy ===== *)
theory Run_Boundary
  imports Prelude
begin

text \<open>
  \<^verbatim>\<open>co_await run(ex)(task)\<close> (\<^verbatim>\<open>run_awaitable_ex\<close> and \<^verbatim>\<open>boundary_trampoline\<close> of \<^verbatim>\<open>ex/run.hpp\<close>): a task started on another executor, and the trampoline between the two. The
  trampoline owns the segment of the task; it posts the parent back when the task finished, and unwinds the task and abandons the parent when the segment was
  abandoned. \<open>rb_in_task\<close> is whether the parent is a coroutine that calls \<^verbatim>\<open>await_suspend\<close> from a \<^verbatim>\<open>noexcept\<close> function, as \<^verbatim>\<open>task\<close> and \<^verbatim>\<open>quitter\<close> do
  for everything they await: there an exception thrown by \<^verbatim>\<open>await_suspend\<close> terminates the program, elsewhere it reaches the parent. \<open>rb_log\<close>, \<open>rb_made\<close>,
  \<open>rb_frees\<close>, \<open>rb_inner_frees\<close>, \<open>rb_threw\<close> and \<open>rb_above\<close> are ghosts: what was done with the parent, how many trampolines were made, how often the frame
  of the trampoline and of the task were destroyed, whether \<^verbatim>\<open>await_suspend\<close> threw, and whether the parent was destroyed from above while the task was lent.
\<close>

datatype inner_pc = Inner_Unstarted | Inner_Posted | Inner_Finished | Inner_Destroyed

datatype parent_pc = Parent_Running | Parent_Suspended | Parent_Posted | Parent_Given_Up | Parent_Gone

datatype parent_mark = Resume_Posted | Abandon_Called

record run_boundary =
  rb_tr_h :: bool
  rb_frame :: bool
  rb_owner :: bool
  rb_abandoned :: bool
  rb_inner :: inner_pc
  rb_task_cont :: bool
  rb_holds_work :: bool
  rb_work :: nat
  rb_parent :: parent_pc
  rb_alive :: bool
  rb_terminated :: bool
  rb_in_task :: bool
  rb_threw :: bool
  rb_above :: bool
  rb_log :: "parent_mark list"
  rb_made :: nat
  rb_frees :: nat
  rb_inner_frees :: nat

text \<open>The awaitable before it is awaited; \<open>work\<close> is the work count of the caller's executor.\<close>

definition run_ex_init :: "bool \<Rightarrow> nat \<Rightarrow> run_boundary" where
  "run_ex_init in_task work = \<lparr>rb_tr_h = False, rb_frame = False, rb_owner = False, rb_abandoned = False, rb_inner = Inner_Unstarted, rb_task_cont = False,
     rb_holds_work = False, rb_work = work, rb_parent = Parent_Running, rb_alive = True, rb_terminated = False,
     rb_in_task = in_task, rb_threw = False, rb_above = False, rb_log = [], rb_made = 0, rb_frees = 0, rb_inner_frees = 0\<rparr>"

section \<open>The trampoline\<close>

text \<open>The memory of the frame of the trampoline goes.\<close>

definition free_frame :: "run_boundary \<Rightarrow> run_boundary" where
  "free_frame s = s\<lparr>rb_frame := False, rb_frees := rb_frees s + 1\<rparr>"

definition destroy_inner :: "run_boundary \<Rightarrow> run_boundary" where
  "destroy_inner s = s\<lparr>rb_inner := Inner_Destroyed, rb_inner_frees := rb_inner_frees s + 1\<rparr>"

definition unwind :: "run_boundary \<Rightarrow> run_boundary" where
  "unwind s =
     (let s = (destroy_inner s)\<lparr>rb_owner := False\<rparr>
      in s\<lparr>rb_log := rb_log s @ [Abandon_Called], rb_parent := Parent_Given_Up\<rparr>)"

text \<open>Destroying the frame runs the destructor of the promise, which unwinds when it is still linked: then an executor destroyed the frame.\<close>

definition promise_destroy :: "run_boundary \<Rightarrow> run_boundary" where
  "promise_destroy s =
     (let s = (if rb_owner s then unwind (s\<lparr>rb_tr_h := False\<rparr>) else s)
      in free_frame s)"

text \<open>The final awaiter.\<close>

definition boundary_final_suspend :: "run_boundary \<Rightarrow> run_boundary" where
  "boundary_final_suspend s =
     (if rb_abandoned s then unwind s
      else let s = s\<lparr>rb_owner := False\<rparr>
           in s\<lparr>rb_log := rb_log s @ [Resume_Posted], rb_parent := Parent_Posted\<rparr>)"

text \<open>The destructor of the trampoline object, and assigning an empty one to it.\<close>

definition boundary_destroy :: "run_boundary \<Rightarrow> run_boundary" where
  "boundary_destroy s = (if rb_tr_h s then promise_destroy (s\<lparr>rb_owner := False\<rparr>) else s)"

definition boundary_assign_empty :: "run_boundary \<Rightarrow> run_boundary" where
  "boundary_assign_empty s = (boundary_destroy s)\<lparr>rb_tr_h := False\<rparr>"

section \<open>The awaitable\<close>

text \<open>
  How \<^verbatim>\<open>await_suspend\<close> goes: the allocation of the trampoline throws, the post of the task throws, or neither. Whether it threw is
  the first component of the result.
\<close>

datatype suspend_course = Frame_Throws | Post_Throws | Posts

definition run_ex_await_suspend :: "suspend_course \<Rightarrow> run_boundary \<Rightarrow> bool \<times> run_boundary" where
  "run_ex_await_suspend course s =
     (if course = Frame_Throws then (True, s)
      else
        let s = (boundary_assign_empty s)\<lparr>rb_tr_h := True, rb_frame := True, rb_made := rb_made s + 1, rb_owner := True\<rparr>;
            s = s\<lparr>rb_work := rb_work s + 1, rb_holds_work := True\<rparr>;
            s = s\<lparr>rb_task_cont := True\<rparr>
        in if course = Posts then (False, s\<lparr>rb_inner := Inner_Posted, rb_parent := Parent_Suspended\<rparr>)
           else let s = boundary_assign_empty (s\<lparr>rb_task_cont := False\<rparr>);
                    s = s\<lparr>rb_holds_work := False, rb_work := rb_work s - 1\<rparr>
                in (True, s))"

definition run_ex_await_resume :: "run_boundary \<Rightarrow> run_boundary" where
  "run_ex_await_resume s =
     (let s = (if rb_holds_work s then s\<lparr>rb_holds_work := False, rb_work := rb_work s - 1\<rparr> else s)
      in s\<lparr>rb_parent := Parent_Running\<rparr>)"

text \<open>
  The destructor of the awaitable, with its members: the task, where it is still owned, and the trampoline. Nothing follows when it terminates the program.
\<close>

definition run_ex_destroy :: "run_boundary \<Rightarrow> run_boundary" where
  "run_ex_destroy s =
     (if rb_tr_h s \<and> rb_owner s then s\<lparr>rb_terminated := True\<rparr>
      else
        let s = (if rb_holds_work s then s\<lparr>rb_work := rb_work s - 1\<rparr> else s);
            s = (if rb_inner s \<noteq> Inner_Destroyed then destroy_inner s else s);
            s = boundary_destroy s
        in s\<lparr>rb_alive := False, rb_parent := Parent_Gone\<rparr>)"

text \<open>An exception that leaves \<^verbatim>\<open>await_suspend\<close>: it reaches the parent, which destroys the awaitable with the expression, or the \<^verbatim>\<open>noexcept\<close> function around it.\<close>

definition suspend_threw :: "run_boundary \<Rightarrow> run_boundary" where
  "suspend_threw s =
     (let s = s\<lparr>rb_threw := True\<rparr>
      in if rb_in_task s then s\<lparr>rb_terminated := True\<rparr> else run_ex_destroy s)"

section \<open>Runs\<close>

text \<open>
  The parent awaits once. The holder of the suspended task, or of the parent posted back, may give it up at any time; an executor resumes or destroys the trampoline
  that was posted to unwind. The awaitable goes with the expression, when the parent was resumed or the post threw, or with the frame of the parent when that is unwound
  or destroyed from above.
\<close>

inductive rb_step :: "run_boundary \<Rightarrow> run_boundary \<Rightarrow> bool" where
  awaits: "\<lbrakk>\<not> rb_terminated s; rb_alive s; rb_parent s = Parent_Running; rb_inner s = Inner_Unstarted; run_ex_await_suspend course s = (False, s')\<rbrakk>
    \<Longrightarrow> rb_step s s'"
| await_throws: "\<lbrakk>\<not> rb_terminated s; rb_alive s; rb_parent s = Parent_Running; rb_inner s = Inner_Unstarted; run_ex_await_suspend course s = (True, s')\<rbrakk>
    \<Longrightarrow> rb_step s (suspend_threw s')"
| inner_finishes: "\<lbrakk>\<not> rb_terminated s; rb_inner s = Inner_Posted; \<not> rb_abandoned s\<rbrakk> \<Longrightarrow> rb_step s (boundary_final_suspend (s\<lparr>rb_inner := Inner_Finished\<rparr>))"
| inner_given_up: "\<lbrakk>\<not> rb_terminated s; rb_inner s = Inner_Posted; \<not> rb_abandoned s\<rbrakk> \<Longrightarrow> rb_step s (s\<lparr>rb_abandoned := True\<rparr>)"
| trampoline_resumed: "\<lbrakk>\<not> rb_terminated s; rb_abandoned s; rb_frame s; rb_owner s\<rbrakk> \<Longrightarrow> rb_step s (boundary_final_suspend s)"
| trampoline_destroyed: "\<lbrakk>\<not> rb_terminated s; rb_abandoned s; rb_frame s; rb_owner s\<rbrakk> \<Longrightarrow> rb_step s (promise_destroy s)"
| parent_resumed: "\<lbrakk>\<not> rb_terminated s; rb_parent s = Parent_Posted\<rbrakk> \<Longrightarrow> rb_step s (run_ex_destroy (run_ex_await_resume s))"
| parent_given_up: "\<lbrakk>\<not> rb_terminated s; rb_parent s = Parent_Posted\<rbrakk> \<Longrightarrow> rb_step s (s\<lparr>rb_parent := Parent_Given_Up\<rparr>)"
| parent_unwound: "\<lbrakk>\<not> rb_terminated s; rb_parent s = Parent_Given_Up\<rbrakk> \<Longrightarrow> rb_step s (run_ex_destroy s)"
| parent_destroyed: "\<lbrakk>\<not> rb_terminated s; rb_parent s = Parent_Suspended\<rbrakk> \<Longrightarrow> rb_step s (run_ex_destroy (s\<lparr>rb_above := True\<rparr>))"

inductive rb_reach :: "bool \<Rightarrow> nat \<Rightarrow> run_boundary \<Rightarrow> bool" for in_task work where
  start: "rb_reach in_task work (run_ex_init in_task work)"
| step: "rb_reach in_task work s \<Longrightarrow> rb_step s s' \<Longrightarrow> rb_reach in_task work s'"

lemmas run_boundary_defs = run_ex_init_def free_frame_def destroy_inner_def unwind_def promise_destroy_def boundary_final_suspend_def boundary_destroy_def
  boundary_assign_empty_def run_ex_await_suspend_def run_ex_await_resume_def run_ex_destroy_def suspend_threw_def Let_def

text \<open>The invariant, by where the parent is; a terminated program stays where it was.\<close>

definition settled_mark :: "run_boundary \<Rightarrow> parent_mark list" where
  "settled_mark s = [if rb_abandoned s then Abandon_Called else Resume_Posted]"

fun rb_at :: "parent_pc \<Rightarrow> run_boundary \<Rightarrow> bool" where
  "rb_at Parent_Running s \<longleftrightarrow> rb_alive s \<and> rb_inner s = Inner_Unstarted \<and> \<not> rb_tr_h s \<and> \<not> rb_frame s \<and> \<not> rb_owner s \<and> \<not> rb_abandoned s
     \<and> \<not> rb_holds_work s \<and> rb_log s = [] \<and> rb_frees s = rb_made s \<and> rb_inner_frees s = 0 \<and> \<not> rb_above s \<and> (rb_threw s \<longrightarrow> rb_terminated s)
     \<and> (\<not> rb_threw s \<longrightarrow> rb_made s = 0)"
| "rb_at Parent_Suspended s \<longleftrightarrow> rb_alive s \<and> rb_inner s = Inner_Posted \<and> rb_tr_h s \<and> rb_frame s \<and> rb_owner s \<and> rb_holds_work s
     \<and> rb_log s = [] \<and> rb_made s = 1 \<and> rb_frees s = 0 \<and> rb_inner_frees s = 0 \<and> \<not> rb_threw s"
| "rb_at Parent_Posted s \<longleftrightarrow> rb_alive s \<and> rb_inner s = Inner_Finished \<and> rb_tr_h s \<and> rb_frame s \<and> \<not> rb_owner s \<and> \<not> rb_abandoned s \<and> rb_holds_work s
     \<and> rb_log s = [Resume_Posted] \<and> rb_made s = 1 \<and> rb_frees s = 0 \<and> rb_inner_frees s = 0 \<and> \<not> rb_threw s \<and> \<not> rb_above s"
| "rb_at Parent_Given_Up s \<longleftrightarrow> rb_alive s \<and> \<not> rb_owner s \<and> rb_holds_work s \<and> rb_tr_h s = rb_frame s \<and> rb_made s = 1
     \<and> rb_frees s = (if rb_frame s then 0 else 1) \<and> rb_log s = settled_mark s \<and> \<not> rb_threw s \<and> \<not> rb_above s
     \<and> rb_inner s = (if rb_abandoned s then Inner_Destroyed else Inner_Finished) \<and> rb_inner_frees s = (if rb_abandoned s then 1 else 0)"
| "rb_at Parent_Gone s \<longleftrightarrow> \<not> rb_alive s \<and> \<not> rb_frame s \<and> \<not> rb_owner s \<and> rb_inner s = Inner_Destroyed \<and> rb_frees s = rb_made s \<and> rb_made s \<le> 1
     \<and> rb_inner_frees s = 1 \<and> rb_log s = (if rb_threw s then [] else settled_mark s) \<and> \<not> rb_above s"

definition rb_inv :: "nat \<Rightarrow> run_boundary \<Rightarrow> bool" where
  "rb_inv work s \<longleftrightarrow> rb_work s = work + (if rb_holds_work s \<and> rb_alive s then 1 else 0) \<and> rb_made s \<le> 1
     \<and> (rb_terminated s \<longleftrightarrow> rb_above s \<or> (rb_threw s \<and> rb_in_task s)) \<and> rb_at (rb_parent s) s"

lemma rb_inv_step: "rb_step s s' \<Longrightarrow> rb_inv work s \<Longrightarrow> rb_inv work s'"
proof (induction rule: rb_step.induct)
  case (awaits s course s')
  then have c: "course = Posts" "rb_at Parent_Running s" by (cases course; simp add: run_ex_await_suspend_def Let_def rb_inv_def)+
  have "s' = snd (run_ex_await_suspend Posts s)" using awaits(5) c(1) by simp
  then show ?case using awaits(1,6) c by (simp add: run_boundary_defs rb_inv_def)
next
  case (await_throws s course s')
  then have c: "rb_at Parent_Running s" "s' = snd (run_ex_await_suspend course s)" "course \<noteq> Posts"
    by (simp_all add: rb_inv_def) (auto simp: run_ex_await_suspend_def Let_def)
  then show ?case using await_throws(1,3,6) by (cases course; cases "rb_in_task s") (simp_all add: run_boundary_defs rb_inv_def)
next
  case (inner_finishes s)
  then show ?case by (cases "rb_parent s") (simp_all add: run_boundary_defs rb_inv_def split: if_splits)
next
  case (inner_given_up s)
  then show ?case by (cases "rb_parent s") (simp_all add: rb_inv_def split: if_splits)
next
  case (trampoline_resumed s)
  then show ?case by (cases "rb_parent s") (simp_all add: run_boundary_defs rb_inv_def settled_mark_def)
next
  case (trampoline_destroyed s)
  then show ?case by (cases "rb_parent s") (simp_all add: run_boundary_defs rb_inv_def settled_mark_def)
next
  case (parent_unwound s)
  then show ?case by (cases "rb_abandoned s"; cases "rb_frame s") (simp_all add: run_boundary_defs rb_inv_def settled_mark_def)
qed (simp_all add: run_boundary_defs rb_inv_def settled_mark_def)

lemma in_task_final [simp]:
  "rb_in_task (promise_destroy s) = rb_in_task s" "rb_in_task (boundary_final_suspend s) = rb_in_task s" "rb_in_task (run_ex_await_resume s) = rb_in_task s"
  by (simp_all add: promise_destroy_def boundary_final_suspend_def run_ex_await_resume_def unwind_def free_frame_def destroy_inner_def Let_def)

lemma in_task_destroy [simp]: "rb_in_task (run_ex_destroy s) = rb_in_task s" "rb_in_task (boundary_assign_empty s) = rb_in_task s" "rb_in_task (suspend_threw s) = rb_in_task s"
  by (simp_all add: suspend_threw_def run_ex_destroy_def boundary_assign_empty_def boundary_destroy_def destroy_inner_def Let_def)

lemma in_task_suspend: "run_ex_await_suspend course s = (b, s') \<Longrightarrow> rb_in_task s' = rb_in_task s"
  by (cases course) (auto simp: run_ex_await_suspend_def Let_def)

lemma in_task_step: "rb_step s s' \<Longrightarrow> rb_in_task s' = rb_in_task s"
  by (induction rule: rb_step.induct) (simp_all add: in_task_suspend)

lemma rb_reach_inv: "rb_reach in_task work s \<Longrightarrow> rb_inv work s \<and> rb_in_task s = in_task"
proof (induction rule: rb_reach.induct)
  case start
  show ?case by (simp add: run_ex_init_def rb_inv_def)
qed (auto intro: rb_inv_step dest: in_task_step)

lemma rb_progress:
  assumes "rb_inv work s" "rb_alive s" "\<not> rb_terminated s"
  shows "\<exists>s'. rb_step s s'"
proof (cases "rb_parent s")
  case Parent_Running
  then show ?thesis using assms rb_step.awaits [of s Posts] by (auto simp: rb_inv_def run_ex_await_suspend_def Let_def)
next
  case Parent_Suspended
  then show ?thesis using assms rb_step.inner_finishes [of s] rb_step.trampoline_resumed [of s] by (cases "rb_abandoned s") (auto simp: rb_inv_def)
qed (use assms in \<open>auto simp: rb_inv_def intro: rb_step.parent_resumed rb_step.parent_unwound\<close>)


text \<open>A run to the end, one whose post throws into a parent that is not a task, and one whose post throws inside a task.\<close>

definition demo_run :: run_boundary where
  "demo_run = run_ex_destroy (run_ex_await_resume (boundary_final_suspend ((snd (run_ex_await_suspend Posts (run_ex_init True 3)))\<lparr>rb_inner := Inner_Finished\<rparr>)))"

lemma demo_run_reach: "rb_reach True 3 demo_run"
proof -
  let ?s1 = "snd (run_ex_await_suspend Posts (run_ex_init True 3))"
  have 1: "rb_reach True 3 ?s1" by (rule rb_reach.step [OF rb_reach.start rb_step.awaits [of _ Posts]]) (simp_all add: run_boundary_defs)
  have 2: "rb_reach True 3 (boundary_final_suspend (?s1\<lparr>rb_inner := Inner_Finished\<rparr>))"
    by (rule rb_reach.step [OF 1 rb_step.inner_finishes]) (simp_all add: run_boundary_defs)
  show ?thesis unfolding demo_run_def by (rule rb_reach.step [OF 2 rb_step.parent_resumed]) (simp_all add: run_boundary_defs)
qed

lemma demo_throw_reach: "rb_reach b 3 (suspend_threw (snd (run_ex_await_suspend Post_Throws (run_ex_init b 3))))"
  by (rule rb_reach.step [OF rb_reach.start rb_step.await_throws [of _ Post_Throws]]) (simp_all add: run_boundary_defs)


end
