(* ===== verification/Frame_Caches.thy ===== *)
theory Frame_Caches
  imports Prelude
begin

text \<open>
  The two caches of one coroutine frame: the slot of the strand service in which the frame of a finished invoker waits for the next one
  (\<^verbatim>\<open>strand_invoker::promise_type\<close> in \<^verbatim>\<open>src/ex/detail/strand_service.cpp\<close>), shared by all threads and closed by the shutdown of the service, and the frame that
  \<^verbatim>\<open>write_now\<close> keeps for its next operation (\<^verbatim>\<open>io/write_now.hpp\<close>). Blocks are numbers; \<open>::operator new\<close> hands out fresh ones.
\<close>

section \<open>The slot of the strand service\<close>

datatype slot_value = Slot_Empty | Slot_Frame nat | Slot_Closed

text \<open>A thread inside \<^verbatim>\<open>operator new\<close> holds the value it loaded last.\<close>

datatype new_pc = New_Idle | New_Loaded slot_value

record invoker_cache =
  ic_slot :: slot_value
  ic_pc :: "nat \<Rightarrow> new_pc"
  ic_heap :: "nat set"
  ic_used :: "nat set"
  ic_next :: nat

definition ic_init :: invoker_cache where
  "ic_init = \<lparr>ic_slot = Slot_Empty, ic_pc = (\<lambda>_. New_Idle), ic_heap = {}, ic_used = {}, ic_next = 0\<rparr>"

definition set_pc :: "nat \<Rightarrow> new_pc \<Rightarrow> invoker_cache \<Rightarrow> invoker_cache" where
  "set_pc t q s = s\<lparr>ic_pc := (ic_pc s)(t := q)\<rparr>"

text \<open>\<^verbatim>\<open>operator new\<close>: the load, one turn of the exchange loop, and the allocation when the loaded value is no frame.\<close>

definition new_load :: "nat \<Rightarrow> invoker_cache \<Rightarrow> invoker_cache" where
  "new_load t s = set_pc t (New_Loaded (ic_slot s)) s"

text \<open>The frame that was taken, if the exchange succeeded; a weak exchange may also fail although the values agree.\<close>

definition new_exchange :: "bool \<Rightarrow> nat \<Rightarrow> nat \<Rightarrow> invoker_cache \<Rightarrow> nat option \<times> invoker_cache" where
  "new_exchange spurious t p s =
     (if ic_slot s = Slot_Frame p \<and> \<not> spurious
      then (Some p, set_pc t New_Idle (s\<lparr>ic_slot := Slot_Empty, ic_used := insert p (ic_used s)\<rparr>))
      else (None, new_load t s))"

definition new_allocate :: "nat \<Rightarrow> invoker_cache \<Rightarrow> nat \<times> invoker_cache" where
  "new_allocate t s =
     (ic_next s, set_pc t New_Idle (s\<lparr>ic_heap := insert (ic_next s) (ic_heap s), ic_used := insert (ic_next s) (ic_used s), ic_next := ic_next s + 1\<rparr>))"

definition free_block :: "nat \<Rightarrow> invoker_cache \<Rightarrow> invoker_cache" where
  "free_block p s = s\<lparr>ic_heap := ic_heap s - {p}\<rparr>"

text \<open>\<^verbatim>\<open>operator delete\<close>: the frame is parked in an empty slot and freed otherwise.\<close>

definition invoker_delete :: "nat \<Rightarrow> invoker_cache \<Rightarrow> invoker_cache" where
  "invoker_delete p s =
     (let s = s\<lparr>ic_used := ic_used s - {p}\<rparr>
      in if ic_slot s = Slot_Empty then s\<lparr>ic_slot := Slot_Frame p\<rparr> else free_block p s)"

definition close_cache :: "invoker_cache \<Rightarrow> invoker_cache" where
  "close_cache s =
     (let fp = ic_slot s; s = s\<lparr>ic_slot := Slot_Closed\<rparr>
      in case fp of Slot_Frame p \<Rightarrow> free_block p s | _ \<Rightarrow> s)"

inductive ic_step :: "invoker_cache \<Rightarrow> invoker_cache \<Rightarrow> bool" where
  loads: "ic_pc s t = New_Idle \<Longrightarrow> ic_step s (new_load t s)"
| exchanges: "ic_pc s t = New_Loaded (Slot_Frame p) \<Longrightarrow> ic_step s (snd (new_exchange spurious t p s))"
| allocates: "\<lbrakk>ic_pc s t = New_Loaded v; v = Slot_Empty \<or> v = Slot_Closed\<rbrakk> \<Longrightarrow> ic_step s (snd (new_allocate t s))"
| deletes: "p \<in> ic_used s \<Longrightarrow> ic_step s (invoker_delete p s)"
| closes: "ic_slot s \<noteq> Slot_Closed \<Longrightarrow> ic_step s (close_cache s)"

inductive ic_reach :: "invoker_cache \<Rightarrow> bool" where
  start: "ic_reach ic_init"
| step: "ic_reach s \<Longrightarrow> ic_step s s' \<Longrightarrow> ic_reach s'"

fun parked :: "slot_value \<Rightarrow> nat set" where
  "parked (Slot_Frame p) = {p}" | "parked _ = {}"

definition ic_inv :: "invoker_cache \<Rightarrow> bool" where
  "ic_inv s \<longleftrightarrow> ic_heap s = ic_used s \<union> parked (ic_slot s) \<and> ic_used s \<inter> parked (ic_slot s) = {} \<and> ic_heap s \<subseteq> {..<ic_next s}"

lemmas ic_defs = new_load_def new_exchange_def new_allocate_def invoker_delete_def close_cache_def free_block_def set_pc_def Let_def

lemma ic_inv_step: "ic_step s s' \<Longrightarrow> ic_inv s \<Longrightarrow> ic_inv s'"
  by (induction rule: ic_step.induct) (auto simp: ic_inv_def ic_defs split: slot_value.splits)

lemma ic_reach_inv: "ic_reach s \<Longrightarrow> ic_inv s"
  by (induction rule: ic_reach.induct) (simp add: ic_inv_def ic_init_def, blast intro: ic_inv_step)

text \<open>
  The frame cache of the strand invokers, under any interleaving of the loads and exchanges of the threads and of the shutdown: the frame that \<^verbatim>\<open>operator new\<close> returns, taken from the slot or
  fresh, is allocated and is the frame of no other invoker; what is allocated is exactly the frames in use and the one in the slot, so that once the slot is closed
  and the last invoker is gone nothing is left.
\<close>

theorem invoker_frames_safe:
  assumes "ic_reach s"
  shows "(\<forall>spurious t p q s'. new_exchange spurious t p s = (Some q, s') \<longrightarrow> q \<notin> ic_used s \<and> q \<in> ic_heap s')
    \<and> (\<forall>t q s'. new_allocate t s = (q, s') \<longrightarrow> q \<notin> ic_used s \<and> q \<notin> ic_heap s \<and> q \<in> ic_heap s')
    \<and> ic_heap s = ic_used s \<union> parked (ic_slot s)
    \<and> (ic_slot s = Slot_Closed \<and> ic_used s = {} \<longrightarrow> ic_heap s = {})"
  using ic_reach_inv [OF assms] by (auto simp: ic_inv_def ic_defs split: if_splits)

lemma ic_run: "ic_reach (invoker_delete 0 (snd (new_allocate 5 (new_load 5 ic_init))))"
proof -
  have 1: "ic_reach (new_load 5 ic_init)" by (rule ic_reach.step [OF ic_reach.start ic_step.loads]) (simp add: ic_init_def)
  have 2: "ic_reach (snd (new_allocate 5 (new_load 5 ic_init)))"
    by (rule ic_reach.step [OF 1 ic_step.allocates [of _ _ Slot_Empty]]) (simp_all add: ic_defs ic_init_def)
  show ?thesis by (rule ic_reach.step [OF 2 ic_step.deletes]) (simp add: ic_defs ic_init_def)
qed

theorem invoker_frames_safe_witness:
  "\<exists>s. ic_reach s \<and> ic_slot s = Slot_Frame 0 \<and> ic_used s = {} \<and> ic_heap s = {0}"
proof -
  let ?s = "invoker_delete 0 (snd (new_allocate 5 (new_load 5 ic_init)))"
  have s: "ic_slot ?s = Slot_Frame 0" "ic_used ?s = {}" by (simp_all add: ic_defs ic_init_def)
  have "ic_heap ?s = ic_used ?s \<union> parked (ic_slot ?s)" using invoker_frames_safe [OF ic_run] by blast
  then show ?thesis using s ic_run by auto
qed

section \<open>The frame of write_now\<close>

record write_now_cache =
  wn_frame :: "nat option"
  wn_size :: nat
  wn_heap :: "nat set"
  wn_next :: nat

definition wn_init :: write_now_cache where
  "wn_init = \<lparr>wn_frame = None, wn_size = 0, wn_heap = {}, wn_next = 0\<rparr>"

text \<open>\<open>operator new\<close> of the promise; \<open>operator delete\<close> does nothing. The block and the state.\<close>

definition wn_new :: "nat \<Rightarrow> write_now_cache \<Rightarrow> nat \<times> write_now_cache" where
  "wn_new sz s =
     (case wn_frame s of
        Some p \<Rightarrow>
          if wn_size s \<ge> sz then (p, s)
          else (wn_next s, s\<lparr>wn_heap := insert (wn_next s) (wn_heap s) - {p}, wn_frame := Some (wn_next s), wn_size := sz, wn_next := wn_next s + 1\<rparr>)
      | None \<Rightarrow> (wn_next s, s\<lparr>wn_heap := insert (wn_next s) (wn_heap s), wn_frame := Some (wn_next s), wn_size := sz, wn_next := wn_next s + 1\<rparr>))"

definition wn_destroy :: "write_now_cache \<Rightarrow> write_now_cache" where
  "wn_destroy s = (case wn_frame s of Some p \<Rightarrow> s\<lparr>wn_heap := wn_heap s - {p}\<rparr> | None \<Rightarrow> s)"

fun wn_run :: "nat list \<Rightarrow> write_now_cache \<Rightarrow> write_now_cache" where
  "wn_run [] s = s"
| "wn_run (n # ns) s = wn_run ns (snd (wn_new n s))"

definition wn_inv :: "write_now_cache \<Rightarrow> bool" where
  "wn_inv s \<longleftrightarrow> wn_heap s = set_option (wn_frame s) \<and> (\<forall>p \<in> wn_heap s. p < wn_next s)"

lemma wn_inv_new: "wn_inv s \<Longrightarrow> wn_inv (snd (wn_new n s))"
  by (auto simp: wn_inv_def wn_new_def split: option.splits)

lemma wn_inv_run: "wn_inv s \<Longrightarrow> wn_inv (wn_run ns s)"
  by (induction ns arbitrary: s) (auto intro: wn_inv_new)

text \<open>
  One operation after another, of any sizes: each frame is a live block of at least its size, the only one, and the destructor leaves none.
\<close>

lemma write_now_frames_safe:
  "fst (wn_new n (wn_run ns wn_init)) \<in> wn_heap (snd (wn_new n (wn_run ns wn_init))) \<and> n \<le> wn_size (snd (wn_new n (wn_run ns wn_init)))
   \<and> wn_heap (wn_destroy (wn_run ns wn_init)) = {}"
proof -
  have "wn_inv (wn_run ns wn_init)" by (rule wn_inv_run) (simp add: wn_inv_def wn_init_def)
  then show ?thesis by (auto simp: wn_inv_def wn_new_def wn_destroy_def split: option.splits)
qed

end
