(* ===== verification/Any_Stream.thy ===== *)
theory Any_Stream
  imports Mock_Streams Buffer_Array
begin

text \<open>
  The type-erased streams (\<^verbatim>\<open>io/any_read_stream.hpp\<close>, \<^verbatim>\<open>io/any_write_stream.hpp\<close>). What a caller sees: an operation on the wrapper is one on the wrapped stream, with the
  buffers copied into an array of \<^verbatim>\<open>max_iovec_\<close> descriptors. And what the wrapper does with memory: the owned stream, the storage of the wrapped stream's
  awaitable, and which of the awaitables of the wrapper holds the operation in flight.
\<close>

section \<open>What a caller sees\<close>

definition any_read_some :: "'s read_op \<Rightarrow> 's read_op" where
  "any_read_some read_some s bs m = read_some s (ba_to_span (ba_of_seq max_iovec bs)) m"

text \<open>An empty write never touches the wrapped stream.\<close>

definition any_write_some :: "'s write_op \<Rightarrow> 's write_op" where
  "any_write_some write_some s bs m =
     (let span = ba_to_span (ba_of_seq max_iovec bs)
      in if span = [] then Inr (success, 0, s) else write_some s span m)"

lemma erased_span:
  assumes "wf_buffers bs"
  defines "span \<equiv> ba_to_span (ba_of_seq max_iovec bs)"
  shows "wf_buffers span" "addrs span = take (length (addrs span)) (addrs bs)" "addrs bs \<noteq> [] \<Longrightarrow> addrs span \<noteq> []"
proof -
  have s: "span = take max_iovec (nonempty bs)" using ba_of_seq_array(3) [OF assms(1), of max_iovec] by (simp add: span_def)
  have bs: "addrs bs = addrs span @ addrs (drop max_iovec (nonempty bs))"
    by (metis s addrs_nonempty append_take_drop_id addrs_append)
  then show "addrs span = take (length (addrs span)) (addrs bs)" by simp
  show "wf_buffers span" using assms(1) bs by (simp add: wf_buffers_def)
  show "addrs span \<noteq> []" if "addrs bs \<noteq> []"
  proof (cases "nonempty bs")
    case Nil
    then show ?thesis using that addrs_nonempty [of bs] by simp
  next
    case (Cons b xs)
    then have "buf_n b \<noteq> 0" unfolding nonempty_def by (metis (mono_tags, lifting) filter_eq_ConsD)
    moreover have "span = b # take 15 xs" by (simp add: s Cons max_iovec_def)
    ultimately show ?thesis by (metis addrs_Cons append_is_Nil_conv length_0_conv length_baddrs)
  qed
qed

lemma take_prefix_le: "xs = take k ys \<Longrightarrow> n \<le> length xs \<Longrightarrow> take n xs = take n ys"
  by (simp add: min_absorb1)

lemma any_read_contract:
  assumes c: "read_stream_contract read_some ok own inp"
  shows "read_stream_contract (any_read_some read_some) ok own inp"
proof
  fix s bs m ec n s' m'
  assume "ok s" "any_read_some read_some s bs m = Inr (ec, n, s', m')"
  then show "ok s'" using read_stream_contract.ok_kept [OF c] by (simp add: any_read_some_def)
next
  fix s bs m ec n s' m'
  let ?span = "ba_to_span (ba_of_seq max_iovec bs)"
  assume a: "ok s" "addrs bs \<noteq> []" "wf_buffers bs" "distinct (addrs bs)" "set (addrs bs) \<inter> own = {}" "any_read_some read_some s bs m = Inr (ec, n, s', m')"
  note e = erased_span [OF a(3)]
  have d: "distinct (addrs ?span)" "set (addrs ?span) \<inter> own = {}" using e(2) a(4,5) by (metis distinct_take, metis disjoint_iff in_set_takeD)
  have r: "read_some s ?span m = Inr (ec, n, s', m')" using a(6) by (simp add: any_read_some_def)
  have l: "length (addrs ?span) \<le> length (addrs bs)" by (metis e(2) length_take min.cobounded1)
  have n: "n \<le> length (addrs ?span) \<and> (if failed ec then n < length (addrs ?span) else 1 \<le> n)"
    by (rule read_stream_contract.count [OF c a(1) e(3) [OF a(2)] e(1) d r])
  then show "n \<le> length (addrs bs) \<and> (if failed ec then n < length (addrs bs) else 1 \<le> n)" using l by auto
  have "take n (addrs ?span) = take n (addrs bs)" by (rule take_prefix_le [OF e(2)]) (use n in simp)
  then show "inp s = map m' (take n (addrs bs)) @ inp s' \<and> (\<forall>a. a \<notin> own \<union> set (take n (addrs bs)) \<longrightarrow> m' a = m a)"
    using read_stream_contract.placed [OF c a(1) e(3) [OF a(2)] e(1) d r] by simp
qed

lemma any_write_contract:
  assumes c: "write_stream_contract write_some okw ownw out"
  shows "write_stream_contract (any_write_some write_some) okw ownw out"
proof
  fix s bs m ec n s'
  assume "okw s" "any_write_some write_some s bs m = Inr (ec, n, s')"
  then show "okw s'" using write_stream_contract.ok_kept [OF c] by (auto simp: any_write_some_def Let_def split: if_splits)
next
  fix s bs m ec n s'
  let ?span = "ba_to_span (ba_of_seq max_iovec bs)"
  assume a: "okw s" "addrs bs \<noteq> []" "wf_buffers bs" "set (addrs bs) \<inter> ownw = {}" "any_write_some write_some s bs m = Inr (ec, n, s')"
  note e = erased_span [OF a(3)]
  have d: "set (addrs ?span) \<inter> ownw = {}" using e(2) a(4) by (metis disjoint_iff in_set_takeD)
  have r: "write_some s ?span m = Inr (ec, n, s')" using a(5) e(3) [OF a(2)] by (auto simp: any_write_some_def Let_def split: if_splits)
  have l: "length (addrs ?span) \<le> length (addrs bs)" by (metis e(2) length_take min.cobounded1)
  have n: "n \<le> length (addrs ?span) \<and> (if failed ec then n < length (addrs ?span) else 1 \<le> n)"
    by (rule write_stream_contract.count [OF c a(1) e(3) [OF a(2)] e(1) d r])
  then show "n \<le> length (addrs bs) \<and> (if failed ec then n < length (addrs bs) else 1 \<le> n)" using l by auto
  have "take n (addrs ?span) = take n (addrs bs)" by (rule take_prefix_le [OF e(2)]) (use n in simp)
  then show "out s' = out s @ map m (take n (addrs bs))"
    using write_stream_contract.sent [OF c a(1) e(3) [OF a(2)] e(1) d r] by simp
qed

text \<open>The wrapped mock streams.\<close>

interpretation erased_read: read_stream_contract "any_read_some (rs_read_some loc st)" "rs_ok ptr cap" "{ptr..<ptr + cap}" rs_rest
  for loc st ptr cap
  by (rule any_read_contract) unfold_locales

interpretation erased_write: write_stream_contract "any_write_some (ws_write_some loc st)" "ws_ok ptr E" "{ptr..}" "ws_out E"
  for loc st ptr E
  by (rule any_write_contract) unfold_locales

text \<open>
  Type erasure keeps the contract of a stream: when the wrapped stream meets the requirements of a read stream, or of a write stream, so does the wrapper, for buffer sequences of any
  length, although it passes on only the first \<^verbatim>\<open>max_iovec_\<close> non-empty buffers; so \<^verbatim>\<open>read\<close>, \<^verbatim>\<open>read_at_least\<close>, \<^verbatim>\<open>write\<close> and \<^verbatim>\<open>write_at_least\<close> on a wrapper do what they
  do on a stream.
\<close>

theorem erasure_keeps_contract:
  "(read_stream_contract read_some ok own inp \<longrightarrow> read_stream_contract (any_read_some read_some) ok own inp)
   \<and> (write_stream_contract write_some okw ownw out \<longrightarrow> write_stream_contract (any_write_some write_some) okw ownw out)"
  using any_read_contract any_write_contract by blast

theorem erasure_keeps_contract_witness:
  "read_stream_contract (any_read_some (rs_read_some 0 False)) (rs_ok 100 3) {100..<100 + 3} rs_rest
   \<and> write_stream_contract (any_write_some (ws_write_some 0 False)) (ws_ok 100 []) {100..} (ws_out [])"
  using erasure_keeps_contract [of "rs_read_some 0 False" "rs_ok 100 3" "{100..<100 + 3}" rs_rest "ws_write_some 0 False" "ws_ok 100 []" "{100..}" "ws_out []"]
    mock_read.read_stream_contract_axioms mock_write.write_stream_contract_axioms by blast

end
