(* ===== verification/Any_Stream_Memory.thy ===== *)
theory Any_Stream_Memory
  imports Prelude
begin

text \<open>
  What the type-erased streams do with memory (\<^verbatim>\<open>io/any_read_stream.hpp\<close>; \<^verbatim>\<open>io/any_write_stream.hpp\<close> repeats it). Wrappers and the awaitables of their operations are
  objects at addresses, blocks of \<^verbatim>\<open>::operator new\<close> are numbers. \<open>es_streams\<close> are the blocks with a live owned stream, \<open>es_inner\<close> those with a live awaitable of the
  wrapped stream; \<open>es_bad\<close> records the destruction of something that is not alive, and \<open>es_gone\<close> the streams destroyed so far, each with the awaitables that were
  alive at that moment.
\<close>

record any_rs =
  ar_stream :: bool
  ar_vt :: bool
  ar_cached :: "nat option"
  ar_storage :: "nat option"
  ar_active :: bool
  ar_owner :: "nat option"

record rs_awaitable =
  ra_self :: "nat option"
  ra_owns :: bool

record erased =
  es_rs :: "nat \<rightharpoonup> any_rs"
  es_ops :: "nat \<rightharpoonup> rs_awaitable"
  es_heap :: "nat set"
  es_streams :: "nat set"
  es_inner :: "nat set"
  es_next :: nat
  es_bad :: bool
  es_gone :: "(nat \<times> nat set) list"

definition es_init :: erased where
  "es_init = \<lparr>es_rs = Map.empty, es_ops = Map.empty, es_heap = {}, es_streams = {}, es_inner = {}, es_next = 0, es_bad = False, es_gone = []\<rparr>"

definition rs_null :: any_rs where
  "rs_null = \<lparr>ar_stream = False, ar_vt = False, ar_cached = None, ar_storage = None, ar_active = False, ar_owner = None\<rparr>"

section \<open>Memory\<close>

definition es_new :: "erased \<Rightarrow> nat \<times> erased" where
  "es_new s = (es_next s, s\<lparr>es_heap := insert (es_next s) (es_heap s), es_next := es_next s + 1\<rparr>)"

definition es_delete :: "nat \<Rightarrow> erased \<Rightarrow> erased" where
  "es_delete b s = s\<lparr>es_heap := es_heap s - {b}, es_bad := (es_bad s \<or> b \<notin> es_heap s)\<rparr>"

definition destroy_stream :: "nat \<Rightarrow> erased \<Rightarrow> erased" where
  "destroy_stream b s = s\<lparr>es_streams := es_streams s - {b}, es_bad := (es_bad s \<or> b \<notin> es_streams s), es_gone := es_gone s @ [(b, es_inner s)]\<rparr>"

definition destroy_awaitable :: "nat \<Rightarrow> erased \<Rightarrow> erased" where
  "destroy_awaitable b s = s\<lparr>es_inner := es_inner s - {b}, es_bad := (es_bad s \<or> b \<notin> es_inner s)\<rparr>"

definition put_rs :: "nat \<Rightarrow> any_rs \<Rightarrow> erased \<Rightarrow> erased" where
  "put_rs w r s = s\<lparr>es_rs := (es_rs s)(w \<mapsto> r)\<rparr>"

definition put_op :: "nat \<Rightarrow> rs_awaitable \<Rightarrow> erased \<Rightarrow> erased" where
  "put_op a v s = s\<lparr>es_ops := (es_ops s)(a \<mapsto> v)\<rparr>"

section \<open>The wrapper\<close>

definition disown :: "any_rs \<Rightarrow> erased \<Rightarrow> erased" where
  "disown r s =
     (case ar_owner r of
        None \<Rightarrow> s
      | Some a \<Rightarrow> (case es_ops s a of None \<Rightarrow> s\<lparr>es_bad := True\<rparr> | Some v \<Rightarrow> put_op a (v\<lparr>ra_owns := False\<rparr>) s))"

text \<open>Ending the operation in flight; the wrapper at \<open>w\<close> is \<open>r\<close>.\<close>

definition end_operation :: "nat \<Rightarrow> any_rs \<Rightarrow> erased \<Rightarrow> erased" where
  "end_operation w r s =
     (let s = disown r s;
          s = (if ar_active r then (case ar_cached r of None \<Rightarrow> s\<lparr>es_bad := True\<rparr> | Some b \<Rightarrow> destroy_awaitable b s) else s)
      in put_rs w (r\<lparr>ar_owner := None, ar_active := False\<rparr>) s)"

text \<open>The rest of the destructor and of the assignment: the storage and the owned stream are released.\<close>

definition release :: "any_rs \<Rightarrow> erased \<Rightarrow> erased" where
  "release r s =
     (let s = (case ar_cached r of None \<Rightarrow> s | Some b \<Rightarrow> es_delete b s)
      in case ar_storage r of None \<Rightarrow> s | Some b \<Rightarrow> es_delete b (destroy_stream b s))"

definition rs_destroy :: "nat \<Rightarrow> any_rs \<Rightarrow> erased \<Rightarrow> erased" where
  "rs_destroy w r s =
     (let s = release r (end_operation w r s)
      in s\<lparr>es_rs := (es_rs s)(w := None)\<rparr>)"

text \<open>Move construction of \<open>w\<close> from \<open>v\<close>, which is \<open>r\<close>, and move assignment to \<open>w\<close>, which is \<open>q\<close>.\<close>

definition rs_move_construct :: "nat \<Rightarrow> nat \<Rightarrow> any_rs \<Rightarrow> erased \<Rightarrow> erased" where
  "rs_move_construct w v r s = put_rs v rs_null (put_rs w (r\<lparr>ar_owner := None\<rparr>) (disown r s))"

definition rs_move_assign :: "nat \<Rightarrow> any_rs \<Rightarrow> nat \<Rightarrow> any_rs \<Rightarrow> erased \<Rightarrow> erased" where
  "rs_move_assign w q v r s =
     (if w = v then s
      else let s = disown r (end_operation w q s);
               s = release q s
           in put_rs v rs_null (put_rs w (r\<lparr>ar_owner := None\<rparr>) s))"

text \<open>
  Construction with ownership; \<open>fail\<close> is which of the two allocations and the move of the stream throws, if any: the guard then undoes what was done.
\<close>

datatype construct_fail = Fail_Storage | Fail_Move | Fail_Cached

definition rs_construct :: "nat \<Rightarrow> construct_fail option \<Rightarrow> erased \<Rightarrow> erased" where
  "rs_construct w fail s =
     (if fail = Some Fail_Storage then s
      else let (st, s) = es_new s
           in if fail = Some Fail_Move then es_delete st s
              else let s = s\<lparr>es_streams := insert st (es_streams s)\<rparr>
                   in if fail = Some Fail_Cached then es_delete st (destroy_stream st s)
                      else let (c, s) = es_new s
                           in put_rs w \<lparr>ar_stream = True, ar_vt = True, ar_cached = Some c, ar_storage = Some st, ar_active = False, ar_owner = None\<rparr> s)"

text \<open>Construction from a pointer.\<close>

definition rs_construct_ref :: "nat \<Rightarrow> erased \<Rightarrow> erased" where
  "rs_construct_ref w s =
     (let (c, s) = es_new s
      in put_rs w \<lparr>ar_stream = True, ar_vt = True, ar_cached = Some c, ar_storage = None, ar_active = False, ar_owner = None\<rparr> s)"

section \<open>The awaitable of an operation\<close>

definition ra_new :: "nat \<Rightarrow> nat \<Rightarrow> erased \<Rightarrow> erased" where
  "ra_new a w s = put_op a \<lparr>ra_self = Some w, ra_owns = False\<rparr> s"

text \<open>Moving the awaitable \<open>v\<close> at \<open>b\<close> to \<open>a\<close>.\<close>

definition ra_move :: "nat \<Rightarrow> nat \<Rightarrow> rs_awaitable \<Rightarrow> erased \<Rightarrow> erased" where
  "ra_move a b v s =
     (let s = put_op b \<lparr>ra_self = None, ra_owns = False\<rparr> (put_op a v s)
      in if ra_owns v
         then (case ra_self v of
                 None \<Rightarrow> s\<lparr>es_bad := True\<rparr>
               | Some w \<Rightarrow> (case es_rs s w of None \<Rightarrow> s\<lparr>es_bad := True\<rparr> | Some r \<Rightarrow> put_rs w (r\<lparr>ar_owner := Some a\<rparr>) s))
         else s)"

text \<open>\<^verbatim>\<open>await_ready\<close> constructs the wrapped stream's awaitable in the storage of the wrapper.\<close>

definition ra_ready :: "nat \<Rightarrow> nat \<Rightarrow> any_rs \<Rightarrow> erased \<Rightarrow> erased" where
  "ra_ready a w r s =
     (case ar_cached r of
        None \<Rightarrow> s\<lparr>es_bad := True\<rparr>
      | Some b \<Rightarrow> put_op a \<lparr>ra_self = Some w, ra_owns = True\<rparr> (put_rs w (r\<lparr>ar_active := True, ar_owner := Some a\<rparr>) (s\<lparr>es_inner := insert b (es_inner s)\<rparr>)))"

text \<open>The end of an operation by its own awaitable: the guard of \<^verbatim>\<open>await_resume\<close>, and the destructor.\<close>

definition ra_finish :: "nat \<Rightarrow> rs_awaitable \<Rightarrow> erased \<Rightarrow> erased" where
  "ra_finish a v s =
     (case ra_self v of
        None \<Rightarrow> s\<lparr>es_bad := True\<rparr>
      | Some w \<Rightarrow> (case es_rs s w of
            None \<Rightarrow> s\<lparr>es_bad := True\<rparr>
          | Some r \<Rightarrow> (case ar_cached r of
                None \<Rightarrow> s\<lparr>es_bad := True\<rparr>
              | Some b \<Rightarrow> put_op a (v\<lparr>ra_owns := False\<rparr>) (put_rs w (r\<lparr>ar_active := False, ar_owner := None\<rparr>) (destroy_awaitable b s)))))"

definition ra_destroy :: "nat \<Rightarrow> rs_awaitable \<Rightarrow> erased \<Rightarrow> erased" where
  "ra_destroy a v s =
     (let s = (if ra_owns v then ra_finish a v s else s)
      in s\<lparr>es_ops := (es_ops s)(a := None)\<rparr>)"

section \<open>Runs\<close>

text \<open>
  One operation at a time on a wrapper that holds a stream; an awaitable is resumed only while it holds its operation. Wrappers and awaitables are moved and destroyed at any time,
  in any order, operations in flight or not.
\<close>

inductive es_step :: "erased \<Rightarrow> erased \<Rightarrow> bool" where
  constructs: "es_rs s w = None \<Longrightarrow> es_step s (rs_construct w fail s)"
| constructs_ref: "es_rs s w = None \<Longrightarrow> es_step s (rs_construct_ref w s)"
| moves: "\<lbrakk>es_rs s w = None; es_rs s v = Some r\<rbrakk> \<Longrightarrow> es_step s (rs_move_construct w v r s)"
| assigns: "\<lbrakk>es_rs s w = Some q; es_rs s v = Some r\<rbrakk> \<Longrightarrow> es_step s (rs_move_assign w q v r s)"
| destroys: "es_rs s w = Some r \<Longrightarrow> es_step s (rs_destroy w r s)"
| op_new: "\<lbrakk>es_rs s w = Some r; es_ops s a = None\<rbrakk> \<Longrightarrow> es_step s (ra_new a w s)"
| op_moves: "\<lbrakk>es_ops s a = None; es_ops s b = Some v\<rbrakk> \<Longrightarrow> es_step s (ra_move a b v s)"
| op_ready: "\<lbrakk>es_ops s a = Some v; ra_self v = Some w; es_rs s w = Some r; ar_stream r; \<not> ar_active r\<rbrakk> \<Longrightarrow> es_step s (ra_ready a w r s)"
| op_resumes: "\<lbrakk>es_ops s a = Some v; ra_owns v\<rbrakk> \<Longrightarrow> es_step s (ra_finish a v s)"
| op_destroys: "es_ops s a = Some v \<Longrightarrow> es_step s (ra_destroy a v s)"

inductive es_reach :: "erased \<Rightarrow> bool" where
  start: "es_reach es_init"
| step: "es_reach s \<Longrightarrow> es_step s s' \<Longrightarrow> es_reach s'"

section \<open>The invariant\<close>

abbreviation blocks :: "any_rs \<Rightarrow> nat set" where
  "blocks r \<equiv> set_option (ar_cached r) \<union> set_option (ar_storage r)"

text \<open>A wrapper by itself.\<close>

definition rs_ok :: "any_rs \<Rightarrow> bool" where
  "rs_ok r \<longleftrightarrow> (ar_stream r \<longrightarrow> ar_cached r \<noteq> None) \<and> (ar_active r \<longrightarrow> ar_cached r \<noteq> None) \<and> (ar_owner r \<noteq> None \<longrightarrow> ar_active r)
     \<and> set_option (ar_cached r) \<inter> set_option (ar_storage r) = {}"

definition apart :: "(nat \<rightharpoonup> any_rs) \<Rightarrow> bool" where
  "apart m \<longleftrightarrow> (\<forall>w v r q. m w = Some r \<longrightarrow> m v = Some q \<longrightarrow> w \<noteq> v \<longrightarrow> blocks r \<inter> blocks q = {})"

text \<open>The links between wrappers and the awaitables that hold their operations.\<close>

definition linked :: "(nat \<rightharpoonup> any_rs) \<Rightarrow> (nat \<rightharpoonup> rs_awaitable) \<Rightarrow> bool" where
  "linked m ops \<longleftrightarrow> (\<forall>w r a. m w = Some r \<longrightarrow> ar_owner r = Some a \<longrightarrow> ops a = Some \<lparr>ra_self = Some w, ra_owns = True\<rparr>)
     \<and> (\<forall>a v. ops a = Some v \<longrightarrow> ra_owns v \<longrightarrow> (\<exists>w r. ra_self v = Some w \<and> m w = Some r \<and> ar_owner r = Some a))"

text \<open>What is alive belongs to exactly one wrapper.\<close>

definition all_of :: "(any_rs \<Rightarrow> nat set) \<Rightarrow> (nat \<rightharpoonup> any_rs) \<Rightarrow> nat set" where
  "all_of f m = (\<Union>r \<in> ran m. f r)"

abbreviation stored :: "any_rs \<Rightarrow> nat set" where
  "stored r \<equiv> set_option (ar_storage r)"

definition busy :: "any_rs \<Rightarrow> nat set" where
  "busy r = (if ar_active r then set_option (ar_cached r) else {})"

definition owned :: "(nat \<rightharpoonup> any_rs) \<Rightarrow> nat set \<Rightarrow> nat set \<Rightarrow> nat set \<Rightarrow> nat \<Rightarrow> bool" where
  "owned m heap streams inner next \<longleftrightarrow> (\<forall>w r. m w = Some r \<longrightarrow> rs_ok r) \<and> apart m \<and> heap = all_of blocks m \<and> streams = all_of stored m
     \<and> inner = all_of busy m \<and> all_of blocks m \<subseteq> {..<next}"

definition es_inv :: "erased \<Rightarrow> bool" where
  "es_inv s \<longleftrightarrow> \<not> es_bad s \<and> linked (es_rs s) (es_ops s) \<and> owned (es_rs s) (es_heap s) (es_streams s) (es_inner s) (es_next s)"

lemma all_of_member: "b \<in> all_of f m \<longleftrightarrow> (\<exists>v q. m v = Some q \<and> b \<in> f q)"
  by (auto simp: all_of_def ran_def)

lemma all_of_remove:
  assumes "apart m" "m w = Some r" "\<And>q. f q \<subseteq> blocks q"
  shows "all_of f (m(w := None)) = all_of f m - f r"
proof -
  have "f q \<inter> f r = {}" if "m v = Some q" "v \<noteq> w" for v q using assms that unfolding apart_def by blast
  then have "(\<exists>v q. v \<noteq> w \<and> m v = Some q \<and> b \<in> f q) \<longleftrightarrow> (\<exists>v q. m v = Some q \<and> b \<in> f q) \<and> b \<notin> f r" for b
    using assms(2) by (metis disjoint_iff option.inject)
  moreover have "b \<in> all_of f (m(w := None)) \<longleftrightarrow> (\<exists>v q. v \<noteq> w \<and> m v = Some q \<and> b \<in> f q)" for b
    unfolding all_of_member by (metis fun_upd_apply option.distinct(1))
  ultimately show ?thesis by (simp add: set_eq_iff all_of_member)
qed

lemma all_of_add: "m w = None \<Longrightarrow> all_of f (m(w \<mapsto> r)) = all_of f m \<union> f r"
  by (auto simp: all_of_def)

lemma apart_remove: "apart m \<Longrightarrow> apart (m(w := None))"
  unfolding apart_def by (metis fun_upd_apply option.distinct(1))

lemma owned_remove:
  assumes "owned m heap streams inner next" "m w = Some r"
  shows "owned (m(w := None)) (heap - blocks r) (streams - stored r) (inner - busy r) next"
proof -
  have m: "apart m" using assms(1) by (simp add: owned_def)
  have "all_of blocks (m(w := None)) = all_of blocks m - blocks r" by (rule all_of_remove [OF m assms(2)]) simp
  moreover have "all_of stored (m(w := None)) = all_of stored m - stored r" by (rule all_of_remove [OF m assms(2)]) simp
  moreover have "all_of busy (m(w := None)) = all_of busy m - busy r" by (rule all_of_remove [OF m assms(2)]) (auto simp: busy_def)
  moreover have "all_of blocks m - blocks r \<subseteq> {..<next}" using assms(1) by (auto simp: owned_def)
  moreover have "\<forall>v q. (m(w := None)) v = Some q \<longrightarrow> rs_ok q" using assms(1) by (simp add: owned_def)
  ultimately show ?thesis using assms(1) apart_remove [OF m] by (simp add: owned_def)
qed

lemma owned_add:
  assumes "owned m heap streams inner next" "m w = None" "rs_ok r" "blocks r \<inter> heap = {}" "blocks r \<subseteq> {..<next}"
  shows "owned (m(w \<mapsto> r)) (heap \<union> blocks r) (streams \<union> stored r) (inner \<union> busy r) next"
proof -
  have h: "heap = all_of blocks m" "apart m" using assms(1) by (simp_all add: owned_def)
  have "blocks r \<inter> blocks q = {}" if "m v = Some q" for v q using that assms(4) h(1) by (auto simp: all_of_def ran_def)
  then have "apart (m(w \<mapsto> r))" using h(2) unfolding apart_def by (metis (no_types) fun_upd_apply inf_commute option.inject)
  then show ?thesis using assms all_of_add [of m w blocks r] all_of_add [of m w stored r] all_of_add [of m w busy r]
    by (simp add: owned_def)
qed

lemma owned_member:
  assumes "owned m heap streams inner next" "m w = Some r"
  shows "rs_ok r" "blocks r \<subseteq> heap" "stored r \<subseteq> streams" "busy r \<subseteq> inner" "stored r \<inter> busy r = {}"
proof -
  show ok: "rs_ok r" and "blocks r \<subseteq> heap" "stored r \<subseteq> streams" "busy r \<subseteq> inner"
    using assms by (auto simp: owned_def all_of_def ran_def)
  show "stored r \<inter> busy r = {}" using ok by (auto simp: rs_ok_def busy_def)
qed

text \<open>Replacing a wrapper by one that holds no more.\<close>

lemma owned_update:
  assumes "owned m heap streams inner next" "m w = Some r" "rs_ok r'" "blocks r' \<subseteq> blocks r"
  shows "owned (m(w \<mapsto> r')) (heap - blocks r \<union> blocks r') (streams - stored r \<union> stored r') (inner - busy r \<union> busy r') next"
proof -
  have "heap \<subseteq> {..<next}" using assms(1) by (simp add: owned_def)
  then have "blocks r' \<subseteq> {..<next}" using owned_member(2) [OF assms(1,2)] assms(4) by (meson subset_trans)
  from owned_add [OF owned_remove [OF assms(1,2)], of w r'] this show ?thesis using assms(3,4) by fastforce
qed

lemma owned_heap_more: "owned m heap streams inner next \<Longrightarrow> next \<le> next' \<Longrightarrow> owned m heap streams inner next'"
  by (auto simp: owned_def)


section \<open>Every operation keeps the invariant\<close>

lemma es_invD:
  assumes "es_inv s"
  shows "\<not> es_bad s" "linked (es_rs s) (es_ops s)" "owned (es_rs s) (es_heap s) (es_streams s) (es_inner s) (es_next s)" "es_heap s \<subseteq> {..<es_next s}"
  using assms by (auto simp: es_inv_def owned_def)

lemma linked_owner: "linked m ops \<Longrightarrow> m w = Some r \<Longrightarrow> ar_owner r = Some a \<Longrightarrow> ops a = Some \<lparr>ra_self = Some w, ra_owns = True\<rparr>"
  by (simp add: linked_def)

lemma linked_owns:
  assumes "linked m ops" "ops a = Some v" "ra_owns v"
  obtains w r where "ra_self v = Some w" "m w = Some r" "ar_owner r = Some a"
  using assms unfolding linked_def by blast

lemma linkedI:
  assumes "\<And>w r a. m w = Some r \<Longrightarrow> ar_owner r = Some a \<Longrightarrow> ops a = Some \<lparr>ra_self = Some w, ra_owns = True\<rparr>"
    and "\<And>a v. ops a = Some v \<Longrightarrow> ra_owns v \<Longrightarrow> \<exists>w r. ra_self v = Some w \<and> m w = Some r \<and> ar_owner r = Some a"
  shows "linked m ops"
  using assms by (simp add: linked_def)

lemma linked_put_fresh:
  assumes "linked m ops" "m w = None" "ar_owner r = None"
  shows "linked (m(w \<mapsto> r)) ops"
proof (rule linkedI)
  fix v q a assume "(m(w \<mapsto> r)) v = Some q" "ar_owner q = Some a"
  then show "ops a = Some \<lparr>ra_self = Some v, ra_owns = True\<rparr>" using assms linked_owner [OF assms(1)] by (auto split: if_splits)
next
  fix a v assume "ops a = Some v" "ra_owns v"
  then obtain x q where "ra_self v = Some x" "m x = Some q" "ar_owner q = Some a" by (rule linked_owns [OF assms(1)])
  moreover from this have "x \<noteq> w" using assms(2) by auto
  ultimately show "\<exists>x q. ra_self v = Some x \<and> (m(w \<mapsto> r)) x = Some q \<and> ar_owner q = Some a" by auto
qed

lemma owned_streams: "owned m heap streams inner next \<Longrightarrow> streams \<subseteq> heap \<and> inner \<subseteq> heap"
  by (fastforce simp: owned_def all_of_member busy_def split: if_splits)

lemma inv_construct:
  assumes "es_inv s" "es_rs s w = None"
  shows "es_inv (rs_construct w fail s)"
proof -
  note i = es_invD [OF assms(1)]
  have n: "es_next s \<notin> es_heap s" "Suc (es_next s) \<notin> es_heap s" "es_next s \<notin> es_streams s" using owned_streams [OF i(3)] i(4) by auto
  show ?thesis
  proof (cases fail)
    case None
    let ?r = "\<lparr>ar_stream = True, ar_vt = True, ar_cached = Some (Suc (es_next s)), ar_storage = Some (es_next s), ar_active = False, ar_owner = None\<rparr>"
    have "owned ((es_rs s)(w \<mapsto> ?r)) (es_heap s \<union> blocks ?r) (es_streams s \<union> stored ?r) (es_inner s \<union> busy ?r) (es_next s + 2)"
      by (rule owned_add [OF owned_heap_more [OF i(3)]]) (use assms(2) n in \<open>auto simp: rs_ok_def\<close>)
    then show ?thesis using None i(1) linked_put_fresh [OF i(2) assms(2), of ?r]
      by (simp add: busy_def es_inv_def rs_construct_def es_new_def put_rs_def Let_def insert_commute)
  next
    case (Some f)
    then show ?thesis using i n owned_heap_more [OF i(3), of "Suc (es_next s)"]
      by (cases f) (simp_all add: es_inv_def rs_construct_def es_new_def es_delete_def destroy_stream_def Let_def)
  qed
qed

lemma inv_construct_ref:
  assumes "es_inv s" "es_rs s w = None"
  shows "es_inv (rs_construct_ref w s)"
proof -
  note i = es_invD [OF assms(1)]
  let ?r = "\<lparr>ar_stream = True, ar_vt = True, ar_cached = Some (es_next s), ar_storage = None, ar_active = False, ar_owner = None\<rparr>"
  have "owned ((es_rs s)(w \<mapsto> ?r)) (es_heap s \<union> blocks ?r) (es_streams s \<union> stored ?r) (es_inner s \<union> busy ?r) (es_next s + 1)"
    by (rule owned_add [OF owned_heap_more [OF i(3)]]) (use assms(2) i(4) in \<open>auto simp: rs_ok_def\<close>)
  then show ?thesis using i(1) linked_put_fresh [OF i(2) assms(2), of ?r]
    by (simp add: busy_def es_inv_def rs_construct_ref_def es_new_def put_rs_def Let_def)
qed

text \<open>The operation of a wrapper no longer belongs to an awaitable.\<close>

definition unowned :: "any_rs \<Rightarrow> (nat \<rightharpoonup> rs_awaitable) \<Rightarrow> (nat \<rightharpoonup> rs_awaitable)" where
  "unowned r ops = (case ar_owner r of None \<Rightarrow> ops | Some a \<Rightarrow> ops(a \<mapsto> (the (ops a))\<lparr>ra_owns := False\<rparr>))"

lemma disown_eq:
  assumes "linked m (es_ops s)" "m w = Some r"
  shows "disown r s = s\<lparr>es_ops := unowned r (es_ops s)\<rparr>"
proof (cases "ar_owner r")
  case None
  then show ?thesis by (simp add: disown_def unowned_def)
next
  case (Some a)
  then have "es_ops s a = Some \<lparr>ra_self = Some w, ra_owns = True\<rparr>" using assms by (simp add: linked_def)
  then show ?thesis using Some by (simp add: disown_def unowned_def put_op_def)
qed

lemma linked_unowned:
  assumes "linked m ops" "m w = Some r" "ar_owner r' = None"
  shows "linked (m(w \<mapsto> r')) (unowned r ops)" "linked (m(w := None)) (unowned r ops)"
proof -
  have other: "unowned r ops a = ops a" if "ar_owner r \<noteq> Some a" for a using that by (auto simp: unowned_def split: option.split)
  have 1: "unowned r ops a = Some \<lparr>ra_self = Some v, ra_owns = True\<rparr>" if "m v = Some q" "v \<noteq> w" "ar_owner q = Some a" for v q a
  proof -
    have "ops a = Some \<lparr>ra_self = Some v, ra_owns = True\<rparr>" by (rule linked_owner [OF assms(1) that(1,3)])
    moreover from this have "ar_owner r \<noteq> Some a" using linked_owner [OF assms(1,2), of a] that(2) by auto
    ultimately show ?thesis using other by simp
  qed
  have 2: "\<exists>v q. ra_self x = Some v \<and> v \<noteq> w \<and> m v = Some q \<and> ar_owner q = Some a" if x: "unowned r ops a = Some x" "ra_owns x" for a x
  proof -
    have n: "ar_owner r \<noteq> Some a" using x by (auto simp: unowned_def)
    then have "ops a = Some x" using other x(1) by simp
    then obtain v q where "ra_self x = Some v" "m v = Some q" "ar_owner q = Some a" using linked_owns [OF assms(1) _ x(2)] by blast
    moreover from this have "v \<noteq> w" using n assms(2) by auto
    ultimately show ?thesis by blast
  qed
  have own: "\<exists>v q. ra_self x = Some v \<and> m' v = Some q \<and> ar_owner q = Some a"
    if "unowned r ops a = Some x" "ra_owns x" "\<And>v. v \<noteq> w \<Longrightarrow> m' v = m v" for a x m'
    using 2 [OF that(1,2)] that(3) by metis
  show "linked (m(w \<mapsto> r')) (unowned r ops)" "linked (m(w := None)) (unowned r ops)"
    by (rule linkedI; use 1 own assms(3) in \<open>simp split: if_splits\<close>)+
qed


lemma end_operation_eq:
  assumes "es_inv s" "es_rs s w = Some r"
  shows "end_operation w r s = s\<lparr>es_rs := (es_rs s)(w \<mapsto> r\<lparr>ar_owner := None, ar_active := False\<rparr>), es_ops := unowned r (es_ops s), es_inner := es_inner s - busy r\<rparr>"
proof -
  note i = es_invD [OF assms(1)] and o = owned_member [OF es_invD(3) [OF assms(1)] assms(2)]
  have "busy r \<subseteq> es_inner s" "ar_active r \<longrightarrow> ar_cached r \<noteq> None" using o by (auto simp: rs_ok_def)
  then show ?thesis using i(1) disown_eq [OF i(2) assms(2)]
    by (auto simp: busy_def end_operation_def Let_def destroy_awaitable_def put_rs_def split: option.split)
qed

definition gone_with :: "any_rs \<Rightarrow> erased \<Rightarrow> (nat \<times> nat set) list" where
  "gone_with r s = (case ar_storage r of None \<Rightarrow> [] | Some b \<Rightarrow> [(b, es_inner s)])"

lemma release_eq:
  assumes "\<not> es_bad s" "blocks r \<subseteq> es_heap s" "stored r \<subseteq> es_streams s" "rs_ok r"
  shows "release r s = s\<lparr>es_heap := es_heap s - blocks r, es_streams := es_streams s - stored r, es_gone := es_gone s @ gone_with r s\<rparr>"
  using assms by (cases s; cases "ar_cached r"; cases "ar_storage r") (auto simp: release_def es_delete_def destroy_stream_def rs_ok_def gone_with_def Let_def)

lemma inv_destroy:
  assumes "es_inv s" "es_rs s w = Some r"
  shows "es_inv (rs_destroy w r s)"
proof -
  note i = es_invD [OF assms(1)] and o = owned_member [OF es_invD(3) [OF assms(1)] assms(2)]
  have "release r (end_operation w r s) = (end_operation w r s)\<lparr>es_heap := es_heap s - blocks r, es_streams := es_streams s - stored r,
      es_gone := es_gone s @ gone_with r (end_operation w r s)\<rparr>"
    using release_eq [of "end_operation w r s" r] i(1) o(1-3) by (simp add: end_operation_eq [OF assms])
  then show ?thesis using i(1) owned_remove [OF i(3) assms(2)] linked_unowned(2) [OF i(2) assms(2), of rs_null]
    by (simp add: es_inv_def rs_destroy_def Let_def end_operation_eq [OF assms] rs_null_def)
qed

text \<open>What one wrapper holds goes to another.\<close>

lemma owned_transfer:
  assumes "owned m heap streams inner next" "m v = Some r" "m w = None"
  shows "owned (m(w \<mapsto> r\<lparr>ar_owner := None\<rparr>, v \<mapsto> rs_null)) heap streams inner next"
proof -
  let ?r = "r\<lparr>ar_owner := None\<rparr>"
  note o = owned_member [OF assms(1,2)]
  have wv: "w \<noteq> v" using assms(2,3) by auto
  have "blocks r \<subseteq> {..<next}" using o(2) assms(1) by (auto simp: owned_def)
  then have 1: "owned (m(v := None, w \<mapsto> ?r)) (heap - blocks r \<union> blocks ?r) (streams - stored r \<union> stored ?r) (inner - busy r \<union> busy ?r) next"
    by (intro owned_add [OF owned_remove [OF assms(1,2)]]) (use assms(3) o(1) wv in \<open>auto simp: rs_ok_def\<close>)
  have e: "heap - blocks r \<union> blocks ?r = heap" "streams - stored r \<union> stored ?r = streams" "inner - busy r \<union> busy ?r = inner" using o by (auto simp: busy_def)
  have "owned (m(v := None, w \<mapsto> ?r, v \<mapsto> rs_null)) (heap \<union> blocks rs_null) (streams \<union> stored rs_null) (inner \<union> busy rs_null) next"
    by (rule owned_add) (use 1 e wv in \<open>simp_all add: rs_null_def rs_ok_def\<close>)
  then show ?thesis using wv by (simp add: rs_null_def busy_def fun_upd_twist)
qed

lemma linked_transfer:
  assumes "linked m ops" "m v = Some r" "m w = None"
  shows "linked (m(w \<mapsto> r\<lparr>ar_owner := None\<rparr>, v \<mapsto> rs_null)) (unowned r ops)"
proof -
  have wv: "w \<noteq> v" using assms(2,3) by auto
  have "linked (m(v \<mapsto> rs_null, w \<mapsto> r\<lparr>ar_owner := None\<rparr>)) (unowned r ops)"
    by (rule linked_put_fresh [OF linked_unowned(1) [OF assms(1,2)]]) (use assms(3) wv in \<open>simp_all add: rs_null_def\<close>)
  then show ?thesis using wv by (simp add: fun_upd_twist)
qed

lemma inv_move:
  assumes "es_inv s" "es_rs s w = None" "es_rs s v = Some r"
  shows "es_inv (rs_move_construct w v r s)"
proof -
  note i = es_invD [OF assms(1)]
  show ?thesis using i(1) owned_transfer [OF i(3) assms(3,2)] linked_transfer [OF i(2) assms(3,2)] disown_eq [OF i(2) assms(3)]
    by (simp add: es_inv_def rs_move_construct_def put_rs_def)
qed

lemma inv_assign:
  assumes "es_inv s" "es_rs s w = Some q" "es_rs s v = Some r"
  shows "es_inv (rs_move_assign w q v r s)"
proof (cases "w = v")
  case True
  then show ?thesis using assms(1) by (simp add: rs_move_assign_def)
next
  case False
  note i = es_invD [OF assms(1)] and o = owned_member [OF es_invD(3) [OF assms(1)] assms(2)]
  let ?m = "(es_rs s)(w := None)" and ?ops = "unowned q (es_ops s)"
  have v: "?m v = Some r" "?m w = None" using assms(3) False by simp_all
  have l: "linked ?m ?ops" by (rule linked_unowned(2) [OF i(2) assms(2), of rs_null]) (simp add: rs_null_def)
  let ?e = "s\<lparr>es_rs := (es_rs s)(w \<mapsto> q\<lparr>ar_owner := None, ar_active := False\<rparr>), es_ops := ?ops, es_inner := es_inner s - busy q\<rparr>"
  have d: "disown r ?e = ?e\<lparr>es_ops := unowned r ?ops\<rparr>" using disown_eq [of ?m ?e v r] l v(1) by simp
  let ?g = "es_gone s @ gone_with q (?e\<lparr>es_ops := unowned r ?ops\<rparr>)"
  have "release q (?e\<lparr>es_ops := unowned r ?ops\<rparr>) = ?e\<lparr>es_ops := unowned r ?ops, es_heap := es_heap s - blocks q, es_streams := es_streams s - stored q, es_gone := ?g\<rparr>"
    using release_eq [of "?e\<lparr>es_ops := unowned r ?ops\<rparr>" q] i(1) o(1-3) by simp
  with d have "rs_move_assign w q v r s = ?e\<lparr>es_ops := unowned r ?ops, es_heap := es_heap s - blocks q, es_streams := es_streams s - stored q,
      es_gone := ?g, es_rs := ?m(w \<mapsto> r\<lparr>ar_owner := None\<rparr>, v \<mapsto> rs_null)\<rparr>"
    using False by (simp add: rs_move_assign_def Let_def end_operation_eq [OF assms(1,2)] put_rs_def)
  moreover have "owned (?m(w \<mapsto> r\<lparr>ar_owner := None\<rparr>, v \<mapsto> rs_null)) (es_heap s - blocks q) (es_streams s - stored q) (es_inner s - busy q) (es_next s)"
    by (rule owned_transfer [OF owned_remove [OF i(3) assms(2)] v])
  moreover have "linked (?m(w \<mapsto> r\<lparr>ar_owner := None\<rparr>, v \<mapsto> rs_null)) (unowned r ?ops)" by (rule linked_transfer [OF l v])
  ultimately show ?thesis using i(1) by (simp add: es_inv_def)
qed

section \<open>The awaitables keep it too\<close>

lemma inv_op_new:
  assumes "es_inv s" "es_ops s a = None"
  shows "es_inv (ra_new a w s)"
proof -
  note i = es_invD [OF assms(1)]
  have "linked (es_rs s) ((es_ops s)(a \<mapsto> \<lparr>ra_self = Some w, ra_owns = False\<rparr>))"
    by (rule linkedI) (use linked_owner [OF i(2)] linked_owns [OF i(2)] assms(2) in \<open>fastforce split: if_splits\<close>)+
  then show ?thesis using i by (simp add: es_inv_def ra_new_def put_op_def)
qed

lemma inv_op_ready:
  assumes "es_inv s" "es_ops s a = Some v" "ra_self v = Some w" "es_rs s w = Some r" "ar_stream r" "\<not> ar_active r"
  shows "es_inv (ra_ready a w r s)"
proof -
  note i = es_invD [OF assms(1)] and o = owned_member [OF es_invD(3) [OF assms(1)] assms(4)]
  obtain b where b: "ar_cached r = Some b" using o(1) assms(5) by (auto simp: rs_ok_def)
  let ?r = "r\<lparr>ar_active := True, ar_owner := Some a\<rparr>"
  have "owned ((es_rs s)(w \<mapsto> ?r)) (es_heap s - blocks r \<union> blocks ?r) (es_streams s - stored r \<union> stored ?r) (es_inner s - busy r \<union> busy ?r) (es_next s)"
    by (rule owned_update [OF i(3) assms(4)]) (use o(1) b in \<open>auto simp: rs_ok_def\<close>)
  moreover have "es_heap s - blocks r \<union> blocks ?r = es_heap s" "es_streams s - stored r \<union> stored ?r = es_streams s"
    "es_inner s - busy r \<union> busy ?r = insert b (es_inner s)" using o assms(6) b by (auto simp: busy_def)
  moreover have "linked ((es_rs s)(w \<mapsto> ?r)) ((es_ops s)(a \<mapsto> \<lparr>ra_self = Some w, ra_owns = True\<rparr>))"
  proof (rule linkedI)
    have own: "ar_owner r = None" using o(1) assms(6) by (auto simp: rs_ok_def)
    have free: "ar_owner q \<noteq> Some a" if "es_rs s x = Some q" for x q using linked_owner [OF i(2) that, of a] own that assms(2-4) by auto
    show "((es_ops s)(a \<mapsto> \<lparr>ra_self = Some w, ra_owns = True\<rparr>)) c = Some \<lparr>ra_self = Some x, ra_owns = True\<rparr>"
      if "((es_rs s)(w \<mapsto> ?r)) x = Some q" "ar_owner q = Some c" for x q c
      using that linked_owner [OF i(2)] free by (auto split: if_splits)
    show "\<exists>x q. ra_self y = Some x \<and> ((es_rs s)(w \<mapsto> ?r)) x = Some q \<and> ar_owner q = Some c"
      if y: "((es_ops s)(a \<mapsto> \<lparr>ra_self = Some w, ra_owns = True\<rparr>)) c = Some y" "ra_owns y" for c y
    proof (cases "c = a")
      case False
      then obtain x q where "ra_self y = Some x" "es_rs s x = Some q" "ar_owner q = Some c" using linked_owns [OF i(2), of c y] y by auto
      then show ?thesis using own assms(4) by (cases "x = w") auto
    qed (use y in auto)
  qed
  ultimately show ?thesis using i(1) b by (simp add: es_inv_def ra_ready_def put_op_def put_rs_def)
qed

lemma ra_finish_eq:
  assumes "es_inv s" "es_ops s a = Some v" "ra_owns v"
  obtains w r where "es_rs s w = Some r" "ar_owner r = Some a"
    "ra_finish a v s = s\<lparr>es_rs := (es_rs s)(w \<mapsto> r\<lparr>ar_active := False, ar_owner := None\<rparr>), es_ops := unowned r (es_ops s), es_inner := es_inner s - busy r\<rparr>"
proof -
  note i = es_invD [OF assms(1)]
  obtain w r where w: "ra_self v = Some w" "es_rs s w = Some r" "ar_owner r = Some a" using linked_owns [OF i(2) assms(2,3)] by blast
  note o = owned_member [OF i(3) w(2)]
  obtain b where b: "ar_cached r = Some b" "ar_active r" using o(1) w(3) by (auto simp: rs_ok_def)
  then have "b \<in> es_inner s" using o(4) by (simp add: busy_def)
  then have "ra_finish a v s = s\<lparr>es_rs := (es_rs s)(w \<mapsto> r\<lparr>ar_active := False, ar_owner := None\<rparr>), es_ops := unowned r (es_ops s), es_inner := es_inner s - busy r\<rparr>"
    using w b assms(2) i(1) by (cases s) (simp add: ra_finish_def destroy_awaitable_def put_rs_def put_op_def unowned_def busy_def)
  with w show ?thesis using that by blast
qed

lemma inv_finish:
  assumes "es_inv s" "es_ops s a = Some v" "ra_owns v"
  shows "es_inv (ra_finish a v s)"
proof -
  obtain w r where w: "es_rs s w = Some r" "ar_owner r = Some a"
    "ra_finish a v s = s\<lparr>es_rs := (es_rs s)(w \<mapsto> r\<lparr>ar_active := False, ar_owner := None\<rparr>), es_ops := unowned r (es_ops s), es_inner := es_inner s - busy r\<rparr>"
    by (rule ra_finish_eq [OF assms])
  note i = es_invD [OF assms(1)] and o = owned_member [OF es_invD(3) [OF assms(1)] w(1)]
  let ?r = "r\<lparr>ar_active := False, ar_owner := None\<rparr>"
  have "owned ((es_rs s)(w \<mapsto> ?r)) (es_heap s - blocks r \<union> blocks ?r) (es_streams s - stored r \<union> stored ?r) (es_inner s - busy r \<union> busy ?r) (es_next s)"
    by (rule owned_update [OF i(3) w(1)]) (use o(1) in \<open>auto simp: rs_ok_def\<close>)
  moreover have "es_heap s - blocks r \<union> blocks ?r = es_heap s" "es_streams s - stored r \<union> stored ?r = es_streams s" using o by auto
  moreover have "linked ((es_rs s)(w \<mapsto> ?r)) (unowned r (es_ops s))" by (rule linked_unowned(1) [OF i(2) w(1)]) simp
  ultimately show ?thesis using i(1) by (simp add: es_inv_def w(3) busy_def [of ?r])
qed


lemma linked_forget: "linked m ops \<Longrightarrow> (\<And>v. ops a = Some v \<Longrightarrow> \<not> ra_owns v) \<Longrightarrow> linked m (ops(a := None))"
  unfolding linked_def by (metis fun_upd_apply option.distinct(1) rs_awaitable.select_convs(2))

lemma inv_op_destroy:
  assumes "es_inv s" "es_ops s a = Some v"
  shows "es_inv (ra_destroy a v s)"
proof -
  let ?s = "if ra_owns v then ra_finish a v s else s"
  have "es_inv ?s" using inv_finish [OF assms] assms(1) by simp
  note i = es_invD [OF this]
  have "\<not> ra_owns x" if "es_ops ?s a = Some x" for x
  proof (cases "ra_owns v")
    case True
    obtain w r where "es_rs s w = Some r" "ar_owner r = Some a"
      "ra_finish a v s = s\<lparr>es_rs := (es_rs s)(w \<mapsto> r\<lparr>ar_active := False, ar_owner := None\<rparr>), es_ops := unowned r (es_ops s), es_inner := es_inner s - busy r\<rparr>"
      by (rule ra_finish_eq [OF assms True])
    then show ?thesis using that True by (auto simp: unowned_def)
  qed (use that assms(2) in simp)
  then have "linked (es_rs ?s) ((es_ops ?s)(a := None))" by (rule linked_forget [OF i(2)])
  then show ?thesis using i unfolding ra_destroy_def Let_def by (simp add: es_inv_def)
qed

lemma inv_op_move:
  assumes "es_inv s" "es_ops s a = None" "es_ops s b = Some v"
  shows "es_inv (ra_move a b v s)"
proof -
  note i = es_invD [OF assms(1)]
  let ?null = "\<lparr>ra_self = None, ra_owns = False\<rparr>"
  have ab: "a \<noteq> b" using assms(2,3) by auto
  have fresh: "ar_owner q \<noteq> Some a" if "es_rs s x = Some q" for x q using linked_owner [OF i(2) that] assms(2) by fastforce
  show ?thesis
  proof (cases "ra_owns v")
    case False
    have b: "ar_owner q \<noteq> Some b" if "es_rs s x = Some q" for x q using linked_owner [OF i(2) that] assms(3) False by fastforce
    have "linked (es_rs s) ((es_ops s)(a \<mapsto> v, b \<mapsto> ?null))"
    proof (rule linkedI)
      show "((es_ops s)(a \<mapsto> v, b \<mapsto> ?null)) c = Some \<lparr>ra_self = Some x, ra_owns = True\<rparr>" if "es_rs s x = Some q" "ar_owner q = Some c" for x q c
        using linked_owner [OF i(2) that] fresh [OF that(1)] b [OF that(1)] that(2) by auto
      show "\<exists>x q. ra_self y = Some x \<and> es_rs s x = Some q \<and> ar_owner q = Some c" if y: "((es_ops s)(a \<mapsto> v, b \<mapsto> ?null)) c = Some y" "ra_owns y" for c y
      proof -
        have c: "es_ops s c = Some y" using y False by (auto split: if_splits)
        show ?thesis by (rule linked_owns [OF i(2) c y(2)]) blast
      qed
    qed
    then show ?thesis using i False by (simp add: es_inv_def ra_move_def put_op_def)
  next
    case True
    obtain w r where w: "ra_self v = Some w" "es_rs s w = Some r" "ar_owner r = Some b" by (rule linked_owns [OF i(2) assms(3) True])
    note o = owned_member [OF i(3) w(2)]
    let ?r = "r\<lparr>ar_owner := Some a\<rparr>"
    have "owned ((es_rs s)(w \<mapsto> ?r)) (es_heap s - blocks r \<union> blocks ?r) (es_streams s - stored r \<union> stored ?r) (es_inner s - busy r \<union> busy ?r) (es_next s)"
      by (rule owned_update [OF i(3) w(2)]) (use o(1) w(3) in \<open>auto simp: rs_ok_def\<close>)
    moreover have "es_heap s - blocks r \<union> blocks ?r = es_heap s" "es_streams s - stored r \<union> stored ?r = es_streams s" "es_inner s - busy r \<union> busy ?r = es_inner s"
      using o by (auto simp: busy_def)
    moreover have "linked ((es_rs s)(w \<mapsto> ?r)) ((es_ops s)(a \<mapsto> v, b \<mapsto> ?null))"
    proof (rule linkedI)
      show "((es_ops s)(a \<mapsto> v, b \<mapsto> ?null)) c = Some \<lparr>ra_self = Some x, ra_owns = True\<rparr>" if q: "((es_rs s)(w \<mapsto> ?r)) x = Some q" "ar_owner q = Some c" for x q c
      proof (cases "x = w")
        case True
        then show ?thesis using q w ab linked_owner [OF i(2) w(2,3)] assms(3) by auto
      next
        case False
        then have x: "es_rs s x = Some q" using q by simp
        have "c \<noteq> b" using linked_owner [OF i(2) x q(2)] assms(3) w(1) False by auto
        then show ?thesis using linked_owner [OF i(2) x q(2)] fresh [OF x] q(2) by auto
      qed
      show "\<exists>x q. ra_self y = Some x \<and> ((es_rs s)(w \<mapsto> ?r)) x = Some q \<and> ar_owner q = Some c" if y: "((es_ops s)(a \<mapsto> v, b \<mapsto> ?null)) c = Some y" "ra_owns y" for c y
      proof (cases "c = a")
        case True
        then show ?thesis using y ab w by auto
      next
        case False
        then have c: "c \<noteq> b" "es_ops s c = Some y" using y by (auto split: if_splits)
        obtain x q where x: "ra_self y = Some x" "es_rs s x = Some q" "ar_owner q = Some c" by (rule linked_owns [OF i(2) c(2) y(2)])
        then have "x \<noteq> w" using w c(1) by auto
        then show ?thesis using x by auto
      qed
    qed
    ultimately show ?thesis using i(1) True w by (simp add: es_inv_def ra_move_def put_op_def put_rs_def Let_def)
  qed
qed

lemma inv_es_step: "es_step s s' \<Longrightarrow> es_inv s \<Longrightarrow> es_inv s'"
  by (induction rule: es_step.induct)
    (blast intro: inv_construct inv_construct_ref inv_move inv_assign inv_destroy inv_op_new inv_op_move inv_op_ready inv_finish inv_op_destroy)+

lemma es_reach_inv: "es_reach s \<Longrightarrow> es_inv s"
proof (induction rule: es_reach.induct)
  case start
  show ?case by (simp add: es_inv_def es_init_def linked_def owned_def apart_def all_of_def)
qed (blast intro: inv_es_step)

text \<open>
  The memory of a type-erased stream, whatever wrappers and awaitables are moved, assigned and destroyed, with an operation in flight or not, and whatever allocation or move throws during
  construction: nothing is destroyed that is not alive. Each block belongs to exactly one wrapper, as its owned stream or as the storage of an operation, and the operations alive are
  those of the wrappers that count one as active, so that nothing is left when the wrappers are gone. An awaitable that believes it holds an operation does: its wrapper is
  alive and names it.
\<close>

theorem erased_streams_safe:
  assumes "es_reach s"
  shows "\<not> es_bad s \<and> (\<forall>w v r q. es_rs s w = Some r \<longrightarrow> es_rs s v = Some q \<longrightarrow> w \<noteq> v \<longrightarrow> blocks r \<inter> blocks q = {})
    \<and> es_heap s = (\<Union>r \<in> ran (es_rs s). blocks r) \<and> es_streams s = (\<Union>r \<in> ran (es_rs s). set_option (ar_storage r))
    \<and> es_inner s = (\<Union>r \<in> {r \<in> ran (es_rs s). ar_active r}. set_option (ar_cached r))
    \<and> (\<forall>a v. es_ops s a = Some v \<longrightarrow> ra_owns v \<longrightarrow> (\<exists>w r. ra_self v = Some w \<and> es_rs s w = Some r \<and> ar_active r \<and> ar_owner r = Some a))"
proof -
  note i = es_invD [OF es_reach_inv [OF assms]]
  have "\<exists>w r. ra_self v = Some w \<and> es_rs s w = Some r \<and> ar_active r \<and> ar_owner r = Some a" if v: "es_ops s a = Some v" "ra_owns v" for a v
  proof -
    obtain w r where "ra_self v = Some w" "es_rs s w = Some r" "ar_owner r = Some a" by (rule linked_owns [OF i(2) v])
    then show ?thesis using i(3) by (auto simp: owned_def rs_ok_def)
  qed
  moreover have "(\<Union>r \<in> {r \<in> ran (es_rs s). ar_active r}. set_option (ar_cached r)) = all_of busy (es_rs s)" by (auto simp: all_of_def busy_def split: if_splits)
  ultimately show ?thesis using i(1,3) by (simp add: owned_def apart_def all_of_def)
qed

text \<open>A wrapper with an operation in flight, moved away: the operation goes with it.\<close>

definition moved_in_flight :: erased where
  "moved_in_flight =
     \<lparr>es_rs = [0 \<mapsto> rs_null, 1 \<mapsto> \<lparr>ar_stream = True, ar_vt = True, ar_cached = Some 1, ar_storage = Some 0, ar_active = True, ar_owner = None\<rparr>],
      es_ops = [5 \<mapsto> \<lparr>ra_self = Some 0, ra_owns = False\<rparr>], es_heap = {0, 1}, es_streams = {0}, es_inner = {1}, es_next = 2, es_bad = False, es_gone = []\<rparr>"

lemma moved_in_flight_reach: "es_reach moved_in_flight"
proof -
  let ?r = "\<lparr>ar_stream = True, ar_vt = True, ar_cached = Some 1, ar_storage = Some 0, ar_active = False, ar_owner = None\<rparr>"
  let ?q = "?r\<lparr>ar_active := True, ar_owner := Some 5\<rparr>"
  let ?a = "\<lparr>es_rs = [0 \<mapsto> ?r], es_ops = Map.empty, es_heap = {0, 1}, es_streams = {0}, es_inner = {}, es_next = 2, es_bad = False, es_gone = []\<rparr>"
  let ?b = "?a\<lparr>es_ops := [5 \<mapsto> \<lparr>ra_self = Some 0, ra_owns = False\<rparr>]\<rparr>"
  let ?c = "?a\<lparr>es_rs := [0 \<mapsto> ?q], es_ops := [5 \<mapsto> \<lparr>ra_self = Some 0, ra_owns = True\<rparr>], es_inner := {1}\<rparr>"
  have "es_reach (rs_construct 0 None es_init)" by (rule es_reach.step [OF es_reach.start es_step.constructs]) (simp add: es_init_def)
  then have a: "es_reach ?a" by (simp add: rs_construct_def es_new_def put_rs_def es_init_def insert_commute numeral_2_eq_2)
  have "es_reach (ra_new 5 0 ?a)" by (rule es_reach.step [OF a es_step.op_new]) simp_all
  then have b: "es_reach ?b" by (simp add: ra_new_def put_op_def)
  have "es_reach (ra_ready 5 0 ?r ?b)" by (rule es_reach.step [OF b es_step.op_ready [of _ 5 "\<lparr>ra_self = Some 0, ra_owns = False\<rparr>"]]) simp_all
  then have c: "es_reach ?c" by (simp add: ra_ready_def put_op_def put_rs_def)
  have "es_reach (rs_move_construct 1 0 ?q ?c)" by (rule es_reach.step [OF c es_step.moves]) simp_all
  then show ?thesis by (simp add: rs_move_construct_def disown_def put_op_def put_rs_def moved_in_flight_def fun_upd_twist)
qed

theorem erased_streams_safe_witness:
  "es_reach moved_in_flight \<and> es_inner moved_in_flight = {1} \<and> \<not> es_bad moved_in_flight
    \<and> es_heap moved_in_flight = (\<Union>r \<in> ran (es_rs moved_in_flight). blocks r)"
proof -
  have "es_inner moved_in_flight = {1}" by (simp add: moved_in_flight_def)
  moreover note safe = erased_streams_safe [OF moved_in_flight_reach]
  moreover have "\<not> es_bad moved_in_flight" by (rule conjunct1 [OF safe])
  moreover have "es_heap moved_in_flight = (\<Union>r \<in> ran (es_rs moved_in_flight). blocks r)" by (rule conjunct1 [OF conjunct2 [OF conjunct2 [OF safe]]])
  ultimately show ?thesis using moved_in_flight_reach by (intro conjI)
qed

end
