(* ===== verification/Any_Stream_Pair.thy ===== *)
theory Any_Stream_Pair
  imports Any_Stream_Memory
begin

text \<open>
  The type-erased stream that reads and writes (\<^verbatim>\<open>io/any_stream.hpp\<close>): one wrapper for each direction, both referring to the stream that the whole object owns. The
  bases of the object at \<open>n\<close> are the wrappers at \<open>as_read n\<close> and \<open>as_write n\<close>. Its own members, \<^verbatim>\<open>storage_\<close> with the pointer to the stream and its destructor, are
  kept at \<open>as_hold n\<close> as a wrapper that has a storage and nothing else; \<open>as_temp n\<close> is the place of a temporary.
\<close>

definition as_read :: "nat \<Rightarrow> nat" where "as_read n = 4 * n"
definition as_write :: "nat \<Rightarrow> nat" where "as_write n = 4 * n + 1"
definition as_hold :: "nat \<Rightarrow> nat" where "as_hold n = 4 * n + 2"
definition as_temp :: "nat \<Rightarrow> nat" where "as_temp n = 4 * n + 3"

lemmas as_parts_defs = as_read_def as_write_def as_hold_def as_temp_def

lemma as_parts [simp]:
  "as_read n = as_read m \<longleftrightarrow> n = m" "as_write n = as_write m \<longleftrightarrow> n = m" "as_hold n = as_hold m \<longleftrightarrow> n = m" "as_temp n = as_temp m \<longleftrightarrow> n = m"
  "as_read n \<noteq> as_write m" "as_read n \<noteq> as_hold m" "as_read n \<noteq> as_temp m" "as_write n \<noteq> as_read m" "as_write n \<noteq> as_hold m" "as_write n \<noteq> as_temp m"
  "as_hold n \<noteq> as_read m" "as_hold n \<noteq> as_write m" "as_hold n \<noteq> as_temp m" "as_temp n \<noteq> as_read m" "as_temp n \<noteq> as_write m" "as_temp n \<noteq> as_hold m"
  unfolding as_parts_defs by presburger+

text \<open>A member function called on the wrapper at an address; there is none to call it on where the wrapper does not exist.\<close>

definition with_rs :: "(nat \<Rightarrow> any_rs \<Rightarrow> erased \<Rightarrow> erased) \<Rightarrow> nat \<Rightarrow> erased \<Rightarrow> erased" where
  "with_rs f w s = (case es_rs s w of None \<Rightarrow> s\<lparr>es_bad := True\<rparr> | Some r \<Rightarrow> f w r s)"

definition rs_assign :: "nat \<Rightarrow> nat \<Rightarrow> erased \<Rightarrow> erased" where
  "rs_assign w v s = with_rs (\<lambda>w q s. with_rs (\<lambda>v r s. rs_move_assign w q v r s) v s) w s"

definition rs_move :: "nat \<Rightarrow> nat \<Rightarrow> erased \<Rightarrow> erased" where
  "rs_move w v s = with_rs (\<lambda>v r s. rs_move_construct w v r s) v s"

text \<open>What the destructor and the assignment do with the owned stream.\<close>

definition drop_storage :: "nat \<Rightarrow> any_rs \<Rightarrow> erased \<Rightarrow> erased" where
  "drop_storage w r s = put_rs w rs_null (release r s)"

definition drop_bases :: "nat \<Rightarrow> erased \<Rightarrow> erased" where
  "drop_bases n s = with_rs rs_destroy (as_read n) (with_rs rs_destroy (as_write n) s)"

definition end_operations :: "nat \<Rightarrow> erased \<Rightarrow> erased" where
  "end_operations n s = with_rs end_operation (as_write n) (with_rs end_operation (as_read n) s)"

section \<open>Operations\<close>

definition as_destroy :: "nat \<Rightarrow> erased \<Rightarrow> erased" where
  "as_destroy n s = drop_bases n (with_rs rs_destroy (as_hold n) (end_operations n s))"

definition as_move :: "nat \<Rightarrow> nat \<Rightarrow> erased \<Rightarrow> erased" where
  "as_move n m s = rs_move (as_hold n) (as_hold m) (rs_move (as_write n) (as_write m) (rs_move (as_read n) (as_read m) s))"

definition as_assign :: "nat \<Rightarrow> nat \<Rightarrow> erased \<Rightarrow> erased" where
  "as_assign n m s =
     (if n = m then s
      else let s = with_rs drop_storage (as_hold n) (end_operations n s)
           in rs_assign (as_hold n) (as_hold m) (rs_assign (as_write n) (as_write m) (rs_assign (as_read n) (as_read m) s)))"

text \<open>Assigning a base from a temporary that refers to the stream.\<close>

definition assign_temp :: "nat \<Rightarrow> nat \<Rightarrow> erased \<Rightarrow> erased" where
  "assign_temp w t s = with_rs rs_destroy t (rs_assign w t (rs_construct_ref t s))"

text \<open>
  Construction with ownership, and what throws in it: the allocation of the storage, the move of the stream, the allocation of the awaitable of either base. The guard
  does nothing until the stream is constructed.
\<close>

datatype pair_fail = AS_Storage | AS_Move | AS_Read | AS_Write

definition as_construct :: "nat \<Rightarrow> pair_fail option \<Rightarrow> erased \<Rightarrow> erased" where
  "as_construct n fail s =
     (let s = put_rs (as_write n) rs_null (put_rs (as_read n) rs_null s)
      in if fail = Some AS_Storage then drop_bases n s
         else let (st, s) = es_new s
              in if fail = Some AS_Move then drop_bases n s
                 else let s = put_rs (as_hold n) (rs_null\<lparr>ar_storage := Some st\<rparr>) (s\<lparr>es_streams := insert st (es_streams s)\<rparr>)
                      in if fail = Some AS_Read then drop_bases n (with_rs rs_destroy (as_hold n) s)
                         else let s = assign_temp (as_read n) (as_temp n) s
                              in if fail = Some AS_Write then drop_bases n (with_rs rs_destroy (as_hold n) s)
                                 else assign_temp (as_write n) (as_temp n) s)"

text \<open>Construction from a pointer; \<open>fail\<close> is whether the allocation of the second base throws. When that of the first throws nothing has been done.\<close>

definition as_construct_ref :: "nat \<Rightarrow> bool \<Rightarrow> erased \<Rightarrow> erased" where
  "as_construct_ref n fail s =
     (let s = rs_construct_ref (as_read n) s
      in if fail then with_rs rs_destroy (as_read n) s
         else put_rs (as_hold n) rs_null (rs_construct_ref (as_write n) s))"

definition as_default :: "nat \<Rightarrow> erased \<Rightarrow> erased" where
  "as_default n s = put_rs (as_hold n) rs_null (put_rs (as_write n) rs_null (put_rs (as_read n) rs_null s))"

definition as_has_value :: "nat \<Rightarrow> erased \<Rightarrow> bool" where
  "as_has_value n s \<longleftrightarrow> ar_stream (the (es_rs s (as_read n))) \<and> ar_stream (the (es_rs s (as_write n)))"

section \<open>Runs\<close>

text \<open>
  Objects are made, moved and destroyed at any time; operations are started on either base of an object with a value, one per direction, and their awaitables are moved and
  destroyed at any time. A move constructor of the stream that throws is left out here.
\<close>

inductive as_step :: "erased \<Rightarrow> erased \<Rightarrow> bool" where
  constructs: "\<lbrakk>es_rs s (as_read n) = None; fail \<noteq> Some AS_Move\<rbrakk> \<Longrightarrow> as_step s (as_construct n fail s)"
| constructs_ref: "es_rs s (as_read n) = None \<Longrightarrow> as_step s (as_construct_ref n fail s)"
| defaults: "es_rs s (as_read n) = None \<Longrightarrow> as_step s (as_default n s)"
| moves: "\<lbrakk>es_rs s (as_read n) = None; es_rs s (as_read m) \<noteq> None\<rbrakk> \<Longrightarrow> as_step s (as_move n m s)"
| assigns: "\<lbrakk>es_rs s (as_read n) \<noteq> None; es_rs s (as_read m) \<noteq> None\<rbrakk> \<Longrightarrow> as_step s (as_assign n m s)"
| destroys: "es_rs s (as_read n) \<noteq> None \<Longrightarrow> as_step s (as_destroy n s)"
| op_new: "\<lbrakk>es_rs s w \<noteq> None; es_ops s a = None\<rbrakk> \<Longrightarrow> as_step s (ra_new a w s)"
| op_moves: "\<lbrakk>es_ops s a = None; es_ops s b = Some v\<rbrakk> \<Longrightarrow> as_step s (ra_move a b v s)"
| op_ready: "\<lbrakk>es_ops s a = Some v; ra_self v = Some w; es_rs s w = Some r; ar_stream r; \<not> ar_active r\<rbrakk> \<Longrightarrow> as_step s (ra_ready a w r s)"
| op_resumes: "\<lbrakk>es_ops s a = Some v; ra_owns v\<rbrakk> \<Longrightarrow> as_step s (ra_finish a v s)"
| op_destroys: "es_ops s a = Some v \<Longrightarrow> as_step s (ra_destroy a v s)"

inductive as_reach :: "erased \<Rightarrow> bool" where
  start: "as_reach es_init"
| step: "as_reach s \<Longrightarrow> as_step s s' \<Longrightarrow> as_reach s'"

section \<open>The invariant\<close>

text \<open>
  The invariant of the wrappers, with the set of those that exist; what an object itself keeps is a storage and no awaitable. Each call on wrappers says what it makes of that set.
\<close>

definition plain :: "(nat \<rightharpoonup> any_rs) \<Rightarrow> bool" where
  "plain m \<longleftrightarrow> (\<forall>n r. m (as_hold n) = Some r \<longrightarrow> ar_cached r = None)"

definition holds_on :: "nat set \<Rightarrow> erased \<Rightarrow> bool" where
  "holds_on D s \<longleftrightarrow> es_inv s \<and> plain (es_rs s) \<and> dom (es_rs s) = D"

lemma es_rs_kept [simp]:
  "es_rs (disown r s) = es_rs s" "es_rs (release r s) = es_rs s" "es_rs (put_rs w r s) = (es_rs s)(w \<mapsto> r)"
  "es_rs (end_operation w r s) = (es_rs s)(w \<mapsto> r\<lparr>ar_owner := None, ar_active := False\<rparr>)" "es_rs (rs_destroy w r s) = (es_rs s)(w := None)"
  "es_rs (rs_move_construct w v r s) = (es_rs s)(w \<mapsto> r\<lparr>ar_owner := None\<rparr>, v \<mapsto> rs_null)"
  "w \<noteq> v \<Longrightarrow> es_rs (rs_move_assign w q v r s) = (es_rs s)(w \<mapsto> r\<lparr>ar_owner := None\<rparr>, v \<mapsto> rs_null)" "es_rs (drop_storage w r s) = (es_rs s)(w \<mapsto> rs_null)"
  by (auto simp: disown_def release_def es_delete_def destroy_stream_def destroy_awaitable_def put_op_def put_rs_def end_operation_def rs_destroy_def
      rs_move_construct_def rs_move_assign_def drop_storage_def Let_def split: option.split)

lemma rs_null_sel [simp]: "ar_cached rs_null = None" "ar_owner rs_null = None" "ar_storage rs_null = None" "\<not> ar_active rs_null"
  by (simp_all add: rs_null_def)

lemma es_rs_ref [simp]:
  "es_rs (rs_construct_ref w s) = (es_rs s)(w \<mapsto> \<lparr>ar_stream = True, ar_vt = True, ar_cached = Some (es_next s), ar_storage = None, ar_active = False, ar_owner = None\<rparr>)"
  by (simp add: rs_construct_ref_def es_new_def)

lemma holds_on_with:
  assumes "holds_on D s" "w \<in> D"
    "\<And>r. es_inv s \<Longrightarrow> plain (es_rs s) \<Longrightarrow> dom (es_rs s) = D \<Longrightarrow> es_rs s w = Some r \<Longrightarrow> holds_on D' (f w r s)"
  shows "holds_on D' (with_rs f w s)"
  using assms by (auto simp: holds_on_def with_rs_def split: option.split)

lemma inv_end_operation:
  assumes "es_inv s" "es_rs s w = Some r"
  shows "es_inv (end_operation w r s)"
proof -
  note i = es_invD [OF assms(1)] and o = owned_member [OF es_invD(3) [OF assms(1)] assms(2)]
  let ?r = "r\<lparr>ar_owner := None, ar_active := False\<rparr>"
  have "owned ((es_rs s)(w \<mapsto> ?r)) (es_heap s - blocks r \<union> blocks ?r) (es_streams s - stored r \<union> stored ?r) (es_inner s - busy r \<union> busy ?r) (es_next s)"
    by (rule owned_update [OF i(3) assms(2)]) (use o(1) in \<open>auto simp: rs_ok_def\<close>)
  moreover have "es_heap s - blocks r \<union> blocks ?r = es_heap s" "es_streams s - stored r \<union> stored ?r = es_streams s" using o by auto
  moreover have "linked ((es_rs s)(w \<mapsto> ?r)) (unowned r (es_ops s))" by (rule linked_unowned(1) [OF i(2) assms(2)]) simp
  ultimately show ?thesis using i(1) by (simp add: es_inv_def end_operation_eq [OF assms] busy_def [of ?r])
qed

lemma inv_null:
  assumes "es_inv s" "es_rs s w = None"
  shows "es_inv (put_rs w rs_null s)"
proof -
  note i = es_invD [OF assms(1)]
  have "owned ((es_rs s)(w \<mapsto> rs_null)) (es_heap s \<union> blocks rs_null) (es_streams s \<union> stored rs_null) (es_inner s \<union> busy rs_null) (es_next s)"
    by (rule owned_add [OF i(3) assms(2)]) (simp_all add: rs_null_def rs_ok_def)
  then show ?thesis using i linked_put_fresh [OF i(2) assms(2), of rs_null] by (simp add: es_inv_def put_rs_def rs_null_def busy_def)
qed

text \<open>A storage is made for a stream.\<close>

lemma inv_hold:
  assumes "es_inv s" "es_rs s w = None"
  shows "es_inv (put_rs w (rs_null\<lparr>ar_storage := Some (es_next s)\<rparr>) (s\<lparr>es_heap := insert (es_next s) (es_heap s), es_next := es_next s + 1, es_streams := insert (es_next s) (es_streams s)\<rparr>))"
proof -
  note i = es_invD [OF assms(1)]
  let ?r = "rs_null\<lparr>ar_storage := Some (es_next s)\<rparr>"
  have "owned ((es_rs s)(w \<mapsto> ?r)) (es_heap s \<union> blocks ?r) (es_streams s \<union> stored ?r) (es_inner s \<union> busy ?r) (es_next s + 1)"
    by (rule owned_add [OF owned_heap_more [OF i(3)]]) (use assms(2) i(4) in \<open>auto simp: rs_ok_def rs_null_def\<close>)
  then show ?thesis using i(1) linked_put_fresh [OF i(2) assms(2), of ?r]
    by (simp add: busy_def es_inv_def put_rs_def rs_null_def)
qed

lemma inv_drop_storage:
  assumes "es_inv s" "es_rs s w = Some r" "ar_owner r = None" "\<not> ar_active r"
  shows "es_inv (drop_storage w r s)"
proof -
  note i = es_invD [OF assms(1)] and o = owned_member [OF es_invD(3) [OF assms(1)] assms(2)]
  have "owned ((es_rs s)(w \<mapsto> rs_null)) (es_heap s - blocks r \<union> blocks rs_null) (es_streams s - stored r \<union> stored rs_null) (es_inner s - busy r \<union> busy rs_null) (es_next s)"
    by (rule owned_update [OF i(3) assms(2)]) (simp_all add: rs_ok_def rs_null_def)
  moreover have "linked ((es_rs s)(w \<mapsto> rs_null)) (unowned r (es_ops s))" by (rule linked_unowned(1) [OF i(2) assms(2)]) (simp add: rs_null_def)
  moreover have "release r s = s\<lparr>es_heap := es_heap s - blocks r, es_streams := es_streams s - stored r, es_gone := es_gone s @ gone_with r s\<rparr>" by (rule release_eq [OF i(1) o(2,3,1)])
  ultimately show ?thesis using i(1) assms(3,4) by (simp add: es_inv_def drop_storage_def put_rs_def rs_null_def busy_def unowned_def)
qed

lemma holds_destroy: "holds_on D s \<Longrightarrow> w \<in> D \<Longrightarrow> holds_on (D - {w}) (with_rs rs_destroy w s)"
  by (erule holds_on_with) (auto simp: inv_destroy holds_on_def plain_def)

lemma holds_end: "holds_on D s \<Longrightarrow> w \<in> D \<Longrightarrow> holds_on D (with_rs end_operation w s)"
  by (erule holds_on_with) (auto simp: inv_end_operation holds_on_def plain_def)

lemma holds_drop: "holds_on D s \<Longrightarrow> as_hold n \<in> D \<Longrightarrow> holds_on D (with_rs drop_storage (as_hold n) s)"
proof (erule holds_on_with)
  fix r assume s: "es_inv s" "plain (es_rs s)" "dom (es_rs s) = D" "es_rs s (as_hold n) = Some r"
  then have "ar_owner r = None" "\<not> ar_active r" using owned_member(1) [OF es_invD(3) [OF s(1)] s(4)] by (auto simp: plain_def rs_ok_def)
  then show "holds_on D (drop_storage (as_hold n) r s)" using s by (auto simp: holds_on_def plain_def rs_null_def inv_drop_storage)
qed

lemma holds_move:
  assumes "holds_on D s" "v \<in> D" "w \<notin> D" "(\<exists>n. w = as_hold n) \<longrightarrow> (\<exists>n. v = as_hold n)"
  shows "holds_on (insert w D) (rs_move w v s)"
  unfolding rs_move_def using assms(1,2)
  by (rule holds_on_with) (use assms(3,4) in \<open>auto simp: holds_on_def plain_def rs_null_def domIff intro!: inv_move\<close>)

lemma holds_assign:
  assumes "holds_on D s" "v \<in> D" "w \<in> D" "w \<noteq> v" "(\<exists>n. w = as_hold n) \<longrightarrow> (\<exists>n. v = as_hold n)"
  shows "holds_on D (rs_assign w v s)"
  unfolding rs_assign_def using assms(1,3)
proof (rule holds_on_with)
  fix q assume q: "es_rs s w = Some q"
  show "holds_on D (with_rs (rs_move_assign w q) v s)" using assms(1,2)
    by (rule holds_on_with) (use assms(4,5) q in \<open>auto simp: holds_on_def plain_def rs_null_def intro!: inv_assign\<close>)
qed

lemma holds_null: "holds_on D s \<Longrightarrow> w \<notin> D \<Longrightarrow> holds_on (insert w D) (put_rs w rs_null s)"
  by (auto simp: holds_on_def plain_def domIff intro!: inv_null)

lemma holds_ref: "holds_on D s \<Longrightarrow> w \<notin> D \<Longrightarrow> \<forall>n. w \<noteq> as_hold n \<Longrightarrow> holds_on (insert w D) (rs_construct_ref w s)"
  by (auto simp: holds_on_def plain_def domIff intro!: inv_construct_ref)

lemma holds_storage:
  assumes "holds_on D s" "as_hold n \<notin> D" "es_new s = (st, s')"
  shows "holds_on (insert (as_hold n) D) (put_rs (as_hold n) (rs_null\<lparr>ar_storage := Some st\<rparr>) (s'\<lparr>es_streams := insert st (es_streams s')\<rparr>))"
proof -
  have n: "es_rs s (as_hold n) = None" using assms(1,2) by (auto simp: holds_on_def)
  show ?thesis using assms inv_hold [OF _ n] by (auto simp: holds_on_def plain_def es_new_def)
qed

text \<open>The calls of the members of an object.\<close>

lemma holds_drop_bases:
  assumes "holds_on D s" "as_read n \<in> D" "as_write n \<in> D"
  shows "holds_on (D - {as_write n} - {as_read n}) (drop_bases n s)"
  unfolding drop_bases_def by (rule holds_destroy [OF holds_destroy [OF assms(1,3)]]) (simp add: assms(2))

lemma holds_end_operations:
  assumes "holds_on D s" "as_read n \<in> D" "as_write n \<in> D"
  shows "holds_on D (end_operations n s)"
  unfolding end_operations_def by (rule holds_end [OF holds_end [OF assms(1,2)] assms(3)])

lemma holds_temp:
  assumes "holds_on D s" "w \<in> D" "as_temp n \<notin> D" "\<forall>m. w \<noteq> as_hold m"
  shows "holds_on D (assign_temp w (as_temp n) s)"
proof -
  let ?D = "insert (as_temp n) D"
  have "holds_on ?D (rs_construct_ref (as_temp n) s)" by (rule holds_ref [OF assms(1,3)]) simp
  then have "holds_on ?D (rs_assign w (as_temp n) (rs_construct_ref (as_temp n) s))" by (rule holds_assign) (use assms in auto)
  then have "holds_on (?D - {as_temp n}) (assign_temp w (as_temp n) s)" unfolding assign_temp_def by (rule holds_destroy) simp
  then show ?thesis using assms(3) by simp
qed

section \<open>Every operation keeps the invariant\<close>

text \<open>The parts of an object come and go together.\<close>

abbreviation parts :: "nat \<Rightarrow> nat set" where
  "parts n \<equiv> {as_read n, as_write n, as_hold n}"

definition whole :: "nat set \<Rightarrow> bool" where
  "whole D \<longleftrightarrow> (\<forall>n. as_temp n \<notin> D \<and> (parts n \<subseteq> D \<or> parts n \<inter> D = {}))"

lemma whole_add: "whole D \<Longrightarrow> whole (D \<union> parts n)"
  and whole_remove: "whole D \<Longrightarrow> whole (D - parts n)"
  by (auto simp: whole_def)

lemma wholeD:
  assumes "whole D"
  shows "as_temp n \<notin> D" "as_read n \<in> D \<Longrightarrow> parts n \<subseteq> D" "as_read n \<notin> D \<Longrightarrow> parts n \<inter> D = {}"
  using assms unfolding whole_def by blast+

lemma holds_construct:
  assumes s: "holds_on D s" and D: "as_read n \<notin> D" "as_write n \<notin> D" "as_hold n \<notin> D" "as_temp n \<notin> D" and f: "fail \<noteq> Some AS_Move"
  shows "holds_on (if fail = None then D \<union> parts n else D) (as_construct n fail s)"
proof -
  let ?s1 = "put_rs (as_write n) rs_null (put_rs (as_read n) rs_null s)" and ?B = "insert (as_write n) (insert (as_read n) D)" and ?H = "D \<union> parts n"
  obtain st s2 where st: "es_new ?s1 = (st, s2)" by fastforce
  let ?s3 = "put_rs (as_hold n) (rs_null\<lparr>ar_storage := Some st\<rparr>) (s2\<lparr>es_streams := insert st (es_streams s2)\<rparr>)"
  have 1: "holds_on ?B ?s1" by (intro holds_null s) (use D in simp_all)
  then have "holds_on (insert (as_hold n) ?B) ?s3" by (rule holds_storage) (use D st in simp_all)
  then have 3: "holds_on ?H ?s3" by (simp add: insert_commute)
  then have 4: "holds_on ?H (assign_temp (as_read n) (as_temp n) ?s3)" by (rule holds_temp) (use D in simp_all)
  then have 5: "holds_on ?H (assign_temp (as_write n) (as_temp n) (assign_temp (as_read n) (as_temp n) ?s3))" by (rule holds_temp) (use D in simp_all)
  have drop: "holds_on D (drop_bases n (with_rs rs_destroy (as_hold n) t))" if "holds_on ?H t" for t
  proof -
    have "holds_on (?H - {as_hold n}) (with_rs rs_destroy (as_hold n) t)" by (rule holds_destroy [OF that]) simp
    from holds_drop_bases [OF this, of n] show ?thesis using D by (simp add: insert_Diff_if)
  qed
  have 0: "holds_on D (drop_bases n ?s1)" using holds_drop_bases [OF 1, of n] D by (simp add: insert_Diff_if)
  show ?thesis using f 0 drop [OF 3] drop [OF 4] 5 st unfolding as_construct_def Let_def by (cases fail; cases "the fail") auto
qed

lemma holds_construct_ref:
  assumes s: "holds_on D s" and D: "as_read n \<notin> D" "as_write n \<notin> D" "as_hold n \<notin> D"
  shows "holds_on (if fail then D else D \<union> parts n) (as_construct_ref n fail s)"
proof -
  have 1: "holds_on (insert (as_read n) D) (rs_construct_ref (as_read n) s)" by (rule holds_ref [OF s D(1)]) simp
  have "holds_on (insert (as_read n) D - {as_read n}) (with_rs rs_destroy (as_read n) (rs_construct_ref (as_read n) s))" by (rule holds_destroy [OF 1]) simp
  then have f: "holds_on D (with_rs rs_destroy (as_read n) (rs_construct_ref (as_read n) s))" using D by simp
  have "holds_on (insert (as_hold n) (insert (as_write n) (insert (as_read n) D))) (put_rs (as_hold n) rs_null (rs_construct_ref (as_write n) (rs_construct_ref (as_read n) s)))"
    by (intro holds_null holds_ref 1) (use D in simp_all)
  then have "holds_on (D \<union> parts n) (put_rs (as_hold n) rs_null (rs_construct_ref (as_write n) (rs_construct_ref (as_read n) s)))" by (simp add: insert_commute)
  then show ?thesis using f by (simp add: as_construct_ref_def Let_def)
qed

lemma holds_default:
  assumes "holds_on D s" "as_read n \<notin> D" "as_write n \<notin> D" "as_hold n \<notin> D"
  shows "holds_on (D \<union> parts n) (as_default n s)"
proof -
  have "holds_on (insert (as_hold n) (insert (as_write n) (insert (as_read n) D))) (as_default n s)"
    unfolding as_default_def by (intro holds_null assms(1)) (use assms in simp_all)
  then show ?thesis by (simp add: insert_commute)
qed

lemma holds_as_move:
  assumes "holds_on D s" "as_read n \<notin> D" "as_write n \<notin> D" "as_hold n \<notin> D" "parts m \<subseteq> D"
  shows "holds_on (D \<union> parts n) (as_move n m s)"
proof -
  have "holds_on (insert (as_hold n) (insert (as_write n) (insert (as_read n) D))) (as_move n m s)"
    unfolding as_move_def by (intro holds_move assms(1)) (use assms in auto)
  then show ?thesis by (simp add: insert_commute)
qed

lemma holds_as_assign:
  assumes "holds_on D s" "parts n \<subseteq> D" "parts m \<subseteq> D"
  shows "holds_on D (as_assign n m s)"
proof (cases "n = m")
  case False
  have "holds_on D (with_rs drop_storage (as_hold n) (end_operations n s))" by (rule holds_drop [OF holds_end_operations [OF assms(1)]]) (use assms(2) in auto)
  then have "holds_on D (rs_assign (as_hold n) (as_hold m) (rs_assign (as_write n) (as_write m)
      (rs_assign (as_read n) (as_read m) (with_rs drop_storage (as_hold n) (end_operations n s)))))"
    by (intro holds_assign) (use assms(2,3) False in auto)
  then show ?thesis using False by (simp add: as_assign_def Let_def)
qed (simp add: assms as_assign_def)

lemma holds_as_destroy:
  assumes "holds_on D s" "parts n \<subseteq> D"
  shows "holds_on (D - parts n) (as_destroy n s)"
proof -
  have "holds_on (D - {as_hold n}) (with_rs rs_destroy (as_hold n) (end_operations n s))"
    by (rule holds_destroy [OF holds_end_operations [OF assms(1)]]) (use assms(2) in auto)
  from holds_drop_bases [OF this, of n] have "holds_on (D - {as_hold n} - {as_write n} - {as_read n}) (as_destroy n s)"
    unfolding as_destroy_def using assms(2) by simp
  moreover have "D - {as_hold n} - {as_write n} - {as_read n} = D - parts n" by blast
  ultimately show ?thesis by simp
qed

text \<open>Awaitables change no wrapper but its operation.\<close>

lemma op_shapes:
  assumes "es_inv s" "es_ops s b = Some v"
  shows "dom (es_rs (ra_move a b v s)) = dom (es_rs s)" "plain (es_rs s) \<Longrightarrow> plain (es_rs (ra_move a b v s))"
    "dom (es_rs (ra_finish b v s)) = dom (es_rs s)" "plain (es_rs s) \<Longrightarrow> plain (es_rs (ra_finish b v s))"
    "dom (es_rs (ra_destroy b v s)) = dom (es_rs s)" "plain (es_rs s) \<Longrightarrow> plain (es_rs (ra_destroy b v s))"
  by (auto simp: ra_move_def ra_finish_def ra_destroy_def put_op_def put_rs_def destroy_awaitable_def plain_def Let_def split: option.splits)

lemma ready_shape:
  assumes "es_rs s w = Some r"
  shows "dom (es_rs (ra_ready a w r s)) = dom (es_rs s)" "plain (es_rs s) \<Longrightarrow> plain (es_rs (ra_ready a w r s))"
  using assms by (auto simp: ra_ready_def put_op_def put_rs_def plain_def split: option.splits)

definition as_inv :: "erased \<Rightarrow> bool" where
  "as_inv s \<longleftrightarrow> holds_on (dom (es_rs s)) s \<and> whole (dom (es_rs s))"

lemma as_invI: "holds_on D s \<Longrightarrow> whole D \<Longrightarrow> as_inv s"
  by (auto simp: as_inv_def holds_on_def)

lemma as_invI_same: "as_inv s \<Longrightarrow> es_inv s' \<Longrightarrow> dom (es_rs s') = dom (es_rs s) \<Longrightarrow> plain (es_rs s') \<Longrightarrow> as_inv s'"
  by (simp add: as_inv_def holds_on_def)

lemma as_invD:
  assumes "as_inv s"
  shows "holds_on (dom (es_rs s)) s" "whole (dom (es_rs s))" "es_inv s" "plain (es_rs s)"
  using assms by (auto simp: as_inv_def holds_on_def)

lemma as_inv_step: "as_step s s' \<Longrightarrow> as_inv s \<Longrightarrow> as_inv s'"
proof (induction rule: as_step.induct)
  case (constructs s n fail)
  note h = as_invD [OF constructs(3)]
  have n: "parts n \<inter> dom (es_rs s) = {}" "as_temp n \<notin> dom (es_rs s)" using wholeD [OF h(2), of n] constructs(1) by auto
  show ?case by (rule as_invI [OF holds_construct [OF h(1)]]) (use n constructs(2) h(2) whole_add [OF h(2)] in auto)
next
  case (constructs_ref s n fail)
  note h = as_invD [OF constructs_ref(2)]
  have n: "parts n \<inter> dom (es_rs s) = {}" using wholeD [OF h(2), of n] constructs_ref(1) by auto
  show ?case by (rule as_invI [OF holds_construct_ref [OF h(1)]]) (use n h(2) whole_add [OF h(2)] in auto)
next
  case (defaults s n)
  note h = as_invD [OF defaults(2)]
  have n: "parts n \<inter> dom (es_rs s) = {}" using wholeD [OF h(2), of n] defaults(1) by auto
  show ?case by (rule as_invI [OF holds_default [OF h(1)] whole_add [OF h(2)]]) (use n in auto)
next
  case (moves s n m)
  note h = as_invD [OF moves(3)]
  have n: "parts n \<inter> dom (es_rs s) = {}" "parts m \<subseteq> dom (es_rs s)" using wholeD [OF h(2), of n] wholeD [OF h(2), of m] moves(1,2) by auto
  show ?case by (rule as_invI [OF holds_as_move [OF h(1)] whole_add [OF h(2)]]) (use n in auto)
next
  case (assigns s n m)
  note h = as_invD [OF assigns(3)]
  have "parts n \<subseteq> dom (es_rs s)" "parts m \<subseteq> dom (es_rs s)" using wholeD [OF h(2), of n] wholeD [OF h(2), of m] assigns(1,2) by auto
  then show ?case by (rule as_invI [OF holds_as_assign [OF h(1)] h(2)])
next
  case (destroys s n)
  note h = as_invD [OF destroys(2)]
  have "parts n \<subseteq> dom (es_rs s)" using wholeD [OF h(2), of n] destroys(1) by auto
  then show ?case by (rule as_invI [OF holds_as_destroy [OF h(1)] whole_remove [OF h(2)]])
next
  case (op_new s w a)
  show ?case by (rule as_invI_same [OF op_new(3) inv_op_new]) (use as_invD [OF op_new(3)] op_new in \<open>simp_all add: ra_new_def put_op_def\<close>)
next
  case (op_moves s a b v)
  show ?case by (rule as_invI_same [OF op_moves(3) inv_op_move]) (use as_invD [OF op_moves(3)] op_moves op_shapes in simp_all)
next
  case (op_ready s a v w r)
  show ?case by (rule as_invI_same [OF op_ready(6) inv_op_ready]) (use as_invD [OF op_ready(6)] op_ready ready_shape in simp_all)
next
  case (op_resumes s a v)
  show ?case by (rule as_invI_same [OF op_resumes(3) inv_finish]) (use as_invD [OF op_resumes(3)] op_resumes op_shapes in simp_all)
next
  case (op_destroys s a v)
  show ?case by (rule as_invI_same [OF op_destroys(2) inv_op_destroy]) (use as_invD [OF op_destroys(2)] op_destroys op_shapes in simp_all)
qed

lemma as_reach_inv: "as_reach s \<Longrightarrow> as_inv s"
proof (induction rule: as_reach.induct)
  case start
  show ?case by (simp add: as_inv_def holds_on_def plain_def whole_def es_inv_def es_init_def linked_def owned_def apart_def all_of_def)
qed (blast intro: as_inv_step)

lemma idle_not_inner:
  assumes "es_inv s" "es_rs s w = Some r" "\<not> ar_active r"
  shows "set_option (ar_cached r) \<inter> es_inner s = {}"
proof (rule ccontr)
  note i = es_invD(3) [OF assms(1)]
  assume "set_option (ar_cached r) \<inter> es_inner s \<noteq> {}"
  then obtain b where "ar_cached r = Some b" "b \<in> es_inner s" by auto
  moreover from this obtain v q where "es_rs s v = Some q" "b \<in> busy q" using i by (auto simp: owned_def all_of_member)
  ultimately have b: "ar_cached r = Some b" "es_rs s v = Some q" "b \<in> busy q" by blast+
  then have "v \<noteq> w" using assms(2,3) by (auto simp: busy_def)
  moreover have "b \<in> blocks r" "b \<in> blocks q" using b by (auto simp: busy_def split: if_splits)
  ultimately show False using i assms(2) b(2) unfolding owned_def apart_def by blast
qed

text \<open>
  When a stream goes: \<open>goes_later s s'\<close> says that on the way from \<open>s\<close> to \<open>s'\<close> no operation was started and that a stream destroyed meanwhile went with
  no more operations alive than \<open>s\<close> had.
\<close>

definition goes_later :: "erased \<Rightarrow> erased \<Rightarrow> bool" where
  "goes_later s s' \<longleftrightarrow> es_inner s' \<subseteq> es_inner s \<and> (\<exists>xs. es_gone s' = es_gone s @ xs \<and> (\<forall>(st, alive) \<in> set xs. alive \<subseteq> es_inner s))"

lemma goes_later_refl: "goes_later s s"
  by (simp add: goes_later_def)

lemma goes_later_trans: "goes_later s s' \<Longrightarrow> goes_later s' s'' \<Longrightarrow> goes_later s s''"
proof -
  assume a: "goes_later s s'" and b: "goes_later s' s''"
  obtain xs ys where x: "es_gone s' = es_gone s @ xs" "\<forall>(st, alive) \<in> set xs. alive \<subseteq> es_inner s"
    and y: "es_gone s'' = es_gone s' @ ys" "\<forall>(st, alive) \<in> set ys. alive \<subseteq> es_inner s'" using a b by (auto simp: goes_later_def)
  have i: "es_inner s' \<subseteq> es_inner s" "es_inner s'' \<subseteq> es_inner s'" using a b by (simp_all add: goes_later_def)
  have "alive \<subseteq> es_inner s" if "(st, alive) \<in> set (xs @ ys)" for st alive
    using that x(2) y(2) i(1) unfolding set_append by blast
  then have "\<forall>(st, alive) \<in> set (xs @ ys). alive \<subseteq> es_inner s" by blast
  moreover have "es_gone s'' = es_gone s @ (xs @ ys)" using x(1) y(1) by simp
  ultimately show ?thesis using i unfolding goes_later_def by blast
qed

lemma disown_quiet [simp]: "es_inner (disown r s) = es_inner s" "es_gone (disown r s) = es_gone s"
  by (auto simp: disown_def put_op_def split: option.split)

lemma end_operation_gone [simp]: "es_gone (end_operation w r s) = es_gone s"
  by (auto simp: end_operation_def destroy_awaitable_def put_rs_def Let_def split: option.split)

lemma release_gone [simp]: "es_inner (release r s) = es_inner s" "es_gone (release r s) = es_gone s @ gone_with r s"
  by (auto simp: release_def es_delete_def destroy_stream_def gone_with_def Let_def split: option.split)

lemma end_operation_later: "goes_later s (end_operation w r s)"
  by (auto simp: goes_later_def end_operation_def destroy_awaitable_def put_rs_def Let_def split: option.split)

lemma release_later: "goes_later s (release r s)"
  by (auto simp: goes_later_def gone_with_def split: option.split)

lemma goes_later_same: "goes_later s s' \<Longrightarrow> es_inner s'' = es_inner s' \<Longrightarrow> es_gone s'' = es_gone s' \<Longrightarrow> goes_later s s''"
  by (simp add: goes_later_def)

lemma rs_destroy_later: "goes_later s (rs_destroy w r s)"
  by (rule goes_later_same [OF goes_later_trans [OF end_operation_later [of s w r] release_later [of _ r]]]) (simp_all add: rs_destroy_def Let_def)

lemma drop_storage_later: "goes_later s (drop_storage w r s)"
  by (rule goes_later_same [OF release_later [of s r]]) (simp_all add: drop_storage_def put_rs_def)

lemma rs_move_assign_later: "goes_later s (rs_move_assign w q v r s)"
proof (cases "w = v")
  case False
  show ?thesis
    by (rule goes_later_same [OF goes_later_trans [OF goes_later_trans [OF end_operation_later [of s w q] goes_later_same [OF goes_later_refl]] release_later [of _ q]], of "disown r (end_operation w q s)"])
      (use False in \<open>simp_all add: rs_move_assign_def put_rs_def Let_def\<close>)
qed (simp add: rs_move_assign_def goes_later_refl)

lemma with_rs_later: "(\<And>r. goes_later s (f w r s)) \<Longrightarrow> goes_later s (with_rs f w s)"
  by (auto simp: with_rs_def goes_later_def split: option.split)

lemma drop_bases_later: "goes_later s (drop_bases n s)"
  unfolding drop_bases_def by (intro goes_later_trans [OF with_rs_later with_rs_later] rs_destroy_later)

lemma rs_assign_later: "goes_later s (rs_assign w v s)"
  unfolding rs_assign_def by (intro with_rs_later rs_move_assign_later)

text \<open>
  The destructor and the assignment of the object at \<open>n\<close>: its stream is destroyed, and at that moment no operation of either direction is alive.
\<close>

definition stream_goes_last :: "nat \<Rightarrow> erased \<Rightarrow> erased \<Rightarrow> bool" where
  "stream_goes_last n s s' \<longleftrightarrow>
     (\<exists>xs. es_gone s' = es_gone s @ xs
        \<and> (\<forall>r st. es_rs s (as_hold n) = Some r \<and> ar_storage r = Some st \<longrightarrow> st \<in> fst ` set xs)
        \<and> (\<forall>(st, alive) \<in> set xs. \<forall>w \<in> {as_read n, as_write n}. \<forall>r. es_rs s w = Some r \<longrightarrow> busy r \<inter> alive = {}))"

lemma end_operations_parts:
  assumes "as_inv s" "as_read n \<in> dom (es_rs s)"
  shows "es_inv (end_operations n s)" "es_gone (end_operations n s) = es_gone s" "es_rs (end_operations n s) (as_hold n) = es_rs s (as_hold n)"
    "\<And>w r. w \<in> {as_read n, as_write n} \<Longrightarrow> es_rs s w = Some r \<Longrightarrow> es_rs (end_operations n s) w = Some (r\<lparr>ar_owner := None, ar_active := False\<rparr>)"
proof -
  have p: "parts n \<subseteq> dom (es_rs s)" by (rule wholeD(2) [OF as_invD(2) [OF assms(1)] assms(2)])
  show "es_inv (end_operations n s)" using holds_end_operations [OF as_invD(1) [OF assms(1)], of n] p by (simp add: holds_on_def)
  show "es_gone (end_operations n s) = es_gone s" "es_rs (end_operations n s) (as_hold n) = es_rs s (as_hold n)"
    by (auto simp: end_operations_def with_rs_def split: option.split)
  show "es_rs (end_operations n s) w = Some (r\<lparr>ar_owner := None, ar_active := False\<rparr>)" if "w \<in> {as_read n, as_write n}" "es_rs s w = Some r" for w r
    using that p by (auto simp: end_operations_def with_rs_def split: option.split)
qed

lemma ended_not_alive:
  assumes "as_inv s" "as_read n \<in> dom (es_rs s)" "w \<in> {as_read n, as_write n}" "es_rs s w = Some r"
  shows "busy r \<inter> es_inner (end_operations n s) = {}"
proof -
  note e = end_operations_parts [OF assms(1,2)]
  have "set_option (ar_cached r) \<inter> es_inner (end_operations n s) = {}" using idle_not_inner [OF e(1) e(4) [OF assms(3,4)]] by simp
  then show ?thesis by (auto simp: busy_def)
qed

lemma stream_goes_lastI:
  assumes "as_inv s" "as_read n \<in> dom (es_rs s)" "goes_later (end_operations n s) s1" "goes_later s1 s'"
    and "\<And>r st. es_rs s (as_hold n) = Some r \<Longrightarrow> ar_storage r = Some st \<Longrightarrow> st \<in> fst ` set (drop (length (es_gone s)) (es_gone s1))"
  shows "stream_goes_last n s s'"
proof -
  note e = end_operations_parts [OF assms(1,2)]
  obtain xs where xs: "es_gone s1 = es_gone s @ xs" using assms(3) e(2) by (auto simp: goes_later_def)
  obtain ys where ys: "es_gone s' = es_gone s1 @ ys" using assms(4) by (auto simp: goes_later_def)
  have "\<forall>(st, alive) \<in> set (xs @ ys). alive \<subseteq> es_inner (end_operations n s)"
    using goes_later_trans [OF assms(3,4)] xs ys e(2) by (auto simp: goes_later_def)
  then have "\<forall>(st, alive) \<in> set (xs @ ys). \<forall>w \<in> {as_read n, as_write n}. \<forall>r. es_rs s w = Some r \<longrightarrow> busy r \<inter> alive = {}"
    using ended_not_alive [OF assms(1,2)] by fast
  moreover have "\<forall>r st. es_rs s (as_hold n) = Some r \<and> ar_storage r = Some st \<longrightarrow> st \<in> fst ` set (xs @ ys)" using assms(5) xs by auto
  moreover have "es_gone s' = es_gone s @ (xs @ ys)" using xs ys by simp
  ultimately show ?thesis unfolding stream_goes_last_def by blast
qed

lemma destroy_goes_last:
  assumes "as_inv s" "as_read n \<in> dom (es_rs s)"
  shows "stream_goes_last n s (as_destroy n s)"
proof (rule stream_goes_lastI [OF assms])
  note e = end_operations_parts [OF assms]
  show "goes_later (end_operations n s) (with_rs rs_destroy (as_hold n) (end_operations n s))" by (rule with_rs_later [OF rs_destroy_later])
  show "goes_later (with_rs rs_destroy (as_hold n) (end_operations n s)) (as_destroy n s)" unfolding as_destroy_def by (rule drop_bases_later)
  show "st \<in> fst ` set (drop (length (es_gone s)) (es_gone (with_rs rs_destroy (as_hold n) (end_operations n s))))"
    if "es_rs s (as_hold n) = Some r" "ar_storage r = Some st" for r st
    using that e(2,3) by (simp add: with_rs_def rs_destroy_def gone_with_def Let_def)
qed

lemma assign_goes_last:
  assumes "as_inv s" "as_read n \<in> dom (es_rs s)" "n \<noteq> m"
  shows "stream_goes_last n s (as_assign n m s)"
proof (rule stream_goes_lastI [OF assms(1,2)])
  note e = end_operations_parts [OF assms(1,2)]
  let ?s = "with_rs drop_storage (as_hold n) (end_operations n s)"
  show "goes_later (end_operations n s) ?s" by (rule with_rs_later [OF drop_storage_later])
  have "goes_later ?s (rs_assign (as_hold n) (as_hold m) (rs_assign (as_write n) (as_write m) (rs_assign (as_read n) (as_read m) ?s)))"
    by (rule goes_later_trans [OF goes_later_trans [OF rs_assign_later rs_assign_later] rs_assign_later])
  then show "goes_later ?s (as_assign n m s)" using assms(3) by (simp add: as_assign_def Let_def)
  show "st \<in> fst ` set (drop (length (es_gone s)) (es_gone ?s))" if "es_rs s (as_hold n) = Some r" "ar_storage r = Some st" for r st
    using that e(2,3) by (simp add: with_rs_def drop_storage_def put_rs_def gone_with_def)
qed

text \<open>
  C18. The stream that reads and writes, whatever objects are made, moved, assigned and destroyed and whatever operations are in flight in either direction, and whichever allocation of a constructor throws: nothing is
  destroyed that is not alive, the blocks allocated are exactly those of the objects that exist, and so are the streams and the operations alive; without objects nothing is allocated. When an object is
  destroyed or another is assigned to it, the stream it owns is destroyed, and at that moment no operation of the object is alive in either direction.
\<close>

theorem any_stream_safe:
  assumes "as_reach s"
  shows "\<not> es_bad s \<and> es_heap s = (\<Union>r \<in> ran (es_rs s). blocks r) \<and> es_streams s = (\<Union>r \<in> ran (es_rs s). set_option (ar_storage r))
    \<and> es_inner s = (\<Union>r \<in> ran (es_rs s). busy r) \<and> (es_rs s = Map.empty \<longrightarrow> es_heap s = {})
    \<and> (\<forall>n. es_rs s (as_read n) \<noteq> None \<longrightarrow> stream_goes_last n s (as_destroy n s) \<and> (\<forall>m. n \<noteq> m \<longrightarrow> stream_goes_last n s (as_assign n m s)))"
proof -
  have a: "as_inv s" by (rule as_reach_inv [OF assms])
  note i = es_invD [OF as_invD(3) [OF a]]
  have "es_heap s = all_of blocks (es_rs s)" "es_streams s = all_of stored (es_rs s)" "es_inner s = all_of busy (es_rs s)" using i(3) by (simp_all add: owned_def)
  then show ?thesis using i(1) destroy_goes_last [OF a] assign_goes_last [OF a] by (simp add: all_of_def domIff)
qed

lemma one_any_stream: "as_reach (as_construct 0 None es_init)"
  by (rule as_reach.step [OF as_reach.start as_step.constructs]) (simp_all add: es_init_def)

text \<open>An object that owns a stream, with a read in flight.\<close>

definition demo_reading :: erased where
  "demo_reading = (let s = ra_new 5 (as_read 0) (as_construct 0 None es_init) in ra_ready 5 (as_read 0) (the (es_rs s (as_read 0))) s)"

lemmas demo_stream_defs = as_construct_def es_init_def es_new_def put_rs_def assign_temp_def rs_construct_ref_def rs_assign_def with_rs_def rs_move_assign_def
  rs_destroy_def end_operation_def disown_def release_def es_delete_def rs_null_def ra_new_def put_op_def ra_ready_def Let_def

lemma demo_reading_state:
  "es_rs (as_construct 0 None es_init) (as_read 0) = Some \<lparr>ar_stream = True, ar_vt = True, ar_cached = Some 1, ar_storage = None, ar_active = False, ar_owner = None\<rparr>"
  "es_rs demo_reading (as_read 0) = Some \<lparr>ar_stream = True, ar_vt = True, ar_cached = Some 1, ar_storage = None, ar_active = True, ar_owner = Some 5\<rparr>"
  "es_rs demo_reading (as_hold 0) = Some (rs_null\<lparr>ar_storage := Some 0\<rparr>)" "es_gone demo_reading = []" "es_ops (as_construct 0 None es_init) = Map.empty"
  by (simp_all add: demo_reading_def demo_stream_defs)

lemma demo_reading_reach: "as_reach demo_reading"
proof -
  let ?s = "ra_new 5 (as_read 0) (as_construct 0 None es_init)"
  have r: "es_rs ?s (as_read 0) = Some \<lparr>ar_stream = True, ar_vt = True, ar_cached = Some 1, ar_storage = None, ar_active = False, ar_owner = None\<rparr>"
    using demo_reading_state(1) by (simp add: ra_new_def put_op_def)
  have "as_reach ?s" by (rule as_reach.step [OF one_any_stream as_step.op_new]) (simp_all add: demo_reading_state)
  then show ?thesis unfolding demo_reading_def Let_def
    by (rule as_reach.step [OF _ as_step.op_ready [of _ 5 "\<lparr>ra_self = Some (as_read 0), ra_owns = False\<rparr>"]]) (use r in \<open>simp_all add: ra_new_def put_op_def\<close>)
qed

theorem any_stream_safe_witness:
  "es_inner demo_reading = {1} \<and> stream_goes_last 0 demo_reading (as_destroy 0 demo_reading)
    \<and> (\<exists>alive. (0, alive) \<in> set (es_gone (as_destroy 0 demo_reading)) \<and> 1 \<notin> alive)"
proof -
  have "es_inner demo_reading = {1}" by (simp add: demo_reading_def demo_stream_defs)
  moreover have l: "stream_goes_last 0 demo_reading (as_destroy 0 demo_reading)"
    using any_stream_safe [OF demo_reading_reach] demo_reading_state(2) by simp
  moreover have "\<exists>alive. (0, alive) \<in> set (es_gone (as_destroy 0 demo_reading)) \<and> 1 \<notin> alive"
    using l demo_reading_state(2-4) unfolding stream_goes_last_def by (fastforce simp: busy_def)
  ultimately show ?thesis by simp
qed

lemma es_rs_with: "es_rs s w = Some r \<Longrightarrow> with_rs f w s = f w r s"
  by (simp add: with_rs_def)

lemma es_rs_failed:
  assumes "es_rs s (as_read n) = None" "es_rs s (as_write n) = None" "es_rs s (as_hold n) = None" "es_rs s (as_temp n) = None"
  shows "es_rs (as_construct n (Some f) s) = es_rs s"
proof -
  have e: "(m :: nat \<rightharpoonup> any_rs)(a := None) = m" if "m a = None" for m a using that by (simp add: fun_upd_idem)
  show ?thesis using assms
    by (cases f) (simp_all add: as_construct_def es_new_def drop_bases_def assign_temp_def rs_assign_def es_rs_with e fun_upd_twist Let_def)
qed

lemma drop_null_bases:
  assumes "es_rs s (as_read n) = None" "es_rs s (as_write n) = None"
  shows "drop_bases n (s'\<lparr>es_rs := (es_rs s)(as_read n \<mapsto> rs_null, as_write n \<mapsto> rs_null)\<rparr>) = s'\<lparr>es_rs := es_rs s\<rparr>"
proof -
  have "rs_destroy w rs_null u = u\<lparr>es_rs := (es_rs u)(w := None)\<rparr>" for w u
    by (cases u) (simp add: rs_destroy_def end_operation_def disown_def release_def put_rs_def Let_def)
  then show ?thesis using assms by (cases s') (simp add: drop_bases_def with_rs_def fun_upd_idem)
qed

text \<open>
  A move constructor that throws while an \<^verbatim>\<open>any_stream\<close> takes ownership leaks the storage: the guard releases it only once the stream is constructed, and the destructor
  does not run for an object whose constructor threw. The block stays allocated, although no object exists; every other failure of the constructor leaves the memory as it was.
\<close>

theorem any_stream_leaks_storage:
  assumes "as_reach s" "es_rs s (as_read n) = None"
  shows "es_rs (as_construct n (Some AS_Move) s) = es_rs s \<and> es_heap (as_construct n (Some AS_Move) s) = insert (es_next s) (es_heap s) \<and> es_next s \<notin> es_heap s
    \<and> (\<forall>f. f \<noteq> AS_Move \<longrightarrow> es_heap (as_construct n (Some f) s) = es_heap s)"
proof -
  note h = as_invD [OF as_reach_inv [OF assms(1)]]
  have n: "es_rs s (as_read n) = None" "es_rs s (as_write n) = None" "es_rs s (as_hold n) = None" "es_rs s (as_temp n) = None"
    using wholeD [OF h(2), of n] assms(2) by auto
  have d: "as_read n \<notin> dom (es_rs s)" "as_write n \<notin> dom (es_rs s)" "as_hold n \<notin> dom (es_rs s)" "as_temp n \<notin> dom (es_rs s)" using n by auto
  have "es_heap (as_construct n (Some f) s) = es_heap s" if "f \<noteq> AS_Move" for f
  proof -
    have "es_inv (as_construct n (Some f) s)" using holds_construct [OF h(1) d, of "Some f"] that by (simp add: holds_on_def)
    then show ?thesis using h(3) es_rs_failed [OF n, of f] by (simp add: es_inv_def owned_def)
  qed
  moreover have "as_construct n (Some AS_Move) s = s\<lparr>es_heap := insert (es_next s) (es_heap s), es_next := es_next s + 1\<rparr>"
    using drop_null_bases [OF n(1,2), of "s\<lparr>es_heap := insert (es_next s) (es_heap s), es_next := es_next s + 1\<rparr>"]
    by (cases s) (simp add: as_construct_def es_new_def put_rs_def)
  moreover have "es_next s \<notin> es_heap s" using es_invD(4) [OF h(3)] by auto
  ultimately show ?thesis by simp
qed

theorem any_stream_leaks_storage_witness: "es_heap (as_construct 0 (Some AS_Move) es_init) = {0} \<and> es_rs (as_construct 0 (Some AS_Move) es_init) = Map.empty"
  using any_stream_leaks_storage [OF as_reach.start, of 0] by (simp add: es_init_def)

end
