(* ===== verification/Task_Objects.thy ===== *)
theory Task_Objects
  imports Prelude
begin

text \<open>
  The objects of type \<^verbatim>\<open>task\<close> and \<^verbatim>\<open>quitter\<close> as owners of their coroutine frames (\<^verbatim>\<open>task.hpp\<close>, \<^verbatim>\<open>quitter.hpp\<close>; the
  two classes have the same members): construction from a coroutine, moves, \<^verbatim>\<open>release\<close>, the awaiter functions that mark
  a frame as lent, and the destruction of the frame, which ends the program when a parent still awaits it.
\<close>

record task_obj =
  to_h :: "nat option"
  to_lent :: bool

text \<open>
  A frame: whether its body has finished, whether the owner of its chain was abandoned, and, as a ghost, whether a
  parent is suspended awaiting it.
\<close>

record coro_frame =
  cf_done :: bool
  cf_abandoned :: bool
  cf_awaited :: bool

text \<open>
  The task objects, the live frames, and the frames whose handle was released to a caller, who destroys them
  himself. \<open>tw_bad\<close> records a frame destroyed twice or a call on an empty task that needs a frame.
\<close>

record task_world =
  tw_objs :: "nat \<rightharpoonup> task_obj"
  tw_frames :: "nat \<rightharpoonup> coro_frame"
  tw_released :: "nat set"
  tw_terminated :: bool
  tw_bad :: bool

section \<open>Operations\<close>

definition put_obj :: "nat \<Rightarrow> task_obj \<Rightarrow> task_world \<Rightarrow> task_world" where
  "put_obj x t s = s\<lparr>tw_objs := (tw_objs s)(x \<mapsto> t)\<rparr>"

definition kill_frame :: "nat \<Rightarrow> task_world \<Rightarrow> task_world" where
  "kill_frame h s = (if tw_frames s h = None then s\<lparr>tw_bad := True\<rparr> else s\<lparr>tw_frames := (tw_frames s)(h := None)\<rparr>)"

text \<open>\<^verbatim>\<open>get_return_object\<close> and the private constructor: a new task for a new frame.\<close>

definition task_make :: "nat \<Rightarrow> nat \<Rightarrow> task_world \<Rightarrow> task_world" where
  "task_make x h s = put_obj x \<lparr>to_h = Some h, to_lent = False\<rparr>
     (s\<lparr>tw_frames := (tw_frames s)(h \<mapsto> \<lparr>cf_done = False, cf_abandoned = False, cf_awaited = False\<rparr>)\<rparr>)"

definition lent_guard :: "task_obj \<Rightarrow> nat \<Rightarrow> task_world \<Rightarrow> bool" where
  "lent_guard t h s = (case tw_frames s h of
       None \<Rightarrow> False
     | Some f \<Rightarrow> to_lent t \<and> \<not> cf_done f \<and> \<not> cf_abandoned f)"

definition destroy_frame :: "nat \<Rightarrow> task_obj \<Rightarrow> task_world \<Rightarrow> task_world" where
  "destroy_frame x t s = (case to_h t of
       None \<Rightarrow> s
     | Some h \<Rightarrow>
         if lent_guard t h s then s\<lparr>tw_terminated := True\<rparr>
         else put_obj x \<lparr>to_h = None, to_lent = False\<rparr> (kill_frame h s))"

definition task_dtor :: "nat \<Rightarrow> task_obj \<Rightarrow> task_world \<Rightarrow> task_world" where
  "task_dtor x t s =
     (let s = destroy_frame x t s
      in if tw_terminated s then s else s\<lparr>tw_objs := (tw_objs s)(x := None)\<rparr>)"

definition task_release :: "nat \<Rightarrow> task_obj \<Rightarrow> task_world \<Rightarrow> task_world" where
  "task_release x t s = put_obj x (t\<lparr>to_h := None\<rparr>)
     (case to_h t of None \<Rightarrow> s | Some h \<Rightarrow> s\<lparr>tw_released := insert h (tw_released s)\<rparr>)"

text \<open>The move constructor takes the handle and leaves the mark behind; the assignment destroys its own frame first.\<close>

definition task_move :: "nat \<Rightarrow> nat \<Rightarrow> task_obj \<Rightarrow> task_world \<Rightarrow> task_world" where
  "task_move x y t s = put_obj x \<lparr>to_h = to_h t, to_lent = False\<rparr> (put_obj y (t\<lparr>to_h := None\<rparr>) s)"

definition task_assign :: "nat \<Rightarrow> task_obj \<Rightarrow> nat \<Rightarrow> task_obj \<Rightarrow> task_world \<Rightarrow> task_world" where
  "task_assign x t y u s =
     (if x = y then s
      else let s = destroy_frame x t s
           in if tw_terminated s then s
              else put_obj x \<lparr>to_h = to_h u, to_lent = (to_lent t \<and> to_h t = None)\<rparr> (put_obj y (u\<lparr>to_h := None\<rparr>) s))"

definition task_lend :: "nat \<Rightarrow> task_obj \<Rightarrow> task_world \<Rightarrow> task_world" where
  "task_lend x t s = (case to_h t of
       None \<Rightarrow> s\<lparr>tw_bad := True\<rparr>
     | Some h \<Rightarrow> (case tw_frames s h of
           None \<Rightarrow> s\<lparr>tw_bad := True\<rparr>
         | Some f \<Rightarrow> put_obj x (t\<lparr>to_lent := True\<rparr>) (s\<lparr>tw_frames := (tw_frames s)(h \<mapsto> f\<lparr>cf_awaited := True\<rparr>)\<rparr>)))"

definition task_take_back :: "nat \<Rightarrow> task_obj \<Rightarrow> task_world \<Rightarrow> task_world" where
  "task_take_back x t s = (case to_h t of
       None \<Rightarrow> s\<lparr>tw_bad := True\<rparr>
     | Some h \<Rightarrow> (case tw_frames s h of
           None \<Rightarrow> s\<lparr>tw_bad := True\<rparr>
         | Some f \<Rightarrow> put_obj x (t\<lparr>to_lent := False\<rparr>) (s\<lparr>tw_frames := (tw_frames s)(h \<mapsto> f\<lparr>cf_awaited := False\<rparr>)\<rparr>)))"

section \<open>Runs\<close>

text \<open>
  A terminated program does nothing. A task is awaited when it holds a frame. A caller destroys only what was released
  to him. The argument \<open>tidy\<close> restricts moves and releases to tasks that are not lent.
\<close>

inductive to_step :: "bool \<Rightarrow> task_world \<Rightarrow> task_world \<Rightarrow> bool" for tidy where
  make: "\<lbrakk>\<not> tw_terminated s; tw_objs s x = None; tw_frames s h = None\<rbrakk> \<Longrightarrow> to_step tidy s (task_make x h s)"
| dtor: "\<lbrakk>\<not> tw_terminated s; tw_objs s x = Some t\<rbrakk> \<Longrightarrow> to_step tidy s (task_dtor x t s)"
| release: "\<lbrakk>\<not> tw_terminated s; tw_objs s x = Some t; tidy \<longrightarrow> \<not> to_lent t\<rbrakk> \<Longrightarrow> to_step tidy s (task_release x t s)"
| move: "\<lbrakk>\<not> tw_terminated s; tw_objs s x = None; tw_objs s y = Some t; tidy \<longrightarrow> \<not> to_lent t\<rbrakk> \<Longrightarrow> to_step tidy s (task_move x y t s)"
| assign: "\<lbrakk>\<not> tw_terminated s; tw_objs s x = Some t; tw_objs s y = Some u; tidy \<longrightarrow> \<not> to_lent u\<rbrakk> \<Longrightarrow> to_step tidy s (task_assign x t y u s)"
| lend: "\<lbrakk>\<not> tw_terminated s; tw_objs s x = Some t; to_h t = Some h; tw_frames s h = Some f; \<not> cf_done f\<rbrakk> \<Longrightarrow> to_step tidy s (task_lend x t s)"
| take_back: "\<lbrakk>\<not> tw_terminated s; tw_objs s x = Some t; to_h t = Some h; tw_frames s h = Some f; cf_done f\<rbrakk> \<Longrightarrow> to_step tidy s (task_take_back x t s)"
| finishes: "\<lbrakk>\<not> tw_terminated s; tw_frames s h = Some f\<rbrakk> \<Longrightarrow> to_step tidy s (s\<lparr>tw_frames := (tw_frames s)(h \<mapsto> f\<lparr>cf_done := True\<rparr>)\<rparr>)"
| abandons: "\<lbrakk>\<not> tw_terminated s; tw_frames s h = Some f\<rbrakk> \<Longrightarrow> to_step tidy s (s\<lparr>tw_frames := (tw_frames s)(h \<mapsto> f\<lparr>cf_abandoned := True\<rparr>)\<rparr>)"
| caller: "\<lbrakk>\<not> tw_terminated s; h \<in> tw_released s\<rbrakk> \<Longrightarrow> to_step tidy s ((kill_frame h s)\<lparr>tw_released := tw_released s - {h}\<rparr>)"

definition to_init :: task_world where
  "to_init = \<lparr>tw_objs = Map.empty, tw_frames = Map.empty, tw_released = {}, tw_terminated = False, tw_bad = False\<rparr>"

section \<open>Ownership\<close>

definition owned :: "task_world \<Rightarrow> nat \<Rightarrow> nat \<Rightarrow> bool" where
  "owned s x h \<longleftrightarrow> (\<exists>t. tw_objs s x = Some t \<and> to_h t = Some h)"

definition ownership :: "(nat \<Rightarrow> nat \<Rightarrow> bool) \<Rightarrow> nat set \<Rightarrow> nat set \<Rightarrow> bool" where
  "ownership own live rel \<longleftrightarrow> (\<forall>h. h \<in> live \<longleftrightarrow> h \<in> rel \<or> (\<exists>x. own x h))
     \<and> (\<forall>x y h. own x h \<longrightarrow> own y h \<longrightarrow> x = y) \<and> (\<forall>x h. own x h \<longrightarrow> h \<notin> rel)"

definition to_inv :: "task_world \<Rightarrow> bool" where
  "to_inv s \<longleftrightarrow> \<not> tw_bad s \<and> ownership (owned s) (dom (tw_frames s)) (tw_released s)"

lemma ownership_new: "ownership own live rel \<Longrightarrow> h \<notin> live \<Longrightarrow> ownership (\<lambda>y k. y = x \<and> k = h \<or> own y k) (insert h live) rel"
  unfolding ownership_def by blast

lemma ownership_drop: "ownership own live rel \<Longrightarrow> own x h \<Longrightarrow> ownership (\<lambda>y k. own y k \<and> k \<noteq> h) (live - {h}) rel"
  unfolding ownership_def by blast

lemma ownership_release: "ownership own live rel \<Longrightarrow> own x h \<Longrightarrow> ownership (\<lambda>y k. own y k \<and> k \<noteq> h) live (insert h rel)"
  unfolding ownership_def by blast

lemma ownership_caller: "ownership own live rel \<Longrightarrow> h \<in> rel \<Longrightarrow> ownership own (live - {h}) (rel - {h})"
  unfolding ownership_def by blast

lemma ownership_move:
  assumes "ownership own live rel" and "\<And>h. \<not> own x h"
  shows "ownership (\<lambda>z k. if z = x then own y k else z \<noteq> y \<and> own z k) live rel"
proof -
  define new where "new = (\<lambda>z k. if z = x then own y k else z \<noteq> y \<and> own z k)"
  have "(\<exists>z. new z k) \<longleftrightarrow> (\<exists>z. own z k)" for k unfolding new_def using assms(2) by metis
  moreover have "new z k \<Longrightarrow> new w k \<Longrightarrow> z = w" for z w k
    using assms unfolding ownership_def new_def by (metis (full_types))
  moreover have "new z k \<Longrightarrow> k \<notin> rel" for z k
    using assms(1) unfolding ownership_def new_def by (metis (full_types))
  moreover have "h \<in> live \<longleftrightarrow> h \<in> rel \<or> (\<exists>z. own z h)" for h
    using assms(1) unfolding ownership_def by blast
  ultimately have "ownership new live rel" unfolding ownership_def by metis
  then show ?thesis by (simp add: new_def)
qed

lemma owned_put: "owned (put_obj x t s) = (\<lambda>y h. if y = x then to_h t = Some h else owned s y h)"
  by (simp add: owned_def put_obj_def fun_eq_iff)

lemma owned_frames [simp]: "owned (s\<lparr>tw_frames := f\<rparr>) = owned s" "owned (s\<lparr>tw_released := r\<rparr>) = owned s"
    "owned (s\<lparr>tw_bad := b\<rparr>) = owned s" "owned (s\<lparr>tw_terminated := b\<rparr>) = owned s"
  by (simp_all add: owned_def fun_eq_iff)

lemma put_fields [simp]: "tw_frames (put_obj x t s) = tw_frames s" "tw_released (put_obj x t s) = tw_released s"
    "tw_bad (put_obj x t s) = tw_bad s" "tw_terminated (put_obj x t s) = tw_terminated s"
  by (simp_all add: put_obj_def)

lemma owned_some: "tw_objs s x = Some t \<Longrightarrow> owned s x h \<longleftrightarrow> to_h t = Some h"
  by (simp add: owned_def)

lemma owned_none: "tw_objs s x = None \<Longrightarrow> \<not> owned s x h"
  by (simp add: owned_def)

lemma owned_live: "to_inv s \<Longrightarrow> owned s x h \<Longrightarrow> \<exists>f. tw_frames s h = Some f"
  by (auto simp: to_inv_def ownership_def dom_def)

lemma owned_unique: "to_inv s \<Longrightarrow> owned s x h \<Longrightarrow> owned s y h \<Longrightarrow> x = y"
  by (auto simp: to_inv_def ownership_def)

lemma owned_clear:
  assumes "to_inv s" and "tw_objs s x = Some t" and "to_h t = Some h" and "owned s' = owned s" and "to_h t' = None"
  shows "owned (put_obj x t' s') = (\<lambda>y k. owned s y k \<and> k \<noteq> h)"
proof (intro ext)
  have "owned s x h" using assms(2,3) by (simp add: owned_some)
  then show "owned (put_obj x t' s') y k = (owned s y k \<and> k \<noteq> h)" for y k
    unfolding owned_put assms(4,5)
    using owned_unique [OF assms(1)] owned_some [OF assms(2)] assms(3) by (metis option.distinct(1) option.inject)
qed

lemma make_keeps:
  assumes "to_inv s" and "tw_objs s x = None" "tw_frames s h = None"
  shows "to_inv (task_make x h s)"
proof -
  have "owned (task_make x h s) = (\<lambda>y k. y = x \<and> k = h \<or> owned s y k)"
    using owned_none [OF assms(2)] by (auto simp: task_make_def owned_put fun_eq_iff)
  then show ?thesis
    using assms ownership_new [of "owned s" "dom (tw_frames s)" "tw_released s" h x]
    by (simp add: to_inv_def task_make_def domIff)
qed

lemma transfer_keeps:
  assumes i: "to_inv s" and xy: "x \<noteq> y" "tw_objs s y = Some u" "\<And>h. \<not> owned s x h"
  shows "to_inv (put_obj x \<lparr>to_h = to_h u, to_lent = b\<rparr> (put_obj y (u\<lparr>to_h := None\<rparr>) s))" (is "to_inv ?s")
proof -
  have "owned ?s = (\<lambda>z k. if z = x then owned s y k else z \<noteq> y \<and> owned s z k)"
    using xy(1) by (auto simp: owned_put owned_some [OF xy(2)] fun_eq_iff)
  then show ?thesis using i ownership_move [of "owned s", OF _ xy(3)] by (simp add: to_inv_def)
qed

lemma kill_fields: "tw_frames s h = Some f \<Longrightarrow> kill_frame h s = s\<lparr>tw_frames := (tw_frames s)(h := None)\<rparr>"
  by (simp add: kill_frame_def)

lemma destroy_keeps:
  assumes i: "to_inv s" and x: "tw_objs s x = Some t"
  shows "to_inv (destroy_frame x t s)" and "\<not> tw_terminated (destroy_frame x t s) \<Longrightarrow> \<not> owned (destroy_frame x t s) x h"
    and "y \<noteq> x \<Longrightarrow> tw_objs (destroy_frame x t s) y = tw_objs s y"
proof -
  show "to_inv (destroy_frame x t s)"
  proof (cases "to_h t")
    case None
    then show ?thesis using i by (simp add: destroy_frame_def)
  next
    case (Some h)
    then have own: "owned s x h" using x by (simp add: owned_some)
    then obtain f where f: "tw_frames s h = Some f" using owned_live [OF i] by blast
    show ?thesis
      using i Some ownership_drop [of "owned s", OF _ own]
      by (simp add: to_inv_def destroy_frame_def kill_fields [OF f] owned_clear [OF i x Some])
  qed
  show "\<not> owned (destroy_frame x t s) x h" if "\<not> tw_terminated (destroy_frame x t s)"
    using that x by (auto simp: destroy_frame_def owned_put owned_some split: option.splits if_splits)
  show "tw_objs (destroy_frame x t s) y = tw_objs s y" if "y \<noteq> x"
    using that by (simp add: destroy_frame_def put_obj_def kill_frame_def split: option.split)
qed

lemma dtor_keeps:
  assumes i: "to_inv s" and x: "tw_objs s x = Some t"
  shows "to_inv (task_dtor x t s)"
proof (cases "tw_terminated (destroy_frame x t s)")
  case True
  then show ?thesis using destroy_keeps(1) [OF i x] by (simp add: task_dtor_def)
next
  case False
  let ?d = "destroy_frame x t s"
  have "owned (?d\<lparr>tw_objs := (tw_objs ?d)(x := None)\<rparr>) = owned ?d"
    using destroy_keeps(2) [OF i x False] by (fastforce simp: owned_def fun_eq_iff)
  then show ?thesis using destroy_keeps(1) [OF i x] False by (simp add: task_dtor_def Let_def to_inv_def)
qed

lemma release_keeps:
  assumes i: "to_inv s" and x: "tw_objs s x = Some t"
  shows "to_inv (task_release x t s)"
proof (cases "to_h t")
  case None
  then have "owned (task_release x t s) = owned s"
    using x by (auto simp: task_release_def owned_put owned_some fun_eq_iff)
  then show ?thesis using i None by (simp add: to_inv_def task_release_def)
next
  case (Some h)
  then have own: "owned s x h" using x by (simp add: owned_some)
  show ?thesis
    using i Some ownership_release [of "owned s", OF _ own]
    by (simp add: to_inv_def task_release_def owned_clear [OF i x Some])
qed

lemma caller_keeps:
  assumes i: "to_inv s" and h: "h \<in> tw_released s"
  shows "to_inv ((kill_frame h s)\<lparr>tw_released := tw_released s - {h}\<rparr>)"
proof -
  obtain f where f: "tw_frames s h = Some f" using i h unfolding to_inv_def ownership_def by blast
  show ?thesis
    using i ownership_caller [of "owned s", OF _ h] by (simp add: to_inv_def kill_fields [OF f])
qed

lemma same_keeps:
  assumes "to_inv s" and "tw_frames s h = Some f" and "owned s' = owned s"
    and "tw_frames s' = (tw_frames s)(h \<mapsto> g)" and "tw_released s' = tw_released s" and "tw_bad s' = tw_bad s"
  shows "to_inv s'"
  using assms by (simp add: to_inv_def insert_absorb domI)

lemma assign_keeps:
  assumes i: "to_inv s" and xy: "tw_objs s x = Some t" "tw_objs s y = Some u"
  shows "to_inv (task_assign x t y u s)"
proof -
  note d = destroy_keeps [OF i xy(1)]
  have "to_inv (put_obj x \<lparr>to_h = to_h u, to_lent = b\<rparr> (put_obj y (u\<lparr>to_h := None\<rparr>) (destroy_frame x t s)))"
    if "x \<noteq> y" "\<not> tw_terminated (destroy_frame x t s)" for b
    by (rule transfer_keeps [OF d(1) that(1)]) (use d(2,3) that xy in auto)
  then show ?thesis using i d(1) by (simp add: task_assign_def Let_def)
qed

lemma put_same_owned: "tw_objs s x = Some t \<Longrightarrow> to_h t' = to_h t \<Longrightarrow> owned (put_obj x t' s) = owned s"
  by (auto simp: owned_put owned_some fun_eq_iff)

lemma to_step_inv: "to_step tidy s s' \<Longrightarrow> to_inv s \<Longrightarrow> to_inv s'"
proof (induction rule: to_step.induct)
  case (move s x y t)
  then have "x \<noteq> y" by auto
  then show ?case
    unfolding task_move_def by (rule transfer_keeps [OF move.prems _ move.hyps(3) owned_none [OF move.hyps(2)]])
next
  case (lend s x t h f)
  then show ?case by - (rule same_keeps [of s h f], simp_all add: task_lend_def put_same_owned)
next
  case (take_back s x t h f)
  then show ?case by - (rule same_keeps [of s h f], simp_all add: task_take_back_def put_same_owned)
next
  case (finishes s h f)
  then show ?case by - (rule same_keeps [of s h f], simp_all)
next
  case (abandons s h f)
  then show ?case by - (rule same_keeps [of s h f], simp_all)
qed (rule make_keeps dtor_keeps release_keeps assign_keeps caller_keeps; assumption)+

lemma to_reach_inv: "(to_step tidy)\<^sup>*\<^sup>* to_init s \<Longrightarrow> to_inv s"
proof (induction rule: rtranclp_induct)
  case base
  show ?case by (simp add: to_inv_def ownership_def to_init_def owned_def)
qed (rule to_step_inv)

text \<open>
  Ownership of coroutine frames. However tasks are made, moved, assigned, released, awaited and destroyed, a frame is
  never destroyed twice and no task without a frame is awaited through its frame: every live frame belongs to exactly one
  task object or was released to a caller, the handle of a task always names a live frame, and a frame is gone as soon as
  neither holds it.
\<close>

theorem task_frames_owned:
  assumes "(to_step tidy)\<^sup>*\<^sup>* to_init s"
  shows "\<not> tw_bad s \<and> (tw_frames s h \<noteq> None \<longleftrightarrow> h \<in> tw_released s \<or> (\<exists>x. owned s x h))
    \<and> (\<forall>x y. owned s x h \<longrightarrow> owned s y h \<longrightarrow> x = y) \<and> (\<forall>x. owned s x h \<longrightarrow> h \<notin> tw_released s)"
  using to_reach_inv [OF assms] unfolding to_inv_def ownership_def domIff by blast

theorem task_frames_owned_witness:
  "\<not> tw_bad (task_make 1 7 to_init) \<and> owned (task_make 1 7 to_init) 1 7"
proof -
  have "to_step False to_init (task_make 1 7 to_init)" by (rule to_step.make) (simp_all add: to_init_def)
  then have "(to_step False)\<^sup>*\<^sup>* to_init (task_make 1 7 to_init)" by simp
  then have "\<not> tw_bad (task_make 1 7 to_init)" using task_frames_owned by blast
  moreover have "owned (task_make 1 7 to_init) 1 7" by (simp add: task_make_def owned_put)
  ultimately show ?thesis by blast
qed

section \<open>The guard of an awaited frame\<close>

text \<open>When tasks are moved and released only while they are not lent, the mark of a task says whether its frame is awaited.\<close>

definition marked :: "task_world \<Rightarrow> bool" where
  "marked s \<longleftrightarrow> (\<forall>x t h f. tw_objs s x = Some t \<longrightarrow> to_h t = Some h \<longrightarrow> tw_frames s h = Some f \<longrightarrow> to_lent t = cf_awaited f)
     \<and> (\<forall>x t. tw_objs s x = Some t \<longrightarrow> to_h t = None \<longrightarrow> \<not> to_lent t)"

lemma markedD:
  assumes "marked s" and "tw_objs s x = Some t"
  shows "to_h t = Some h \<Longrightarrow> tw_frames s h = Some f \<Longrightarrow> to_lent t = cf_awaited f" and "to_h t = None \<Longrightarrow> \<not> to_lent t"
  using assms unfolding marked_def by blast+

lemma markedI:
  assumes "\<And>x t h f. tw_objs s x = Some t \<Longrightarrow> to_h t = Some h \<Longrightarrow> tw_frames s h = Some f \<Longrightarrow> to_lent t = cf_awaited f"
    and "\<And>x t. tw_objs s x = Some t \<Longrightarrow> to_h t = None \<Longrightarrow> \<not> to_lent t"
  shows "marked s"
  using assms unfolding marked_def by blast

lemma marked_fewer:
  assumes "marked s" and "\<And>x t. tw_objs s' x = Some t \<Longrightarrow> tw_objs s x = Some t \<or> t = \<lparr>to_h = None, to_lent = False\<rparr>"
    and "\<And>h f. tw_frames s' h = Some f \<Longrightarrow> \<exists>g. tw_frames s h = Some g \<and> cf_awaited g = cf_awaited f"
  shows "marked s'"
  using assms by (intro markedI) (fastforce dest: markedD)+

lemma destroy_marked: "marked s \<Longrightarrow> marked (destroy_frame x t s)"
  by (rule marked_fewer [of s]) (auto simp: destroy_frame_def put_obj_def kill_frame_def split: option.splits if_splits)

lemma transfer_marked:
  assumes "marked s" and "tw_objs s y = Some u" and "\<not> to_lent u"
  shows "marked (put_obj x \<lparr>to_h = to_h u, to_lent = False\<rparr> (put_obj y (u\<lparr>to_h := None\<rparr>) s))"
  using assms by (intro markedI) (auto simp: put_obj_def dest: markedD split: if_splits)

lemma lent_marked:
  assumes inv: "to_inv s" and m: "marked s" and x: "tw_objs s x = Some t" "to_h t = Some h" "tw_frames s h = Some f"
  shows "marked (put_obj x (t\<lparr>to_lent := b\<rparr>) (s\<lparr>tw_frames := (tw_frames s)(h \<mapsto> f\<lparr>cf_awaited := b\<rparr>)\<rparr>))"
proof -
  have only: "to_h u \<noteq> Some h" if "tw_objs s y = Some u" and "y \<noteq> x" for y u
    using owned_unique [OF inv, of y h x] that x by (auto simp: owned_some)
  let ?s = "put_obj x (t\<lparr>to_lent := b\<rparr>) (s\<lparr>tw_frames := (tw_frames s)(h \<mapsto> f\<lparr>cf_awaited := b\<rparr>)\<rparr>)"
  have objs: "tw_objs ?s y = (if y = x then Some (t\<lparr>to_lent := b\<rparr>) else tw_objs s y)" for y
    by (simp add: put_obj_def)
  have frames: "tw_frames ?s k = (if k = h then Some (f\<lparr>cf_awaited := b\<rparr>) else tw_frames s k)" for k
    by simp
  show ?thesis
  proof (rule markedI, unfold objs frames)
    fix y u k g
    assume u: "(if y = x then Some (t\<lparr>to_lent := b\<rparr>) else tw_objs s y) = Some u" "to_h u = Some k"
      and g: "(if k = h then Some (f\<lparr>cf_awaited := b\<rparr>) else tw_frames s k) = Some g"
    show "to_lent u = cf_awaited g"
    proof (cases "y = x")
      case True
      then have "u = t\<lparr>to_lent := b\<rparr>" using u(1) by simp
      moreover from this have "k = h" using u(2) x(2) by simp
      ultimately show ?thesis using g by auto
    next
      case False
      then have y: "tw_objs s y = Some u" using u(1) by simp
      then have "k \<noteq> h" using only [OF y False] u(2) by simp
      then show ?thesis using markedD(1) [OF m y u(2)] g by simp
    qed
  next
    fix y u
    assume "(if y = x then Some (t\<lparr>to_lent := b\<rparr>) else tw_objs s y) = Some u" and "to_h u = None"
    then show "\<not> to_lent u" using x(2) markedD(2) [OF m] by (cases "y = x") auto
  qed
qed

lemma make_marked:
  assumes inv: "to_inv s" and m: "marked s" and "tw_objs s x = None" and fresh: "tw_frames s h = None"
  shows "marked (task_make x h s)"
proof -
  have "to_h u \<noteq> Some h" if "tw_objs s y = Some u" for y u
    using owned_live [OF inv, of y h] that fresh by (auto simp: owned_some)
  then show ?thesis
    using m by (intro markedI) (auto simp: task_make_def put_obj_def dest: markedD split: if_splits)
qed

lemma to_step_marked: "to_step True s s' \<Longrightarrow> to_inv s \<Longrightarrow> marked s \<Longrightarrow> marked s'"
proof (induction rule: to_step.induct)
  case (dtor s x t)
  then have "marked (destroy_frame x t s)" by (simp add: destroy_marked)
  then show ?case
    by (rule marked_fewer) (auto simp: task_dtor_def Let_def split: if_splits)
next
  case (release s x t)
  then show ?case
    by - (rule marked_fewer [of s], auto simp: task_release_def put_obj_def split: option.splits if_splits)
next
  case (assign s x t y u)
  have d: "marked (destroy_frame x t s)" using assign by (simp add: destroy_marked)
  have "\<not> (to_lent t \<and> to_h t = None)" using assign markedD(2) by blast
  then show ?case
    using transfer_marked [OF d, of y u x] assign destroy_keeps(3) [OF assign.prems(1) assign.hyps(2), of y] d
    by (auto simp: task_assign_def Let_def)
next
  case (finishes s h f)
  then show ?case by - (rule marked_fewer [of s], auto split: if_splits)
next
  case (abandons s h f)
  then show ?case by - (rule marked_fewer [of s], auto split: if_splits)
next
  case (caller s h)
  then show ?case by - (rule marked_fewer [of s], auto simp: kill_frame_def split: if_splits)
qed (auto simp: task_move_def task_lend_def task_take_back_def intro: make_marked transfer_marked lent_marked)

lemma tidy_marked: "(to_step True)\<^sup>*\<^sup>* to_init s \<Longrightarrow> to_inv s \<and> marked s"
proof (induction rule: rtranclp_induct)
  case base
  show ?case by (simp add: to_inv_def ownership_def to_init_def owned_def marked_def)
qed (blast intro: to_step_inv to_step_marked)

text \<open>
  The guard of an awaited frame. As long as tasks are moved and released only while they are not lent, destroying or
  overwriting a task ends the program exactly when a parent is suspended awaiting its frame, the frame has not finished and
  its chain was not abandoned; in every other case the frame is destroyed and the program goes on.
\<close>

theorem task_guard_exact:
  assumes "(to_step True)\<^sup>*\<^sup>* to_init s" and "\<not> tw_terminated s" and "tw_objs s x = Some t" and "to_h t = Some h"
  shows "\<exists>f. tw_frames s h = Some f
    \<and> (tw_terminated (task_dtor x t s) \<longleftrightarrow> cf_awaited f \<and> \<not> cf_done f \<and> \<not> cf_abandoned f)
    \<and> (\<not> tw_terminated (task_dtor x t s) \<longrightarrow> tw_frames (task_dtor x t s) h = None \<and> tw_objs (task_dtor x t s) x = None)"
proof -
  have i: "to_inv s" and m: "marked s" using tidy_marked [OF assms(1)] by blast+
  obtain f where f: "tw_frames s h = Some f" using owned_live [OF i] assms(3,4) owned_some by blast
  have "to_lent t = cf_awaited f" using markedD(1) [OF m assms(3,4) f] .
  then show ?thesis
    using f assms(2,4) by (simp add: task_dtor_def destroy_frame_def lent_guard_def kill_frame_def put_obj_def Let_def)
qed

definition demo_lent :: task_world where
  "demo_lent = task_lend 1 \<lparr>to_h = Some 7, to_lent = False\<rparr> (task_make 1 7 to_init)"

lemma demo_lent_state: "demo_lent = \<lparr>tw_objs = [1 \<mapsto> \<lparr>to_h = Some 7, to_lent = True\<rparr>],
    tw_frames = [7 \<mapsto> \<lparr>cf_done = False, cf_abandoned = False, cf_awaited = True\<rparr>], tw_released = {},
    tw_terminated = False, tw_bad = False\<rparr>"
  by (simp add: demo_lent_def task_lend_def task_make_def put_obj_def to_init_def)

lemma demo_lent_reach: "(to_step tidy)\<^sup>*\<^sup>* to_init demo_lent"
proof -
  let ?a = "task_make 1 7 to_init"
  have "to_step tidy to_init ?a" by (rule to_step.make) (simp_all add: to_init_def)
  moreover have "to_step tidy ?a demo_lent"
    unfolding demo_lent_def
    by (rule to_step.lend [where h = 7 and f = "\<lparr>cf_done = False, cf_abandoned = False, cf_awaited = False\<rparr>"])
      (simp_all add: task_make_def put_obj_def to_init_def)
  ultimately show ?thesis by (meson converse_rtranclp_into_rtranclp rtranclp.rtrancl_refl)
qed

theorem task_guard_exact_witness:
  "tw_terminated (task_dtor 1 \<lparr>to_h = Some 7, to_lent = True\<rparr> demo_lent)
   \<and> (to_step True)\<^sup>*\<^sup>* to_init demo_lent"
  using task_guard_exact [OF demo_lent_reach, of 1 "\<lparr>to_h = Some 7, to_lent = True\<rparr>" 7] demo_lent_reach
  by (simp add: demo_lent_state)

text \<open>
  A move takes the frame but not the mark: a task that is moved while its frame is awaited is destroyed without the
  program ending, although a parent is suspended on it.
\<close>

theorem moved_task_loses_guard:
  "\<exists>s t h f. (to_step False)\<^sup>*\<^sup>* to_init s \<and> tw_objs s 2 = Some t \<and> to_h t = Some h \<and> tw_frames s h = Some f
     \<and> cf_awaited f \<and> \<not> cf_done f \<and> \<not> cf_abandoned f \<and> \<not> tw_terminated (task_dtor 2 t s) \<and> tw_frames (task_dtor 2 t s) h = None"
proof -
  let ?c = "task_move 2 1 \<lparr>to_h = Some 7, to_lent = True\<rparr> demo_lent"
  have "to_step False demo_lent ?c" by (rule to_step.move) (simp_all add: demo_lent_state)
  then have "(to_step False)\<^sup>*\<^sup>* to_init ?c" by (rule rtranclp.rtrancl_into_rtrancl [OF demo_lent_reach])
  then show ?thesis
    by (intro exI [of _ ?c] exI [of _ "\<lparr>to_h = Some 7, to_lent = False\<rparr>"] exI [of _ 7]
        exI [of _ "\<lparr>cf_done = False, cf_abandoned = False, cf_awaited = True\<rparr>"])
      (simp add: task_move_def task_dtor_def destroy_frame_def lent_guard_def kill_frame_def put_obj_def demo_lent_state)
qed

end
