(* ===== verification/Launch.thy ===== *)
theory Launch
  imports Task_Chain Exec_Context
begin

text \<open>
  How a task is launched: the overloads of \<^verbatim>\<open>run_async\<close> and \<^verbatim>\<open>run\<close> with the wrappers they return
  (\<^verbatim>\<open>ex/run_async.hpp\<close>, \<^verbatim>\<open>ex/run.hpp\<close>), the thread-local frame allocator they install while the task's frame
  is made and put back afterwards, and the memory of the trampoline of \<^verbatim>\<open>run_async\<close>, whose frame carries a
  footer that says how to free it. Sizes and addresses of the footer are 64-bit words, added and masked as
  the machine does.
\<close>

unbundle bit_operations_syntax

section \<open>The frame of the trampoline\<close>

text \<open>
  The sizes and alignments that \<^verbatim>\<open>operator new\<close> of the trampoline's promise reads from the type of the
  allocator: \<^verbatim>\<open>alignof(Alloc)\<close>, \<^verbatim>\<open>sizeof(Alloc)\<close>, and the size of the allocator rebound to bytes, which is
  what the footer stores. A function pointer has eight bytes.
\<close>

record alloc_layout =
  al_align :: "64 word"
  al_size :: "64 word"
  al_byte_size :: "64 word"

definition footer_align :: "alloc_layout \<Rightarrow> 64 word" where
  "footer_align l = max 8 (al_align l)"

definition padded :: "alloc_layout \<Rightarrow> 64 word \<Rightarrow> 64 word" where
  "padded l sz = (sz + footer_align l - 1) AND NOT (footer_align l - 1)"

definition total_size :: "alloc_layout \<Rightarrow> 64 word \<Rightarrow> 64 word" where
  "total_size l sz = padded l sz + 8 + al_size l"

text \<open>
  What the footers in memory hold: the addresses of deallocation functions (named by the rebound allocator
  type they are made for) and the stored allocators.
\<close>

record footers =
  ft_fn :: "64 word \<rightharpoonup> nat"
  ft_alloc :: "64 word \<rightharpoonup> nat"

text \<open>
  \<^verbatim>\<open>operator new\<close>, given what \<^verbatim>\<open>allocate(total)\<close> returned: the request made of the allocator and the memory
  with the footer written. \<^verbatim>\<open>operator delete\<close> finds the function from the size, and the function, \<open>dealloc_impl\<close>,
  finds the allocator from the end of the block; the result is the allocator, the block and the size it is given.
\<close>

definition trampoline_new :: "alloc_layout \<Rightarrow> nat \<Rightarrow> nat \<Rightarrow> 64 word \<Rightarrow> 64 word \<Rightarrow> footers \<Rightarrow> 64 word \<times> footers" where
  "trampoline_new l ty a sz raw m =
     (let fn_loc = raw + padded l sz
      in (total_size l sz, m\<lparr>ft_fn := (ft_fn m)(fn_loc \<mapsto> ty), ft_alloc := (ft_alloc m)(fn_loc + 8 \<mapsto> a)\<rparr>))"

definition dealloc_impl :: "alloc_layout \<Rightarrow> 64 word \<Rightarrow> 64 word \<Rightarrow> footers \<Rightarrow> ((nat \<times> 64 word \<times> 64 word) \<times> footers) option" where
  "dealloc_impl l raw sz m =
     (let loc = raw + sz - al_byte_size l
      in case ft_alloc m loc of
           None \<Rightarrow> None
         | Some a \<Rightarrow> Some ((a, raw, sz), m\<lparr>ft_alloc := (ft_alloc m)(loc := None)\<rparr>))"

definition trampoline_delete :: "alloc_layout \<Rightarrow> 64 word \<Rightarrow> 64 word \<Rightarrow> footers \<Rightarrow> (nat \<times> (nat \<times> 64 word \<times> 64 word) \<times> footers) option" where
  "trampoline_delete l p sz m =
     (case ft_fn m (p + padded l sz) of
        None \<Rightarrow> None
      | Some ty \<Rightarrow> map_option (\<lambda>r. (ty, r)) (dealloc_impl l p (total_size l sz) m))"

lemma align_down:
  assumes "k < 64"
  shows "unat (w AND NOT (2 ^ k - 1) :: 64 word) = unat w div 2 ^ k * 2 ^ k"
proof -
  have "w AND NOT (2 ^ k - 1) = push_bit k (drop_bit k w)"
    unfolding mask_eq_exp_minus_1 [symmetric]
    by (rule bit_word_eqI) (auto simp: bit_simps)
  then have "unat (w AND NOT (2 ^ k - 1)) = take_bit 64 (push_bit k (drop_bit k (unat w)))"
    by (simp add: unsigned_push_bit_eq unat_drop_bit_eq)
  also have "\<dots> = take_bit 64 (unat w div 2 ^ k * 2 ^ k)"
    by (simp add: push_bit_eq_mult drop_bit_eq_div)
  also have "\<dots> = unat w div 2 ^ k * 2 ^ k"
  proof -
    have "unat w div 2 ^ k * 2 ^ k \<le> unat w" by simp
    also have "\<dots> < 2 ^ 64" using unsigned_less [of w] by simp
    finally show ?thesis by (simp add: take_bit_nat_eq_self)
  qed
  finally show ?thesis .
qed

lemma unat_add_mod: "unat (x + y :: 64 word) mod 2 ^ k = (unat x + unat y) mod 2 ^ k" if "k < 64" for k
proof -
  have "(2 :: nat) ^ k dvd 2 ^ 64" by (rule le_imp_power_dvd) (use that in simp)
  then show ?thesis by (simp add: unat_word_ariths mod_mod_cancel)
qed

lemma unat_low_mask: "k < 64 \<Longrightarrow> unat (2 ^ k - 1 :: 64 word) = 2 ^ k - 1"
  unfolding mask_eq_exp_minus_1 [symmetric] by (rule bit_eqI) (auto simp: bit_simps)

lemma align_up_bounds:
  fixes n a :: nat
  assumes "0 < a"
  shows "n \<le> (n + (a - 1)) div a * a" and "(n + (a - 1)) div a * a < n + a"
proof -
  have "(n + (a - 1)) div a * a + (n + (a - 1)) mod a = n + (a - 1)" by simp
  moreover have "(n + (a - 1)) mod a \<le> a - 1" using assms by (simp add: less_Suc_eq_le [symmetric])
  ultimately show "n \<le> (n + (a - 1)) div a * a" and "(n + (a - 1)) div a * a < n + a"
    using assms by linarith+
qed

lemma padded_multiple:
  assumes "footer_align l = 2 ^ k" and "k < 64"
  shows "unat (padded l sz) mod 2 ^ k = 0"
  using assms align_down [of k "sz + footer_align l - 1"] by (simp add: padded_def)

lemma padded_exact:
  assumes fa: "footer_align l = 2 ^ k" "k < 64" and fits: "unat sz + (2 ^ k - 1) < 2 ^ 64"
  shows "unat sz \<le> unat (padded l sz)" and "unat (padded l sz) < unat sz + 2 ^ k"
proof -
  have "unat (sz + (2 ^ k - 1) :: 64 word) = unat sz + (2 ^ k - 1)"
    using fits unat_low_mask [OF fa(2)] by (subst unat_add_lem [THEN iffD1]) simp_all
  then have "unat (padded l sz) = (unat sz + (2 ^ k - 1)) div 2 ^ k * 2 ^ k"
    using align_down [OF fa(2), of "sz + footer_align l - 1"] fa(1)
    by (simp add: padded_def algebra_simps)
  then show "unat sz \<le> unat (padded l sz)" "unat (padded l sz) < unat sz + 2 ^ k"
    using align_up_bounds [of "2 ^ k" "unat sz"] by simp_all
qed

lemma total_exact:
  assumes fa: "footer_align l = 2 ^ k" "k < 64" and fits: "unat sz + 2 ^ k + 8 + unat (al_size l) < 2 ^ 64"
  shows "unat (total_size l sz) = unat (padded l sz) + 8 + unat (al_size l)"
proof -
  have p: "unat (padded l sz) < unat sz + 2 ^ k" by (rule padded_exact(2) [OF fa]) (use fits in linarith)
  then have "unat (padded l sz + 8) = unat (padded l sz) + 8"
    using fits by (subst unat_add_lem [THEN iffD1]) simp_all
  then show ?thesis
    using p fits unfolding total_size_def by (subst unat_add_lem [THEN iffD1]) simp_all
qed

text \<open>
  The frame of a trampoline that \<^verbatim>\<open>run_async\<close> makes with an allocator by value. When the size of the frame
  with its footer fits in \<^verbatim>\<open>std::size_t\<close>, the footer starts at the first multiple of its alignment behind
  the frame and ends with the block. Whatever memory was written elsewhere in between, \<^verbatim>\<open>operator delete\<close> reads
  back the function and the allocator that \<^verbatim>\<open>operator new\<close> stored and gives the allocator the block and the
  size it was asked for, as long as an allocator and its rebound copy have one size.
\<close>
theorem trampoline_frame_roundtrip:
  assumes "footer_align l = 2 ^ k" and "k < 64" and "unat sz + 2 ^ k + 8 + unat (al_size l) < 2 ^ 64"
    and "al_byte_size l = al_size l"
    and new: "trampoline_new l ty a sz raw m = (req, m')"
    and kept: "ft_fn m'' (raw + padded l sz) = ft_fn m' (raw + padded l sz)"
      "ft_alloc m'' (raw + padded l sz + 8) = ft_alloc m' (raw + padded l sz + 8)"
  shows "unat sz \<le> unat (padded l sz) \<and> unat (padded l sz) < unat sz + 2 ^ k \<and> unat (padded l sz) mod 2 ^ k = 0
    \<and> unat req = unat (padded l sz) + 8 + unat (al_size l)
    \<and> map_option (\<lambda>(ty, r, _). (ty, r)) (trampoline_delete l raw sz m'') = Some (ty, (a, raw, req))"
proof -
  have req: "req = total_size l sz"
    and m': "ft_fn m' (raw + padded l sz) = Some ty" "ft_alloc m' (raw + padded l sz + 8) = Some a"
    using new by (auto simp: trampoline_new_def Let_def)
  have loc: "raw + total_size l sz - al_byte_size l = raw + padded l sz + 8"
    using assms(4) by (simp add: total_size_def)
  have "map_option (\<lambda>(ty, r, _). (ty, r)) (trampoline_delete l raw sz m'') = Some (ty, (a, raw, req))"
    unfolding trampoline_delete_def dealloc_impl_def Let_def loc using kept m' req by simp
  moreover have "unat sz + (2 ^ k - 1) < 2 ^ 64" using assms(3) by linarith
  ultimately show ?thesis
    using padded_exact padded_multiple total_exact assms(1-3) req by auto
qed

definition demo_layout :: alloc_layout where
  "demo_layout = \<lparr>al_align = 8, al_size = 16, al_byte_size = 16\<rparr>"

theorem trampoline_frame_roundtrip_witness:
  "unat (padded demo_layout 100) = 104
   \<and> trampoline_new demo_layout 1 5 100 4096 \<lparr>ft_fn = Map.empty, ft_alloc = Map.empty\<rparr>
     = (128, \<lparr>ft_fn = [4200 \<mapsto> 1], ft_alloc = [4208 \<mapsto> 5]\<rparr>)
   \<and> map_option (\<lambda>(ty, r, _). (ty, r))
       (trampoline_delete demo_layout 4096 100 \<lparr>ft_fn = [4200 \<mapsto> 1], ft_alloc = [4208 \<mapsto> 5]\<rparr>) = Some (1, (5, 4096, 128))"
proof -
  have fa: "footer_align demo_layout = 2 ^ 3" by (simp add: footer_align_def demo_layout_def)
  have pad: "padded demo_layout 100 = 104" by (simp add: padded_def footer_align_def demo_layout_def)
  have new: "trampoline_new demo_layout 1 5 100 4096 \<lparr>ft_fn = Map.empty, ft_alloc = Map.empty\<rparr>
      = (128, \<lparr>ft_fn = [4200 \<mapsto> 1], ft_alloc = [4208 \<mapsto> 5]\<rparr>)"
    by (simp add: trampoline_new_def total_size_def pad) (simp add: demo_layout_def)
  show ?thesis
    using trampoline_frame_roundtrip [OF fa _ _ _ new refl refl] new pad by (simp add: demo_layout_def)
qed

text \<open>
  An allocator that must be aligned to more than eight bytes is stored misaligned: the footer is aligned to
  its requirement, but the function pointer comes first, so the allocator is constructed eight bytes behind a
  multiple of its alignment, in a block that is itself aligned.
\<close>
theorem trampoline_allocator_misaligned:
  assumes "al_align l = 2 ^ k" and "4 \<le> k" and "k < 64" and "unat raw mod 2 ^ k = 0"
    and "trampoline_new l ty a sz raw \<lparr>ft_fn = Map.empty, ft_alloc = Map.empty\<rparr> = (req, m)"
    and "ft_alloc m loc = Some a"
  shows "unat loc mod unat (al_align l) = 8"
proof -
  have two: "(16 :: nat) \<le> 2 ^ k" using power_increasing [of 4 k "2 :: nat"] assms(2) by simp
  have ua: "unat (2 ^ k :: 64 word) = 2 ^ k" by (rule bit_eqI) (use assms(3) in \<open>auto simp: bit_simps\<close>)
  have "(8 :: 64 word) \<le> 2 ^ k" unfolding word_le_nat_alt using ua two by simp
  then have fa: "footer_align l = 2 ^ k" by (simp add: footer_align_def assms(1) max_def)
  have loc: "loc = raw + padded l sz + 8"
    using assms(5,6) by (auto simp: trampoline_new_def Let_def split: if_splits)
  have "unat (raw + padded l sz) mod 2 ^ k = (unat raw mod 2 ^ k + unat (padded l sz) mod 2 ^ k) mod 2 ^ k"
    using unat_add_mod [OF assms(3), of raw "padded l sz"] by (simp add: mod_add_eq)
  then have "unat (raw + padded l sz) mod 2 ^ k = 0"
    using padded_multiple [OF fa assms(3)] assms(4) by simp
  moreover have "unat loc mod 2 ^ k = (unat (raw + padded l sz) mod 2 ^ k + 8) mod 2 ^ k"
    unfolding loc using unat_add_mod [OF assms(3), of "raw + padded l sz" 8] by (simp add: mod_add_left_eq)
  ultimately show ?thesis using assms(1) two ua by simp
qed

theorem trampoline_allocator_misaligned_witness:
  "trampoline_new \<lparr>al_align = 32, al_size = 32, al_byte_size = 32\<rparr> 1 5 100 4096 \<lparr>ft_fn = Map.empty, ft_alloc = Map.empty\<rparr>
     = (168, \<lparr>ft_fn = [4224 \<mapsto> 1], ft_alloc = [4232 \<mapsto> 5]\<rparr>)
   \<and> unat (4232 :: 64 word) mod unat (32 :: 64 word) = 8"
proof -
  let ?l = "\<lparr>al_align = 32, al_size = 32, al_byte_size = 32\<rparr>"
  have new: "trampoline_new ?l 1 5 100 4096 \<lparr>ft_fn = Map.empty, ft_alloc = Map.empty\<rparr>
     = (168, \<lparr>ft_fn = [4224 \<mapsto> 1], ft_alloc = [4232 \<mapsto> 5]\<rparr>)"
    by (simp add: trampoline_new_def total_size_def padded_def footer_align_def)
  have "unat (4232 :: 64 word) mod unat (al_align ?l) = 8"
    by (rule trampoline_allocator_misaligned [where k = 5, OF _ _ _ _ new]) simp_all
  with new show ?thesis by simp
qed

section \<open>The overloads\<close>

text \<open>
  The allocator argument of a launch: a memory resource, or an allocator by value, for which the library makes
  a \<^verbatim>\<open>frame_memory_resource\<close> that hands every request on to a copy of it. The handlers are none, one (with
  whether it can be called with an exception), or two.
\<close>

datatype launch_alloc = Use_Resource nat | Use_Allocator nat

datatype handler_args = No_Handlers | One_Handler bool | Two_Handlers

primrec handlers_for :: "handler_args \<Rightarrow> handlers" where
  "handlers_for No_Handlers = Default_Handler"
| "handlers_for (One_Handler b) = Handler_Pair_Default b"
| "handlers_for Two_Handlers = Handler_Pair"

text \<open>What \<^verbatim>\<open>run_async\<close> gives the constructor of \<^verbatim>\<open>run_async_wrapper\<close>; token 0 is the empty stop token.\<close>

record async_wrapper =
  aw_token :: nat
  aw_handlers :: handlers
  aw_alloc :: launch_alloc

definition run_async_ex :: "exec_ctx \<Rightarrow> handler_args \<Rightarrow> async_wrapper" where
  "run_async_ex ctx hs = \<lparr>aw_token = 0, aw_handlers = handlers_for hs, aw_alloc = Use_Resource (get_frame_allocator ctx)\<rparr>"

definition run_async_token :: "exec_ctx \<Rightarrow> nat \<Rightarrow> handler_args \<Rightarrow> async_wrapper" where
  "run_async_token ctx st hs = \<lparr>aw_token = st, aw_handlers = handlers_for hs, aw_alloc = Use_Resource (get_frame_allocator ctx)\<rparr>"

definition run_async_resource :: "nat \<Rightarrow> handler_args \<Rightarrow> async_wrapper" where
  "run_async_resource mr hs = \<lparr>aw_token = 0, aw_handlers = handlers_for hs, aw_alloc = Use_Resource mr\<rparr>"

definition run_async_token_resource :: "nat \<Rightarrow> nat \<Rightarrow> handler_args \<Rightarrow> async_wrapper" where
  "run_async_token_resource st mr hs = \<lparr>aw_token = st, aw_handlers = handlers_for hs, aw_alloc = Use_Resource mr\<rparr>"

definition run_async_alloc :: "nat \<Rightarrow> handler_args \<Rightarrow> async_wrapper" where
  "run_async_alloc a hs = \<lparr>aw_token = 0, aw_handlers = handlers_for hs, aw_alloc = Use_Allocator a\<rparr>"

definition run_async_token_alloc :: "nat \<Rightarrow> nat \<Rightarrow> handler_args \<Rightarrow> async_wrapper" where
  "run_async_token_alloc st a hs = \<lparr>aw_token = st, aw_handlers = handlers_for hs, aw_alloc = Use_Allocator a\<rparr>"

text \<open>What \<^verbatim>\<open>run\<close> gives its wrapper: an executor or none, a stop token or the caller's, an allocator or none.\<close>

record run_wrapper =
  rw_executor :: "nat option"
  rw_token :: "nat option"
  rw_alloc :: "launch_alloc option"

definition run_ex :: "nat \<Rightarrow> nat option \<Rightarrow> launch_alloc option \<Rightarrow> run_wrapper" where
  "run_ex ex st al = \<lparr>rw_executor = Some ex, rw_token = st, rw_alloc = al\<rparr>"

definition run_here :: "nat option \<Rightarrow> launch_alloc option \<Rightarrow> run_wrapper" where
  "run_here st al = \<lparr>rw_executor = None, rw_token = st, rw_alloc = al\<rparr>"

section \<open>The wrappers\<close>

text \<open>
  Memory resources are those the program has (\<open>Given\<close>) and those inside a trampoline or a wrapper of \<^verbatim>\<open>run\<close>
  (\<open>Own i\<close>, the one of launch \<open>i\<close>), with the allocator each of the latter forwards to. The frame of the task
  of launch \<open>i\<close> is frame \<open>i\<close>; its trailer names the resource it came from. \<open>ln_bad\<close> records a frame that is freed
  twice or into a resource that is gone.
\<close>

datatype resource = Given nat | Own nat

record launcher =
  ln_tls :: "resource option"
  ln_next :: nat
  ln_own :: "nat \<rightharpoonup> nat"
  ln_frames :: "nat \<rightharpoonup> resource"
  ln_pending :: "nat set"
  ln_bad :: bool

definition open_resource :: "nat \<Rightarrow> launch_alloc \<Rightarrow> launcher \<Rightarrow> resource \<times> launcher" where
  "open_resource i al s = (case al of
       Use_Resource mr \<Rightarrow> (Given mr, s)
     | Use_Allocator a \<Rightarrow> (Own i, s\<lparr>ln_own := (ln_own s)(i \<mapsto> a)\<rparr>))"

definition close_resource :: "nat \<Rightarrow> launcher \<Rightarrow> launcher" where
  "close_resource i s = s\<lparr>ln_own := (ln_own s)(i := None)\<rparr>"

text \<open>A coroutine frame is made from the thread's current allocator and goes back to the one in its trailer.\<close>

definition make_task :: "nat \<Rightarrow> launcher \<Rightarrow> launcher" where
  "make_task i s = (case ln_tls s of
       None \<Rightarrow> s\<lparr>ln_frames := (ln_frames s)(i \<mapsto> Given 0)\<rparr>
     | Some r \<Rightarrow> s\<lparr>ln_frames := (ln_frames s)(i \<mapsto> r)\<rparr>)"

definition resource_alive :: "resource \<Rightarrow> launcher \<Rightarrow> bool" where
  "resource_alive r s = (case r of Given n \<Rightarrow> True | Own i \<Rightarrow> ln_own s i \<noteq> None)"

definition free_task :: "nat \<Rightarrow> launcher \<Rightarrow> launcher" where
  "free_task i s = (case ln_frames s i of
       None \<Rightarrow> s\<lparr>ln_bad := True\<rparr>
     | Some r \<Rightarrow> s\<lparr>ln_frames := (ln_frames s)(i := None), ln_bad := (ln_bad s \<or> \<not> resource_alive r s)\<rparr>)"

text \<open>
  \<^verbatim>\<open>run_async(...)(task)\<close>: the constructor makes the trampoline with its resource and installs it; evaluating
  the task may throw, the executor may refuse the task by throwing, or it takes it and \<^verbatim>\<open>next.resume()\<close> leaves
  the thread with any allocator \<open>x\<close>. The destructor destroys a trampoline that was not handed over, its promise
  destroying the task before its resource, and restores the allocator.
\<close>

datatype launch_end = Argument_Throws | Executor_Throws | Launched "resource option"

definition async_construct :: "nat \<Rightarrow> launch_alloc \<Rightarrow> launcher \<Rightarrow> launcher" where
  "async_construct i al s = (let (r, s) = open_resource i al s in s\<lparr>ln_tls := Some r\<rparr>)"

definition async_destruct :: "nat \<Rightarrow> bool \<Rightarrow> bool \<Rightarrow> resource option \<Rightarrow> launcher \<Rightarrow> launcher" where
  "async_destruct i has_trampoline has_task saved s =
     (let s = (if has_trampoline then close_resource i (if has_task then free_task i s else s) else s)
      in s\<lparr>ln_tls := saved\<rparr>)"

definition run_async_call :: "launch_alloc \<Rightarrow> launch_end \<Rightarrow> launcher \<Rightarrow> launcher" where
  "run_async_call al e s =
     (let i = ln_next s; saved = ln_tls s;
          s = async_construct i al (s\<lparr>ln_next := i + 1\<rparr>)
      in case e of
           Argument_Throws \<Rightarrow> async_destruct i True False saved s
         | Executor_Throws \<Rightarrow> async_destruct i True True saved (make_task i s)
         | Launched x \<Rightarrow>
             async_destruct i False False saved
               ((make_task i s)\<lparr>ln_tls := x, ln_pending := insert i (ln_pending s)\<rparr>))"

text \<open>
  \<^verbatim>\<open>co_await run(...)(task)\<close> with an allocator: the wrapper installs its resource, its call operator puts the
  caller's allocator back before the awaitable is made, and its destructor does so only when the argument threw.
  Awaitable and wrapper live until the end of the full expression.
\<close>

definition run_construct :: "nat \<Rightarrow> launch_alloc option \<Rightarrow> launcher \<Rightarrow> launcher" where
  "run_construct i al s = (case al of
       None \<Rightarrow> s
     | Some al \<Rightarrow> (let (r, s) = open_resource i al s in s\<lparr>ln_tls := Some r\<rparr>))"

definition run_destruct :: "nat \<Rightarrow> launch_alloc option \<Rightarrow> bool \<Rightarrow> resource option \<Rightarrow> launcher \<Rightarrow> launcher" where
  "run_destruct i al restored saved s = (case al of
       None \<Rightarrow> s
     | Some _ \<Rightarrow> close_resource i (if restored then s else s\<lparr>ln_tls := saved\<rparr>))"

definition run_call :: "nat \<Rightarrow> launch_alloc option \<Rightarrow> resource option \<Rightarrow> launcher \<Rightarrow> launcher" where
  "run_call i al saved s =
     (let s = make_task i s
      in s\<lparr>ln_tls := (if al = None then ln_tls s else saved), ln_pending := insert i (ln_pending s)\<rparr>)"

definition run_expression :: "launch_alloc option \<Rightarrow> bool \<Rightarrow> launcher \<Rightarrow> launcher" where
  "run_expression al throws s =
     (let i = ln_next s; saved = ln_tls s;
          s = run_construct i al (s\<lparr>ln_next := i + 1\<rparr>)
      in if throws then run_destruct i al False saved s else run_call i al saved s)"

text \<open>
  A launch ends: the trampoline's body, or the promise's destructor when the trampoline is destroyed instead,
  destroys the task and then goes itself with its resource; the end of the full expression destroys the
  awaitable with the task and then the wrapper, whose allocator was restored before.
\<close>

definition launch_finish :: "nat \<Rightarrow> launcher \<Rightarrow> launcher" where
  "launch_finish i s = (close_resource i (free_task i s))\<lparr>ln_pending := ln_pending s - {i}\<rparr>"

inductive launch_step :: "launcher \<Rightarrow> launcher \<Rightarrow> bool" where
  async: "launch_step s (run_async_call al e s)"
| run: "launch_step s (run_expression (Some al) throws s)"
| finish: "i \<in> ln_pending s \<Longrightarrow> launch_step s (launch_finish i s)"
| resume: "launch_step s (s\<lparr>ln_tls := x\<rparr>)"

definition launch_init :: launcher where
  "launch_init = \<lparr>ln_tls = None, ln_next = 0, ln_own = Map.empty, ln_frames = Map.empty, ln_pending = {}, ln_bad = False\<rparr>"

definition launch_inv :: "launcher \<Rightarrow> bool" where
  "launch_inv s \<longleftrightarrow> \<not> ln_bad s \<and> dom (ln_frames s) = ln_pending s \<and> (\<forall>i \<in> ln_pending s. i < ln_next s)
     \<and> (\<forall>i j. ln_frames s i = Some (Own j) \<longrightarrow> j = i)
     \<and> dom (ln_own s) = {i. ln_frames s i = Some (Own i)}"

lemmas launch_defs = open_resource_def close_resource_def make_task_def free_task_def resource_alive_def
  async_construct_def async_destruct_def run_async_call_def run_construct_def run_destruct_def run_call_def
  run_expression_def launch_finish_def Let_def

lemma fresh_launch: "launch_inv s \<Longrightarrow> ln_frames s (ln_next s) = None \<and> ln_own s (ln_next s) = None \<and> ln_next s \<notin> ln_pending s"
  by (force simp: launch_inv_def domIff)

lemma refused_launch:
  assumes "launch_inv s" and "e = Argument_Throws \<or> e = Executor_Throws"
  shows "run_async_call al e s = s\<lparr>ln_next := ln_next s + 1\<rparr>"
  using fresh_launch [OF assms(1)] assms
  by (cases al; cases s) (auto simp: launch_defs launch_inv_def fun_upd_idem)

lemma refused_run: "launch_inv s \<Longrightarrow> run_expression (Some al) True s = s\<lparr>ln_next := ln_next s + 1\<rparr>"
  using fresh_launch [of s] by (cases al; cases s) (auto simp: launch_defs fun_upd_idem)

definition launched :: "launch_alloc \<Rightarrow> launcher \<Rightarrow> launcher" where
  "launched al s = (let i = ln_next s in s\<lparr>ln_next := i + 1, ln_pending := insert i (ln_pending s),
     ln_own := (case al of Use_Resource mr \<Rightarrow> ln_own s | Use_Allocator a \<Rightarrow> (ln_own s)(i \<mapsto> a)),
     ln_frames := (ln_frames s)(i \<mapsto> (case al of Use_Resource mr \<Rightarrow> Given mr | Use_Allocator a \<Rightarrow> Own i))\<rparr>)"

lemma accepted_launch: "run_async_call al (Launched x) s = launched al s"
  by (cases al; cases s) (simp_all add: launch_defs launched_def)

lemma accepted_run: "run_expression (Some al) False s = launched al s"
  by (cases al; cases s) (simp_all add: launch_defs launched_def)

lemma next_inv: "launch_inv s \<Longrightarrow> launch_inv (s\<lparr>ln_next := Suc (ln_next s)\<rparr>)"
  by (auto simp: launch_inv_def less_Suc_eq)

lemma launched_inv:
  assumes "launch_inv s"
  shows "launch_inv (launched al s)"
  using fresh_launch [OF assms] assms
  by (cases al) (auto simp: launch_inv_def launched_def Let_def less_Suc_eq split: if_splits)

lemma finish_inv:
  assumes "launch_inv s" and "i \<in> ln_pending s"
  shows "launch_inv (launch_finish i s)"
proof -
  obtain r where r: "ln_frames s i = Some r" using assms unfolding launch_inv_def by (metis domD)
  then have "j = i \<and> i \<in> dom (ln_own s)" if "r = Own j" for j
    using assms that unfolding launch_inv_def by auto
  then have "resource_alive r s" by (cases r) (auto simp: resource_alive_def)
  then show ?thesis
    using assms r by (auto simp: launch_inv_def launch_finish_def close_resource_def free_task_def)
qed

lemma launch_step_inv: "launch_step s s' \<Longrightarrow> launch_inv s \<Longrightarrow> launch_inv s'"
proof (induction rule: launch_step.induct)
  case (async s al e)
  then show ?case
    by (cases e) (simp_all add: refused_launch accepted_launch next_inv launched_inv)
next
  case (run s al throws)
  then show ?case
    by (cases throws) (simp_all add: refused_run accepted_run next_inv launched_inv)
next
  case (resume s x)
  then show ?case by (simp add: launch_inv_def)
qed (rule finish_inv)

lemma launch_reach_inv: "launch_step\<^sup>*\<^sup>* launch_init s \<Longrightarrow> launch_inv s"
proof (induction rule: rtranclp_induct)
  case base
  show ?case by (simp add: launch_inv_def launch_init_def)
qed (rule launch_step_inv)

text \<open>
  C20. Launching with \<^verbatim>\<open>run_async\<close> and \<^verbatim>\<open>run\<close>, any number of launches in flight, refused by a throwing argument or
  executor, or ended in any order: no task frame is freed twice or into a resource that is gone, the frame of
  a launched task comes from the resource or allocator the launch was given, and a refused launch leaves nothing
  behind. Either expression leaves the thread's frame allocator as it found it, whatever running the task did to
  it, and when no launch is in flight every frame and every resource of a trampoline or wrapper is gone.
\<close>
theorem launch_frames_safe:
  assumes "launch_step\<^sup>*\<^sup>* launch_init s"
  shows "\<not> ln_bad s \<and> dom (ln_frames s) = ln_pending s \<and> dom (ln_own s) \<subseteq> ln_pending s
    \<and> ln_tls (run_async_call al e s) = ln_tls s \<and> ln_tls (run_expression (Some al) throws s) = ln_tls s
    \<and> (e = Argument_Throws \<or> e = Executor_Throws \<longrightarrow> run_async_call al e s = s\<lparr>ln_next := ln_next s + 1\<rparr>)
    \<and> run_expression (Some al) True s = s\<lparr>ln_next := ln_next s + 1\<rparr>
    \<and> run_async_call al (Launched x) s = launched al s \<and> run_expression (Some al) False s = launched al s"
proof -
  have inv: "launch_inv s" using assms by (rule launch_reach_inv)
  have tls: "ln_tls (launched al s) = ln_tls s" by (simp add: launched_def Let_def)
  have "ln_tls (run_async_call al e s) = ln_tls s"
    by (cases e) (simp_all add: refused_launch [OF inv] accepted_launch tls)
  moreover have "ln_tls (run_expression (Some al) throws s) = ln_tls s"
    by (cases throws) (simp_all add: refused_run [OF inv] accepted_run tls)
  ultimately show ?thesis
    using inv refused_launch [OF inv] refused_run [OF inv] accepted_launch accepted_run
    by (auto simp: launch_inv_def)
qed

theorem launch_frames_safe_witness:
  "\<not> ln_bad (launch_finish 0 (run_async_call (Use_Allocator 7) (Launched (Some (Given 3))) launch_init))
   \<and> ln_frames (run_async_call (Use_Allocator 7) (Launched (Some (Given 3))) launch_init) = [0 \<mapsto> Own 0]
   \<and> ln_own (launch_finish 0 (run_async_call (Use_Allocator 7) (Launched (Some (Given 3))) launch_init)) = Map.empty"
proof -
  let ?s = "run_async_call (Use_Allocator 7) (Launched (Some (Given 3))) launch_init"
  have "launch_step ?s (launch_finish 0 ?s)"
    by (rule launch_step.finish) (simp add: launch_defs launch_init_def)
  then have "launch_step\<^sup>*\<^sup>* launch_init (launch_finish 0 ?s)"
    using launch_step.async by (meson converse_rtranclp_into_rtranclp rtranclp.rtrancl_refl)
  from launch_frames_safe [OF this, of "Use_Resource 0" Argument_Throws False None] show ?thesis
    by (simp add: launch_defs launch_init_def)
qed

section \<open>Unhandled exceptions\<close>

text \<open>The task started through a wrapper; \<open>r\<close> names the resource of the launch.\<close>

definition wrapper_start :: "async_wrapper \<Rightarrow> nat \<Rightarrow> task_kind \<Rightarrow> 'v coro \<Rightarrow> (nat \<Rightarrow> bool) \<Rightarrow> bool \<Rightarrow> 'v machine" where
  "wrapper_start w r kind body stop inline = run_async_start (aw_handlers w) (aw_token w) r kind body stop inline"

definition overloads :: "exec_ctx \<Rightarrow> nat \<Rightarrow> nat \<Rightarrow> handler_args \<Rightarrow> async_wrapper set" where
  "overloads ctx st a hs = {run_async_ex ctx hs, run_async_token ctx st hs, run_async_resource a hs,
     run_async_token_resource st a hs, run_async_alloc a hs, run_async_token_alloc st a hs}"

lemmas overload_defs = overloads_def run_async_ex_def run_async_token_def run_async_resource_def
  run_async_token_resource_def run_async_alloc_def run_async_token_alloc_def

lemma deliver_terminates:
  "snd (deliver (handlers_for hs) r)
     \<longleftrightarrow> (\<exists>e. r = Inl e \<and> e \<noteq> stop_requested_exception) \<and> (hs = No_Handlers \<or> hs = One_Handler False)"
  by (cases r; cases hs) (auto simp: deliver_def default_handler_ep_def)

lemma finished_delivers:
  assumes "co_run res (run_async_start hs token mr kind b stop inline) s" and "\<not> mc_trampoline s"
  shows "(mc_log s, mc_terminated s) = deliver hs (co_start res stop b \<lparr>ac_token = token, ac_allocator = mr\<rparr> kind)"
  using co_run_sim [OF assms(1)] assms(2) sim_alive by fastforce

text \<open>
  When a launch ends the program. Whichever overload of \<^verbatim>\<open>run_async\<close> started it, a finished task has made the
  program terminate exactly when its result is an exception other than the one that reports a stop request and
  no handler that takes exceptions was given: with no handlers, or with a single one that cannot be called with an
  exception. In every other case exactly the handlers that the result asks for were called.
\<close>
theorem run_async_terminates_iff:
  assumes "w \<in> overloads ctx st a hs" and "co_run res (wrapper_start w r kind b stop inline) s" and "\<not> mc_trampoline s"
  shows "(mc_terminated s \<longleftrightarrow>
      (\<exists>e. co_start res stop b \<lparr>ac_token = aw_token w, ac_allocator = r\<rparr> kind = Inl e \<and> e \<noteq> stop_requested_exception)
      \<and> (hs = No_Handlers \<or> hs = One_Handler False))
    \<and> mc_log s = fst (deliver (handlers_for hs) (co_start res stop b \<lparr>ac_token = aw_token w, ac_allocator = r\<rparr> kind))"
proof -
  have "aw_handlers w = handlers_for hs" using assms(1) by (auto simp: overload_defs)
  then have "(mc_log s, mc_terminated s)
      = deliver (handlers_for hs) (co_start res stop b \<lparr>ac_token = aw_token w, ac_allocator = r\<rparr> kind)"
    using finished_delivers assms(2,3) by (metis wrapper_start_def)
  then show ?thesis using deliver_terminates by (metis fst_conv snd_conv)
qed

theorem run_async_terminates_iff_witness:
  "\<exists>s. co_run (\<lambda>_. Inr (0 :: nat)) (wrapper_start (run_async_resource 4 No_Handlers) 4 Task (Co_Throw bad_alloc) (\<lambda>_. False) True) s
     \<and> \<not> mc_trampoline s \<and> mc_terminated s \<and> mc_log s = []"
proof -
  let ?w = "run_async_resource 4 No_Handlers"
  let ?s = "wrapper_start ?w 4 Task (Co_Throw bad_alloc) (\<lambda>_. False) True :: nat machine"
  let ?s1 = "initial_resume 0 (the (mc_frames ?s 0)) (Co_Throw bad_alloc) ?s"
  let ?s2 = "task_final_suspend 0 (task_unhandled_exception bad_alloc (the (mc_frames ?s1 0))) ?s1"
  note defs = wrapper_start_def run_async_start_def initial_resume_def enter_def put_frame_def set_environment_def
    set_continuation_def new_frame_def quits_def overload_defs
  have 1: "co_run (\<lambda>_. Inr 0) ?s ?s1" by (rule co_run.step [OF co_run.start co_step.begins]) (simp_all add: defs)
  have 2: "co_run (\<lambda>_. Inr 0) ?s ?s2" by (rule co_run.step [OF 1 co_step.throws]) (simp_all add: defs)
  have 3: "co_run (\<lambda>_. Inr 0) ?s (trampoline_body ?s2)"
    by (rule co_run.step [OF 2 co_step.trampoline])
      (simp add: defs task_final_suspend_def task_unhandled_exception_def transfer_def)
  have 4: "\<not> mc_trampoline (trampoline_body ?s2)"
    by (simp add: trampoline_body_def Let_def defs task_final_suspend_def task_unhandled_exception_def
        split: option.split prod.split)
  have "?w \<in> overloads ctx 0 4 No_Handlers" for ctx by (simp add: overloads_def)
  from run_async_terminates_iff [OF this 3 4] 3 4 show ?thesis
    by (intro exI [of _ "trampoline_body ?s2"]) (simp add: co_start_def quits_def deliver_def default_handler_ep_def)
qed

end
