(* ===== verification/Executors.thy ===== *)
theory Executors
  imports Prelude
begin

text \<open>
  The type-erased executors: \<^verbatim>\<open>ex/any_executor.hpp\<close>, which owns the executor it wraps through a
  \<^verbatim>\<open>std::shared_ptr\<close>, and \<^verbatim>\<open>ex/executor_ref.hpp\<close>, which points to an executor owned elsewhere and to the
  function table of its type. The executor objects of a program live in a heap; the static type of an
  executor is a value of \<open>ex_type\<close>, and a \<^verbatim>\<open>static_cast\<close> to another type than the object's own, a
  read of an object that is gone and a call through an empty wrapper are faults. The wrappers nest, and an
  \<^verbatim>\<open>any_executor\<close> may even be assigned a reference to itself, so the recursion of a call through them is a
  partial function; it ends where the objects can be ranked.
\<close>

subsection \<open>Executors and their static types\<close>

datatype ex_type = Pool_T | Blocking_T | Strand_T ex_type | Any_T | Ref_T

datatype ex_val =
    Pool_Ex nat
  | Blocking_Ex nat
  | Strand_Ex nat ex_val
  | Any_Ex "addr option"
  | Ref_Ex "(addr \<times> ex_type) option"

type_synonym ex_objs = "addr \<rightharpoonup> ex_val"

datatype fault = Bad_Cast | Dangling | Null_Call

fun type_id :: "ex_val \<Rightarrow> ex_type" where
  "type_id (Pool_Ex p) = Pool_T"
| "type_id (Blocking_Ex b) = Blocking_T"
| "type_id (Strand_Ex i e) = Strand_T (type_id e)"
| "type_id (Any_Ex p) = Any_T"
| "type_id (Ref_Ex r) = Ref_T"

fun is_strand_type :: "ex_type \<Rightarrow> bool" where
  "is_strand_type (Strand_T t) = True"
| "is_strand_type t = False"

definition load :: "ex_objs \<Rightarrow> addr \<Rightarrow> fault + ex_val" where
  "load h a = (case h a of None \<Rightarrow> Inl Dangling | Some v \<Rightarrow> Inr v)"

definition cast_load :: "ex_objs \<Rightarrow> ex_type \<Rightarrow> addr \<Rightarrow> fault + ex_val" where
  "cast_load h t a = (case load h a of Inl f \<Rightarrow> Inl f
     | Inr v \<Rightarrow> if type_id v = t then Inr v else Inl Bad_Cast)"

subsection \<open>Equality\<close>

text \<open>
  \<open>ex_eq\<close> is \<^verbatim>\<open>operator==\<close> of each executor type; both arguments have one static type, and arguments of two
  types are the bad cast that the type tests of the wrappers are there to prevent. For \<^verbatim>\<open>any_executor\<close> it
  reads the dynamic types of the two held executors first, for \<^verbatim>\<open>executor_ref\<close> it compares the addresses,
  then the function tables, and only then calls the function \<^verbatim>\<open>equals\<close> of the table.
\<close>

partial_function (option) ex_eq :: "ex_objs \<Rightarrow> ex_val \<Rightarrow> ex_val \<Rightarrow> (fault + bool) option" where
  "ex_eq h x y =
    (case x of
       Pool_Ex p \<Rightarrow> (case y of Pool_Ex q \<Rightarrow> Some (Inr (p = q)) | _ \<Rightarrow> Some (Inl Bad_Cast))
     | Blocking_Ex b \<Rightarrow> (case y of Blocking_Ex c \<Rightarrow> Some (Inr (b = c)) | _ \<Rightarrow> Some (Inl Bad_Cast))
     | Strand_Ex i e \<Rightarrow> (case y of Strand_Ex j f \<Rightarrow> Some (Inr (i = j)) | _ \<Rightarrow> Some (Inl Bad_Cast))
     | Any_Ex p \<Rightarrow> (case y of
           Any_Ex q \<Rightarrow>
             (case p of
                None \<Rightarrow> Some (Inr (q = None))
              | Some a \<Rightarrow> (case q of
                    None \<Rightarrow> Some (Inr False)
                  | Some b \<Rightarrow> (case load h a of
                        Inl f \<Rightarrow> Some (Inl f)
                      | Inr v \<Rightarrow> (case load h b of
                            Inl f \<Rightarrow> Some (Inl f)
                          | Inr w \<Rightarrow> if type_id v \<noteq> type_id w then Some (Inr False)
                                    else ex_eq h v w))))
         | _ \<Rightarrow> Some (Inl Bad_Cast))
     | Ref_Ex r \<Rightarrow> (case y of
           Ref_Ex s \<Rightarrow>
             if map_option fst r = map_option fst s then Some (Inr True)
             else if map_option snd r \<noteq> map_option snd s then Some (Inr False)
             else (case r of
                None \<Rightarrow> Some (Inl Null_Call)
              | Some (a, t) \<Rightarrow> (case s of
                    None \<Rightarrow> Some (Inl Null_Call)
                  | Some (b, u) \<Rightarrow> (case cast_load h t a of
                        Inl f \<Rightarrow> Some (Inl f)
                      | Inr v \<Rightarrow> (case cast_load h t b of
                            Inl f \<Rightarrow> Some (Inl f)
                          | Inr w \<Rightarrow> ex_eq h v w))))
         | _ \<Rightarrow> Some (Inl Bad_Cast)))"

subsection \<open>The operations of an executor\<close>

text \<open>
  A call ends at a concrete executor: a thread pool or a blocking context that performs the operation itself,
  or a strand, which queues the continuation in its own serialization state and keeps its inner executor to
  run the queue on. \<^verbatim>\<open>context\<close> and the two work notifications pass through a strand to the inner executor.
\<close>

datatype ex_op = Op_Context | Op_Started | Op_Finished | Op_Post nat | Op_Dispatch nat

datatype ex_effect =
    On_Pool nat ex_op
  | On_Blocking nat ex_op
  | On_Strand nat ex_val ex_op

fun queues :: "ex_op \<Rightarrow> bool" where
  "queues (Op_Post c) = True"
| "queues (Op_Dispatch c) = True"
| "queues o' = False"

partial_function (option) ex_call :: "ex_objs \<Rightarrow> ex_op \<Rightarrow> ex_val \<Rightarrow> (fault + ex_effect) option" where
  "ex_call h o' x =
    (case x of
       Pool_Ex p \<Rightarrow> Some (Inr (On_Pool p o'))
     | Blocking_Ex b \<Rightarrow> Some (Inr (On_Blocking b o'))
     | Strand_Ex i e \<Rightarrow> if queues o' then Some (Inr (On_Strand i e o')) else ex_call h o' e
     | Any_Ex p \<Rightarrow> (case p of
           None \<Rightarrow> Some (Inl Null_Call)
         | Some a \<Rightarrow> (case load h a of Inl f \<Rightarrow> Some (Inl f) | Inr v \<Rightarrow> ex_call h o' v))
     | Ref_Ex r \<Rightarrow> (case r of
           None \<Rightarrow> Some (Inl Null_Call)
         | Some (a, t) \<Rightarrow> (case cast_load h t a of
             Inl f \<Rightarrow> Some (Inl f) | Inr v \<Rightarrow> ex_call h o' v)))"

text \<open>\<^verbatim>\<open>target<Ex>()\<close>: the address of the held executor when its type is the requested one.\<close>

definition any_target :: "ex_objs \<Rightarrow> ex_type \<Rightarrow> addr option \<Rightarrow> fault + addr option" where
  "any_target h t p = (case p of
       None \<Rightarrow> Inr None
     | Some a \<Rightarrow> (case load h a of
           Inl f \<Rightarrow> Inl f
         | Inr v \<Rightarrow> Inr (if type_id v \<noteq> t then None else Some a)))"

definition ref_target :: "ex_type \<Rightarrow> (addr \<times> ex_type) option \<Rightarrow> addr option" where
  "ref_target t r = (case r of
       None \<Rightarrow> None
     | Some (a, u) \<Rightarrow> if u = t then Some a else None)"

text \<open>The constructor of \<^verbatim>\<open>executor_ref\<close> from an executor: its address and the table of its type.\<close>

definition executor_ref :: "ex_objs \<Rightarrow> addr \<Rightarrow> fault + ex_val" where
  "executor_ref h a = (case load h a of
       Inl f \<Rightarrow> Inl f
     | Inr v \<Rightarrow> if type_id v = Ref_T then Inr v else Inr (Ref_Ex (Some (a, type_id v))))"

subsection \<open>Conformance\<close>

text \<open>
  A value conforms to the heap when what it points to is there with the type it was wrapped with, and when
  the constraints of the constructors hold: a wrapper never wraps a wrapper of its own kind, and neither an
  \<^verbatim>\<open>any_executor\<close> nor a strand wraps a strand.
\<close>

fun conf :: "ex_objs \<Rightarrow> ex_val \<Rightarrow> bool" where
  "conf h (Pool_Ex p) = True"
| "conf h (Blocking_Ex b) = True"
| "conf h (Strand_Ex i e) = (\<not> is_strand_type (type_id e) \<and> conf h e)"
| "conf h (Any_Ex p) = (case p of None \<Rightarrow> True
     | Some a \<Rightarrow> (case h a of None \<Rightarrow> False | Some v \<Rightarrow> type_id v \<noteq> Any_T \<and> \<not> is_strand_type (type_id v)))"
| "conf h (Ref_Ex r) = (case r of None \<Rightarrow> True
     | Some (a, t) \<Rightarrow> (case h a of None \<Rightarrow> False | Some v \<Rightarrow> type_id v = t \<and> t \<noteq> Ref_T))"

definition heap_conf :: "ex_objs \<Rightarrow> bool" where
  "heap_conf h \<longleftrightarrow> (\<forall>v \<in> ran h. conf h v)"

fun points_to :: "ex_val \<Rightarrow> addr option" where
  "points_to (Strand_Ex i e) = points_to e"
| "points_to (Any_Ex p) = p"
| "points_to (Ref_Ex r) = map_option fst r"
| "points_to x = None"

definition ranked :: "(addr \<Rightarrow> nat) \<Rightarrow> ex_objs \<Rightarrow> bool" where
  "ranked rk h \<longleftrightarrow> (\<forall>a v b. h a = Some v \<longrightarrow> points_to v = Some b \<longrightarrow> rk b < rk a)"

definition depth :: "(addr \<Rightarrow> nat) \<Rightarrow> ex_val \<Rightarrow> nat" where
  "depth rk x = (case points_to x of None \<Rightarrow> 0 | Some a \<Rightarrow> Suc (rk a))"

lemma heap_confD: "heap_conf h \<Longrightarrow> h a = Some v \<Longrightarrow> conf h v"
  by (auto simp: heap_conf_def ran_def)

lemma depth_object: "ranked rk h \<Longrightarrow> h a = Some v \<Longrightarrow> depth rk v \<le> rk a"
  by (auto simp: depth_def ranked_def Suc_le_eq split: option.splits)

lemmas wrapper_loads = load_def cast_load_def

subsection \<open>What a value stands for\<close>

text \<open>
  The abstract view of an executor: the wrappers with their contents in place of addresses. \<open>denotes\<close>
  follows the pointers of a value.
\<close>

datatype ex_spec =
    Sp_Pool nat | Sp_Blocking nat | Sp_Strand nat ex_type | Sp_Any "ex_spec option" | Sp_Ref "ex_spec option"

inductive denotes :: "ex_objs \<Rightarrow> ex_val \<Rightarrow> ex_spec \<Rightarrow> bool" for h where
  pool: "denotes h (Pool_Ex p) (Sp_Pool p)"
| blocking: "denotes h (Blocking_Ex b) (Sp_Blocking b)"
| strand: "denotes h (Strand_Ex i e) (Sp_Strand i (type_id e))"
| any_none: "denotes h (Any_Ex None) (Sp_Any None)"
| any_some: "h a = Some v \<Longrightarrow> denotes h v d \<Longrightarrow> denotes h (Any_Ex (Some a)) (Sp_Any (Some d))"
| ref_none: "denotes h (Ref_Ex None) (Sp_Ref None)"
| ref_some: "h a = Some v \<Longrightarrow> type_id v = t \<Longrightarrow> denotes h v d
    \<Longrightarrow> denotes h (Ref_Ex (Some (a, t))) (Sp_Ref (Some d))"

inductive_cases denotes_poolE [elim!]: "denotes h (Pool_Ex p) d"
inductive_cases denotes_blockingE [elim!]: "denotes h (Blocking_Ex p) d"
inductive_cases denotes_strandE [elim!]: "denotes h (Strand_Ex i e) d"
inductive_cases denotes_anyE [elim!]: "denotes h (Any_Ex p) d"
inductive_cases denotes_refE [elim!]: "denotes h (Ref_Ex r) d"

fun spec_type :: "ex_spec \<Rightarrow> ex_type" where
  "spec_type (Sp_Pool p) = Pool_T"
| "spec_type (Sp_Blocking b) = Blocking_T"
| "spec_type (Sp_Strand i t) = Strand_T t"
| "spec_type (Sp_Any d) = Any_T"
| "spec_type (Sp_Ref d) = Ref_T"

lemma denotes_type: "denotes h x d \<Longrightarrow> spec_type d = type_id x"
  by (induction rule: denotes.induct) auto

lemma denotes_unique: "denotes h x d \<Longrightarrow> denotes h x e \<Longrightarrow> d = e"
  by (induction arbitrary: e rule: denotes.induct) (fastforce+)

lemma denotes_same_type: "denotes h x d \<Longrightarrow> denotes h y d \<Longrightarrow> type_id x = type_id y"
  by (metis denotes_type)

lemma denotes_total:
  assumes "heap_conf h" and "ranked rk h" and "conf h x"
  shows "\<exists>d. denotes h x d"
  using assms(3)
proof (induction "depth rk x" arbitrary: x rule: less_induct)
  case less
  have obj: "\<exists>d. denotes h v d" if "points_to x = Some a" and "h a = Some v" for a v
    using that less.hyps [of v] depth_object [OF assms(2) that(2)] heap_confD [OF assms(1) that(2)]
    by (simp add: depth_def)
  show ?case
    using less.prems obj
    by (cases x; fastforce intro: denotes.intros split: option.splits prod.splits)
qed

lemma same_type_cases:
  assumes "type_id x = type_id y"
  obtains (pool) p q where "x = Pool_Ex p" "y = Pool_Ex q"
    | (blocking) b c where "x = Blocking_Ex b" "y = Blocking_Ex c"
    | (strand) i e j f where "x = Strand_Ex i e" "y = Strand_Ex j f" "type_id e = type_id f"
    | (any) p q where "x = Any_Ex p" "y = Any_Ex q"
    | (ref) r s where "x = Ref_Ex r" "y = Ref_Ex s"
  using assms by (cases x; cases y) auto

lemma ex_eq_spec:
  assumes "denotes h x d" and "denotes h y e" and "type_id x = type_id y"
  shows "ex_eq h x y = Some (Inr (d = e))"
  using assms
proof (induction arbitrary: y e rule: denotes.induct)
  case (any_some a v d)
  then show ?case
    by (cases y) (auto simp: ex_eq.simps [of h "Any_Ex p" for p] wrapper_loads dest: denotes_same_type)
next
  case (ref_some a v t d)
  obtain s where y: "y = Ref_Ex s" using ref_some.prems by (cases y) auto
  show ?case
  proof (cases s)
    case None
    then show ?thesis using ref_some.prems y by (auto simp: ex_eq.simps [of h "Ref_Ex p" for p])
  next
    case (Some bu)
    obtain b u where bu: "bu = (b, u)" by (cases bu)
    obtain w e' where w: "h b = Some w" "type_id w = u" "denotes h w e'" "e = Sp_Ref (Some e')"
      using ref_some.prems y Some bu by auto
    have "a = b \<Longrightarrow> d = e'" using w ref_some.hyps denotes_unique by auto
    moreover have "t \<noteq> u \<Longrightarrow> d \<noteq> e'" using w ref_some.hyps denotes_same_type by metis
    ultimately show ?thesis
      using w ref_some.hyps ref_some.IH [OF w(3)] y Some bu
      by (simp add: ex_eq.simps [of h "Ref_Ex p" for p] wrapper_loads)
  qed
qed (erule same_type_cases; auto simp: ex_eq.simps)+

text \<open>
  C26. Equality of executors. On a heap whose objects conform and do not refer to themselves, comparing two
  executors of one static type, wrapped any number of times, always returns and never faults: it never casts
  to a wrong type and never calls through an empty wrapper. Its answer is that of the values themselves: two
  \<^verbatim>\<open>any_executor\<close>s or \<^verbatim>\<open>executor_ref\<close>s are equal exactly when both are empty or both wrap executors of
  the same type that are equal. Being the equality of what the values stand for, it is an equivalence.
\<close>
theorem executor_equality:
  assumes "heap_conf h" and "ranked rk h" and "conf h x" and "conf h y" and "conf h z"
    and "type_id x = type_id y" and "type_id y = type_id z"
  shows "(\<exists>d e. denotes h x d \<and> denotes h y e \<and> ex_eq h x y = Some (Inr (d = e)))
    \<and> ex_eq h x x = Some (Inr True) \<and> ex_eq h x y = ex_eq h y x
    \<and> (ex_eq h x y = Some (Inr True) \<longrightarrow> ex_eq h y z = Some (Inr True) \<longrightarrow> ex_eq h x z = Some (Inr True))"
proof -
  obtain d e f where d: "denotes h x d" "denotes h y e" "denotes h z f"
    using assms denotes_total by metis
  show ?thesis
    using d ex_eq_spec [OF d(1) d(2)] ex_eq_spec [OF d(2) d(1)] ex_eq_spec [OF d(1) d(1)]
      ex_eq_spec [OF d(2) d(3)] ex_eq_spec [OF d(1) d(3)] assms
    by auto
qed

definition demo_heap :: ex_objs where
  "demo_heap = [0 \<mapsto> Pool_Ex 7, 1 \<mapsto> Any_Ex (Some 0), 2 \<mapsto> Pool_Ex 7, 3 \<mapsto> Any_Ex (Some 2),
     4 \<mapsto> Strand_Ex 9 (Any_Ex (Some 0)), 5 \<mapsto> Pool_Ex 8]"

lemma demo_conf: "heap_conf demo_heap"
  by (auto simp: heap_conf_def demo_heap_def ran_def split: if_splits)

lemma demo_ranked: "ranked (\<lambda>a. a mod 2 + a div 4) demo_heap"
  by (auto simp: ranked_def demo_heap_def split: if_splits)

lemmas demo_simps = demo_heap_def wrapper_loads

theorem executor_equality_witness:
  "ex_eq demo_heap (Ref_Ex (Some (1, Any_T))) (Ref_Ex (Some (3, Any_T))) = Some (Inr True)
   \<and> ex_eq demo_heap (Ref_Ex (Some (3, Any_T))) (Ref_Ex (Some (1, Any_T))) = Some (Inr True)
   \<and> ex_eq demo_heap (Ref_Ex (Some (1, Any_T))) (Ref_Ex (Some (4, Strand_T Any_T))) = Some (Inr False)"
proof -
  have "heap_conf demo_heap" "ranked (\<lambda>a. a mod 2 + a div 4) demo_heap"
    by (rule demo_conf, rule demo_ranked)
  note ths = executor_equality [OF this]
  have yes: "ex_eq demo_heap (Ref_Ex (Some (1, Any_T))) (Ref_Ex (Some (3, Any_T))) = Some (Inr True)"
    by (simp add: ex_eq.simps demo_simps)
  have no: "ex_eq demo_heap (Ref_Ex (Some (1, Any_T))) (Ref_Ex (Some (4, Strand_T Any_T))) = Some (Inr False)"
    by (simp add: ex_eq.simps demo_simps)
  show ?thesis
    using yes no ths [of "Ref_Ex (Some (1, Any_T))" "Ref_Ex (Some (3, Any_T))" "Ref_Ex (Some (1, Any_T))"]
    by (simp add: demo_simps)
qed

subsection \<open>Calls through wrappers\<close>

fun reach_end :: "ex_val \<Rightarrow> bool" where
  "reach_end (Any_Ex (Some a)) = False"
| "reach_end (Ref_Ex (Some r)) = False"
| "reach_end x = True"

inductive reaches :: "ex_objs \<Rightarrow> ex_val \<Rightarrow> ex_val \<Rightarrow> bool" for h where
  here: "reach_end x \<Longrightarrow> reaches h x x"
| through_any: "h a = Some v \<Longrightarrow> reaches h v w \<Longrightarrow> reaches h (Any_Ex (Some a)) w"
| through_ref: "h a = Some v \<Longrightarrow> type_id v = t \<Longrightarrow> reaches h v w \<Longrightarrow> reaches h (Ref_Ex (Some (a, t))) w"

lemma reaches_call: "reaches h x v \<Longrightarrow> ex_call h o' x = ex_call h o' v"
  by (induction rule: reaches.induct) (simp_all add: ex_call.simps [of h o' "Any_Ex p" for p]
      ex_call.simps [of h o' "Ref_Ex p" for p] wrapper_loads)

lemma reaches_end: "reaches h x v \<Longrightarrow> reach_end v"
  by (induction rule: reaches.induct)

lemma conf_reaches:
  assumes "heap_conf h" and "ranked rk h" and "conf h x"
  shows "\<exists>v. reaches h x v \<and> conf h v"
  using assms(3)
proof (induction "depth rk x" arbitrary: x rule: less_induct)
  case less
  have obj: "\<exists>w. reaches h v w \<and> conf h w" if "points_to x = Some a" and "h a = Some v" for a v
    using that less.hyps [of v] depth_object [OF assms(2) that(2)] heap_confD [OF assms(1) that(2)]
    by (simp add: depth_def)
  show ?case
  proof (cases "reach_end x")
    case True
    then show ?thesis using less.prems here by blast
  next
    case False
    then show ?thesis
      using less.prems obj
      by (cases x; fastforce intro: through_any through_ref split: option.splits prod.splits)
  qed
qed

fun end_call :: "ex_objs \<Rightarrow> ex_op \<Rightarrow> ex_val \<Rightarrow> fault + ex_effect \<Rightarrow> bool" where
  "end_call h o' (Pool_Ex p) r = (r = Inr (On_Pool p o'))"
| "end_call h o' (Blocking_Ex b) r = (r = Inr (On_Blocking b o'))"
| "end_call h o' (Strand_Ex i e) r = (if queues o' then r = Inr (On_Strand i e o') else ex_call h o' e = Some r)"
| "end_call h o' x r = (r = Inl Null_Call)"

definition call_rank :: "(addr \<Rightarrow> nat) \<Rightarrow> ex_val \<Rightarrow> nat" where
  "call_rank rk x = 2 * depth rk x + (if is_strand_type (type_id x) then 1 else 0)"

lemma call_rank_object:
  assumes "ranked rk h" and "h a = Some v" and "points_to x = Some a"
  shows "call_rank rk v < call_rank rk x"
  using depth_object [OF assms(1,2)] assms(3) by (simp add: call_rank_def depth_def)

lemma call_rank_inner: "\<not> is_strand_type (type_id e) \<Longrightarrow> call_rank rk e < call_rank rk (Strand_Ex i e)"
  by (simp add: call_rank_def depth_def)

lemma call_returns:
  assumes "heap_conf h" and "ranked rk h" and "conf h x"
  shows "\<exists>r. ex_call h o' x = Some r \<and> r \<noteq> Inl Bad_Cast \<and> r \<noteq> Inl Dangling"
  using assms(3)
proof (induction "call_rank rk x" arbitrary: x rule: less_induct)
  case less
  have obj: "\<exists>r. ex_call h o' v = Some r \<and> r \<noteq> Inl Bad_Cast \<and> r \<noteq> Inl Dangling"
    if "points_to x = Some a" and "h a = Some v" for a v
    using less.hyps [OF call_rank_object [OF assms(2) that(2,1)] heap_confD [OF assms(1) that(2)]] .
  show ?case
  proof (cases x)
    case (Strand_Ex i e)
    then have "\<exists>r. ex_call h o' e = Some r \<and> r \<noteq> Inl Bad_Cast \<and> r \<noteq> Inl Dangling"
      using less.hyps [of e] less.prems call_rank_inner by simp
    then show ?thesis by (simp add: Strand_Ex ex_call.simps [of h o' "Strand_Ex i e"])
  next
    case (Any_Ex p)
    then show ?thesis
      using less.prems obj by (auto simp: ex_call.simps [of h o' "Any_Ex p"] wrapper_loads split: option.splits)
  next
    case (Ref_Ex r)
    then show ?thesis
      using less.prems obj by (auto simp: ex_call.simps [of h o' "Ref_Ex r"] wrapper_loads split: option.splits)
  qed (simp_all add: ex_call.simps [of h o' "Pool_Ex p" for p] ex_call.simps [of h o' "Blocking_Ex p" for p])
qed

lemma end_call_result:
  assumes "reach_end v" and "ex_call h o' v = Some r"
  shows "end_call h o' v r"
  using assms by (cases v rule: reach_end.cases)
    (auto simp: ex_call.simps [of h o' "Pool_Ex p" for p] ex_call.simps [of h o' "Blocking_Ex p" for p]
      ex_call.simps [of h o' "Strand_Ex i e" for i e] ex_call.simps [of h o' "Any_Ex None"]
      ex_call.simps [of h o' "Ref_Ex None"])

text \<open>
  Calls through wrapped executors. On a heap whose objects conform and do not refer to themselves, every
  operation of an executor, wrapped any number of times, returns and never casts to a wrong type or reads a
  dead object. It has the effect of the same operation on the executor at the end of the wrappers: a thread
  pool or blocking context performs it, a strand queues \<^verbatim>\<open>post\<close> and \<^verbatim>\<open>dispatch\<close> itself and passes the
  rest to its inner executor, and only an empty wrapper at the end makes it a call on nothing.
\<close>
theorem executor_call_forwards:
  assumes "heap_conf h" and "ranked rk h" and "conf h x"
  shows "\<exists>v r. reaches h x v \<and> reach_end v \<and> ex_call h o' x = Some r \<and> ex_call h o' v = Some r
    \<and> end_call h o' v r \<and> r \<noteq> Inl Bad_Cast \<and> r \<noteq> Inl Dangling"
proof -
  obtain v where v: "reaches h x v" using conf_reaches [OF assms] by blast
  obtain r where r: "ex_call h o' x = Some r" "r \<noteq> Inl Bad_Cast" "r \<noteq> Inl Dangling"
    using call_returns [OF assms] by blast
  then show ?thesis
    using v reaches_call [OF v, of o'] reaches_end [OF v] end_call_result by metis
qed

theorem executor_call_forwards_witness:
  "(\<exists>v r. reaches demo_heap (Ref_Ex (Some (4, Strand_T Any_T))) v
     \<and> ex_call demo_heap (Op_Post 3) (Ref_Ex (Some (4, Strand_T Any_T))) = Some r
     \<and> end_call demo_heap (Op_Post 3) v r)
   \<and> ex_call demo_heap (Op_Post 3) (Ref_Ex (Some (4, Strand_T Any_T)))
     = Some (Inr (On_Strand 9 (Any_Ex (Some 0)) (Op_Post 3)))
   \<and> ex_call demo_heap Op_Started (Ref_Ex (Some (4, Strand_T Any_T))) = Some (Inr (On_Pool 7 Op_Started))"
proof -
  have "ex_call demo_heap (Op_Post 3) (Ref_Ex (Some (4, Strand_T Any_T)))
     = Some (Inr (On_Strand 9 (Any_Ex (Some 0)) (Op_Post 3)))"
    by (simp add: ex_call.simps demo_simps)
  moreover have "ex_call demo_heap Op_Started (Ref_Ex (Some (4, Strand_T Any_T)))
     = Some (Inr (On_Pool 7 Op_Started))"
    by (simp add: ex_call.simps demo_simps)
  moreover have "conf demo_heap (Ref_Ex (Some (4, Strand_T Any_T)))" by (simp add: demo_simps)
  ultimately show ?thesis
    using executor_call_forwards [OF demo_conf demo_ranked, of "Ref_Ex (Some (4, Strand_T Any_T))" "Op_Post 3"]
    by blast
qed

text \<open>
  An executor is backed by a thread pool when the pool is at the end of its wrappers and strands: \<^verbatim>\<open>context\<close> and
  the work notifications arrive there.
\<close>

inductive backed_by :: "ex_objs \<Rightarrow> ex_val \<Rightarrow> nat \<Rightarrow> bool" for h where
  pool: "backed_by h (Pool_Ex p) p"
| strand: "backed_by h e p \<Longrightarrow> backed_by h (Strand_Ex i e) p"
| any: "h a = Some v \<Longrightarrow> backed_by h v p \<Longrightarrow> backed_by h (Any_Ex (Some a)) p"
| ref: "h a = Some v \<Longrightarrow> type_id v = t \<Longrightarrow> backed_by h v p \<Longrightarrow> backed_by h (Ref_Ex (Some (a, t))) p"

lemma backed_by_call:
  assumes "backed_by h x p" and "\<not> queues o'"
  shows "ex_call h o' x = Some (Inr (On_Pool p o'))"
  using assms
  by (induction rule: backed_by.induct)
    (simp_all add: ex_call.simps [of h o' "Pool_Ex p" for p] ex_call.simps [of h o' "Strand_Ex i e" for i e]
      ex_call.simps [of h o' "Any_Ex p" for p] ex_call.simps [of h o' "Ref_Ex p" for p] wrapper_loads)

subsection \<open>Shared ownership\<close>

text \<open>
  The objects of a program change as it constructs, copies, assigns and destroys executors. \<open>blocks\<close> are the
  objects made by \<^verbatim>\<open>std::make_shared\<close> and \<open>uses\<close> their counts; \<open>holds\<close> is the block a value keeps alive. The
  steps that end the life of an object require that no \<^verbatim>\<open>executor_ref\<close> still points to it, which is what the
  documentation of \<^verbatim>\<open>executor_ref\<close> asks of its user.
\<close>

record ex_state =
  objs :: ex_objs
  blocks :: "addr set"
  uses :: "addr \<Rightarrow> nat"

fun holds :: "ex_val \<Rightarrow> addr option" where
  "holds (Strand_Ex i e) = holds e"
| "holds (Any_Ex p) = p"
| "holds x = None"

fun refers :: "ex_val \<Rightarrow> addr option" where
  "refers (Strand_Ex i e) = refers e"
| "refers (Ref_Ex r) = map_option fst r"
| "refers x = None"

definition ex_retain :: "addr option \<Rightarrow> ex_state \<Rightarrow> ex_state" where
  "ex_retain p s = (case p of None \<Rightarrow> s | Some a \<Rightarrow> s\<lparr>uses := (uses s)(a := uses s a + 1)\<rparr>)"

definition ex_release :: "addr option \<Rightarrow> ex_state \<Rightarrow> ex_state" where
  "ex_release p s = (case p of
       None \<Rightarrow> s
     | Some a \<Rightarrow>
         if uses s a = 1
         then s\<lparr>objs := (objs s)(a := None), blocks := blocks s - {a}, uses := (uses s)(a := 0)\<rparr>
         else s\<lparr>uses := (uses s)(a := uses s a - 1)\<rparr>)"

definition set_obj :: "addr \<Rightarrow> ex_val \<Rightarrow> ex_state \<Rightarrow> ex_state" where
  "set_obj x v s = s\<lparr>objs := (objs s)(x \<mapsto> v)\<rparr>"

text \<open>
  The constructors: from an executor (\<^verbatim>\<open>make_shared\<close> of the block \<open>a\<close>), from another executor object, and a
  wrapper-free or default-constructed one; then assignment and the destructor.
\<close>

definition any_make :: "addr \<Rightarrow> addr \<Rightarrow> ex_val \<Rightarrow> ex_state \<Rightarrow> ex_state" where
  "any_make x a v s = set_obj x (Any_Ex (Some a))
     (ex_retain (Some a) ((set_obj a v s)\<lparr>blocks := insert a (blocks s)\<rparr>))"

definition ex_copy :: "addr \<Rightarrow> ex_val \<Rightarrow> ex_state \<Rightarrow> ex_state" where
  "ex_copy x v s = set_obj x v (ex_retain (holds v) s)"

definition ex_assign :: "addr \<Rightarrow> ex_val \<Rightarrow> ex_state \<Rightarrow> ex_state" where
  "ex_assign x v s = (case objs s x of
       None \<Rightarrow> s
     | Some old \<Rightarrow> ex_release (holds old) (set_obj x v (ex_retain (holds v) s)))"

definition ex_destroy :: "addr \<Rightarrow> ex_state \<Rightarrow> ex_state" where
  "ex_destroy x s = (case objs s x of
       None \<Rightarrow> s
     | Some old \<Rightarrow> ex_release (holds old) (s\<lparr>objs := (objs s)(x := None)\<rparr>))"

text \<open>
  The steps of a program. \<open>keeps_referred\<close>: no object a step removes is still referred to afterwards, and an
  executor being destroyed is not referred to by any other object.
\<close>

definition unreferred :: "ex_objs \<Rightarrow> addr \<Rightarrow> bool" where
  "unreferred h x \<longleftrightarrow> (\<forall>v \<in> ran (h(x := None)). refers v \<noteq> Some x)"

definition keeps_referred :: "ex_state \<Rightarrow> ex_state \<Rightarrow> bool" where
  "keeps_referred s s' \<longleftrightarrow>
     (\<forall>a v. a \<in> dom (objs s) - dom (objs s') \<longrightarrow> v \<in> ran (objs s') \<longrightarrow> refers v \<noteq> Some a)"

definition storable :: "ex_state \<Rightarrow> ex_val \<Rightarrow> bool" where
  "storable s v \<longleftrightarrow> conf (objs s) v \<and> (\<forall>a. holds v = Some a \<longrightarrow> a \<in> blocks s)"

inductive ex_step :: "ex_state \<Rightarrow> ex_state \<Rightarrow> bool" where
  make: "objs s x = None \<Longrightarrow> objs s a = None \<Longrightarrow> x \<noteq> a \<Longrightarrow> storable s v \<Longrightarrow> type_id v \<noteq> Any_T
    \<Longrightarrow> \<not> is_strand_type (type_id v) \<Longrightarrow> ex_step s (any_make x a v s)"
| copy: "objs s x = None \<Longrightarrow> storable s v \<Longrightarrow> ex_step s (ex_copy x v s)"
| assign: "objs s x = Some old \<Longrightarrow> x \<notin> blocks s \<Longrightarrow> storable s v \<Longrightarrow> type_id v = type_id old
    \<Longrightarrow> keeps_referred s (ex_assign x v s) \<Longrightarrow> ex_step s (ex_assign x v s)"
| destroy: "objs s x = Some old \<Longrightarrow> x \<notin> blocks s \<Longrightarrow> unreferred (objs s) x \<Longrightarrow> keeps_referred s (ex_destroy x s)
    \<Longrightarrow> ex_step s (ex_destroy x s)"

definition ex_init :: ex_state where
  "ex_init = \<lparr>objs = Map.empty, blocks = {}, uses = (\<lambda>_. 0)\<rparr>"

definition block_owners :: "ex_objs \<Rightarrow> addr \<Rightarrow> addr set" where
  "block_owners h a = {x. \<exists>v. h x = Some v \<and> holds v = Some a}"

definition inv_with :: "addr option \<Rightarrow> ex_state \<Rightarrow> bool" where
  "inv_with p s \<longleftrightarrow> finite (dom (objs s)) \<and> heap_conf (objs s)
     \<and> (\<forall>a. uses s a = card (block_owners (objs s) a) + (if p = Some a then 1 else 0))
     \<and> (\<forall>x v a. objs s x = Some v \<longrightarrow> holds v = Some a \<longrightarrow> a \<in> blocks s)
     \<and> (\<forall>a \<in> blocks s. 0 < uses s a \<and> (\<exists>v. objs s a = Some v \<and> holds v = None))"

abbreviation ex_inv :: "ex_state \<Rightarrow> bool" where
  "ex_inv \<equiv> inv_with None"

lemma points_to_split: "points_to v = Some a \<longleftrightarrow> holds v = Some a \<or> refers v = Some a"
  by (induction v) auto

lemma conf_points:
  assumes "conf h v" and "\<And>a w. points_to v = Some a \<Longrightarrow> h a = Some w \<Longrightarrow> \<exists>w'. h' a = Some w' \<and> type_id w' = type_id w"
  shows "conf h' v"
  using assms by (induction v) (fastforce split: option.splits prod.splits)+

lemma owners_finite: "finite (dom h) \<Longrightarrow> finite (block_owners h a)"
  by (rule finite_subset [of _ "dom h"]) (auto simp: block_owners_def)

lemma owners_removed:
  assumes "finite (dom h)"
  shows "card (block_owners h a) = card (block_owners (h(x := None)) a) + (if \<exists>v. h x = Some v \<and> holds v = Some a then 1 else 0)"
proof -
  have minus: "block_owners (h(x := None)) a = block_owners h a - {x}" by (auto simp: block_owners_def)
  have mem: "x \<in> block_owners h a \<longleftrightarrow> (\<exists>v. h x = Some v \<and> holds v = Some a)" by (auto simp: block_owners_def)
  show ?thesis
    using card_Suc_Diff1 [OF owners_finite [OF assms], of x a]
    unfolding minus mem [symmetric] by (cases "x \<in> block_owners h a") auto
qed

lemma owners_stored:
  assumes "finite (dom h)"
  shows "card (block_owners (h(x \<mapsto> v)) a) = card (block_owners (h(x := None)) a) + (if holds v = Some a then 1 else 0)"
  using owners_removed [of "h(x \<mapsto> v)" a x] assms by simp

lemma heap_conf_stored:
  assumes "heap_conf h" and "conf h v" and "\<And>w. h x = Some w \<Longrightarrow> type_id v = type_id w"
  shows "heap_conf (h(x \<mapsto> v))"
proof -
  have "conf (h(x \<mapsto> v)) w" if "conf h w" for w
    using that by (rule conf_points) (use assms(3) in auto)
  then show ?thesis using assms by (auto simp: heap_conf_def ran_def)
qed

lemma heap_conf_removed:
  assumes "heap_conf h" and "\<And>v. v \<in> ran (h(x := None)) \<Longrightarrow> points_to v \<noteq> Some x"
  shows "heap_conf (h(x := None))"
proof -
  have "conf (h(x := None)) w" if w: "w \<in> ran (h(x := None))" for w
  proof (rule conf_points [of h])
    show "conf h w" using w assms(1) by (auto simp: heap_conf_def ran_def split: if_splits)
    show "\<exists>w'. (h(x := None)) a = Some w' \<and> type_id w' = type_id u" if "points_to w = Some a" "h a = Some u" for a u
      using that assms(2) [OF w] by auto
  qed
  then show ?thesis by (auto simp: heap_conf_def)
qed

lemma inv_withI:
  assumes "objs s = h" and "blocks s = bs" and "uses s = us" and "finite (dom h)" and "heap_conf h"
    and "\<And>a. us a = card (block_owners h a) + (if p = Some a then 1 else 0)"
    and "\<And>x v a. h x = Some v \<Longrightarrow> holds v = Some a \<Longrightarrow> a \<in> bs"
    and "\<And>a. a \<in> bs \<Longrightarrow> 0 < us a \<and> (\<exists>v. h a = Some v \<and> holds v = None)"
  shows "inv_with p s"
  using assms by (auto simp: inv_with_def)

lemma inv_withD:
  assumes "inv_with p s"
  shows "finite (dom (objs s))" and "heap_conf (objs s)"
    and "uses s a = card (block_owners (objs s) a) + (if p = Some a then 1 else 0)"
    and "objs s x = Some v \<Longrightarrow> holds v = Some a \<Longrightarrow> a \<in> blocks s"
    and "a \<in> blocks s \<Longrightarrow> 0 < uses s a \<and> (\<exists>v. objs s a = Some v \<and> holds v = None)"
  using assms unfolding inv_with_def by blast+

lemma retain_inv: "ex_inv s \<Longrightarrow> (\<And>a. p = Some a \<Longrightarrow> a \<in> blocks s) \<Longrightarrow> inv_with p (ex_retain p s)"
  by (cases p) (auto simp: inv_with_def ex_retain_def)

lemma set_inv:
  assumes inv: "inv_with (holds v) s" and v: "storable s v" and x: "x \<notin> blocks s"
    and ty: "\<And>w. objs s x = Some w \<Longrightarrow> type_id v = type_id w"
  shows "inv_with (Option.bind (objs s x) holds) (set_obj x v s)"
proof (rule inv_withI [of _ "(objs s)(x \<mapsto> v)" "blocks s" "uses s"])
  note fin = inv_withD(1) [OF inv]
  show "finite (dom ((objs s)(x \<mapsto> v)))" using fin by simp
  show "heap_conf ((objs s)(x \<mapsto> v))"
    using v ty by (intro heap_conf_stored inv_withD(2) [OF inv]) (auto simp: storable_def)
  show "uses s a = card (block_owners ((objs s)(x \<mapsto> v)) a) + (if Option.bind (objs s x) holds = Some a then 1 else 0)" for a
    using inv_withD(3) [OF inv, of a] owners_stored [OF fin, of x v a] owners_removed [OF fin, of a x]
    by (auto simp: bind_eq_Some_conv)
  show "a \<in> blocks s" if "((objs s)(x \<mapsto> v)) y = Some w" and "holds w = Some a" for y w a
    using that v inv_withD(4) [OF inv] by (auto simp: storable_def split: if_splits)
  show "0 < uses s a \<and> (\<exists>w. ((objs s)(x \<mapsto> v)) a = Some w \<and> holds w = None)" if "a \<in> blocks s" for a
    using inv_withD(5) [OF inv that] x that by auto
qed (simp_all add: set_obj_def)

lemma remove_inv:
  assumes inv: "ex_inv s" and x: "objs s x = Some old" "x \<notin> blocks s"
    and un: "\<And>v. v \<in> ran ((objs s)(x := None)) \<Longrightarrow> refers v \<noteq> Some x"
  shows "inv_with (holds old) (s\<lparr>objs := (objs s)(x := None)\<rparr>)"
proof (rule inv_withI [of _ "(objs s)(x := None)" "blocks s" "uses s"])
  note fin = inv_withD(1) [OF inv]
  show "finite (dom ((objs s)(x := None)))" using fin by simp
  show "heap_conf ((objs s)(x := None))"
    using x un inv_withD(4) [OF inv]
    by (intro heap_conf_removed inv_withD(2) [OF inv]) (auto simp: points_to_split ran_def split: if_splits)
  show "uses s a = card (block_owners ((objs s)(x := None)) a) + (if holds old = Some a then 1 else 0)" for a
    using inv_withD(3) [OF inv, of a] owners_removed [OF fin, of a x] x by auto
  show "a \<in> blocks s" if "((objs s)(x := None)) y = Some w" and "holds w = Some a" for y w a
    using that inv_withD(4) [OF inv] by (auto split: if_splits)
  show "0 < uses s a \<and> (\<exists>w. ((objs s)(x := None)) a = Some w \<and> holds w = None)" if "a \<in> blocks s" for a
    using inv_withD(5) [OF inv that] x that by auto
qed simp_all

lemma release_last:
  assumes inv: "inv_with (Some a) s" and one: "uses s a = 1" and a: "a \<in> blocks s"
    and un: "\<And>v. v \<in> ran ((objs s)(a := None)) \<Longrightarrow> refers v \<noteq> Some a"
  shows "ex_inv (s\<lparr>objs := (objs s)(a := None), blocks := blocks s - {a}, uses := (uses s)(a := 0)\<rparr>)"
proof (rule inv_withI [of _ "(objs s)(a := None)" "blocks s - {a}" "(uses s)(a := 0)"])
  note fin = inv_withD(1) [OF inv]
  have empty: "block_owners (objs s) a = {}"
    using inv_withD(3) [OF inv, of a] one owners_finite [OF fin] by simp
  then have none: "holds w \<noteq> Some a" if "objs s y = Some w" for y w
    using that by (auto simp: block_owners_def)
  obtain v where v: "objs s a = Some v" "holds v = None" using inv_withD(5) [OF inv a] by blast
  show "finite (dom ((objs s)(a := None)))" using fin by simp
  show "heap_conf ((objs s)(a := None))"
    using none un
    by (intro heap_conf_removed inv_withD(2) [OF inv]) (auto simp: points_to_split ran_def split: if_splits)
  show "((uses s)(a := 0)) b = card (block_owners ((objs s)(a := None)) b) + (if None = Some b then 1 else 0)" for b
    using inv_withD(3) [OF inv, of b] owners_removed [OF fin, of b a] v empty by auto
  show "b \<in> blocks s - {a}" if "((objs s)(a := None)) y = Some w" and "holds w = Some b" for y w b
    using that inv_withD(4) [OF inv] none by (auto split: if_splits)
  show "0 < ((uses s)(a := 0)) b \<and> (\<exists>w. ((objs s)(a := None)) b = Some w \<and> holds w = None)"
    if "b \<in> blocks s - {a}" for b
    using inv_withD(5) [OF inv, of b] that by auto
qed simp_all

lemma release_inv:
  assumes inv: "inv_with p s" and p: "\<And>a. p = Some a \<Longrightarrow> a \<in> blocks s"
    and un: "\<And>a v. p = Some a \<Longrightarrow> uses s a = 1 \<Longrightarrow> v \<in> ran ((objs s)(a := None)) \<Longrightarrow> refers v \<noteq> Some a"
  shows "ex_inv (ex_release p s)"
proof (cases p)
  case None
  then show ?thesis using inv by (simp add: ex_release_def)
next
  case (Some a)
  show ?thesis
  proof (cases "uses s a = 1")
    case True
    then show ?thesis using release_last inv p un Some by (simp add: ex_release_def)
  next
    case False
    then show ?thesis using inv Some p by (auto simp: inv_with_def ex_release_def)
  qed
qed

lemma new_block_inv:
  assumes inv: "ex_inv s" and a: "objs s a = None" and v: "storable s v" "holds v = None"
  shows "inv_with (Some a) (ex_retain (Some a) ((set_obj a v s)\<lparr>blocks := insert a (blocks s)\<rparr>))"
proof -
  note fin = inv_withD(1) [OF inv]
  have cards: "card (block_owners ((objs s)(a \<mapsto> v)) b) = card (block_owners (objs s) b)" for b
    using owners_stored [OF fin, of a v b] v(2) a by (simp add: fun_upd_idem)
  have "heap_conf ((objs s)(a \<mapsto> v))"
    using v a by (intro heap_conf_stored inv_withD(2) [OF inv]) (auto simp: storable_def)
  then show ?thesis
    using inv a v cards by (auto simp: inv_with_def ex_retain_def set_obj_def)
qed

lemma retain_objs [simp]: "objs (ex_retain p s) = objs s" "blocks (ex_retain p s) = blocks s"
  by (simp_all add: ex_retain_def split: option.split)

lemma storable_retain [simp]: "storable (ex_retain p s) v = storable s v"
  by (simp add: storable_def)

lemma owned_dom: "ex_inv s \<Longrightarrow> objs s x = Some v \<Longrightarrow> holds v = Some a \<Longrightarrow> a \<in> dom (objs s)"
  by (auto simp: inv_with_def)

lemma assign_inv:
  assumes inv: "ex_inv s" and x: "objs s x = Some old" "x \<notin> blocks s" and v: "storable s v"
    and ty: "type_id v = type_id old" and kept: "keeps_referred s (ex_assign x v s)"
  shows "ex_inv (ex_assign x v s)"
proof -
  let ?s = "set_obj x v (ex_retain (holds v) s)"
  have "inv_with (Option.bind (objs (ex_retain (holds v) s) x) holds) ?s"
    by (rule set_inv) (use inv v x ty in \<open>auto intro: retain_inv simp: storable_def\<close>)
  then have "inv_with (holds old) ?s" using x by simp
  moreover have "refers w \<noteq> Some a"
    if "holds old = Some a" and "uses ?s a = 1" and "w \<in> ran ((objs ?s)(a := None))" for a w
    using kept that owned_dom [OF inv x(1) that(1)] x
    by (auto simp: keeps_referred_def ex_assign_def ex_release_def set_obj_def)
  ultimately show ?thesis
    unfolding ex_assign_def x option.case
    by (intro release_inv) (use inv_withD(4) [OF inv x(1)] in \<open>auto simp: set_obj_def\<close>)
qed

lemma destroy_inv:
  assumes inv: "ex_inv s" and x: "objs s x = Some old" "x \<notin> blocks s" and un: "unreferred (objs s) x"
    and kept: "keeps_referred s (ex_destroy x s)"
  shows "ex_inv (ex_destroy x s)"
proof -
  let ?s = "s\<lparr>objs := (objs s)(x := None)\<rparr>"
  have "inv_with (holds old) ?s"
    by (rule remove_inv [OF inv x]) (use un in \<open>auto simp: unreferred_def\<close>)
  moreover have "refers w \<noteq> Some a"
    if "holds old = Some a" and "uses ?s a = 1" and "w \<in> ran ((objs ?s)(a := None))" for a w
    using kept that owned_dom [OF inv x(1) that(1)] x
    by (auto simp: keeps_referred_def ex_destroy_def ex_release_def)
  ultimately show ?thesis
    unfolding ex_destroy_def x option.case
    by (intro release_inv) (use inv_withD(4) [OF inv x(1)] in auto)
qed

lemma make_inv:
  assumes inv: "ex_inv s" and fresh: "objs s x = None" "objs s a = None" "x \<noteq> a"
    and v: "storable s v" "type_id v \<noteq> Any_T" "\<not> is_strand_type (type_id v)"
  shows "ex_inv (any_make x a v s)"
proof -
  let ?s = "ex_retain (Some a) ((set_obj a v s)\<lparr>blocks := insert a (blocks s)\<rparr>)"
  have "holds v = None" using v by (cases v) auto
  then have "inv_with (Some a) ?s" by (rule new_block_inv [OF inv fresh(2) v(1)])
  moreover have "x \<notin> blocks s" using inv_withD(5) [OF inv, of x] fresh by auto
  moreover have "storable ?s (Any_Ex (Some a))" using v by (simp add: storable_def set_obj_def)
  ultimately have "inv_with (Option.bind (objs ?s x) holds) (set_obj x (Any_Ex (Some a)) ?s)"
    by (intro set_inv) (use fresh in \<open>auto simp: set_obj_def\<close>)
  then show ?thesis using fresh by (simp add: any_make_def set_obj_def)
qed

lemma copy_inv:
  assumes inv: "ex_inv s" and "objs s x = None" and v: "storable s v"
  shows "ex_inv (ex_copy x v s)"
proof -
  have "x \<notin> blocks s" using inv_withD(5) [OF inv, of x] assms by auto
  then have "inv_with (Option.bind (objs (ex_retain (holds v) s) x) holds) (set_obj x v (ex_retain (holds v) s))"
    by (intro set_inv retain_inv) (use assms in \<open>auto simp: storable_def\<close>)
  then show ?thesis using assms by (simp add: ex_copy_def)
qed

lemma step_inv: "ex_step s s' \<Longrightarrow> ex_inv s \<Longrightarrow> ex_inv s'"
  by (induction rule: ex_step.induct) (auto intro: make_inv copy_inv assign_inv destroy_inv)

lemma init_inv: "ex_inv ex_init"
  by (simp add: inv_with_def ex_init_def heap_conf_def block_owners_def)

lemma reachable_inv: "ex_step\<^sup>*\<^sup>* ex_init s \<Longrightarrow> ex_inv s"
  by (induction rule: rtranclp_induct) (auto intro: init_inv step_inv)

text \<open>
  Shared ownership. In every state a program reaches by constructing, copying, assigning and destroying
  executors, with every \<^verbatim>\<open>executor_ref\<close> outlived by its referent: the executor held by an
  \<^verbatim>\<open>any_executor\<close> (also one inside a strand) exists, the count of a shared block is the number of executors
  that hold it, and a block exists exactly as long as one of them does, so none leaks and none is used after
  it is freed.
\<close>
theorem any_executor_shared:
  assumes "ex_step\<^sup>*\<^sup>* ex_init s"
  shows "(\<forall>x v a. objs s x = Some v \<longrightarrow> holds v = Some a \<longrightarrow> a \<in> blocks s \<and> a \<in> dom (objs s))
    \<and> uses s a = card (block_owners (objs s) a)
    \<and> (a \<in> blocks s \<longleftrightarrow> block_owners (objs s) a \<noteq> {})"
proof -
  have inv: "ex_inv s" using assms by (rule reachable_inv)
  have "uses s a = card (block_owners (objs s) a)" using inv_withD(3) [OF inv] by simp
  moreover have "a \<in> blocks s \<longleftrightarrow> block_owners (objs s) a \<noteq> {}"
  proof
    show "block_owners (objs s) a \<noteq> {}" if "a \<in> blocks s"
      using inv_withD(5) [OF inv that] calculation by auto
    show "a \<in> blocks s" if "block_owners (objs s) a \<noteq> {}"
      using that inv_withD(4) [OF inv] by (auto simp: block_owners_def)
  qed
  ultimately show ?thesis using inv_withD(4) [OF inv] owned_dom [OF inv] by blast
qed

definition demo_two :: ex_state where
  "demo_two = ex_copy 3 (Any_Ex (Some 2)) (any_make 4 2 (Pool_Ex 7) ex_init)"

definition demo_one :: ex_state where
  "demo_one = ex_destroy 4 demo_two"

lemma demo_two_state:
  "demo_two = \<lparr>objs = [2 \<mapsto> Pool_Ex 7, 4 \<mapsto> Any_Ex (Some 2), 3 \<mapsto> Any_Ex (Some 2)], blocks = {2},
     uses = (\<lambda>_. 0)(2 := 2)\<rparr>"
  by (simp add: demo_two_def any_make_def ex_copy_def ex_init_def set_obj_def ex_retain_def fun_eq_iff)

lemma demo_one_state:
  "demo_one = \<lparr>objs = [2 \<mapsto> Pool_Ex 7, 3 \<mapsto> Any_Ex (Some 2)], blocks = {2}, uses = (\<lambda>_. 0)(2 := 1)\<rparr>"
  by (simp add: demo_one_def demo_two_state ex_destroy_def ex_release_def fun_eq_iff)

lemma demo_run: "ex_step\<^sup>*\<^sup>* ex_init demo_one"
proof -
  have "ex_step ex_init (any_make 4 2 (Pool_Ex 7) ex_init)"
    by (rule make) (simp_all add: ex_init_def storable_def)
  moreover have "ex_step (any_make 4 2 (Pool_Ex 7) ex_init) demo_two"
    unfolding demo_two_def
    by (rule copy) (simp_all add: any_make_def ex_init_def set_obj_def storable_def ex_retain_def)
  moreover have "ex_step demo_two demo_one"
    unfolding demo_one_def
  proof (rule destroy [where old = "Any_Ex (Some 2)"])
    show "unreferred (objs demo_two) 4"
      by (auto simp: demo_two_state unreferred_def ran_def)
    show "keeps_referred demo_two (ex_destroy 4 demo_two)"
      unfolding demo_one_def [symmetric] by (auto simp: keeps_referred_def demo_one_state ran_def split: if_splits)
  qed (simp_all add: demo_two_state)
  ultimately show ?thesis by (meson converse_rtranclp_into_rtranclp rtranclp.rtrancl_refl)
qed

theorem any_executor_shared_witness:
  "uses demo_one 2 = card (block_owners (objs demo_one) 2) \<and> uses demo_one 2 = 1
   \<and> objs demo_one 2 = Some (Pool_Ex 7) \<and> objs (ex_destroy 3 demo_one) 2 = None"
  using any_executor_shared [OF demo_run, of 2] by (simp add: demo_one_state ex_destroy_def ex_release_def)

text \<open>
  C27. Typed access. In every reachable state \<^verbatim>\<open>target<Ex>()\<close> of an \<^verbatim>\<open>any_executor\<close> or an
  \<^verbatim>\<open>executor_ref\<close> never faults and returns a pointer exactly when the wrapper is not empty and the live object
  it wraps has type \<^verbatim>\<open>Ex\<close>; the pointer is the address of that object, so reading it as an \<^verbatim>\<open>Ex\<close> is a
  good cast.
\<close>
theorem executor_target_typed:
  assumes "ex_step\<^sup>*\<^sup>* ex_init s" and "objs s x = Some (Any_Ex p)" and "objs s y = Some (Ref_Ex r)"
  shows "\<exists>q. any_target (objs s) t p = Inr q
    \<and> (\<forall>a. q = Some a \<longleftrightarrow> p = Some a \<and> (\<exists>v. cast_load (objs s) t a = Inr v))
    \<and> (\<forall>a. ref_target t r = Some a \<longleftrightarrow> map_option fst r = Some a \<and> (\<exists>v. cast_load (objs s) t a = Inr v))"
proof -
  have "ex_inv s" using assms(1) by (rule reachable_inv)
  then have "heap_conf (objs s)" by (rule inv_withD)
  then have "conf (objs s) (Any_Ex p)" and "conf (objs s) (Ref_Ex r)"
    using assms(2,3) by (blast intro: heap_confD)+
  then show ?thesis
    by (cases p; cases r) (auto simp: any_target_def ref_target_def wrapper_loads split: option.splits prod.splits)
qed

theorem executor_target_typed_witness:
  "ex_step\<^sup>*\<^sup>* ex_init (ex_copy 5 (Ref_Ex (Some (3, Any_T))) demo_one)
   \<and> any_target (objs (ex_copy 5 (Ref_Ex (Some (3, Any_T))) demo_one)) Pool_T (Some 2) = Inr (Some 2)
   \<and> ref_target Pool_T (Some (3, Any_T)) = None"
proof -
  have "ex_step demo_one (ex_copy 5 (Ref_Ex (Some (3, Any_T))) demo_one)"
    by (rule copy) (simp_all add: storable_def demo_one_state)
  then have run: "ex_step\<^sup>*\<^sup>* ex_init (ex_copy 5 (Ref_Ex (Some (3, Any_T))) demo_one)"
    by (rule rtranclp.rtrancl_into_rtrancl [OF demo_run])
  have objs: "objs (ex_copy 5 (Ref_Ex (Some (3, Any_T))) demo_one)
      = [2 \<mapsto> Pool_Ex 7, 3 \<mapsto> Any_Ex (Some 2), 5 \<mapsto> Ref_Ex (Some (3, Any_T))]"
    by (simp add: ex_copy_def ex_retain_def set_obj_def demo_one_state)
  show ?thesis
    using run executor_target_typed [OF run, of 3 "Some 2" 5 "Some (3, Any_T)" Pool_T]
    by (auto simp: objs wrapper_loads ref_target_def)
qed

end
