(* ===== verification/Blocking.thy ===== *)
theory Blocking
  imports Task_Chain "HOL-Library.Multiset"
begin

text \<open>
  Running a task to completion on the calling thread (\<^verbatim>\<open>test/run_blocking.hpp\<close>, \<^verbatim>\<open>src/test/run_blocking.cpp\<close>): the event loop of \<^verbatim>\<open>blocking_context\<close>, the wrapper around the
  handlers that signals it, and what \<^verbatim>\<open>run_blocking\<close> makes of the result of the task. Continuations are numbers. \<open>bc_handlers\<close> are the wrappers that exist, with whether their \<^verbatim>\<open>ctx_\<close> is
  set; \<open>bc_enqueued\<close>, \<open>bc_resumed\<close> and \<open>bc_signals\<close> are ghosts.
\<close>

datatype run_pc = Run_Check | Run_Blocked | Run_Resume nat | Run_Returned "cpp_exception option"

datatype signal = Signal_Done | Signal_Exception cpp_exception | Signal_Abandoned

record blocking =
  bc_queue :: "nat list"
  bc_ep :: "cpp_exception option"
  bc_done :: bool
  bc_abandoned :: bool
  bc_run :: run_pc
  bc_handlers :: "nat \<rightharpoonup> bool"
  bc_enqueued :: "nat list"
  bc_resumed :: "nat list"
  bc_signals :: "signal list"

section \<open>The context\<close>

definition bc_init :: blocking where
  "bc_init = \<lparr>bc_queue = [], bc_ep = None, bc_done = False, bc_abandoned = False, bc_run = Run_Check, bc_handlers = [0 \<mapsto> True], bc_enqueued = [], bc_resumed = [], bc_signals = []\<rparr>"

definition bc_notify :: "blocking \<Rightarrow> blocking" where
  "bc_notify s = (if bc_run s = Run_Blocked then s\<lparr>bc_run := Run_Check\<rparr> else s)"

fun bc_signal :: "signal \<Rightarrow> blocking \<Rightarrow> blocking" where
  "bc_signal Signal_Done s = bc_notify (s\<lparr>bc_done := True, bc_signals := bc_signals s @ [Signal_Done]\<rparr>)"
| "bc_signal (Signal_Exception e) s = bc_notify (s\<lparr>bc_ep := Some e, bc_done := True, bc_signals := bc_signals s @ [Signal_Exception e]\<rparr>)"
| "bc_signal Signal_Abandoned s = bc_notify (s\<lparr>bc_abandoned := True, bc_done := True, bc_signals := bc_signals s @ [Signal_Abandoned]\<rparr>)"

definition bc_enqueue :: "nat \<Rightarrow> blocking \<Rightarrow> blocking" where
  "bc_enqueue c s = bc_notify (s\<lparr>bc_queue := bc_queue s @ [c], bc_enqueued := bc_enqueued s @ [c]\<rparr>)"

text \<open>What \<^verbatim>\<open>run\<close> throws when it leaves its loop.\<close>

definition run_outcome :: "blocking \<Rightarrow> cpp_exception option" where
  "run_outcome s =
     (case bc_ep s of
        Some e \<Rightarrow> Some e
      | None \<Rightarrow> if bc_abandoned s then Some (system_error (make_error_code canceled)) else None)"

text \<open>The section of the loop under the mutex.\<close>

definition run_turn :: "blocking \<Rightarrow> blocking" where
  "run_turn s =
     (if \<not> (bc_done s \<or> bc_queue s \<noteq> []) then s\<lparr>bc_run := Run_Blocked\<rparr>
      else case bc_queue s of
             [] \<Rightarrow> s\<lparr>bc_run := Run_Returned (run_outcome s)\<rparr>
           | c # cs \<Rightarrow> s\<lparr>bc_queue := cs, bc_run := Run_Resume c\<rparr>)"

text \<open>\<^verbatim>\<open>dispatch\<close>: the handle to resume, or none when the work is queued; \<open>running\<close> is whether the loop of this context runs on the calling thread.\<close>

definition bc_dispatch :: "bool \<Rightarrow> nat \<Rightarrow> blocking \<Rightarrow> nat option \<times> blocking" where
  "bc_dispatch running c s = (if running then (Some c, s) else (None, bc_enqueue c s))"

section \<open>The wrapper of the handlers\<close>

definition bh_move :: "nat \<Rightarrow> nat \<Rightarrow> blocking \<Rightarrow> blocking" where
  "bh_move a b s = s\<lparr>bc_handlers := (bc_handlers s)(a := bc_handlers s b, b \<mapsto> False)\<rparr>"

definition bh_destroy :: "nat \<Rightarrow> bool \<Rightarrow> blocking \<Rightarrow> blocking" where
  "bh_destroy a ctx s = (let s = (if ctx then bc_signal Signal_Abandoned s else s) in s\<lparr>bc_handlers := (bc_handlers s)(a := None)\<rparr>)"

text \<open>A call of the wrapper: \<open>thrown\<close> is what the handler of the caller throws.\<close>

definition bh_call :: "nat \<Rightarrow> cpp_exception option \<Rightarrow> blocking \<Rightarrow> blocking" where
  "bh_call a thrown s =
     bc_signal (case thrown of Some e \<Rightarrow> Signal_Exception e | None \<Rightarrow> Signal_Done) (s\<lparr>bc_handlers := (bc_handlers s)(a \<mapsto> False)\<rparr>)"

section \<open>Runs\<close>

text \<open>The thread of the loop, threads that queue work, and what becomes of the one wrapper: it is moved, called once with the result of the task, and destroyed.\<close>

inductive bc_step :: "blocking \<Rightarrow> blocking \<Rightarrow> bool" where
  turns: "bc_run s = Run_Check \<Longrightarrow> bc_step s (run_turn s)"
| spurious: "bc_run s = Run_Blocked \<Longrightarrow> bc_step s (s\<lparr>bc_run := Run_Check\<rparr>)"
| resumes: "bc_run s = Run_Resume c \<Longrightarrow> bc_step s (s\<lparr>bc_run := Run_Check, bc_resumed := bc_resumed s @ [c]\<rparr>)"
| dispatches: "bc_step s (snd (bc_dispatch running c s))"
| moves: "\<lbrakk>bc_handlers s a = None; bc_handlers s b \<noteq> None\<rbrakk> \<Longrightarrow> bc_step s (bh_move a b s)"
| calls: "bc_handlers s a = Some True \<Longrightarrow> bc_step s (bh_call a thrown s)"
| destroys: "bc_handlers s a = Some ctx \<Longrightarrow> bc_step s (bh_destroy a ctx s)"

inductive bc_reach :: "blocking \<Rightarrow> bool" where
  start: "bc_reach bc_init"
| step: "bc_reach s \<Longrightarrow> bc_step s s' \<Longrightarrow> bc_reach s'"

section \<open>The invariant\<close>

definition in_hand :: "blocking \<Rightarrow> nat list" where
  "in_hand s = (case bc_run s of Run_Resume c \<Rightarrow> [c] | _ \<Rightarrow> [])"

text \<open>What a signal makes of \<^verbatim>\<open>run\<close>.\<close>

fun signal_outcome :: "signal \<Rightarrow> cpp_exception option" where
  "signal_outcome Signal_Done = None"
| "signal_outcome (Signal_Exception e) = Some e"
| "signal_outcome Signal_Abandoned = Some (system_error (make_error_code canceled))"

definition order_inv :: "blocking \<Rightarrow> bool" where
  "order_inv s \<longleftrightarrow> bc_enqueued s = bc_resumed s @ in_hand s @ bc_queue s"

text \<open>Either one wrapper can still signal, or there was a signal and none can.\<close>

definition signal_inv :: "blocking \<Rightarrow> bool" where
  "signal_inv s \<longleftrightarrow> (if bc_done s then (\<exists>g. bc_signals s = [g] \<and> run_outcome s = signal_outcome g) \<and> (\<forall>a. bc_handlers s a \<noteq> Some True)
     else bc_signals s = [] \<and> bc_ep s = None \<and> \<not> bc_abandoned s \<and> (\<exists>!a. bc_handlers s a = Some True))
     \<and> (bc_run s = Run_Blocked \<longrightarrow> \<not> bc_done s \<and> bc_queue s = []) \<and> (\<forall>o'. bc_run s = Run_Returned o' \<longrightarrow> bc_done s \<and> o' = run_outcome s)"

lemmas bc_defs = bc_notify_def bc_enqueue_def run_turn_def bc_dispatch_def bh_move_def bh_destroy_def bh_call_def Let_def

lemma notify_sel [simp]:
  "bc_queue (bc_notify s) = bc_queue s" "bc_ep (bc_notify s) = bc_ep s" "bc_done (bc_notify s) = bc_done s" "bc_abandoned (bc_notify s) = bc_abandoned s" "bc_handlers (bc_notify s) = bc_handlers s"
  "bc_enqueued (bc_notify s) = bc_enqueued s" "bc_resumed (bc_notify s) = bc_resumed s" "bc_signals (bc_notify s) = bc_signals s" "in_hand (bc_notify s) = in_hand s"
  "bc_run (bc_notify s) = (if bc_run s = Run_Blocked then Run_Check else bc_run s)"
  by (simp_all add: bc_notify_def in_hand_def)

lemma run_outcome_cong [simp]:
  "run_outcome (s\<lparr>bc_handlers := h\<rparr>) = run_outcome s" "run_outcome (s\<lparr>bc_run := r\<rparr>) = run_outcome s" "run_outcome (s\<lparr>bc_queue := q\<rparr>) = run_outcome s"
  "run_outcome (s\<lparr>bc_enqueued := q\<rparr>) = run_outcome s" "run_outcome (s\<lparr>bc_resumed := q\<rparr>) = run_outcome s" "run_outcome (bc_notify s) = run_outcome s"
  by (simp_all add: run_outcome_def)

lemma order_signal [simp]: "order_inv (bc_signal g s) = order_inv s"
  by (cases g) (simp_all add: order_inv_def, simp_all add: in_hand_def)

lemma order_step: "bc_step s s' \<Longrightarrow> order_inv s \<Longrightarrow> order_inv s'"
proof (induction rule: bc_step.induct)
  case (destroys s a ctx)
  then show ?case using order_signal [of Signal_Abandoned s] by (auto simp: bh_destroy_def order_inv_def in_hand_def Let_def)
next
  case (calls s a thrown)
  then show ?case by (simp add: bh_call_def) (simp add: order_inv_def in_hand_def)
qed (auto simp: order_inv_def in_hand_def bc_enqueue_def run_turn_def bc_dispatch_def bh_move_def split: list.split)

text \<open>The signal of the wrapper that has the context.\<close>

lemma signal_once:
  assumes "signal_inv s" "\<not> bc_done s" "\<And>a. h a \<noteq> Some True"
  shows "signal_inv (bc_signal g (s\<lparr>bc_handlers := h\<rparr>))"
  using assms by (cases g) (auto simp: signal_inv_def run_outcome_def)

lemma one_after_move:
  assumes "\<exists>!c. h c = Some True" "h a = None" "h b \<noteq> None"
  shows "\<exists>!c. (h(a := h b, b \<mapsto> False)) c = Some True"
proof (cases "h b = Some True")
  case True
  then show ?thesis using assms(1,2) by (intro ex1I [of _ a]) (auto split: if_splits)
next
  case False
  obtain c where "h c = Some True" using assms(1) by blast
  then show ?thesis using assms False by (intro ex1I [of _ c]) (auto split: if_splits)
qed

lemma one_after_drop:
  assumes "\<exists>!c. h c = Some True" "h a \<noteq> Some True"
  shows "\<exists>!c. (h(a := None)) c = Some True"
proof -
  obtain c where "h c = Some True" using assms(1) by blast
  then show ?thesis using assms by (intro ex1I [of _ c]) (auto split: if_splits)
qed

lemma signal_keeps_handlers: "bc_handlers (bc_signal g s) = bc_handlers s"
  by (cases g) simp_all

lemma signal_handlers: "bc_signal g (s\<lparr>bc_handlers := h\<rparr>) = (bc_signal g s)\<lparr>bc_handlers := h\<rparr>"
proof (cases s)
  case (fields q e d a r x y z w)
  then show ?thesis by (cases g) (simp_all add: bc_notify_def)
qed

lemma signal_step: "bc_step s s' \<Longrightarrow> signal_inv s \<Longrightarrow> signal_inv s'"
proof (induction rule: bc_step.induct)
  case (moves s a b)
  show ?case
  proof (cases "bc_done s")
    case True
    then show ?thesis using moves by (auto simp: bh_move_def signal_inv_def)
  next
    case False
    then have "\<exists>!c. bc_handlers s c = Some True" using moves(3) by (simp add: signal_inv_def)
    from one_after_move [OF this moves(1,2)] show ?thesis using moves(3) False by (simp add: bh_move_def signal_inv_def)
  qed
next
  case (calls s a thrown)
  then have d: "\<not> bc_done s" by (auto simp: signal_inv_def)
  show ?case unfolding bh_call_def by (rule signal_once [OF calls(2) d]) (use calls d in \<open>auto simp: signal_inv_def\<close>)
next
  case (destroys s a ctx)
  show ?case
  proof (cases ctx)
    case True
    then have d: "\<not> bc_done s" using destroys by (auto simp: signal_inv_def)
    have "signal_inv (bc_signal Signal_Abandoned (s\<lparr>bc_handlers := (bc_handlers s)(a := None)\<rparr>))"
      by (rule signal_once [OF destroys(2) d]) (use destroys d True in \<open>auto simp: signal_inv_def\<close>)
    then show ?thesis using True by (simp add: bh_destroy_def Let_def signal_handlers signal_keeps_handlers del: bc_signal.simps)
  next
    case False
    show ?thesis
    proof (cases "bc_done s")
      case True
      then show ?thesis using destroys False by (auto simp: bh_destroy_def signal_inv_def)
    next
      case live: False
      then have "\<exists>!c. bc_handlers s c = Some True" using destroys(2) by (simp add: signal_inv_def)
      from one_after_drop [OF this, of a] show ?thesis using destroys False live by (simp add: bh_destroy_def signal_inv_def)
    qed
  qed
qed (auto simp: signal_inv_def bc_enqueue_def run_turn_def bc_dispatch_def split: list.splits if_splits)

lemma bc_reach_inv: "bc_reach s \<Longrightarrow> order_inv s \<and> signal_inv s"
proof (induction rule: bc_reach.induct)
  case start
  show ?case by (auto simp: bc_init_def order_inv_def signal_inv_def in_hand_def)
qed (blast intro: order_step signal_step)

text \<open>
  The event loop, with any threads that queue work and whatever becomes of the task and its handlers: work is resumed in the order it was queued, each piece once. There is at most one signal. While the loop sleeps
  there is no work and no signal, and some wrapper can still give one; once none can, the loop does not sleep. When \<^verbatim>\<open>run\<close> returns there was a signal, and it throws what the signal
  says: the exception of the handlers, or \<open>error::canceled\<close> when they were destroyed without a call.
\<close>

theorem blocking_run_correct:
  assumes "bc_reach s"
  shows "bc_enqueued s = bc_resumed s @ in_hand s @ bc_queue s \<and> length (bc_signals s) \<le> 1
    \<and> (bc_run s = Run_Blocked \<longrightarrow> bc_queue s = [] \<and> bc_signals s = [] \<and> (\<exists>a. bc_handlers s a = Some True))
    \<and> (\<forall>o'. bc_run s = Run_Returned o' \<longrightarrow> (\<exists>g. bc_signals s = [g] \<and> o' = signal_outcome g))"
  using bc_reach_inv [OF assms] by (auto simp: order_inv_def signal_inv_def split: if_splits)

theorem blocking_run_correct_witness:
  "\<exists>s. bc_reach s \<and> bc_run s = Run_Returned None \<and> length (bc_signals s) \<le> 1 \<and> bc_resumed s = [7]"
proof -
  let ?s = "\<lparr>bc_queue = [], bc_ep = None, bc_done = True, bc_abandoned = False, bc_run = Run_Returned None, bc_handlers = [0 \<mapsto> False], bc_enqueued = [7], bc_resumed = [7], bc_signals = [Signal_Done]\<rparr>"
  have "bc_reach (snd (bc_dispatch False 7 bc_init))" by (rule bc_reach.step [OF bc_reach.start bc_step.dispatches])
  then have 1: "bc_reach (bc_init\<lparr>bc_queue := [7], bc_enqueued := [7]\<rparr>)" by (simp add: bc_dispatch_def bc_enqueue_def bc_notify_def bc_init_def)
  have "bc_reach (run_turn (bc_init\<lparr>bc_queue := [7], bc_enqueued := [7]\<rparr>))" by (rule bc_reach.step [OF 1 bc_step.turns]) (simp add: bc_init_def)
  then have 2: "bc_reach (bc_init\<lparr>bc_run := Run_Resume 7, bc_enqueued := [7]\<rparr>)" by (simp add: run_turn_def bc_init_def)
  have "bc_reach (bh_call 0 None (bc_init\<lparr>bc_run := Run_Resume 7, bc_enqueued := [7]\<rparr>))" by (rule bc_reach.step [OF 2 bc_step.calls]) (simp add: bc_init_def)
  then have 3: "bc_reach (?s\<lparr>bc_run := Run_Resume 7, bc_resumed := []\<rparr>)" by (simp add: bh_call_def bc_notify_def bc_init_def)
  have "bc_reach ((?s\<lparr>bc_run := Run_Resume 7, bc_resumed := []\<rparr>)\<lparr>bc_run := Run_Check, bc_resumed := bc_resumed (?s\<lparr>bc_run := Run_Resume 7, bc_resumed := []\<rparr>) @ [7]\<rparr>)"
    by (rule bc_reach.step [OF 3 bc_step.resumes]) simp
  then have 4: "bc_reach (?s\<lparr>bc_run := Run_Check\<rparr>)" by simp
  have "bc_reach (run_turn (?s\<lparr>bc_run := Run_Check\<rparr>))" by (rule bc_reach.step [OF 4 bc_step.turns]) simp
  then have "bc_reach ?s" by (simp add: run_turn_def run_outcome_def)
  then show ?thesis using blocking_run_correct by (intro exI [of _ ?s]) simp
qed

section \<open>What run_blocking makes of a task\<close>

text \<open>
  The wrapper is the one handler of \<^verbatim>\<open>run_async\<close> and takes exceptions itself. It calls the handlers of the caller, \<open>hs\<close>; \<open>throws\<close> is what a handler of the caller throws.
\<close>

definition first_throws :: "('v handled \<Rightarrow> cpp_exception option) \<Rightarrow> 'v handled list \<Rightarrow> cpp_exception option" where
  "first_throws throws calls = (case calls of [] \<Rightarrow> None | h # _ \<Rightarrow> throws h)"

definition exception_thrown :: "handlers \<Rightarrow> ('v handled \<Rightarrow> cpp_exception option) \<Rightarrow> cpp_exception \<Rightarrow> cpp_exception option" where
  "exception_thrown hs throws e = (case call_exception hs e of (calls, rethrows) \<Rightarrow> if rethrows then Some e else first_throws throws calls)"

fun wrapper_thrown :: "handlers \<Rightarrow> ('v handled \<Rightarrow> cpp_exception option) \<Rightarrow> 'v handled \<Rightarrow> cpp_exception option" where
  "wrapper_thrown hs throws (H1_Value v) = first_throws throws (fst (call_value hs v))"
| "wrapper_thrown hs throws (H1_Exception e) = exception_thrown hs throws e"
| "wrapper_thrown hs throws (H2_Exception e) = exception_thrown hs throws e"

text \<open>What a caller of \<^verbatim>\<open>run_blocking\<close> sees for the result of its task.\<close>

fun blocking_result :: "handlers \<Rightarrow> ('v handled \<Rightarrow> cpp_exception option) \<Rightarrow> cpp_exception + 'v \<Rightarrow> cpp_exception option" where
  "blocking_result Default_Handler throws (Inr v) = None"
| "blocking_result hs throws (Inr v) = throws (H1_Value v)"
| "blocking_result Handler_Pair throws (Inl e) = throws (H2_Exception e)"
| "blocking_result (Handler_Pair_Default True) throws (Inl e) = throws (H1_Exception e)"
| "blocking_result hs throws (Inl e) = (if e = stop_requested_exception then None else Some e)"

lemma wrapper_outcome:
  "\<exists>call. deliver (Handler_Pair_Default True) r = ([call], False) \<and> wrapper_thrown hs throws call = blocking_result hs throws r"
proof (cases r)
  case (Inl e)
  then show ?thesis by (cases "(hs, throws, r)" rule: blocking_result.cases) (auto simp: deliver_def default_handler_ep_def first_throws_def exception_thrown_def)
next
  case (Inr v)
  then show ?thesis by (cases hs) (auto simp: deliver_def first_throws_def)
qed

lemma run_outcome_call: "run_outcome (bh_call a thrown bc_init) = thrown"
  by (cases thrown) (simp_all add: bh_call_def, simp_all add: run_outcome_def bc_init_def)

text \<open>
  C28. \<^verbatim>\<open>run_blocking\<close> on a task whose operations complete: the trampoline calls the wrapper exactly once, no exception terminates the program, and \<^verbatim>\<open>run\<close> throws what the result of the body and
  the handlers of the caller ask for. With no handlers a value is dropped, an exception of the task is thrown to the caller, and a task that stopped because it was asked to returns
  normally. When the chain is destroyed instead, \<^verbatim>\<open>run\<close> throws \<open>error::canceled\<close>.
\<close>

theorem run_blocking_result:
  assumes "co_run res (run_async_start (Handler_Pair_Default True) token mr kind b stop inline) s" "\<not> mc_trampoline s"
  shows "\<not> mc_terminated s \<and> (\<exists>call. mc_log s = [call]
      \<and> run_outcome (bh_call 0 (wrapper_thrown hs throws call) bc_init) = blocking_result hs throws (co_start res stop b \<lparr>ac_token = token, ac_allocator = mr\<rparr> kind))
    \<and> run_outcome (bh_destroy 0 True bc_init) = Some (system_error (make_error_code canceled))"
proof -
  obtain c where c: "sim s c" "den res stop c = co_start res stop b \<lparr>ac_token = token, ac_allocator = mr\<rparr> kind" "mc_handlers s = Handler_Pair_Default True"
    using co_run_sim [OF assms(1)] by blast
  then have "(mc_log s, mc_terminated s) = deliver (Handler_Pair_Default True) (co_start res stop b \<lparr>ac_token = token, ac_allocator = mr\<rparr> kind)"
    using assms(2) sim_alive [OF c(1)] by auto
  moreover have "run_outcome (bh_destroy 0 True bc_init) = Some (system_error (make_error_code canceled))" by (simp add: bh_destroy_def Let_def) (simp add: run_outcome_def bc_init_def)
  ultimately show ?thesis using wrapper_outcome [of "co_start res stop b \<lparr>ac_token = token, ac_allocator = mr\<rparr> kind" hs throws] run_outcome_call by fastforce
qed

lemma run_blocking_demo:
  "\<exists>s. co_run (\<lambda>_. Inr 7) (run_async_start (Handler_Pair_Default True) 0 0 Task (Co_Throw bad_alloc :: nat coro) (\<lambda>_. False) True) s \<and> \<not> mc_trampoline s"
proof -
  let ?s = "run_async_start (Handler_Pair_Default True) 0 0 Task (Co_Throw bad_alloc :: nat coro) (\<lambda>_. False) True"
  let ?s1 = "initial_resume 0 (the (mc_frames ?s 0)) (Co_Throw bad_alloc) ?s"
  let ?s2 = "task_final_suspend 0 (task_unhandled_exception bad_alloc (the (mc_frames ?s1 0))) ?s1"
  note defs = run_async_start_def initial_resume_def enter_def put_frame_def set_environment_def set_continuation_def new_frame_def quits_def
  have 1: "co_run (\<lambda>_. Inr 7) ?s ?s1" by (rule co_run.step [OF co_run.start co_step.begins]) (simp_all add: defs)
  have 2: "co_run (\<lambda>_. Inr 7) ?s ?s2" by (rule co_run.step [OF 1 co_step.throws]) (simp_all add: defs)
  have 3: "co_run (\<lambda>_. Inr 7) ?s (trampoline_body ?s2)"
    by (rule co_run.step [OF 2 co_step.trampoline]) (simp add: defs task_final_suspend_def task_unhandled_exception_def transfer_def)
  moreover have "\<not> mc_trampoline (trampoline_body ?s2)"
    by (simp add: trampoline_body_def Let_def defs task_final_suspend_def task_unhandled_exception_def split: option.split prod.split)
  ultimately show ?thesis by blast
qed

theorem run_blocking_result_witness:
  "\<exists>(s :: nat machine) call. \<not> mc_trampoline s \<and> mc_log s = [call] \<and> run_outcome (bh_call 0 (wrapper_thrown Default_Handler (\<lambda>_. None) call) bc_init) = Some bad_alloc"
proof -
  obtain s where s: "co_run (\<lambda>_. Inr 7) (run_async_start (Handler_Pair_Default True) 0 0 Task (Co_Throw bad_alloc :: nat coro) (\<lambda>_. False) True) s" "\<not> mc_trampoline s"
    using run_blocking_demo by blast
  have "co_start (\<lambda>_. Inr 7) (\<lambda>_. False) (Co_Throw bad_alloc :: nat coro) \<lparr>ac_token = 0, ac_allocator = 0\<rparr> Task = Inl bad_alloc" by (simp add: co_start_def quits_def)
  then show ?thesis using run_blocking_result [OF s, of Default_Handler "\<lambda>_. None"] s(2) by (intro exI [of _ s]) auto
qed

section \<open>The destructor\<close>

text \<open>
  The drain: everything queued is given up, and what that posts too. \<open>posts c\<close> is what giving up \<open>c\<close> puts into the queue. The list is what was given up, in order.
\<close>

partial_function (option) bc_drain :: "(nat \<Rightarrow> nat list) \<Rightarrow> nat list \<Rightarrow> nat list \<Rightarrow> nat list option" where
  "bc_drain posts queue given =
     (case queue of [] \<Rightarrow> Some given | c # cs \<Rightarrow> bc_drain posts (cs @ posts c) (given @ [c]))"

lemma bc_drain_ends:
  fixes rank :: "nat \<Rightarrow> nat"
  assumes "\<And>c d. d \<in> set (posts c) \<Longrightarrow> rank d < rank c"
  shows "\<exists>out. bc_drain posts queue given = Some (given @ out) \<and> set queue \<subseteq> set out \<and> (\<forall>c \<in> set out. set (posts c) \<subseteq> set out)
    \<and> (\<forall>c \<in> set out. c \<in> set queue \<or> (\<exists>p \<in> set out. c \<in> set (posts p)))"
proof -
  have "wf (inv_image (mult (measure rank)) mset)" by (intro wf_inv_image wf_mult wf_measure)
  then show ?thesis
  proof (induction queue arbitrary: given rule: wf_induct_rule)
    case (less queue)
    show ?case
    proof (cases queue)
      case Nil
      then show ?thesis by (subst bc_drain.simps) simp
    next
      case (Cons c cs)
      have "(mset cs + mset (posts c), mset cs + {#c#}) \<in> mult (measure rank)"
        by (rule one_step_implies_mult) (use assms in auto)
      then have "(cs @ posts c, queue) \<in> inv_image (mult (measure rank)) mset" by (simp add: Cons)
      from less.IH [OF this, of "given @ [c]"] obtain out where
        out: "bc_drain posts (cs @ posts c) (given @ [c]) = Some (given @ [c] @ out)" "set (cs @ posts c) \<subseteq> set out" "\<forall>d \<in> set out. set (posts d) \<subseteq> set out"
          "\<forall>d \<in> set out. d \<in> set (cs @ posts c) \<or> (\<exists>p \<in> set out. d \<in> set (posts p))" by auto
      have "bc_drain posts queue given = Some (given @ (c # out))" using out(1) by (subst bc_drain.simps) (simp add: Cons)
      then show ?thesis using out Cons by (intro exI [of _ "c # out"]) auto
    qed
  qed
qed

text \<open>
  The destructor of the context gives up everything that is queued and everything that this posts in turn, and nothing else. It ends when what is posted is always further down a chain of owners.
\<close>

theorem blocking_drain_correct:
  fixes rank :: "nat \<Rightarrow> nat"
  assumes "\<And>c d. d \<in> set (posts c) \<Longrightarrow> rank d < rank c"
  shows "\<exists>out. bc_drain posts queue [] = Some out \<and> set queue \<subseteq> set out \<and> (\<forall>c \<in> set out. set (posts c) \<subseteq> set out)
    \<and> (\<forall>c \<in> set out. c \<in> set queue \<or> (\<exists>p \<in> set out. c \<in> set (posts p)))"
  using bc_drain_ends [OF assms, where given = "[]" and queue = queue] by simp

theorem blocking_drain_correct_witness: "\<exists>out. bc_drain (\<lambda>c. if c = 5 then [3] else []) [5, 2] [] = Some out \<and> set [5, 2] \<subseteq> set out \<and> 3 \<in> set out"
proof -
  let ?p = "\<lambda>c :: nat. if c = 5 then [3] else []"
  have "d \<in> set (?p c) \<Longrightarrow> d < c" for c d by (auto split: if_splits)
  from blocking_drain_correct [where rank = "\<lambda>c. c" and posts = ?p and queue = "[5, 2]", OF this] obtain out where
    out: "bc_drain ?p [5, 2] [] = Some out" "set [5, 2] \<subseteq> set out" "\<forall>c \<in> set out. set (?p c) \<subseteq> set out" by blast
  then have "5 \<in> set out" by simp
  then have "set (?p 5) \<subseteq> set out" using out(3) by blast
  then show ?thesis using out by auto
qed

end
