(* ===== verification/Stream_Pair.thy ===== *)
theory Stream_Pair
  imports Mock_Streams
begin

text \<open>
  The connected pair of in-memory streams (\<^verbatim>\<open>test/stream.hpp\<close>): what one end writes the other reads. Both ends share one state; an end is its index, and the other end its
  negation. A read that finds nothing parks its continuation at its side, until the other end writes or closes, a fuse closes both, or a stop request claims it. Parked reads are
  addresses; a read that returns is destroyed at once. \<open>sp_in\<close> and \<open>sp_out\<close> are ghosts, all bytes that were put into the buffer of a side and all that were taken out, and so are \<open>sp_posted\<close>, the
  reads posted to their executor, and \<open>sp_bad\<close>, a use of a read that is gone.
\<close>

record half =
  hf_buf :: "byte list"
  hf_max_read_size :: nat
  hf_pending :: "nat option"
  hf_eof :: bool
  hf_ptr :: addr

record reader =
  rd_index :: bool
  rd_buffers :: "mutable_buffer list"
  rd_side :: bool
  rd_claimed :: bool
  rd_canceled :: bool
  rd_stop_cb :: bool

record stream_pair =
  sp_fuse :: fuse_state
  sp_closed :: bool
  sp_half :: "bool \<Rightarrow> half"
  sp_reader :: "nat \<rightharpoonup> reader"
  sp_in :: "bool \<Rightarrow> byte list"
  sp_out :: "bool \<Rightarrow> byte list"
  sp_posted :: "nat list"
  sp_bad :: bool

text \<open>\<open>ptr\<close> gives the storage of the two strings.\<close>

definition make_stream_pair :: "(bool \<Rightarrow> addr) \<Rightarrow> fuse_state \<Rightarrow> stream_pair" where
  "make_stream_pair ptr f =
     \<lparr>sp_fuse = f, sp_closed = False,
      sp_half = (\<lambda>i. \<lparr>hf_buf = [], hf_max_read_size = size_max, hf_pending = None, hf_eof = False, hf_ptr = ptr i\<rparr>),
      sp_reader = Map.empty, sp_in = (\<lambda>_. []), sp_out = (\<lambda>_. []), sp_posted = [], sp_bad = False\<rparr>"

definition upd_half :: "bool \<Rightarrow> (half \<Rightarrow> half) \<Rightarrow> stream_pair \<Rightarrow> stream_pair" where
  "upd_half i f s = s\<lparr>sp_half := (sp_half s)(i := f (sp_half s i))\<rparr>"

definition put_reader :: "nat \<Rightarrow> reader \<Rightarrow> stream_pair \<Rightarrow> stream_pair" where
  "put_reader r x s = s\<lparr>sp_reader := (sp_reader s)(r \<mapsto> x)\<rparr>"

definition post_reader :: "nat \<Rightarrow> stream_pair \<Rightarrow> stream_pair" where
  "post_reader r s = s\<lparr>sp_posted := sp_posted s @ [r]\<rparr>"

section \<open>Waking and closing\<close>

definition sp_wake :: "bool \<Rightarrow> stream_pair \<Rightarrow> stream_pair" where
  "sp_wake i s =
     (case hf_pending (sp_half s i) of
        None \<Rightarrow> s
      | Some r \<Rightarrow>
          let s = upd_half i (\<lambda>h. h\<lparr>hf_pending := None\<rparr>) s
          in (case sp_reader s r of
                None \<Rightarrow> s\<lparr>sp_bad := True\<rparr>
              | Some x \<Rightarrow> if rd_claimed x then s else post_reader r (put_reader r (x\<lparr>rd_claimed := True\<rparr>) s)))"

definition sp_close_state :: "stream_pair \<Rightarrow> stream_pair" where
  "sp_close_state s = sp_wake True (sp_wake False (s\<lparr>sp_closed := True\<rparr>))"

definition sp_close :: "bool \<Rightarrow> stream_pair \<Rightarrow> stream_pair" where
  "sp_close i s = sp_wake (\<not> i) (upd_half (\<not> i) (\<lambda>h. h\<lparr>hf_eof := True\<rparr>) s)"

definition sp_set_max_read_size :: "bool \<Rightarrow> nat \<Rightarrow> stream_pair \<Rightarrow> stream_pair" where
  "sp_set_max_read_size i n s = upd_half i (\<lambda>h. h\<lparr>hf_max_read_size := n\<rparr>) s"

text \<open>The call of the fuse under the guard that closes both ends.\<close>

definition sp_maybe_fail :: "nat \<Rightarrow> stream_pair \<Rightarrow> (cpp_exception + error_code) \<times> stream_pair" where
  "sp_maybe_fail loc s =
     (case maybe_fail loc (sp_fuse s) of
        (Inl e, f) \<Rightarrow> (Inl e, sp_close_state (s\<lparr>sp_fuse := f\<rparr>))
      | (Inr ec, f) \<Rightarrow> (Inr ec, if failed ec then sp_close_state (s\<lparr>sp_fuse := f\<rparr>) else s\<lparr>sp_fuse := f\<rparr>))"

section \<open>Reading\<close>

definition read_init :: "bool \<Rightarrow> mutable_buffer list \<Rightarrow> reader" where
  "read_init i bufs = \<lparr>rd_index = i, rd_buffers = bufs, rd_side = False, rd_claimed = False, rd_canceled = False, rd_stop_cb = False\<rparr>"

definition read_ready :: "bool \<Rightarrow> mutable_buffer list \<Rightarrow> stream_pair \<Rightarrow> bool" where
  "read_ready i bufs s \<longleftrightarrow> buffer_empty bufs \<or> sp_closed s \<or> hf_eof (sp_half s i) \<or> hf_buf (sp_half s i) \<noteq> []"

text \<open>\<^verbatim>\<open>await_suspend\<close> of the read at \<open>r\<close>, which is \<open>x\<close>: whether it suspends.\<close>

definition read_suspend :: "bool \<Rightarrow> nat \<Rightarrow> reader \<Rightarrow> stream_pair \<Rightarrow> bool \<times> stream_pair" where
  "read_suspend stop r x s =
     (if stop then (False, put_reader r (x\<lparr>rd_canceled := True\<rparr>) s)
      else (True, put_reader r (x\<lparr>rd_side := True, rd_stop_cb := True\<rparr>) (upd_half (rd_index x) (\<lambda>h. h\<lparr>hf_pending := Some r\<rparr>) s)))"

text \<open>The stop callback.\<close>

definition read_cancel_fn :: "nat \<Rightarrow> reader \<Rightarrow> stream_pair \<Rightarrow> stream_pair" where
  "read_cancel_fn r x s = (if rd_claimed x then s else post_reader r (put_reader r (x\<lparr>rd_claimed := True, rd_canceled := True\<rparr>) s))"

definition read_unlink :: "nat \<Rightarrow> reader \<Rightarrow> stream_pair \<Rightarrow> stream_pair" where
  "read_unlink r x s =
     (if rd_side x \<and> hf_pending (sp_half s (rd_index x)) = Some r then upd_half (rd_index x) (\<lambda>h. h\<lparr>hf_pending := None\<rparr>) s else s)"

definition read_destroy :: "nat \<Rightarrow> reader \<Rightarrow> stream_pair \<Rightarrow> stream_pair" where
  "read_destroy r x s = (read_unlink r x s)\<lparr>sp_reader := (sp_reader s)(r := None)\<rparr>"

text \<open>\<^verbatim>\<open>await_resume\<close>: the copy, and the whole.\<close>

definition read_copy :: "reader \<Rightarrow> stream_pair \<Rightarrow> memory \<Rightarrow> stream_pair read_result" where
  "read_copy x s m =
     (let i = rd_index x;
          side = sp_half s i;
          (n, m) = buffer_copy (rd_buffers x) [make_buffer (hf_ptr side) (length (hf_buf side))] (hf_max_read_size side) (overlay (hf_ptr side) (hf_buf side) m)
      in Inr (success, n, (upd_half i (\<lambda>h. h\<lparr>hf_buf := drop n (hf_buf h)\<rparr>) s)\<lparr>sp_out := (sp_out s)(i := sp_out s i @ take n (hf_buf side))\<rparr>, m))"

definition read_resume :: "nat \<Rightarrow> nat \<Rightarrow> reader \<Rightarrow> stream_pair \<Rightarrow> memory \<Rightarrow> stream_pair read_result" where
  "read_resume loc r x s m =
     (let s = put_reader r (x\<lparr>rd_stop_cb := False\<rparr>) s;
          i = rd_index x
      in if buffer_empty (rd_buffers x) then Inr (success, 0, s, m)
         else if rd_canceled x then Inr (make_error_code canceled, 0, read_unlink r x s, m)
         else if sp_closed s then Inr (make_error_code eof, 0, s, m)
         else if hf_eof (sp_half s i) \<and> hf_buf (sp_half s i) = [] then Inr (make_error_code eof, 0, s, m)
         else if \<not> hf_eof (sp_half s i)
         then (case sp_maybe_fail loc s of
                 (Inl e, s) \<Rightarrow> Inl (e, s, m)
               | (Inr ec, s) \<Rightarrow> if failed ec then Inr (ec, 0, s, m) else read_copy x s m)
         else read_copy x s m)"

section \<open>Writing\<close>

definition sp_write_some :: "nat \<Rightarrow> bool \<Rightarrow> bool \<Rightarrow> stream_pair write_op" where
  "sp_write_some loc stop i s bufs m =
     (let n = buffer_size bufs
      in if n = 0 then Inr (success, 0, s)
         else if stop then Inr (make_error_code canceled, 0, s)
         else if sp_closed s then Inr (make_error_code eof, 0, s)
         else (case sp_maybe_fail loc s of
                 (Inl e, s) \<Rightarrow> Inl (e, s)
               | (Inr ec, s) \<Rightarrow>
                   if failed ec then Inr (ec, 0, s)
                   else let p = (\<not> i);
                            old_size = length (hf_buf (sp_half s p));
                            ptr = hf_ptr (sp_half s p);
                            m' = snd (buffer_copy [make_buffer (ptr + old_size) n] bufs n m);
                            bytes = map m' [ptr + old_size..<ptr + old_size + n];
                            s = (upd_half p (\<lambda>h. h\<lparr>hf_buf := hf_buf h @ bytes\<rparr>) s)\<lparr>sp_in := (sp_in s)(p := sp_in s p @ bytes)\<rparr>
                        in Inr (success, n, sp_wake p s)))"

definition sp_provide :: "bool \<Rightarrow> byte list \<Rightarrow> stream_pair \<Rightarrow> stream_pair" where
  "sp_provide i sv s =
     (let p = (\<not> i)
      in sp_wake p ((upd_half p (\<lambda>h. h\<lparr>hf_buf := hf_buf h @ sv\<rparr>) s)\<lparr>sp_in := (sp_in s)(p := sp_in s p @ sv)\<rparr>))"

definition sp_data :: "bool \<Rightarrow> stream_pair \<Rightarrow> byte list" where
  "sp_data i s = hf_buf (sp_half s i)"

section \<open>Runs\<close>

fun read_state :: "stream_pair read_result \<Rightarrow> stream_pair" where
  "read_state (Inl (e, s, m)) = s" | "read_state (Inr (ec, n, s, m)) = s"

fun write_state :: "stream_pair write_result \<Rightarrow> stream_pair" where
  "write_state (Inl (e, s)) = s" | "write_state (Inr (ec, n, s)) = s"

text \<open>A read that returned: its awaitable goes too.\<close>

definition read_end :: "nat \<Rightarrow> stream_pair \<Rightarrow> stream_pair" where
  "read_end r s = (case sp_reader s r of None \<Rightarrow> s\<lparr>sp_bad := True\<rparr> | Some x \<Rightarrow> read_destroy r x s)"

text \<open>
  At most one read of an end is in progress. A read that is posted is resumed, or its frame is destroyed, which can happen to a parked read at any time. What is
  provided is not empty.
\<close>

definition free_end :: "bool \<Rightarrow> stream_pair \<Rightarrow> bool" where
  "free_end i s \<longleftrightarrow> (\<forall>r x. sp_reader s r = Some x \<longrightarrow> rd_index x \<noteq> i)"

inductive sp_step :: "stream_pair \<Rightarrow> stream_pair \<Rightarrow> bool" where
  reads: "\<lbrakk>free_end i s; sp_reader s r = None; r \<notin> set (sp_posted s); read_ready i bufs s\<rbrakk>
    \<Longrightarrow> sp_step s (read_end r (read_state (read_resume loc r (read_init i bufs) s m)))"
| stopped: "\<lbrakk>free_end i s; sp_reader s r = None; r \<notin> set (sp_posted s); \<not> read_ready i bufs s; read_suspend True r (read_init i bufs) s = (False, s'); sp_reader s' r = Some x\<rbrakk>
    \<Longrightarrow> sp_step s (read_end r (read_state (read_resume loc r x s' m)))"
| parks: "\<lbrakk>free_end i s; sp_reader s r = None; r \<notin> set (sp_posted s); \<not> read_ready i bufs s; read_suspend False r (read_init i bufs) s = (True, s')\<rbrakk> \<Longrightarrow> sp_step s s'"
| cancels: "\<lbrakk>sp_reader s r = Some x; rd_stop_cb x\<rbrakk> \<Longrightarrow> sp_step s (read_cancel_fn r x s)"
| resumes: "\<lbrakk>sp_reader s r = Some x; rd_claimed x\<rbrakk> \<Longrightarrow> sp_step s (read_end r (read_state (read_resume loc r x s m)))"
| destroys: "sp_reader s r = Some x \<Longrightarrow> sp_step s (read_destroy r x s)"
| writes: "sp_step s (write_state (sp_write_some loc stop i s bufs m))"
| provides: "sv \<noteq> [] \<Longrightarrow> sp_step s (sp_provide i sv s)"
| closes: "sp_step s (sp_close i s)"
| limits: "sp_step s (sp_set_max_read_size i n s)"

inductive sp_reach :: "(bool \<Rightarrow> addr) \<Rightarrow> stream_pair \<Rightarrow> bool" for ptr where
  start: "sp_reach ptr (make_stream_pair ptr f)"
| step: "sp_reach ptr s \<Longrightarrow> sp_step s s' \<Longrightarrow> sp_reach ptr s'"

section \<open>The invariant\<close>

text \<open>A side from which a read can complete.\<close>

definition ready_at :: "bool \<Rightarrow> stream_pair \<Rightarrow> bool" where
  "ready_at i s \<longleftrightarrow> sp_closed s \<or> hf_eof (sp_half s i) \<or> hf_buf (sp_half s i) \<noteq> []"

text \<open>A read in progress: nobody has claimed it and its side knows it, or it was claimed and posted, by a stop request or because there is something to read.\<close>

definition reader_ok :: "stream_pair \<Rightarrow> nat \<Rightarrow> reader \<Rightarrow> bool" where
  "reader_ok s r x \<longleftrightarrow> rd_side x \<and> addrs (rd_buffers x) \<noteq> [] \<and> (rd_claimed x \<longleftrightarrow> r \<in> set (sp_posted s)) \<and> (rd_canceled x \<longrightarrow> rd_claimed x)
     \<and> (\<not> rd_claimed x \<longrightarrow> hf_pending (sp_half s (rd_index x)) = Some r)
     \<and> (rd_claimed x \<and> \<not> rd_canceled x \<longrightarrow> ready_at (rd_index x) s \<and> hf_pending (sp_half s (rd_index x)) \<noteq> Some r)"

definition sp_weak :: "stream_pair \<Rightarrow> bool" where
  "sp_weak s \<longleftrightarrow> \<not> sp_bad s \<and> distinct (sp_posted s) \<and> (\<forall>i. sp_in s i = sp_out s i @ hf_buf (sp_half s i))
     \<and> (\<forall>r x. sp_reader s r = Some x \<longrightarrow> reader_ok s r x)
     \<and> (\<forall>r r' x x'. sp_reader s r = Some x \<longrightarrow> sp_reader s r' = Some x' \<longrightarrow> rd_index x = rd_index x' \<longrightarrow> r = r')
     \<and> (\<forall>i r. hf_pending (sp_half s i) = Some r \<longrightarrow> (\<exists>x. sp_reader s r = Some x \<and> rd_index x = i))"

definition sp_inv :: "stream_pair \<Rightarrow> bool" where
  "sp_inv s \<longleftrightarrow> sp_weak s \<and> (\<forall>i. hf_pending (sp_half s i) \<noteq> None \<longrightarrow> \<not> ready_at i s)"

lemmas sp_defs = upd_half_def put_reader_def post_reader_def

lemma upd_half_sel [simp]:
  "sp_half (upd_half i f s) = (sp_half s)(i := f (sp_half s i))" "sp_reader (upd_half i f s) = sp_reader s" "sp_closed (upd_half i f s) = sp_closed s"
  "sp_posted (upd_half i f s) = sp_posted s" "sp_bad (upd_half i f s) = sp_bad s" "sp_in (upd_half i f s) = sp_in s" "sp_out (upd_half i f s) = sp_out s" "sp_fuse (upd_half i f s) = sp_fuse s"
  by (simp_all add: upd_half_def)

lemma sp_weakD:
  assumes "sp_weak s"
  shows "\<not> sp_bad s" "distinct (sp_posted s)" "sp_in s i = sp_out s i @ hf_buf (sp_half s i)" "sp_reader s r = Some x \<Longrightarrow> reader_ok s r x"
    "sp_reader s r = Some x \<Longrightarrow> sp_reader s r' = Some x' \<Longrightarrow> rd_index x = rd_index x' \<Longrightarrow> r = r'"
    "hf_pending (sp_half s i) = Some r \<Longrightarrow> \<exists>x. sp_reader s r = Some x \<and> rd_index x = i"
  using assms unfolding sp_weak_def by blast+

lemma sp_weakI:
  assumes "\<not> sp_bad s" "distinct (sp_posted s)" "\<And>i. sp_in s i = sp_out s i @ hf_buf (sp_half s i)" "\<And>r x. sp_reader s r = Some x \<Longrightarrow> reader_ok s r x"
    "\<And>r x r' x'. sp_reader s r = Some x \<Longrightarrow> sp_reader s r' = Some x' \<Longrightarrow> rd_index x = rd_index x' \<Longrightarrow> r = r'"
    "\<And>i r. hf_pending (sp_half s i) = Some r \<Longrightarrow> \<exists>x. sp_reader s r = Some x \<and> rd_index x = i"
  shows "sp_weak s"
  using assms unfolding sp_weak_def by blast

lemma reader_ok_cong:
  assumes "reader_ok s r x" "r \<in> set (sp_posted s') \<longleftrightarrow> r \<in> set (sp_posted s)" "hf_pending (sp_half s' (rd_index x)) = hf_pending (sp_half s (rd_index x))"
    "ready_at (rd_index x) s \<Longrightarrow> ready_at (rd_index x) s'"
  shows "reader_ok s' r x"
  using assms unfolding reader_ok_def by metis

lemma pending_reader:
  assumes "sp_weak s" "hf_pending (sp_half s i) = Some r"
  obtains x where "sp_reader s r = Some x" "rd_index x = i" "reader_ok s r x" "rd_claimed x \<longrightarrow> rd_canceled x"
proof -
  obtain x where x: "sp_reader s r = Some x" "rd_index x = i" using sp_weakD(6) [OF assms] by blast
  moreover have ok: "reader_ok s r x" by (rule sp_weakD(4) [OF assms(1) x(1)])
  moreover have "rd_claimed x \<longrightarrow> rd_canceled x" using ok assms(2) x(2) by (auto simp: reader_ok_def)
  ultimately show thesis by (rule that)
qed

text \<open>Waking a side from which there is something to read.\<close>

lemma wake_sel [simp]:
  "sp_closed (sp_wake i s) = sp_closed s" "sp_in (sp_wake i s) = sp_in s" "sp_out (sp_wake i s) = sp_out s" "sp_fuse (sp_wake i s) = sp_fuse s"
  "sp_half (sp_wake i s) = (sp_half s)(i := (sp_half s i)\<lparr>hf_pending := None\<rparr>)"
  by (cases "hf_pending (sp_half s i)"; auto simp: sp_wake_def post_reader_def put_reader_def Let_def fun_upd_idem split: option.split)+

lemma wake_ready [simp]: "ready_at j (sp_wake i s) = ready_at j s"
  by (simp add: ready_at_def)

lemma wake_weak:
  assumes "sp_weak s" "ready_at i s"
  shows "sp_weak (sp_wake i s)"
proof (cases "hf_pending (sp_half s i)")
  case None
  then show ?thesis using assms(1) by (simp add: sp_wake_def)
next
  case (Some r)
  obtain x where x: "sp_reader s r = Some x" "rd_index x = i" "reader_ok s r x" "rd_claimed x \<longrightarrow> rd_canceled x" by (rule pending_reader [OF assms(1) Some])
  let ?u = "upd_half i (\<lambda>h. h\<lparr>hf_pending := None\<rparr>) s" and ?x = "x\<lparr>rd_claimed := True\<rparr>"
  have w: "sp_reader (sp_wake i s) = (sp_reader s)(r \<mapsto> ?x) \<and> sp_posted (sp_wake i s) = (if rd_claimed x then sp_posted s else sp_posted s @ [r]) \<and> sp_bad (sp_wake i s) = sp_bad s"
    using Some x(1) by (auto simp: sp_wake_def post_reader_def put_reader_def fun_upd_idem)
  have post: "r \<in> set (sp_posted s) \<longleftrightarrow> rd_claimed x" using x(3) by (auto simp: reader_ok_def)
  have ok: "reader_ok (sp_wake i s) r ?x" using x assms(2) w post by (auto simp: reader_ok_def)
  have others: "reader_ok (sp_wake i s) r' y" if y: "sp_reader s r' = Some y" "r' \<noteq> r" for r' y
  proof (rule reader_ok_cong [OF sp_weakD(4) [OF assms(1) y(1)]])
    show "r' \<in> set (sp_posted (sp_wake i s)) \<longleftrightarrow> r' \<in> set (sp_posted s)" using w y(2) by simp
    have "rd_index y \<noteq> i" using sp_weakD(5) [OF assms(1) x(1) y(1)] x(2) y(2) by auto
    then show "hf_pending (sp_half (sp_wake i s) (rd_index y)) = hf_pending (sp_half s (rd_index y))" by simp
  qed simp
  show ?thesis
  proof (rule sp_weakI)
    show "reader_ok (sp_wake i s) r' y" if "sp_reader (sp_wake i s) r' = Some y" for r' y using that w ok others by (cases "r' = r") auto
    show "r1 = r2" if "sp_reader (sp_wake i s) r1 = Some x1" "sp_reader (sp_wake i s) r2 = Some x2" "rd_index x1 = rd_index x2" for r1 x1 r2 x2
      using that w sp_weakD(5) [OF assms(1)] x(1) by (auto split: if_splits)
    show "\<exists>y. sp_reader (sp_wake i s) r' = Some y \<and> rd_index y = j" if "hf_pending (sp_half (sp_wake i s) j) = Some r'" for j r'
      using that w sp_weakD(6) [OF assms(1), of j r'] x by (auto split: if_splits)
    show "sp_in (sp_wake i s) j = sp_out (sp_wake i s) j @ hf_buf (sp_half (sp_wake i s) j)" for j using sp_weakD(3) [OF assms(1)] by simp
  qed (use w sp_weakD(1,2) [OF assms(1)] post in auto)
qed

text \<open>Changes that leave the reads alone and make no side less ready.\<close>

lemma weak_more:
  assumes "sp_weak s" "sp_reader s' = sp_reader s" "sp_posted s' = sp_posted s" "sp_bad s' = sp_bad s" "\<And>i. hf_pending (sp_half s' i) = hf_pending (sp_half s i)"
    "\<And>i r x. sp_reader s r = Some x \<Longrightarrow> rd_index x = i \<Longrightarrow> ready_at i s \<Longrightarrow> ready_at i s'" "\<And>i. sp_in s' i = sp_out s' i @ hf_buf (sp_half s' i)"
  shows "sp_weak s'"
proof (rule sp_weakI)
  show "reader_ok s' r x" if "sp_reader s' r = Some x" for r x
    by (rule reader_ok_cong [OF sp_weakD(4) [OF assms(1)]]) (use that assms in auto)
qed (use assms sp_weakD [OF assms(1)] in auto)

lemma sp_invI:
  assumes "sp_weak s" "\<And>i. ready_at i s \<Longrightarrow> hf_pending (sp_half s i) = None"
  shows "sp_inv s"
  using assms unfolding sp_inv_def by auto

lemma sp_invD:
  assumes "sp_inv s"
  shows "sp_weak s" "ready_at i s \<Longrightarrow> hf_pending (sp_half s i) = None"
  using assms unfolding sp_inv_def by blast+

lemma inv_close_state:
  assumes "sp_weak s"
  shows "sp_inv (sp_close_state s)"
proof -
  let ?c = "s\<lparr>sp_closed := True\<rparr>"
  have "sp_weak ?c" by (rule weak_more [OF assms]) (use sp_weakD(3) [OF assms] in \<open>simp_all add: ready_at_def\<close>)
  then have "sp_weak (sp_close_state s)" unfolding sp_close_state_def by (intro wake_weak) (simp_all add: ready_at_def)
  then show ?thesis by (rule sp_invI) (simp add: sp_close_state_def)
qed

text \<open>A side gets something to read and is woken.\<close>

lemma inv_arrival:
  assumes "sp_inv s" "sp_weak t" "ready_at i t" "\<And>j. j \<noteq> i \<Longrightarrow> sp_half t j = sp_half s j" "sp_closed t = sp_closed s"
  shows "sp_inv (sp_wake i t)"
proof (rule sp_invI [OF wake_weak [OF assms(2,3)]])
  fix j assume "ready_at j (sp_wake i t)"
  then show "hf_pending (sp_half (sp_wake i t) j) = None"
    using sp_invD(2) [OF assms(1), of j] assms(4) [of j] assms(5) by (cases "j = i") (auto simp: ready_at_def)
qed

lemma inv_close:
  assumes "sp_inv s"
  shows "sp_inv (sp_close i s)"
  unfolding sp_close_def
proof (rule inv_arrival [OF assms])
  show "sp_weak (upd_half (\<not> i) (\<lambda>h. h\<lparr>hf_eof := True\<rparr>) s)"
    by (rule weak_more [OF sp_invD(1) [OF assms]]) (use sp_weakD(3) [OF sp_invD(1) [OF assms]] in \<open>auto simp: ready_at_def\<close>)
qed (auto simp: ready_at_def)

lemma inv_bytes:
  assumes "sp_inv s" "sv \<noteq> []"
  shows "sp_inv (sp_wake p ((upd_half p (\<lambda>h. h\<lparr>hf_buf := hf_buf h @ sv\<rparr>) s)\<lparr>sp_in := (sp_in s)(p := sp_in s p @ sv)\<rparr>))"
proof (rule inv_arrival [OF assms(1)])
  show "sp_weak ((upd_half p (\<lambda>h. h\<lparr>hf_buf := hf_buf h @ sv\<rparr>) s)\<lparr>sp_in := (sp_in s)(p := sp_in s p @ sv)\<rparr>)"
    by (rule weak_more [OF sp_invD(1) [OF assms(1)]]) (use sp_weakD(3) [OF sp_invD(1) [OF assms(1)]] in \<open>auto simp: ready_at_def\<close>)
qed (use assms(2) in \<open>auto simp: ready_at_def\<close>)

lemma inv_fuse: "sp_inv (s\<lparr>sp_fuse := f\<rparr>) = sp_inv s"
  unfolding sp_inv_def sp_weak_def reader_ok_def ready_at_def by simp

lemma inv_maybe_fail: "sp_inv s \<Longrightarrow> sp_inv (snd (sp_maybe_fail loc s))"
  using inv_close_state [OF sp_invD(1)] inv_fuse by (auto simp: sp_maybe_fail_def split: prod.split sum.split)

lemma inv_write:
  assumes "sp_inv s"
  shows "sp_inv (write_state (sp_write_some loc stop i s bufs m))"
proof -
  obtain q s' where q: "sp_maybe_fail loc s = (q, s')" by fastforce
  then have s': "sp_inv s'" using inv_maybe_fail [OF assms, of loc] by simp
  show ?thesis
  proof (cases "buffer_size bufs = 0 \<or> stop \<or> sp_closed s")
    case True
    then show ?thesis using assms by (auto simp: sp_write_some_def Let_def)
  next
    case False
    let ?o = "hf_ptr (sp_half s' (\<not> i)) + length (hf_buf (sp_half s' (\<not> i)))"
    have "map f [?o..<?o + buffer_size bufs] \<noteq> []" for f :: "addr \<Rightarrow> byte" using False by simp
    from inv_bytes [OF s' this, of "\<not> i"] show ?thesis using False q s' by (auto simp: sp_write_some_def Let_def split: sum.split)
  qed
qed

lemma inv_limit:
  assumes "sp_inv s"
  shows "sp_inv (sp_set_max_read_size i n s)"
proof (rule sp_invI)
  have ready: "ready_at j (sp_set_max_read_size i n s) = ready_at j s" for j by (simp add: sp_set_max_read_size_def ready_at_def)
  show "sp_weak (sp_set_max_read_size i n s)"
    by (rule weak_more [OF sp_invD(1) [OF assms]]) (use sp_weakD(3) [OF sp_invD(1) [OF assms]] ready in \<open>auto simp: sp_set_max_read_size_def\<close>)
  show "hf_pending (sp_half (sp_set_max_read_size i n s) j) = None" if "ready_at j (sp_set_max_read_size i n s)" for j
    using sp_invD(2) [OF assms, of j] that ready [of j] by (auto simp: sp_set_max_read_size_def)
qed

section \<open>Reads keep the invariant\<close>

text \<open>A read that nothing refers to is apart from the rest of the state.\<close>

abbreviation set_reader :: "nat \<Rightarrow> reader option \<Rightarrow> stream_pair \<Rightarrow> stream_pair" where
  "set_reader r v s \<equiv> s\<lparr>sp_reader := (sp_reader s)(r := v)\<rparr>"

definition unlinked :: "nat \<Rightarrow> stream_pair \<Rightarrow> bool" where
  "unlinked r s \<longleftrightarrow> (\<forall>i. hf_pending (sp_half s i) \<noteq> Some r)"

lemma wake_apart: "unlinked r s \<Longrightarrow> sp_wake i (set_reader r v s) = set_reader r v (sp_wake i s) \<and> unlinked r (sp_wake i s)"
  by (auto simp: unlinked_def sp_wake_def upd_half_def post_reader_def put_reader_def Let_def fun_upd_twist split: option.split)

lemma close_apart:
  assumes "unlinked r s"
  shows "sp_close_state (set_reader r v s) = set_reader r v (sp_close_state s) \<and> unlinked r (sp_close_state s)"
proof -
  let ?c = "s\<lparr>sp_closed := True\<rparr>"
  have "unlinked r ?c" using assms by (simp add: unlinked_def)
  note w = wake_apart [OF this, of False]
  have "(set_reader r v s)\<lparr>sp_closed := True\<rparr> = set_reader r v ?c" by simp
  then have "sp_close_state (set_reader r v s) = sp_wake True (sp_wake False (set_reader r v ?c))" by (simp only: sp_close_state_def)
  also have "\<dots> = sp_wake True (set_reader r v (sp_wake False ?c))" using w by (simp only:)
  also have "\<dots> = set_reader r v (sp_wake True (sp_wake False ?c))" using wake_apart [of r "sp_wake False ?c"] w by blast
  finally show ?thesis using wake_apart [of r "sp_wake False ?c" True] w by (simp add: sp_close_state_def)
qed

lemma maybe_fail_apart:
  assumes "unlinked r s" "sp_maybe_fail loc s = (q, t)"
  shows "sp_maybe_fail loc (set_reader r v s) = (q, set_reader r v t) \<and> unlinked r t"
proof -
  have u: "unlinked r (s\<lparr>sp_fuse := f\<rparr>)" for f using assms(1) by (simp add: unlinked_def)
  have e: "(set_reader r v s)\<lparr>sp_fuse := f\<rparr> = set_reader r v (s\<lparr>sp_fuse := f\<rparr>)" for f by simp
  show ?thesis using assms(2) close_apart [OF u, where v = v] u
    unfolding sp_maybe_fail_def by (auto simp: e split: prod.splits sum.splits if_splits)
qed

lemma read_end_apart: "unlinked r s \<Longrightarrow> read_end r (set_reader r (Some x) s) = set_reader r None s"
  by (simp add: read_end_def read_destroy_def read_unlink_def unlinked_def)

text \<open>What is left of a read that returned and was not claimed by a stop request.\<close>

definition copied_state :: "reader \<Rightarrow> memory \<Rightarrow> stream_pair \<Rightarrow> stream_pair" where
  "copied_state x m s = read_state (read_copy x s m)"

lemma copy_apart: "copied_state x m (set_reader r v s) = set_reader r v (copied_state x m s) \<and> (unlinked r s \<longrightarrow> unlinked r (copied_state x m s))"
  by (auto simp: copied_state_def read_copy_def unlinked_def upd_half_def Let_def split: prod.split)

lemma read_net:
  fixes loc :: nat and m :: memory
  assumes "unlinked r s" "\<not> rd_canceled x"
  defines "d \<equiv> set_reader r None s" and "t \<equiv> read_end r (read_state (read_resume loc r x s m))"
  shows "t = d \<or> t = snd (sp_maybe_fail loc d) \<or> t = copied_state x m (snd (sp_maybe_fail loc d)) \<or> t = copied_state x m d"
proof -
  let ?x = "x\<lparr>rd_stop_cb := False\<rparr>"
  obtain q u where q: "sp_maybe_fail loc s = (q, u)" by fastforce
  note a = maybe_fail_apart [OF assms(1) q]
  have u: "unlinked r u" using a by blast
  have p: "put_reader r ?x s = set_reader r (Some ?x) s" by (simp add: put_reader_def)
  have read: "read_state (read_resume loc r x s m) = set_reader r (Some ?x) s \<or> read_state (read_resume loc r x s m) = set_reader r (Some ?x) u
      \<or> read_state (read_resume loc r x s m) = copied_state x m (set_reader r (Some ?x) u) \<or> read_state (read_resume loc r x s m) = copied_state x m (set_reader r (Some ?x) s)"
    using assms(2) a unfolding read_resume_def p copied_state_def by (auto simp: Let_def split: sum.split)
  have "snd (sp_maybe_fail loc d) = set_reader r None u" using a [of None] by (simp add: d_def)
  moreover have "copied_state x m d = set_reader r None (copied_state x m s)" "copied_state x m (set_reader r None u) = set_reader r None (copied_state x m u)"
    using copy_apart by (auto simp: d_def)
  moreover have "read_end r (copied_state x m (set_reader r (Some ?x) v)) = set_reader r None (copied_state x m v)" if "unlinked r v" for v
    using copy_apart [where x = x and m = m and r = r and s = v] read_end_apart that by metis
  ultimately show ?thesis using read read_end_apart [OF assms(1)] read_end_apart [OF u] u assms(1) unfolding t_def d_def by metis
qed

lemma inv_destroy_reader:
  assumes "sp_inv s" "sp_reader s r = Some x"
  shows "sp_inv (read_destroy r x s)"
proof -
  note w = sp_invD(1) [OF assms(1)]
  have pend: "hf_pending (sp_half (read_destroy r x s) i) = (if hf_pending (sp_half s i) = Some r then None else hf_pending (sp_half s i))" for i
  proof -
    have "rd_side x" using sp_weakD(4) [OF w assms(2)] by (simp add: reader_ok_def)
    moreover have "hf_pending (sp_half s i) \<noteq> Some r" if "rd_index x \<noteq> i" using sp_weakD(6) [OF w, of i r] assms(2) that by auto
    ultimately show ?thesis by (cases "rd_index x = i") (simp_all add: read_destroy_def read_unlink_def)
  qed
  have same: "sp_reader (read_destroy r x s) = (sp_reader s)(r := None)" "sp_posted (read_destroy r x s) = sp_posted s" "sp_bad (read_destroy r x s) = sp_bad s"
    "sp_in (read_destroy r x s) = sp_in s" "sp_out (read_destroy r x s) = sp_out s" "hf_buf (sp_half (read_destroy r x s) i) = hf_buf (sp_half s i)"
    "ready_at i (read_destroy r x s) = ready_at i s" for i
    by (simp_all add: read_destroy_def read_unlink_def ready_at_def)
  have other: "reader_ok (read_destroy r x s) r' y" if y: "sp_reader s r' = Some y" "r' \<noteq> r" for r' y
  proof (rule reader_ok_cong [OF sp_weakD(4) [OF w y(1)]])
    have "hf_pending (sp_half s (rd_index y)) \<noteq> Some r" using sp_weakD(6) [OF w, of "rd_index y" r] sp_weakD(5) [OF w y(1)] y(2) by blast
    then show "hf_pending (sp_half (read_destroy r x s) (rd_index y)) = hf_pending (sp_half s (rd_index y))" by (simp add: pend)
  qed (simp_all add: same)
  show ?thesis
  proof (rule sp_invI)
    show "sp_weak (read_destroy r x s)"
    proof (rule sp_weakI)
      show "\<exists>y. sp_reader (read_destroy r x s) r' = Some y \<and> rd_index y = i" if "hf_pending (sp_half (read_destroy r x s) i) = Some r'" for i r'
        using that sp_weakD(6) [OF w, of i r'] by (auto simp: pend same split: if_splits)
    qed (use same other sp_weakD [OF w] in \<open>auto split: if_splits\<close>)
    show "hf_pending (sp_half (read_destroy r x s) i) = None" if "ready_at i (read_destroy r x s)" for i
      using that sp_invD(2) [OF assms(1), of i] by (simp add: same pend)
  qed
qed

lemma free_no_pending: "sp_inv s \<Longrightarrow> free_end i s \<Longrightarrow> hf_pending (sp_half s i) = None"
  using sp_weakD(6) [OF sp_invD(1), of s i] unfolding free_end_def by (cases "hf_pending (sp_half s i)") blast+

lemma inv_copied:
  assumes "sp_inv s" "free_end (rd_index x) s"
  shows "sp_inv (copied_state x m s)"
proof -
  let ?i = "rd_index x" and ?t = "copied_state x m s"
  obtain n m' where "buffer_copy (rd_buffers x) [make_buffer (hf_ptr (sp_half s ?i)) (length (hf_buf (sp_half s ?i)))] (hf_max_read_size (sp_half s ?i))
      (overlay (hf_ptr (sp_half s ?i)) (hf_buf (sp_half s ?i)) m) = (n, m')" by fastforce
  then have t: "?t = (upd_half ?i (\<lambda>h. h\<lparr>hf_buf := drop n (hf_buf h)\<rparr>) s)\<lparr>sp_out := (sp_out s)(?i := sp_out s ?i @ take n (hf_buf (sp_half s ?i)))\<rparr>"
    by (simp add: copied_state_def read_copy_def Let_def)
  have ready: "ready_at j ?t = ready_at j s" if "j \<noteq> ?i" for j using that by (simp add: t ready_at_def)
  have pend: "hf_pending (sp_half ?t j) = hf_pending (sp_half s j)" for j by (simp add: t)
  note w = sp_invD(1) [OF assms(1)]
  show ?thesis
  proof (rule sp_invI)
    show "sp_weak ?t"
    proof (rule weak_more [OF w])
      show "ready_at j ?t" if "sp_reader s r = Some y" "rd_index y = j" "ready_at j s" for j r y
        using that ready [of j] assms(2) by (auto simp: free_end_def)
      show "sp_in ?t j = sp_out ?t j @ hf_buf (sp_half ?t j)" for j using sp_weakD(3) [OF w, of j] by (auto simp: t)
    qed (simp_all add: t)
    show "hf_pending (sp_half ?t j) = None" if "ready_at j ?t" for j
      using that ready [of j] sp_invD(2) [OF assms(1), of j] free_no_pending [OF assms] pend by (cases "j = ?i") auto
  qed
qed

lemma free_wake: "free_end i (sp_wake j s) = free_end i s"
  by (auto simp: free_end_def sp_wake_def upd_half_def post_reader_def put_reader_def Let_def split: option.split)

lemma free_maybe_fail: "free_end i s \<Longrightarrow> free_end i (snd (sp_maybe_fail loc s))"
proof -
  have "free_end i (u\<lparr>sp_fuse := f\<rparr>) = free_end i u" "free_end i (u\<lparr>sp_closed := True\<rparr>) = free_end i u" for u f by (simp_all add: free_end_def)
  then show "free_end i s \<Longrightarrow> free_end i (snd (sp_maybe_fail loc s))" by (auto simp: sp_maybe_fail_def sp_close_state_def free_wake split: prod.split sum.split)
qed

text \<open>A read that returns, with nothing else in progress on its side.\<close>

lemma inv_read:
  assumes "sp_inv (set_reader r None s)" "free_end (rd_index x) (set_reader r None s)" "unlinked r s" "\<not> rd_canceled x"
  shows "sp_inv (read_end r (read_state (read_resume loc r x s m)))"
  using read_net [OF assms(3,4), of loc m] assms(1,2) inv_maybe_fail [OF assms(1)] inv_copied [OF assms(1,2)]
    inv_copied [OF inv_maybe_fail [OF assms(1)] free_maybe_fail [OF assms(2)]] by metis

lemma unlinked_fresh: "sp_inv s \<Longrightarrow> sp_reader s r = None \<Longrightarrow> unlinked r s"
  using sp_weakD(6) [OF sp_invD(1), of s _ r] unfolding unlinked_def by force

lemma inv_resume:
  assumes "sp_inv s" "sp_reader s r = Some x" "rd_claimed x"
  shows "sp_inv (read_end r (read_state (read_resume loc r x s m)))"
proof (cases "rd_canceled x")
  case True
  have "addrs (rd_buffers x) \<noteq> []" using sp_weakD(4) [OF sp_invD(1) [OF assms(1)] assms(2)] by (simp add: reader_ok_def)
  then have "read_end r (read_state (read_resume loc r x s m)) = read_destroy r x s"
    using True by (auto simp: read_resume_def read_end_def read_destroy_def read_unlink_def put_reader_def upd_half_def buffer_empty_iff Let_def)
  then show ?thesis using inv_destroy_reader [OF assms(1,2)] by simp
next
  case False
  note w = sp_invD(1) [OF assms(1)]
  have u: "unlinked r s" unfolding unlinked_def
  proof (rule allI notI)+
    fix i assume "hf_pending (sp_half s i) = Some r"
    from pending_reader [OF w this] show False using assms(2,3) False by (metis option.inject)
  qed
  then have d: "read_destroy r x s = set_reader r None s" by (simp add: read_destroy_def read_unlink_def unlinked_def)
  have "free_end (rd_index x) (set_reader r None s)" using sp_weakD(5) [OF w assms(2)] by (auto simp: free_end_def)
  then show ?thesis using inv_read [OF _ _ u False] inv_destroy_reader [OF assms(1,2)] d by simp
qed

lemma inv_stopped:
  assumes "sp_inv s" "sp_reader s r = None" "addrs bufs \<noteq> []" "read_suspend True r (read_init i bufs) s = (False, s')" "sp_reader s' r = Some x"
  shows "read_end r (read_state (read_resume loc r x s' m)) = s"
proof -
  have s': "s' = set_reader r (Some ((read_init i bufs)\<lparr>rd_canceled := True\<rparr>)) s" "x = (read_init i bufs)\<lparr>rd_canceled := True\<rparr>"
    using assms(4,5) by (auto simp: read_suspend_def put_reader_def)
  then have "read_state (read_resume loc r x s' m) = set_reader r (Some (x\<lparr>rd_stop_cb := False\<rparr>)) s"
    using assms(3) by (simp add: read_resume_def read_init_def read_unlink_def put_reader_def buffer_empty_iff Let_def)
  then show ?thesis using read_end_apart [OF unlinked_fresh [OF assms(1,2)]] assms(2) by (simp add: fun_upd_idem)
qed

lemma inv_park:
  assumes "sp_inv s" "free_end i s" "sp_reader s r = None" "r \<notin> set (sp_posted s)" "\<not> read_ready i bufs s"
  shows "sp_inv (snd (read_suspend False r (read_init i bufs) s))"
proof -
  let ?x = "(read_init i bufs)\<lparr>rd_side := True, rd_stop_cb := True\<rparr>"
  let ?t = "set_reader r (Some ?x) (upd_half i (\<lambda>h. h\<lparr>hf_pending := Some r\<rparr>) s)"
  note w = sp_invD(1) [OF assms(1)]
  have ready: "ready_at j ?t = ready_at j s" for j by (simp add: ready_at_def)
  have i: "\<not> ready_at i s" "addrs bufs \<noteq> []" using assms(5) by (simp_all add: read_ready_def ready_at_def buffer_empty_iff)
  have x: "rd_index ?x = i" "reader_ok ?t r ?x" using assms(4) i(2) by (simp_all add: read_init_def reader_ok_def)
  have old: "rd_index y \<noteq> i" if "sp_reader s r' = Some y" for r' y using assms(2) that by (simp add: free_end_def)
  have others: "reader_ok ?t r' y" if "sp_reader s r' = Some y" for r' y
    by (rule reader_ok_cong [OF sp_weakD(4) [OF w that]]) (use old [OF that] in \<open>simp_all add: ready_at_def\<close>)
  have "sp_weak ?t"
  proof (rule sp_weakI)
    show "reader_ok ?t r' y" if "sp_reader ?t r' = Some y" for r' y using that x(2) others by (cases "r' = r") auto
    show "r1 = r2" if r: "sp_reader ?t r1 = Some y1" "sp_reader ?t r2 = Some y2" "rd_index y1 = rd_index y2" for r1 y1 r2 y2
      using r old [of r1 y1] old [of r2 y2] x(1) sp_weakD(5) [OF w, of r1 y1 r2 y2] by (cases "r1 = r"; cases "r2 = r") auto
    show "\<exists>y. sp_reader ?t r' = Some y \<and> rd_index y = j" if j: "hf_pending (sp_half ?t j) = Some r'" for j r'
    proof (cases "j = i")
      case True
      then show ?thesis using j x(1) by simp
    next
      case False
      then have "hf_pending (sp_half s j) = Some r'" using j by simp
      from sp_weakD(6) [OF w this] show ?thesis using assms(3) by auto
    qed
    show "sp_in ?t j = sp_out ?t j @ hf_buf (sp_half ?t j)" for j using sp_weakD(3) [OF w, of j] by simp
  qed (use sp_weakD(1,2) [OF w] in simp_all)
  moreover have "hf_pending (sp_half ?t j) = None" if "ready_at j ?t" for j
    using sp_invD(2) [OF assms(1), of j] that ready [of j] i(1) by (cases "j = i") simp_all
  ultimately have "sp_inv ?t" by (rule sp_invI)
  then show ?thesis by (simp add: read_suspend_def put_reader_def read_init_def)
qed

lemma inv_cancel:
  assumes "sp_inv s" "sp_reader s r = Some x"
  shows "sp_inv (read_cancel_fn r x s)"
proof (cases "rd_claimed x")
  case False
  let ?x = "x\<lparr>rd_claimed := True, rd_canceled := True\<rparr>"
  note w = sp_invD(1) [OF assms(1)] and ok = sp_weakD(4) [OF sp_invD(1) [OF assms(1)] assms(2)]
  have t: "read_cancel_fn r x s = post_reader r (put_reader r ?x s)" (is "_ = ?t") using False by (simp add: read_cancel_fn_def)
  have sel: "sp_reader ?t = (sp_reader s)(r \<mapsto> ?x)" "sp_posted ?t = sp_posted s @ [r]" "sp_half ?t = sp_half s" "sp_bad ?t = sp_bad s" "sp_in ?t = sp_in s" "sp_out ?t = sp_out s"
    "ready_at j ?t = ready_at j s" for j by (simp_all add: post_reader_def put_reader_def ready_at_def)
  have x: "reader_ok ?t r ?x" using ok sel by (simp add: reader_ok_def)
  have others: "reader_ok ?t r' y" if "sp_reader s r' = Some y" "r' \<noteq> r" for r' y
    by (rule reader_ok_cong [OF sp_weakD(4) [OF w that(1)]]) (use that(2) sel in simp_all)
  have "r \<notin> set (sp_posted s)" using ok False by (simp add: reader_ok_def)
  have "sp_weak ?t"
  proof (rule sp_weakI)
    show "reader_ok ?t r' y" if "sp_reader ?t r' = Some y" for r' y using that x others sel by (cases "r' = r") auto
    show "r1 = r2" if r: "sp_reader ?t r1 = Some y1" "sp_reader ?t r2 = Some y2" "rd_index y1 = rd_index y2" for r1 y1 r2 y2
    proof -
      have old: "\<exists>z. sp_reader s q = Some z \<and> rd_index z = rd_index y" if "sp_reader ?t q = Some y" for q y
        using that sel(1) assms(2) by (cases "q = r") auto
      obtain z1 z2 where "sp_reader s r1 = Some z1" "rd_index z1 = rd_index y1" "sp_reader s r2 = Some z2" "rd_index z2 = rd_index y2"
        using old [OF r(1)] old [OF r(2)] by blast
      then show ?thesis using sp_weakD(5) [OF w, of r1 z1 r2 z2] r(3) by simp
    qed
    show "\<exists>y. sp_reader ?t r' = Some y \<and> rd_index y = j" if "hf_pending (sp_half ?t j) = Some r'" for j r'
      using that sel sp_weakD(6) [OF w, of j r'] assms(2) by (cases "r' = r") auto
  qed (use sel sp_weakD(1-3) [OF w] \<open>r \<notin> _\<close> in simp_all)
  then show ?thesis unfolding t by (rule sp_invI) (use sel sp_invD(2) [OF assms(1)] in simp)
qed (simp add: read_cancel_fn_def assms(1))

lemma inv_sp_step: "sp_step s s' \<Longrightarrow> sp_inv s \<Longrightarrow> sp_inv s'"
proof (induction rule: sp_step.induct)
  case (reads i s r bufs loc m)
  have "set_reader r None s = s" using reads(2) by (simp add: fun_upd_idem)
  then show ?case by (intro inv_read) (use reads unlinked_fresh in \<open>simp_all add: read_init_def\<close>)
next
  case (stopped i s r bufs s' x loc m)
  then show ?case using inv_stopped [OF stopped(7,2) _ stopped(5,6), of loc m] by (simp add: read_ready_def buffer_empty_iff)
next
  case (parks i s r bufs s')
  then show ?case using inv_park [OF parks(6,1-4)] by simp
next
  case (provides sv s i)
  then show ?case using inv_bytes [of s sv "\<not> i"] unfolding sp_provide_def Let_def by blast
qed (simp_all add: inv_cancel inv_resume inv_destroy_reader inv_write inv_close inv_limit)

lemma sp_reach_inv: "sp_reach ptr s \<Longrightarrow> sp_inv s"
proof (induction rule: sp_reach.induct)
  case (start f)
  show ?case by (simp add: make_stream_pair_def sp_inv_def sp_weak_def)
qed (blast intro: inv_sp_step)

section \<open>A write meets the contract of write streams\<close>

lemma maybe_fail_half:
  assumes "sp_maybe_fail loc s = (q, t)"
  shows "hf_ptr (sp_half t i) = hf_ptr (sp_half s i)" "hf_buf (sp_half t i) = hf_buf (sp_half s i)" "hf_eof (sp_half t i) = hf_eof (sp_half s i)"
    "hf_max_read_size (sp_half t i) = hf_max_read_size (sp_half s i)" "sp_in t = sp_in s" "sp_out t = sp_out s"
  using assms by (auto simp: sp_maybe_fail_def sp_close_state_def split: prod.splits sum.splits if_splits)

lemma write_keeps_ptr:
  assumes "sp_write_some loc stop i s bufs m = Inr (ec, n, s')"
  shows "hf_ptr (sp_half s' j) = hf_ptr (sp_half s j)"
  using assms maybe_fail_half(1) [of loc s _ _ j] by (auto simp: sp_write_some_def Let_def split: if_splits sum.splits prod.splits)

lemma write_sends:
  assumes "sp_write_some loc stop i s bufs m = Inr (ec, n, s')" "addrs bufs \<noteq> []" "wf_buffers bufs" "set (addrs bufs) \<inter> {hf_ptr (sp_half s (\<not> i))..} = {}"
  shows "n = (if failed ec then 0 else length (addrs bufs)) \<and> sp_in s' (\<not> i) = sp_in s (\<not> i) @ map m (take n (addrs bufs))"
proof -
  obtain q t where q: "sp_maybe_fail loc s = (q, t)" by fastforce
  note h = maybe_fail_half [OF q]
  let ?o = "length (hf_buf (sp_half s (\<not> i)))" and ?p = "hf_ptr (sp_half s (\<not> i))" and ?n = "length (addrs bufs)"
  have fl: "failed (make_error_code canceled)" "failed (make_error_code eof)" "\<not> failed success"
    by (simp_all add: failed_def make_error_code_def success_def)
  have b: "map (snd (buffer_copy [make_buffer (?p + ?o) ?n] bufs ?n m)) [?p + ?o..<?p + ?o + ?n] = map m (addrs bufs)"
    using ws_copy_bytes [OF assms(3,4), of ?n ?o m] by simp
  consider (early) "n = 0" "failed ec" "s' = s \<or> s' = t"
    | (data) "n = ?n" "\<not> failed ec"
        "s' = sp_wake (\<not> i) ((upd_half (\<not> i) (\<lambda>h. h\<lparr>hf_buf := hf_buf h @ map m (addrs bufs)\<rparr>) t)\<lparr>sp_in := (sp_in s)(\<not> i := sp_in s (\<not> i) @ map m (addrs bufs))\<rparr>)"
    using assms(1-3) q h b fl by (auto simp: sp_write_some_def Let_def split: if_splits sum.splits)
  then show ?thesis using h(5) by cases auto
qed

interpretation pair_write: write_stream_contract "sp_write_some loc stop i" "\<lambda>s. hf_ptr (sp_half s (\<not> i)) = ptr" "{ptr..}" "\<lambda>s. sp_in s (\<not> i)"
  for loc stop i ptr
proof
  fix s bs m ec n s'
  assume "hf_ptr (sp_half s (\<not> i)) = ptr" "sp_write_some loc stop i s bs m = Inr (ec, n, s')"
  then show "hf_ptr (sp_half s' (\<not> i)) = ptr" using write_keeps_ptr by blast
next
  fix s bs m ec n s'
  assume a: "hf_ptr (sp_half s (\<not> i)) = ptr" "addrs bs \<noteq> []" "wf_buffers bs" "set (addrs bs) \<inter> {ptr..} = {}" and r: "sp_write_some loc stop i s bs m = Inr (ec, n, s')"
  note w = write_sends [OF r a(2,3)]
  show "n \<le> length (addrs bs) \<and> (if failed ec then n < length (addrs bs) else 1 \<le> n)" using w a by (auto simp: Suc_le_eq)
  show "sp_in s' (\<not> i) = sp_in s (\<not> i) @ map m (take n (addrs bs))" using w a by simp
qed

section \<open>What the pair promises\<close>

lemma read_copy_places:
  assumes "read_copy x s m = Inr (ec, n, s', m')" "distinct (addrs (rd_buffers x))"
    "set (addrs (rd_buffers x)) \<inter> {hf_ptr (sp_half s (rd_index x))..<hf_ptr (sp_half s (rd_index x)) + length (hf_buf (sp_half s (rd_index x)))} = {}"
  shows "\<not> failed ec" "n = min (hf_max_read_size (sp_half s (rd_index x))) (min (length (hf_buf (sp_half s (rd_index x)))) (length (addrs (rd_buffers x))))"
    "map m' (take n (addrs (rd_buffers x))) = take n (hf_buf (sp_half s (rd_index x)))"
    "sp_out s' (rd_index x) = sp_out s (rd_index x) @ take n (hf_buf (sp_half s (rd_index x)))"
proof -
  let ?h = "sp_half s (rd_index x)"
  let ?src = "[make_buffer (hf_ptr ?h) (length (hf_buf ?h))]"
  have a: "addrs ?src = [hf_ptr ?h..<hf_ptr ?h + length (hf_buf ?h)]" by (simp add: make_buffer_def mk_buffer_def baddrs_def)
  have c: "buffer_copy (rd_buffers x) ?src (hf_max_read_size ?h) (overlay (hf_ptr ?h) (hf_buf ?h) m) = (n, m')"
    and r: "ec = success" "sp_out s' (rd_index x) = sp_out s (rd_index x) @ take n (hf_buf ?h)"
    using assms(1) by (auto simp: read_copy_def Let_def split: prod.splits)
  have d: "set (addrs (rd_buffers x)) \<inter> set (addrs ?src) = {}" using assms(3) unfolding a by simp
  note p = buffer_copy_copied [OF assms(2) d c, unfolded a length_upt]
  then show n: "n = min (hf_max_read_size ?h) (min (length (hf_buf ?h)) (length (addrs (rd_buffers x))))" by simp
  have "map m' (take n (addrs (rd_buffers x))) = map (overlay (hf_ptr ?h) (hf_buf ?h) m) (take n (addrs ?src))" using p unfolding a copied_def by blast
  also have "take n (addrs ?src) = [hf_ptr ?h..<hf_ptr ?h + n]" unfolding a take_upt_shift using n by simp
  also have "map (overlay (hf_ptr ?h) (hf_buf ?h) m) \<dots> = take n (hf_buf ?h)" using overlay_inside [of 0 n "hf_buf ?h" "hf_ptr ?h" m] n by simp
  finally show "map m' (take n (addrs (rd_buffers x))) = take n (hf_buf ?h)" .
  show "\<not> failed ec" "sp_out s' (rd_index x) = sp_out s (rd_index x) @ take n (hf_buf ?h)" using r by (simp_all add: failed_def success_def)
qed

text \<open>
  C29. The stream pair, for any sequence of reads, writes, closes and injected failures at both ends, and of stop requests and destroyed frames: the bytes that were put into a side are those that were read from it followed by
  those still in its buffer, so nothing is lost, doubled or reordered. A read is posted at most once. One that waits unclaimed is known to its side, and there is nothing to read there, no
  end of the stream and no failure; one that was woken, and not by a stop request, has something to read or an end to report.
\<close>

theorem stream_pair_reliable:
  assumes "sp_reach ptr s"
  shows "\<not> sp_bad s \<and> distinct (sp_posted s) \<and> (\<forall>i. sp_in s i = sp_out s i @ sp_data i s)
    \<and> (\<forall>r x. sp_reader s r = Some x \<longrightarrow>
        (if rd_claimed x then r \<in> set (sp_posted s) \<and> (rd_canceled x \<or> read_ready (rd_index x) (rd_buffers x) s)
         else r \<notin> set (sp_posted s) \<and> hf_pending (sp_half s (rd_index x)) = Some r \<and> \<not> read_ready (rd_index x) (rd_buffers x) s))"
proof -
  note i = sp_reach_inv [OF assms]
  note w = sp_invD(1) [OF i]
  have "if rd_claimed x then r \<in> set (sp_posted s) \<and> (rd_canceled x \<or> read_ready (rd_index x) (rd_buffers x) s)
    else r \<notin> set (sp_posted s) \<and> hf_pending (sp_half s (rd_index x)) = Some r \<and> \<not> read_ready (rd_index x) (rd_buffers x) s" if "sp_reader s r = Some x" for r x
  proof -
    have "hf_pending (sp_half s (rd_index x)) \<noteq> None \<longrightarrow> \<not> ready_at (rd_index x) s" using sp_invD(2) [OF i, of "rd_index x"] by auto
    then show ?thesis using sp_weakD(4) [OF w that] by (auto simp: reader_ok_def read_ready_def ready_at_def buffer_empty_iff)
  qed
  then show ?thesis using sp_weakD(1-3) [OF w] by (simp add: sp_data_def)
qed

text \<open>A parked read and the end it waits at.\<close>

definition demo_parked :: stream_pair where
  "demo_parked = snd (read_suspend False 7 (read_init True [mk_buffer 10 4]) (make_stream_pair (\<lambda>_. 100) fuse_default))"

lemma demo_parked_reach: "sp_reach (\<lambda>_. 100) demo_parked"
proof -
  have "\<not> read_ready True [mk_buffer 10 4] (make_stream_pair (\<lambda>_. 100) fuse_default)" by (simp add: read_ready_def buffer_empty_iff make_stream_pair_def mk_buffer_def baddrs_def)
  then show ?thesis unfolding demo_parked_def
    by (intro sp_reach.step [OF sp_reach.start sp_step.parks [where i = True and r = 7 and bufs = "[mk_buffer 10 4]"]])
      (simp_all add: free_end_def make_stream_pair_def read_suspend_def)
qed

theorem stream_pair_reliable_witness:
  "sp_reach (\<lambda>_. 100) (sp_provide False [1, 2] demo_parked) \<and> distinct (sp_posted (sp_provide False [1, 2] demo_parked))
    \<and> sp_posted (sp_provide False [1, 2] demo_parked) = [7] \<and> sp_in (sp_provide False [1, 2] demo_parked) True = [1, 2]"
proof -
  have r: "sp_reach (\<lambda>_. 100) (sp_provide False [1, 2] demo_parked)" by (rule sp_reach.step [OF demo_parked_reach sp_step.provides]) simp
  have "sp_posted (sp_provide False [1, 2] demo_parked) = [7] \<and> sp_in (sp_provide False [1, 2] demo_parked) True = [1, 2]"
    by (simp add: demo_parked_def sp_provide_def sp_wake_def read_suspend_def put_reader_def post_reader_def upd_half_def make_stream_pair_def read_init_def)
  then show ?thesis using r stream_pair_reliable [OF r] by blast
qed

text \<open>
  A read that is resumed gives what arrived: it fails without touching memory, or it places the next bytes of its side in its buffers, in order, and takes them out. It succeeds with at least one
  byte, as the requirements of a read stream ask.
\<close>

theorem stream_pair_read:
  assumes "sp_reach ptr s" "sp_reader s r = Some x" "rd_claimed x" "distinct (addrs (rd_buffers x))" "0 < hf_max_read_size (sp_half s (rd_index x))"
    "set (addrs (rd_buffers x)) \<inter> {hf_ptr (sp_half s (rd_index x))..<hf_ptr (sp_half s (rd_index x)) + length (sp_data (rd_index x) s)} = {}"
    "read_resume loc r x s m = Inr (ec, n, s', m')"
  shows "if failed ec then n = 0 \<and> m' = m \<and> sp_out s' = sp_out s
    else 1 \<le> n \<and> n \<le> length (addrs (rd_buffers x)) \<and> map m' (take n (addrs (rd_buffers x))) = take n (sp_data (rd_index x) s)
      \<and> sp_out s' (rd_index x) = sp_out s (rd_index x) @ take n (sp_data (rd_index x) s)"
proof -
  note i = sp_reach_inv [OF assms(1)]
  note ok = sp_weakD(4) [OF sp_invD(1) [OF i] assms(2)]
  have a: "addrs (rd_buffers x) \<noteq> []" "\<not> rd_canceled x \<longrightarrow> ready_at (rd_index x) s" using ok assms(3) by (simp_all add: reader_ok_def)
  have fl: "failed (make_error_code canceled)" "failed (make_error_code eof)" by (simp_all add: failed_def make_error_code_def)
  let ?s = "put_reader r (x\<lparr>rd_stop_cb := False\<rparr>) s"
  have same: "sp_half ?s = sp_half s" "sp_out ?s = sp_out s" "sp_out (read_unlink r x ?s) = sp_out s" "sp_closed ?s = sp_closed s" by (simp_all add: put_reader_def read_unlink_def upd_half_def)
  obtain q t where q: "sp_maybe_fail loc ?s = (q, t)" by fastforce
  note h = maybe_fail_half [OF q, unfolded same]
  consider (error) "failed ec" "n = 0" "m' = m" "sp_out s' = sp_out s" | (eof) "hf_buf (sp_half s (rd_index x)) \<noteq> []" "read_copy x ?s m = Inr (ec, n, s', m')"
    | (live) "hf_buf (sp_half s (rd_index x)) \<noteq> []" "read_copy x t m = Inr (ec, n, s', m')"
    using assms(7) a q h fl same by (auto simp: read_resume_def ready_at_def buffer_empty_iff Let_def split: if_splits sum.splits)
  then show ?thesis
  proof cases
    case eof
    note c = read_copy_places [OF eof(2) assms(4), unfolded same]
    show ?thesis using c eof(1) a(1) assms(5,6) by (auto simp: sp_data_def Suc_le_eq)
  next
    case live
    note c = read_copy_places [OF live(2) assms(4), unfolded h same]
    show ?thesis using c live(1) a(1) assms(5,6) by (auto simp: sp_data_def Suc_le_eq)
  qed simp
qed

lemma stream_pair_read_demo:
  fixes m :: memory
  defines "s \<equiv> sp_close False (sp_provide False [1, 2] demo_parked)"
  defines "x \<equiv> \<lparr>rd_index = True, rd_buffers = [mk_buffer 10 4], rd_side = True, rd_claimed = True, rd_canceled = False, rd_stop_cb = True\<rparr>"
  shows "sp_reach (\<lambda>_. 100) s" "sp_reader s 7 = Some x" "sp_data True s = [1, 2]" "hf_max_read_size (sp_half s True) = size_max" "hf_ptr (sp_half s True) = 100"
    "\<exists>n s' m'. read_resume 0 7 x s m = Inr (success, n, s', m')"
proof -
  show "sp_reach (\<lambda>_. 100) s" unfolding s_def
    by (rule sp_reach.step [OF sp_reach.step [OF demo_parked_reach sp_step.provides] sp_step.closes]) simp
  note defs = demo_parked_def sp_provide_def sp_close_def sp_wake_def read_suspend_def put_reader_def post_reader_def upd_half_def make_stream_pair_def read_init_def
  show "sp_reader s 7 = Some x" and d: "sp_data True s = [1, 2]" and "hf_max_read_size (sp_half s True) = size_max" "hf_ptr (sp_half s True) = 100"
    by (simp_all add: s_def x_def sp_data_def defs)
  have "sp_closed s = False" "hf_eof (sp_half s True)" by (simp_all add: s_def defs)
  then show "\<exists>n s' m'. read_resume 0 7 x s m = Inr (success, n, s', m')"
    using d by (simp add: read_resume_def read_copy_def x_def sp_data_def put_reader_def buffer_empty_iff mk_buffer_def baddrs_def Let_def split: prod.split)
qed

theorem stream_pair_read_witness:
  "\<exists>x n s' m'. sp_reader (sp_close False (sp_provide False [1, 2] demo_parked)) 7 = Some x \<and> rd_buffers x = [mk_buffer 10 4]
    \<and> read_resume 0 7 x (sp_close False (sp_provide False [1, 2] demo_parked)) (\<lambda>_. 0) = Inr (success, n, s', m') \<and> 1 \<le> n \<and> map m' (take n [10, 11, 12, 13]) = take n [1, 2]"
proof -
  let ?s = "sp_close False (sp_provide False [1, 2] demo_parked)"
  let ?x = "\<lparr>rd_index = True, rd_buffers = [mk_buffer 10 4], rd_side = True, rd_claimed = True, rd_canceled = False, rd_stop_cb = True\<rparr>"
  note d = stream_pair_read_demo
  have a: "addrs [mk_buffer 10 4] = [10, 11, 12, 13]" by (simp add: mk_buffer_def baddrs_def upt_rec)
  obtain n s' m' where r: "read_resume 0 7 ?x ?s (\<lambda>_. 0) = Inr (success, n, s', m')" using stream_pair_read_demo(6) [where m = "\<lambda>_. 0"] by blast
  have "\<not> failed success" by (simp add: failed_def success_def)
  then show ?thesis using stream_pair_read [OF d(1,2) _ _ _ _ r] d r a by (auto simp: size_max_def)
qed

text \<open>
  Providing an empty string wakes a parked read although nothing arrived: unless a failure is injected, the read then succeeds with no byte, into buffers that have room. A read stream must
  not do that.
\<close>

theorem provide_empty_wakes:
  assumes "sp_reach ptr s" "hf_pending (sp_half s i) = Some r" "sp_reader s r = Some x" "\<not> rd_claimed x" "f_inert (sp_fuse s)"
  shows "addrs (rd_buffers x) \<noteq> [] \<and> (\<exists>s' m'. read_resume loc r (x\<lparr>rd_claimed := True\<rparr>) (sp_provide (\<not> i) [] s) m = Inr (success, 0, s', m'))
    \<and> sp_posted (sp_provide (\<not> i) [] s) = sp_posted s @ [r] \<and> sp_reader (sp_provide (\<not> i) [] s) r = Some (x\<lparr>rd_claimed := True\<rparr>)"
proof -
  note inv = sp_reach_inv [OF assms(1)]
  have ok: "addrs (rd_buffers x) \<noteq> []" "\<not> rd_canceled x" using sp_weakD(4) [OF sp_invD(1) [OF inv] assms(3)] assms(4) by (auto simp: reader_ok_def)
  have idx: "rd_index x = i" using sp_weakD(6) [OF sp_invD(1) [OF inv] assms(2)] assms(3) by simp
  have nr: "\<not> ready_at i s" using sp_invD(2) [OF inv, of i] assms(2) by auto
  let ?t = "sp_provide (\<not> i) [] s"
  have t: "?t = post_reader r (put_reader r (x\<lparr>rd_claimed := True\<rparr>) (upd_half i (\<lambda>h. h\<lparr>hf_pending := None\<rparr>) s))"
    using assms(2-4) by (simp add: sp_provide_def sp_wake_def upd_half_def fun_upd_idem)
  have "buffer_copy bufs [make_buffer p 0] k mm = (0, mm)" for bufs p k mm
    by (cases bufs) (auto simp: buffer_copy_def buffer_copy_loop.simps(1) copy_amount_def const_plus_assign_def mutable_plus_assign_def make_buffer_def mk_buffer_def Let_def)
  then have "\<exists>s' m'. read_resume loc r (x\<lparr>rd_claimed := True\<rparr>) ?t m = Inr (success, 0, s', m')"
    using ok nr idx assms(5) unfolding t
    by (simp add: read_resume_def read_copy_def ready_at_def put_reader_def post_reader_def upd_half_def buffer_empty_iff sp_maybe_fail_def maybe_fail_def failed_def success_def Let_def)
  then show ?thesis using ok(1) by (simp add: t put_reader_def post_reader_def upd_half_def)
qed

theorem provide_empty_wakes_witness:
  "\<exists>s' m'. read_resume 0 7 \<lparr>rd_index = True, rd_buffers = [mk_buffer 10 4], rd_side = True, rd_claimed = True, rd_canceled = False, rd_stop_cb = True\<rparr> (sp_provide False [] demo_parked) (\<lambda>_. 0)
    = Inr (success, 0, s', m')"
proof -
  let ?x = "\<lparr>rd_index = True, rd_buffers = [mk_buffer 10 4], rd_side = True, rd_claimed = False, rd_canceled = False, rd_stop_cb = True\<rparr>"
  have "hf_pending (sp_half demo_parked True) = Some 7" "sp_reader demo_parked 7 = Some ?x" "f_inert (sp_fuse demo_parked)"
    by (simp_all add: demo_parked_def read_suspend_def put_reader_def upd_half_def make_stream_pair_def read_init_def fuse_default_def fuse_init_def)
  from provide_empty_wakes [OF demo_parked_reach this(1,2) _ this(3), of 0 "\<lambda>_. 0"] show ?thesis by simp
qed

end
