(* ===== verification/Stream_Expect.thy ===== *)
theory Stream_Expect
  imports Stream_Pair
begin

text \<open>
  \<^verbatim>\<open>stream::expect\<close> of \<^verbatim>\<open>test/stream.hpp\<close>: the composed \<^verbatim>\<open>read\<close> of \<open>Stream_IO\<close> over an end of the stream pair, run to completion on the calling
  thread. An end of the pair is a read stream in the sense of the library's requirements, so the transfer theorem applies to it.
\<close>

section \<open>Where a transfer stops\<close>

fun stops :: "'s read_result \<Rightarrow> bool" where
  "stops (Inl _) = True"
| "stops (Inr (ec, _)) = failed ec"

context read_stream_contract
begin

text \<open>A transfer that ends in an exception or an error got it from a read made after fewer bytes than the limit.\<close>

lemma read_loop_stops:
  assumes "ok s" and "wf_consuming cb" and "consuming_bytes cb = drop tot A" and "tot \<le> length A"
    and A: "limit \<le> length A" "length A \<le> size_max" "distinct A" "set A \<inter> own = {}"
    and "read_loop read_some limit cb tot s m = Some x" "stops x"
  shows "\<exists>n s1 m1 bs. tot + n < limit \<and> ok s1 \<and> length (inp s) = n + length (inp s1) \<and> addrs bs \<noteq> [] \<and> stops (read_some s1 bs m1)"
  using assms(1-4,9)
proof (induction "limit - tot" arbitrary: tot cb s m rule: less_induct)
  case less
  let ?bs = "slice_list (consuming_data cb)"
  have bs: "addrs ?bs = drop tot A" using less.prems(3) by (simp add: consuming_bytes_def)
  have nf: "\<not> failed success" by (simp add: failed_def success_def)
  have lt: "tot < limit" using less.prems(5) assms(10) nf by (subst (asm) read_loop.simps) (auto split: if_splits)
  then have ne: "addrs ?bs \<noteq> []" "wf_buffers ?bs" "distinct (addrs ?bs)" "set (addrs ?bs) \<inter> own = {}"
    using A by (auto simp: bs wf_buffers_def dest: in_set_dropD)
  show ?case
  proof (cases "stops (read_some s ?bs m)")
    case True
    then show ?thesis using lt less.prems(1) ne(1) by (intro exI [of _ 0] exI [of _ s] exI [of _ m] exI [of _ ?bs]) simp
  next
    case False
    then obtain ec n s1 m1 where r: "read_some s ?bs m = Inr (ec, n, s1, m1)" "\<not> failed ec" by (cases "read_some s ?bs m") auto
    note c = count [OF less.prems(1) ne r(1), unfolded bs] and p = placed [OF less.prems(1) ne r(1)]
    have le: "tot + n \<le> length A" using c less.prems(4) by auto
    have sz: "size_add tot n = tot + n" using le A(2) by simp
    have len: "length (inp s) = n + length (inp s1)" using p c bs by simp
    have go: "read_loop read_some limit (consume cb n) (tot + n) s1 m1 = Some x"
      using less.prems(5) lt r sz by (auto simp: read_loop.simps [of read_some limit cb] split: if_splits)
    have "1 \<le> n" using c r(2) by auto
    then have dec: "limit - (tot + n) < limit - tot" using lt by simp
    have w: "wf_consuming (consume cb n)" "consuming_bytes (consume cb n) = drop (tot + n) A"
      using consume_wf_bytes [OF less.prems(2), of n] less.prems(3) by (simp_all add: add.commute)
    obtain k s2 m2 bs2 where k: "tot + n + k < limit" "ok s2" "length (inp s1) = k + length (inp s2)" "addrs bs2 \<noteq> []" "stops (read_some s2 bs2 m2)"
      using less.hyps [OF dec ok_kept [OF less.prems(1) r(1)] w le go] by blast
    then show ?thesis using len by (intro exI [of _ "n + k"] exI [of _ s2] exI [of _ m2] exI [of _ bs2]) simp
  qed
qed

lemma capy_read_stops:
  assumes "ok s" "wf_buffers bs" "distinct (addrs bs)" "set (addrs bs) \<inter> own = {}" "capy_read read_some s bs m = Some x" "stops x"
  shows "\<exists>n s1 m1 bs'. n < length (addrs bs) \<and> ok s1 \<and> length (inp s) = n + length (inp s1) \<and> addrs bs' \<noteq> [] \<and> stops (read_some s1 bs' m1)"
  using read_loop_stops [OF assms(1) consuming_init_wf [OF assms(2)] _ _ _ _ assms(3,4), of 0 "length (addrs bs)" m x] assms(2,5,6)
  by (simp add: capy_read_def consuming_init_bytes) (simp add: wf_buffers_def)

end

section \<open>An end of the pair as a read stream\<close>

text \<open>
  A read that finds nothing parks, and the coroutine goes no further until the other end acts: the state is marked, and the transfer left (as an exception would leave
  it, with the mark to tell them apart).
\<close>

definition sp_read_now :: "nat \<Rightarrow> bool \<Rightarrow> nat \<Rightarrow> (stream_pair \<times> bool) read_op" where
  "sp_read_now loc i r st bs m =
     (case st of (s, parked) \<Rightarrow>
        if read_ready i bs s
        then (case read_resume loc r (read_init i bs) s m of
                Inl (e, s, m) \<Rightarrow> Inl (e, (read_end r s, parked), m)
              | Inr (ec, n, s, m) \<Rightarrow> Inr (ec, n, (read_end r s, parked), m))
        else Inl (other_exception 0, (snd (read_suspend False r (read_init i bs) s), True), m))"

text \<open>
  \<^verbatim>\<open>expect\<close>: \<open>a\<close> is where the string for the bytes is. \<open>None\<close> is waiting for the other end; an exception the fuse throws comes out of \<^verbatim>\<open>run_blocking\<close>.
\<close>

definition sp_expect :: "nat \<Rightarrow> bool \<Rightarrow> nat \<Rightarrow> addr \<Rightarrow> byte list \<Rightarrow> stream_pair \<Rightarrow> memory \<Rightarrow> (cpp_exception + (error_code \<times> bool) \<times> stream_pair) option" where
  "sp_expect loc i r a expected s m =
     (let n = length expected in
      case capy_read (sp_read_now loc i r) (s, False) [mk_buffer a n] (overlay a (replicate n 0) m) of
        None \<Rightarrow> None
      | Some (Inl (e, (_, parked), _)) \<Rightarrow> (if parked then None else Some (Inl e))
      | Some (Inr (ec, k, (s, _), m)) \<Rightarrow>
          Some (Inr (if failed ec then (ec, False) else (success, map m [a..<a + k] = expected), s)))"

definition rd_ok :: "bool \<Rightarrow> bool \<Rightarrow> addr \<Rightarrow> nat \<Rightarrow> stream_pair \<times> bool \<Rightarrow> bool" where
  "rd_ok calm i p L st \<longleftrightarrow> (case st of (s, parked) \<Rightarrow>
     0 < hf_max_read_size (sp_half s i) \<and> hf_ptr (sp_half s i) = p \<and> length (hf_buf (sp_half s i)) \<le> L \<and> \<not> parked
     \<and> (calm \<longrightarrow> f_inert (sp_fuse s) \<and> \<not> sp_closed s))"

lemma read_end_half:
  "hf_buf (sp_half (read_end r s) i) = hf_buf (sp_half s i)" "hf_ptr (sp_half (read_end r s) i) = hf_ptr (sp_half s i)"
  "hf_max_read_size (sp_half (read_end r s) i) = hf_max_read_size (sp_half s i)" "sp_fuse (read_end r s) = sp_fuse s" "sp_closed (read_end r s) = sp_closed s"
  by (auto simp: read_end_def read_destroy_def read_unlink_def upd_half_def split: option.splits)

lemma maybe_fail_calm: "f_inert (sp_fuse s) \<Longrightarrow> sp_maybe_fail loc s = (Inr success, s)"
  by (simp add: sp_maybe_fail_def maybe_fail_def)

text \<open>What a copy leaves: the bytes it took are gone from the side, and memory elsewhere is untouched.\<close>

lemma read_copy_kept:
  assumes "read_copy x s m = Inr (ec, n, s', m')"
  shows "hf_buf (sp_half s' (rd_index x)) = drop n (hf_buf (sp_half s (rd_index x)))"
    "hf_ptr (sp_half s' j) = hf_ptr (sp_half s j)" "hf_max_read_size (sp_half s' j) = hf_max_read_size (sp_half s j)"
    "sp_fuse s' = sp_fuse s" "sp_closed s' = sp_closed s"
  using assms by (auto simp: read_copy_def upd_half_def Let_def split: prod.splits)

lemma read_copy_rest:
  assumes "read_copy x s m = Inr (ec, n, s', m')" "distinct (addrs (rd_buffers x))"
    "set (addrs (rd_buffers x)) \<inter> {hf_ptr (sp_half s (rd_index x))..<hf_ptr (sp_half s (rd_index x)) + length (hf_buf (sp_half s (rd_index x)))} = {}"
  shows "\<forall>a. a \<notin> {hf_ptr (sp_half s (rd_index x))..<hf_ptr (sp_half s (rd_index x)) + length (hf_buf (sp_half s (rd_index x)))} \<union> set (take n (addrs (rd_buffers x)))
      \<longrightarrow> m' a = m a"
proof -
  let ?h = "sp_half s (rd_index x)"
  let ?src = "[make_buffer (hf_ptr ?h) (length (hf_buf ?h))]"
  have a: "addrs ?src = [hf_ptr ?h..<hf_ptr ?h + length (hf_buf ?h)]" by (simp add: make_buffer_def mk_buffer_def baddrs_def)
  have c: "buffer_copy (rd_buffers x) ?src (hf_max_read_size ?h) (overlay (hf_ptr ?h) (hf_buf ?h) m) = (n, m')"
    using assms(1) by (auto simp: read_copy_def Let_def split: prod.splits)
  have d: "set (addrs (rd_buffers x)) \<inter> set (addrs ?src) = {}" using assms(3) unfolding a by simp
  show ?thesis using buffer_copy_copied [OF assms(2) d c] by (auto simp: copied_def overlay_outside)
qed

text \<open>A read of an end that is ready fails or delivers from the state it starts in, up to what the fuse does to it.\<close>

lemma read_resume_cases:
  assumes "read_ready i bs s" "read_resume loc r (read_init i bs) s m = Inr (ec, n, s1, m')" "rd_ok calm i p L (s, False)"
  obtains s2 where "rd_ok calm i p L (s2, False)" "hf_buf (sp_half s2 i) = hf_buf (sp_half s i)" "s1 = s2" "n = 0" "m' = m" "failed ec \<or> addrs bs = []"
  | s2 where "rd_ok calm i p L (s2, False)" "hf_buf (sp_half s2 i) = hf_buf (sp_half s i)" "hf_buf (sp_half s i) \<noteq> []" "read_copy (read_init i bs) s2 m = Inr (ec, n, s1, m')"
proof -
  let ?s = "put_reader r ((read_init i bs)\<lparr>rd_stop_cb := False\<rparr>) s"
  obtain q t where q: "sp_maybe_fail loc ?s = (q, t)" by fastforce
  have same: "sp_half ?s = sp_half s" "sp_fuse ?s = sp_fuse s" "sp_closed ?s = sp_closed s" by (simp_all add: put_reader_def)
  note h = maybe_fail_half [OF q, unfolded same]
  have fl: "failed (make_error_code canceled)" "failed (make_error_code eof)" by (simp_all add: failed_def make_error_code_def)
  have s: "rd_ok calm i p L (?s, False)" using assms(3) by (simp add: rd_ok_def same)
  have t: "rd_ok calm i p L (t, False)"
  proof (cases calm)
    case True
    then have "t = ?s" using maybe_fail_calm [of ?s loc] q assms(3) same by (auto simp: rd_ok_def)
    then show ?thesis using s by simp
  qed (use assms(3) h in \<open>simp add: rd_ok_def\<close>)
  consider "s1 = ?s" "n = 0" "m' = m" "failed ec \<or> addrs bs = []" | "s1 = t" "n = 0" "m' = m" "failed ec"
    | "hf_buf (sp_half s i) \<noteq> []" "read_copy (read_init i bs) ?s m = Inr (ec, n, s1, m')" | "hf_buf (sp_half s i) \<noteq> []" "read_copy (read_init i bs) t m = Inr (ec, n, s1, m')"
    using assms(1,2) q fl same by (auto simp: read_resume_def read_init_def read_ready_def buffer_empty_iff Let_def split: if_splits sum.splits)
  then show ?thesis using that s t h same by cases auto
qed

lemma read_now_ready:
  assumes "rd_ok calm i p L st" "sp_read_now loc i r st bs m = Inr (ec, n, st', m')"
  obtains s s1 where "st = (s, False)" "read_ready i bs s" "read_resume loc r (read_init i bs) s m = Inr (ec, n, s1, m')" "st' = (read_end r s1, False)"
    "rd_ok calm i p L (s, False)"
proof -
  obtain s where st: "st = (s, False)" using assms(1) by (cases st) (simp add: rd_ok_def)
  have rdy: "read_ready i bs s" using assms(2) st by (auto simp: sp_read_now_def split: if_splits)
  then show ?thesis using assms st that by (auto simp: sp_read_now_def split: sum.splits prod.splits)
qed

lemma read_init_simps [simp]: "rd_buffers (read_init i bs) = bs" "rd_index (read_init i bs) = i"
  by (simp_all add: read_init_def)

lemma read_now_ok:
  assumes "rd_ok calm i p L st" "sp_read_now loc i r st bs m = Inr (ec, n, st', m')"
  shows "rd_ok calm i p L st'"
proof -
  obtain s s1 where s: "read_ready i bs s" "read_resume loc r (read_init i bs) s m = Inr (ec, n, s1, m')" "st' = (read_end r s1, False)" "rd_ok calm i p L (s, False)"
    using read_now_ready [OF assms] by metis
  show ?thesis
  proof (cases rule: read_resume_cases [OF s(1,2,4)])
    case (1 s2)
    then show ?thesis by (auto simp: s(3) rd_ok_def read_end_half)
  next
    case (2 s2)
    then show ?thesis using read_copy_kept [OF 2(4)] by (auto simp: s(3) rd_ok_def read_end_half)
  qed
qed

lemma read_now_result:
  assumes "rd_ok calm i p L st" "addrs bs \<noteq> []" "distinct (addrs bs)" "set (addrs bs) \<inter> {p..<p + L} = {}" "sp_read_now loc i r st bs m = Inr (ec, n, st', m')"
  shows "n \<le> length (addrs bs) \<and> (if failed ec then n = 0 else 1 \<le> n) \<and> hf_buf (sp_half (fst st) i) = map m' (take n (addrs bs)) @ hf_buf (sp_half (fst st') i)
      \<and> (\<forall>a. a \<notin> {p..<p + L} \<union> set (take n (addrs bs)) \<longrightarrow> m' a = m a)"
proof -
  obtain s s1 where s: "st = (s, False)" "read_ready i bs s" "read_resume loc r (read_init i bs) s m = Inr (ec, n, s1, m')" "st' = (read_end r s1, False)"
      "rd_ok calm i p L (s, False)"
    using read_now_ready [OF assms(1,5)] by metis
  show ?thesis
  proof (cases rule: read_resume_cases [OF s(2,3,5)])
    case (1 s2)
    then show ?thesis using assms(2) by (auto simp: s(1,4) read_end_half)
  next
    case (2 s2)
    have dj: "set (addrs bs) \<inter> {hf_ptr (sp_half s2 i)..<hf_ptr (sp_half s2 i) + length (hf_buf (sp_half s2 i))} = {}"
      and sub: "{hf_ptr (sp_half s2 i)..<hf_ptr (sp_half s2 i) + length (hf_buf (sp_half s2 i))} \<subseteq> {p..<p + L}" using assms(4) 2(1) by (auto simp: rd_ok_def)
    note pl = read_copy_places [OF 2(4), unfolded read_init_simps, OF assms(3) dj] and re = read_copy_rest [OF 2(4), unfolded read_init_simps, OF assms(3) dj]
      and ke = read_copy_kept(1) [OF 2(4), unfolded read_init_simps]
    have n: "1 \<le> n" "n \<le> length (addrs bs)" using pl(2) 2(1,2,3) assms(2) by (auto simp: rd_ok_def Suc_le_eq)
    have "hf_buf (sp_half s i) = map m' (take n (addrs bs)) @ hf_buf (sp_half (fst st') i)" using pl(3) ke 2(2) by (simp add: s(4) read_end_half)
    moreover have "m' a = m a" if "a \<notin> {p..<p + L} \<union> set (take n (addrs bs))" for a using re that sub by auto
    ultimately show ?thesis using n pl(1) s(1) by auto
  qed
qed

interpretation pair_end: read_stream_contract "sp_read_now loc i r" "rd_ok calm i p L" "{p..<p + L}" "\<lambda>st. sp_data i (fst st)"
proof
  fix st st' :: "stream_pair \<times> bool" and bs m ec n m'
  assume ok: "rd_ok calm i p L st" and r: "sp_read_now loc i r st bs m = Inr (ec, n, st', m')"
  show "rd_ok calm i p L st'" using read_now_ok [OF ok r] .
  assume b: "addrs bs \<noteq> []" "distinct (addrs bs)" "set (addrs bs) \<inter> {p..<p + L} = {}"
  note q = read_now_result [OF ok b r]
  show "n \<le> length (addrs bs) \<and> (if failed ec then n < length (addrs bs) else 1 \<le> n)" using q b(1) by auto
  show "sp_data i (fst st) = map m' (take n (addrs bs)) @ sp_data i (fst st') \<and> (\<forall>a. a \<notin> {p..<p + L} \<union> set (take n (addrs bs)) \<longrightarrow> m' a = m a)"
    using q by (auto simp: sp_data_def)
qed

section \<open>What expect returns\<close>

text \<open>Without injected failures an end that has bytes delivers some.\<close>

lemma read_now_calm:
  assumes "rd_ok True i p L st" "sp_data i (fst st) \<noteq> []" "addrs bs \<noteq> []"
  shows "\<not> stops (sp_read_now loc i r st bs m)"
proof -
  obtain s where s: "st = (s, False)" "f_inert (sp_fuse s)" "\<not> sp_closed s" using assms(1) by (cases st) (auto simp: rd_ok_def)
  let ?s = "put_reader r ((read_init i bs)\<lparr>rd_stop_cb := False\<rparr>) s"
  have "sp_maybe_fail loc ?s = (Inr success, ?s)" using s(2) by (intro maybe_fail_calm) (simp add: put_reader_def)
  moreover have "hf_buf (sp_half s i) \<noteq> []" using assms(2) s(1) by (simp add: sp_data_def)
  ultimately show ?thesis using s assms(3)
    by (auto simp: sp_read_now_def read_resume_def read_ready_def read_init_def read_copy_def buffer_empty_iff put_reader_def Let_def failed_def success_def
        split: prod.splits)
qed

text \<open>
  \<^verbatim>\<open>expect\<close> tells whether the next bytes of an end are the expected ones. Whenever it returns without an error, that many bytes were there, they have been taken out, and the flag
  says whether they are the expected ones; with an error the flag is false. It does return, without error, when enough bytes are there, both ends are open and no
  failure is injected, however the reads are cut up by the maximal read size. (With fewer bytes it waits for the other end.)
\<close>

theorem expect_correct:
  assumes "0 < hf_max_read_size (sp_half s i)" and "length expected \<le> size_max"
    and "{a..<a + length expected} \<inter> {hf_ptr (sp_half s i)..<hf_ptr (sp_half s i) + length (sp_data i s)} = {}"
  shows "(sp_expect loc i r a expected s m = Some (Inr ((ec, match), s')) \<longrightarrow>
      (if failed ec then \<not> match
       else length expected \<le> length (sp_data i s) \<and> match = (take (length expected) (sp_data i s) = expected) \<and> sp_data i s' = drop (length expected) (sp_data i s)))
    \<and> (f_inert (sp_fuse s) \<and> \<not> sp_closed s \<and> length expected \<le> length (sp_data i s) \<longrightarrow>
      (\<exists>s'. sp_expect loc i r a expected s m = Some (Inr ((success, take (length expected) (sp_data i s) = expected), s'))))"
proof -
  let ?n = "length expected" and ?p = "hf_ptr (sp_half s i)" and ?L = "length (sp_data i s)"
  let ?bs = "[mk_buffer a ?n]" and ?m = "overlay a (replicate ?n 0) m"
  define calm where "calm \<longleftrightarrow> f_inert (sp_fuse s) \<and> \<not> sp_closed s"
  have ad: "addrs ?bs = [a..<a + ?n]" by (simp add: mk_buffer_def baddrs_def)
  have ok: "rd_ok calm i ?p ?L (s, False)" using assms(1) by (simp add: rd_ok_def sp_data_def calm_def)
  have b: "wf_buffers ?bs" "distinct (addrs ?bs)" "set (addrs ?bs) \<inter> {?p..<?p + ?L} = {}"
    unfolding wf_buffers_def ad using assms(2,3) by simp_all
  obtain x where x: "capy_read (sp_read_now loc i r) (s, False) ?bs ?m = Some x" and tr: "pair_end.transferred calm i ?p ?L (addrs ?bs) (length (addrs ?bs)) 0 (s, False) ?m x"
    using pair_end.capy_read_transferred [OF ok b] by blast
  have got: "k \<le> ?n \<and> (failed c \<longleftrightarrow> k < ?n) \<and> sp_data i s = map m1 (take k [a..<a + ?n]) @ sp_data i (fst t)"
    if "x = Inr (c, k, t, m1)" for c k t m1
    using tr that unfolding pair_end.transferred_start ad by simp
  have nf: "\<not> failed success" by (simp add: failed_def success_def)
  have part: "if failed ec then \<not> match else ?n \<le> ?L \<and> match = (take ?n (sp_data i s) = expected) \<and> sp_data i s' = drop ?n (sp_data i s)"
    if e: "sp_expect loc i r a expected s m = Some (Inr ((ec, match), s'))" for ec match s'
  proof -
    obtain c k t m1 where xr: "x = Inr (c, k, t, m1)" "(ec, match) = (if failed c then (c, False) else (success, map m1 [a..<a + k] = expected))" "s' = fst t"
      using e x by (auto simp: sp_expect_def Let_def split: sum.splits prod.splits if_splits)
    note g = got [OF xr(1)]
    show ?thesis
    proof (cases "failed c")
      case False
      then have "k = ?n" using g by auto
      then show ?thesis using False xr g nf by auto
    qed (use xr in auto)
  qed
  have "\<not> stops x" if c: calm "?n \<le> ?L"
  proof
    assume "stops x"
    then obtain n s1 m1 bs' where w: "n < length (addrs ?bs)" "rd_ok calm i ?p ?L s1" "length (sp_data i (fst (s, False))) = n + length (sp_data i (fst s1))" "addrs bs' \<noteq> []"
        "stops (sp_read_now loc i r s1 bs' m1)"
      using pair_end.capy_read_stops [OF ok b x] by blast
    then have "sp_data i (fst s1) \<noteq> []" using c(2) by (auto simp: mk_buffer_def)
    then show False using read_now_calm [of i ?p ?L s1 bs' loc r m1] w c(1) by simp
  qed
  then have "\<exists>s'. sp_expect loc i r a expected s m = Some (Inr ((success, take ?n (sp_data i s) = expected), s'))" if c: calm "?n \<le> ?L"
  proof -
    obtain e k t m1 where xr: "x = Inr (e, k, t, m1)" "\<not> failed e" using \<open>\<lbrakk>calm; ?n \<le> ?L\<rbrakk> \<Longrightarrow> \<not> stops x\<close> c by (cases x) auto
    note g = got [OF xr(1)]
    then have "k = ?n" using xr(2) by auto
    then show ?thesis using g x xr by (cases t) (simp add: sp_expect_def Let_def)
  qed
  then show ?thesis using part by (auto simp: calm_def)
qed

theorem expect_correct_witness:
  "\<exists>s'. sp_expect 0 True 7 10 [1, 2] (sp_provide False [1, 2, 3] (make_stream_pair (\<lambda>_. 100) fuse_default)) (\<lambda>_. 0) = Some (Inr ((success, True), s'))"
proof -
  let ?s = "sp_provide False [1, 2, 3] (make_stream_pair (\<lambda>_. 100) fuse_default)"
  have s: "sp_data True ?s = [1, 2, 3]" "hf_max_read_size (sp_half ?s True) = size_max" "hf_ptr (sp_half ?s True) = 100" "f_inert (sp_fuse ?s)" "\<not> sp_closed ?s"
    by (simp_all add: sp_data_def sp_provide_def sp_wake_def upd_half_def make_stream_pair_def fuse_default_def fuse_init_def)
  have "0 < hf_max_read_size (sp_half ?s True)" "length [1, 2 :: byte] \<le> size_max"
    "{10..<10 + length [1, 2 :: byte]} \<inter> {hf_ptr (sp_half ?s True)..<hf_ptr (sp_half ?s True) + length (sp_data True ?s)} = {}"
    unfolding s by (simp_all add: size_max_def)
  from conjunct2 [OF expect_correct [OF this, of 0 7 "\<lambda>_. 0"]] show ?thesis unfolding s(1) using s(4,5) by simp
qed

end
