(* ===== verification/Await_Adapters.thy ===== *)
theory Await_Adapters
  imports Abandon Errors
begin

text \<open>
  How an awaitable is driven: \<^verbatim>\<open>detail/await_suspend_helper.hpp\<close>, the \<^verbatim>\<open>transform_awaiter\<close> of \<^verbatim>\<open>task\<close>
  (\<^verbatim>\<open>task.hpp\<close>), the promise mixin of \<^verbatim>\<open>ex/context_awaitable_promise_base.hpp\<close>, \<^verbatim>\<open>ex/immediate.hpp\<close>,
  \<^verbatim>\<open>detail/results_combinators.hpp\<close> and the thread-local slot of \<^verbatim>\<open>ex/frame_allocator.hpp\<close>. The language's own
  \<^verbatim>\<open>co_await\<close> is \<open>co_await_next\<close>: what asking and suspending leaves the thread to do. An awaitable is its two
  functions on the state they change, which may throw; \<open>resume\<close>, what resuming a handle does to that state, is an argument.
\<close>

section \<open>Awaitables and the language's co_await\<close>

text \<open>What \<^verbatim>\<open>await_suspend\<close> returns, by its return type.\<close>

datatype suspend_result = S_void | S_bool bool | S_handle handle

text \<open>A call returns, throws, or does not come back because the program was terminated.\<close>

datatype ('r, 's) call = Returned 'r 's | Threw 's | Terminated

fun after_call :: "('r, 's) call \<Rightarrow> ('r \<Rightarrow> 's \<Rightarrow> ('q, 's) call) \<Rightarrow> ('q, 's) call" where
  "after_call (Returned r s) f = f r s"
| "after_call (Threw s) f = Threw s"
| "after_call Terminated f = Terminated"

text \<open>A function declared \<^verbatim>\<open>noexcept\<close>.\<close>

fun noexcept :: "('r, 's) call \<Rightarrow> ('r, 's) call" where
  "noexcept (Threw s) = Terminated"
| "noexcept c = c"

record 's awaitable =
  aw_ready :: "'s \<Rightarrow> (bool, 's) call"
  aw_suspend :: "handle \<Rightarrow> 's \<Rightarrow> (suspend_result, 's) call"

text \<open>
  The body goes on, stays suspended, control is transferred to another coroutine, or the body goes on with the exception.
\<close>

datatype 's afterwards = Go_On 's | Stay 's | Transfer handle 's | Raise 's | Terminate

fun after_suspend :: "(suspend_result, 's) call \<Rightarrow> 's afterwards" where
  "after_suspend (Returned S_void s) = Stay s"
| "after_suspend (Returned (S_bool b) s) = (if b then Stay s else Go_On s)"
| "after_suspend (Returned (S_handle g) s) = Transfer g s"
| "after_suspend (Threw s) = Raise s"
| "after_suspend Terminated = Terminate"

definition co_await_next :: "'s awaitable \<Rightarrow> handle \<Rightarrow> 's \<Rightarrow> 's afterwards" where
  "co_await_next a h s =
     (case aw_ready a s of
        Returned r s \<Rightarrow> if r then Go_On s else after_suspend (aw_suspend a h s)
      | Threw s \<Rightarrow> Raise s
      | Terminated \<Rightarrow> Terminate)"

text \<open>The thread then runs: going on is running the rest of the coroutine \<open>h\<close>; the no-op coroutine does nothing.\<close>

definition resume_handle :: "(handle \<Rightarrow> 's \<Rightarrow> 's) \<Rightarrow> handle \<Rightarrow> 's \<Rightarrow> 's" where
  "resume_handle resume g s = (if g = noop then s else resume g s)"

fun run_next :: "(handle \<Rightarrow> 's \<Rightarrow> 's) \<Rightarrow> handle \<Rightarrow> 's afterwards \<Rightarrow> (unit, 's) call" where
  "run_next resume h (Go_On s) = Returned () (resume_handle resume h s)"
| "run_next resume h (Stay s) = Returned () s"
| "run_next resume h (Transfer g s) = Returned () (resume_handle resume g s)"
| "run_next resume h (Raise s) = Threw s"
| "run_next resume h Terminate = Terminated"

section \<open>The helpers\<close>

definition call_await_suspend :: "'s awaitable \<Rightarrow> handle \<Rightarrow> 's \<Rightarrow> (handle, 's) call" where
  "call_await_suspend a h s =
     after_call (aw_suspend a h s) (\<lambda>r s. case r of
        S_void \<Rightarrow> Returned noop s
      | S_bool b \<Rightarrow> if b then Returned noop s else Returned h s
      | S_handle g \<Rightarrow> Returned g s)"

text \<open>Where the workaround is on, the transfer is a nested call that returns nothing; elsewhere it hands the handle back.\<close>

definition symmetric_transfer_nested :: "(handle \<Rightarrow> 's \<Rightarrow> 's) \<Rightarrow> handle \<Rightarrow> 's \<Rightarrow> (unit, 's) call" where
  "symmetric_transfer_nested resume g s = noexcept (Returned () (resume_handle resume g s))"

definition symmetric_transfer :: "handle \<Rightarrow> 's \<Rightarrow> (handle, 's) call" where
  "symmetric_transfer g s = noexcept (Returned g s)"

definition await_ready_then_suspend :: "(handle \<Rightarrow> 's \<Rightarrow> 's) \<Rightarrow> 's awaitable \<Rightarrow> handle \<Rightarrow> 's \<Rightarrow> (bool, 's) call" where
  "await_ready_then_suspend resume a h s =
     noexcept (after_call (aw_ready a s) (\<lambda>r s.
        if r then Returned False s
        else after_call (aw_suspend a h s) (\<lambda>r s. case r of
                S_bool b \<Rightarrow> Returned b s
              | S_void \<Rightarrow> Returned True s
              | S_handle g \<Rightarrow> after_call (symmetric_transfer_nested resume g s) (\<lambda>_ s. Returned True s))))"

text \<open>
  The awaiter a \<^verbatim>\<open>co_await\<close> inside a task or a quitter is transformed to, without and with the workaround. Both its functions are \<^verbatim>\<open>noexcept\<close>.
\<close>

definition transform_awaiter :: "'s awaitable \<Rightarrow> 's awaitable" where
  "transform_awaiter a = \<lparr>aw_ready = (\<lambda>s. noexcept (aw_ready a s)),
     aw_suspend = (\<lambda>h s. noexcept (after_call (aw_suspend a h s) (\<lambda>r s. case r of
        S_handle g \<Rightarrow> after_call (symmetric_transfer g s) (\<lambda>g s. Returned (S_handle g) s)
      | r \<Rightarrow> Returned r s)))\<rparr>"

definition transform_awaiter_workaround :: "(handle \<Rightarrow> 's \<Rightarrow> 's) \<Rightarrow> 's awaitable \<Rightarrow> 's awaitable" where
  "transform_awaiter_workaround resume a = \<lparr>aw_ready = (\<lambda>s. noexcept (Returned False s)),
     aw_suspend = (\<lambda>h s. noexcept (after_call (await_ready_then_suspend resume a h s) (\<lambda>b s. Returned (S_bool b) s)))\<rparr>"

section \<open>They agree\<close>

definition goes_on :: "'s afterwards \<Rightarrow> bool" where
  "goes_on n = (case n of Go_On _ \<Rightarrow> True | _ \<Rightarrow> False)"

definition raises :: "'s afterwards \<Rightarrow> bool" where
  "raises n = (case n of Raise _ \<Rightarrow> True | _ \<Rightarrow> False)"

text \<open>What is left to do once a \<^verbatim>\<open>noexcept\<close> function is around it.\<close>

definition guarded :: "'s afterwards \<Rightarrow> 's afterwards" where
  "guarded n = (if raises n then Terminate else n)"

lemma after_noexcept [simp]: "after_suspend (noexcept c) = guarded (after_suspend c)"
  by (cases c; cases "case c of Returned r s \<Rightarrow> r | _ \<Rightarrow> S_void") (simp_all add: guarded_def raises_def)

lemma same_result [simp]:
  "after_call c (\<lambda>r s. case r of S_handle g \<Rightarrow> after_call (symmetric_transfer g s) (\<lambda>g s. Returned (S_handle g) s) | r \<Rightarrow> Returned r s) = c"
  by (cases c) (simp_all add: symmetric_transfer_def split: suspend_result.split)

lemma transform_awaiter_next: "co_await_next (transform_awaiter a) h s = guarded (co_await_next a h s)"
  by (cases "aw_ready a s") (simp_all add: co_await_next_def transform_awaiter_def guarded_def raises_def)

text \<open>What the workaround's \<^verbatim>\<open>await_suspend\<close> makes of each thing that can be left to do.\<close>

lemma workaround_next:
  "co_await_next (transform_awaiter_workaround resume a) h s =
     (case co_await_next a h s of
        Transfer g s' \<Rightarrow> Stay (resume_handle resume g s')
      | n \<Rightarrow> guarded n)"
proof (cases "aw_ready a s")
  case (Returned r s1)
  show ?thesis
  proof (cases "r \<or> (\<forall>q s2. aw_suspend a h s1 \<noteq> Returned q s2)")
    case True
    then show ?thesis using Returned
      by (cases "aw_suspend a h s1")
        (auto simp: co_await_next_def transform_awaiter_workaround_def await_ready_then_suspend_def guarded_def raises_def)
  next
    case False
    then obtain q s2 where "\<not> r" "aw_suspend a h s1 = Returned q s2" by blast
    then show ?thesis using Returned
      by (cases q) (simp_all add: co_await_next_def transform_awaiter_workaround_def await_ready_then_suspend_def symmetric_transfer_nested_def guarded_def raises_def)
  qed
qed (simp_all add: co_await_next_def transform_awaiter_workaround_def await_ready_then_suspend_def guarded_def raises_def)

lemma workaround_run:
  "run_next resume h (co_await_next (transform_awaiter_workaround resume a) h s) = noexcept (run_next resume h (co_await_next a h s))"
  by (cases "co_await_next a h s") (simp_all add: workaround_next guarded_def raises_def)

lemma workaround_goes_on:
  "goes_on (co_await_next (transform_awaiter_workaround resume a) h s) = goes_on (co_await_next a h s)"
  by (cases "co_await_next a h s") (simp_all add: workaround_next goes_on_def guarded_def raises_def)

lemma call_await_suspend_run:
  "after_call (call_await_suspend a h s) (\<lambda>g s'. Returned () (resume_handle resume g s')) = run_next resume h (after_suspend (aw_suspend a h s))"
proof (cases "aw_suspend a h s")
  case (Returned q s1)
  then show ?thesis by (cases q) (simp_all add: call_await_suspend_def resume_handle_def)
qed (simp_all add: call_await_suspend_def)

text \<open>
  C21. How the library drives an awaitable compared with the language's own \<^verbatim>\<open>co_await\<close>, whatever the awaitable's return
  type, and for every effect that resuming a coroutine has. When neither \<^verbatim>\<open>await_ready\<close> nor \<^verbatim>\<open>await_suspend\<close> throws, the \<^verbatim>\<open>transform_awaiter\<close> of
  a task leaves the thread with the same thing to do; with the symmetric-transfer workaround on, where \<^verbatim>\<open>await_ready\<close> is asked inside
  \<^verbatim>\<open>await_suspend\<close> and the transfer is a nested resume, the state afterwards is the same, and the coroutine goes on without suspending in
  exactly the same cases, so that an immediate completion does not nest. When one of them throws, the exception that the language would
  deliver to the coroutine terminates the program instead, with the workaround and without. Resuming by hand the handle that \<^verbatim>\<open>call_await_suspend\<close>
  returns does what the language does with the original return value, and a throw of \<^verbatim>\<open>await_suspend\<close> passes through it.
\<close>

theorem await_adapters_agree:
  "(\<not> raises (co_await_next a h s) \<longrightarrow>
      co_await_next (transform_awaiter a) h s = co_await_next a h s
      \<and> run_next resume h (co_await_next (transform_awaiter_workaround resume a) h s) = run_next resume h (co_await_next a h s)
      \<and> goes_on (co_await_next (transform_awaiter_workaround resume a) h s) = goes_on (co_await_next a h s))
   \<and> (raises (co_await_next a h s) \<longrightarrow>
      co_await_next (transform_awaiter a) h s = Terminate \<and> co_await_next (transform_awaiter_workaround resume a) h s = Terminate)
   \<and> after_call (call_await_suspend a h s) (\<lambda>g s'. Returned () (resume_handle resume g s')) = run_next resume h (after_suspend (aw_suspend a h s))"
proof -
  have "noexcept (run_next resume h (co_await_next a h s)) = run_next resume h (co_await_next a h s)" if "\<not> raises (co_await_next a h s)"
    using that by (cases "co_await_next a h s") (simp_all add: raises_def)
  moreover have "co_await_next (transform_awaiter_workaround resume a) h s = Terminate" if "raises (co_await_next a h s)"
    using that by (cases "co_await_next a h s") (simp_all add: workaround_next guarded_def raises_def)
  ultimately show ?thesis using call_await_suspend_run [of a h s resume] workaround_goes_on [of resume a h s]
    by (simp add: transform_awaiter_next guarded_def workaround_run)
qed

text \<open>An awaitable that counts its questions and hands control to the coroutine 8 the first time and throws after that.\<close>

definition demo_awaitable :: "nat awaitable" where
  "demo_awaitable = \<lparr>aw_ready = (\<lambda>n. Returned False (n + 1)), aw_suspend = (\<lambda>h n. if n = 1 then Returned (S_handle 8) n else Threw n)\<rparr>"

theorem await_adapters_agree_witness:
  "co_await_next (transform_awaiter demo_awaitable) 7 0 = Transfer 8 1
   \<and> run_next (\<lambda>g n. 10 * g + n) 7 (co_await_next (transform_awaiter_workaround (\<lambda>g n. 10 * g + n) demo_awaitable) 7 0) = Returned () 81
   \<and> co_await_next demo_awaitable 7 4 = Raise 5 \<and> co_await_next (transform_awaiter demo_awaitable) 7 4 = Terminate"
proof -
  have d: "co_await_next demo_awaitable 7 0 = Transfer 8 1" "co_await_next demo_awaitable 7 4 = Raise 5"
    by (simp_all add: co_await_next_def demo_awaitable_def)
  from await_adapters_agree [of demo_awaitable 7 0 "\<lambda>g n. 10 * g + n"] await_adapters_agree [of demo_awaitable 7 4 "\<lambda>g n. 10 * g + n"]
  show ?thesis by (simp add: d raises_def resume_handle_def noop_def)
qed

section \<open>Results and immediate awaitables\<close>

text \<open>\<^verbatim>\<open>results<Ts...>\<close> is a tuple of an error code and values; a payload of one value is that value, not a tuple.\<close>

record 'v results =
  res_ec :: error_code
  res_values :: "'v list"

datatype 'v payload = P_one 'v | P_tuple "'v list"

definition extract_results_payload :: "'v results \<Rightarrow> 'v payload" where
  "extract_results_payload r = (case res_values r of [v] \<Rightarrow> P_one v | vs \<Rightarrow> P_tuple vs)"

fun results_from_payload :: "'v payload \<Rightarrow> 'v results" where
  "results_from_payload (P_one v) = \<lparr>res_ec = success, res_values = [v]\<rparr>"
| "results_from_payload (P_tuple vs) = \<lparr>res_ec = success, res_values = vs\<rparr>"

definition ready_values :: "'v list \<Rightarrow> 'v results" where
  "ready_values vs = \<lparr>res_ec = success, res_values = vs\<rparr>"

definition ready_error :: "error_code \<Rightarrow> 'v list \<Rightarrow> 'v results" where
  "ready_error ec vs = \<lparr>res_ec = ec, res_values = vs\<rparr>"

definition immediate :: "'s awaitable" where
  "immediate = \<lparr>aw_ready = (\<lambda>s. Returned True s), aw_suspend = (\<lambda>h s. Returned (S_handle noop) s)\<rparr>"

lemma results_payload_roundtrip: "results_from_payload (extract_results_payload (ready_values vs)) = ready_values vs"
  by (cases vs rule: remdups_adj.cases) (simp_all add: extract_results_payload_def ready_values_def)

lemma immediate_goes_on:
  "co_await_next immediate h s = Go_On s"
  "co_await_next (transform_awaiter_workaround resume immediate) h s = Go_On s"
  by (simp_all add: co_await_next_def immediate_def transform_awaiter_workaround_def await_ready_then_suspend_def)

section \<open>The promise mixin\<close>

record 'e promise_base =
  pb_env :: "'e option"
  pb_cont :: handle

record context_env =
  ce_executor :: nat
  ce_token :: nat
  ce_allocator :: "nat option"

datatype coro_tag = environment_tag | executor_tag | stop_token_tag | frame_allocator_tag

datatype coro_answer = Ans_Env context_env | Ans_Executor nat | Ans_Token nat | Ans_Allocator "nat option"

text \<open>Reading the environment before it is set is an assertion failure, \<open>None\<close>.\<close>

definition take_continuation :: "'e promise_base \<Rightarrow> handle \<times> 'e promise_base" where
  "take_continuation p = (pb_cont p, p\<lparr>pb_cont := noop\<rparr>)"

definition environment :: "'e promise_base \<Rightarrow> 'e option" where
  "environment p = pb_env p"

definition await_transform :: "coro_tag \<Rightarrow> context_env promise_base \<Rightarrow> (coro_answer \<times> context_env promise_base awaitable) option" where
  "await_transform t p =
     (case environment p of
        None \<Rightarrow> None
      | Some e \<Rightarrow> Some
          (case t of
             environment_tag \<Rightarrow> Ans_Env e
           | executor_tag \<Rightarrow> Ans_Executor (ce_executor e)
           | stop_token_tag \<Rightarrow> Ans_Token (ce_token e)
           | frame_allocator_tag \<Rightarrow> Ans_Allocator (ce_allocator e),
           \<lparr>aw_ready = (\<lambda>s. Returned True s), aw_suspend = (\<lambda>h s. Returned S_void s)\<rparr>))"

text \<open>Asking the running coroutine for its context never suspends it and changes nothing.\<close>

lemma await_transform_goes_on: "await_transform t p = Some (ans, a) \<Longrightarrow> co_await_next a h s = Go_On s"
  by (auto simp: await_transform_def co_await_next_def split: option.splits)

text \<open>A continuation is handed out once: whoever asks again is given the no-op coroutine.\<close>

lemma continuation_taken_once:
  assumes "take_continuation p = (g, p')"
  shows "g = pb_cont p" "fst (take_continuation p') = noop" "pb_env p' = pb_env p"
  using assms by (auto simp: take_continuation_def)

section \<open>The thread's frame allocator\<close>

record 's tls_thread =
  th_allocator :: "nat option"
  th_world :: 's

definition get_current_frame_allocator :: "'s tls_thread \<Rightarrow> nat option" where
  "get_current_frame_allocator t = th_allocator t"

definition set_current_frame_allocator :: "nat option \<Rightarrow> 's tls_thread \<Rightarrow> 's tls_thread" where
  "set_current_frame_allocator mr t = t\<lparr>th_allocator := mr\<rparr>"

definition safe_resume :: "(handle \<Rightarrow> 's tls_thread \<Rightarrow> 's tls_thread) \<Rightarrow> handle \<Rightarrow> 's tls_thread \<Rightarrow> 's tls_thread" where
  "safe_resume resume h t = (let saved = get_current_frame_allocator t; t = resume h t in set_current_frame_allocator saved t)"

text \<open>
  A loop that resumes each of its handles safely keeps the allocator of the code that runs it, whatever the coroutines store there,
  and every coroutine starts with that allocator in the slot.
\<close>

lemma safe_resume_loop_keeps:
  "th_allocator (fold (safe_resume resume) hs t) = th_allocator t"
  by (induction hs arbitrary: t)
    (simp_all add: safe_resume_def get_current_frame_allocator_def set_current_frame_allocator_def Let_def)

section \<open>A signal given once\<close>

text \<open>
  What every bridge owes: a party is signalled when its wait ends and at no other time. Whatever the steps, a run that starts waiting and
  unsignalled has made exactly one signal once it no longer waits.
\<close>

locale one_shot =
  fixes step :: "'s \<Rightarrow> 's \<Rightarrow> bool" and inv :: "'s \<Rightarrow> bool" and pending :: "'s \<Rightarrow> bool" and signals :: "'s \<Rightarrow> nat"
  assumes inv_step: "\<lbrakk>step s s'; inv s\<rbrakk> \<Longrightarrow> inv s'"
    and signal_step: "\<lbrakk>step s s'; inv s\<rbrakk> \<Longrightarrow> signals s' = signals s + (if pending s \<and> \<not> pending s' then 1 else 0)"
    and no_return: "\<lbrakk>step s s'; inv s; pending s'\<rbrakk> \<Longrightarrow> pending s"
begin

lemma signalled_once:
  assumes "step\<^sup>*\<^sup>* s0 s" "inv s0" "pending s0" "signals s0 = 0"
  shows "inv s \<and> signals s = (if pending s then 0 else 1)"
  using assms(1)
proof (induction rule: rtranclp_induct)
  case base
  then show ?case using assms by simp
next
  case (step s s')
  then have i: "inv s" by simp
  show ?case
    using step.IH inv_step [OF step.hyps(2) i] signal_step [OF step.hyps(2) i] no_return [OF step.hyps(2) i] by (cases "pending s'") auto
qed

end

end
