(* ===== verification/Write_Now_Op.thy ===== *)
theory Write_Now_Op
  imports Await_Adapters
begin

text \<open>
  The operation object of \<^verbatim>\<open>write_now\<close> (\<^verbatim>\<open>io/write_now.hpp\<close>): a coroutine that is started when it is called, not when it is awaited, except with GCC. What it writes is modelled in
  \<open>Stream_IO\<close> and the frame it reuses in \<open>Frame_Caches\<close>; here is its promise: where the body stands, who is resumed when it finishes, and when its object may
  be destroyed. Reading a null environment and \<^verbatim>\<open>std::terminate\<close> are \<open>None\<close>.
\<close>

section \<open>The promise and the object\<close>

datatype wn_at = At_Initial | At_Yield | In_Body | At_Inner | At_Final_Suspend

text \<open>\<open>wo_frame\<close> is \<^verbatim>\<open>h_\<close>; \<open>wo_env\<close> and \<open>wo_owner\<close> are whether these pointers are set; \<open>wo_resumed\<close> what the operation let go on.\<close>

record 'r wn_op =
  wo_frame :: bool
  wo_at :: wn_at
  wo_result :: "'r option"
  wo_ep :: "cpp_exception option"
  wo_cont :: "handle option"
  wo_env :: bool
  wo_done :: bool
  wo_owner :: bool
  wo_resumed :: "handle list"

definition wn_promise :: "'r wn_op" where
  "wn_promise = \<lparr>wo_frame = True, wo_at = At_Initial, wo_result = None, wo_ep = None, wo_cont = None, wo_env = False, wo_done = False, wo_owner = False, wo_resumed = []\<rparr>"

definition wn_return_value :: "'r \<Rightarrow> 'r wn_op \<Rightarrow> 'r wn_op" where
  "wn_return_value r s = s\<lparr>wo_result := Some r\<rparr>"

definition wn_unhandled_exception :: "cpp_exception \<Rightarrow> 'r wn_op \<Rightarrow> 'r wn_op" where
  "wn_unhandled_exception e s = s\<lparr>wo_ep := Some e\<rparr>"

definition wn_final_suspend :: "'r wn_op \<Rightarrow> 'r wn_op" where
  "wn_final_suspend s =
     (let s = s\<lparr>wo_done := True, wo_at := At_Final_Suspend\<rparr>
      in case wo_cont s of None \<Rightarrow> s | Some c \<Rightarrow> s\<lparr>wo_resumed := wo_resumed s @ [c]\<rparr>)"

definition wn_finish :: "cpp_exception + 'r \<Rightarrow> 'r wn_op \<Rightarrow> 'r wn_op" where
  "wn_finish o' s = wn_final_suspend (case o' of Inl e \<Rightarrow> wn_unhandled_exception e s | Inr r \<Rightarrow> wn_return_value r s)"

text \<open>
  The call. With GCC it suspends at once (\<^verbatim>\<open>suspend_always\<close>); otherwise it runs the synchronous writes, which end the operation (\<open>Some\<close> result) or break off at a write that is not ready,
  where it yields. No write is awaited before that.
\<close>

definition wn_call :: "bool \<Rightarrow> (cpp_exception + 'r) option \<Rightarrow> 'r wn_op" where
  "wn_call workaround fast =
     (if workaround then wn_promise
      else case fast of
        Some o' \<Rightarrow> wn_finish o' (wn_promise\<lparr>wo_at := In_Body\<rparr>)
      | None \<Rightarrow> wn_promise\<lparr>wo_at := At_Yield\<rparr>)"

definition wn_await_ready :: "'r wn_op \<Rightarrow> bool" where
  "wn_await_ready s = wo_done s"

text \<open>\<^verbatim>\<open>await_suspend\<close> transfers to the body.\<close>

definition wn_await_suspend :: "handle \<Rightarrow> 'r wn_op \<Rightarrow> 'r wn_op" where
  "wn_await_suspend cont s = s\<lparr>wo_cont := Some cont, wo_env := True, wo_owner := True, wo_at := In_Body\<rparr>"

text \<open>A write that the body awaits: suspending passes the environment on, and resuming reads it.\<close>

definition wn_inner_suspend :: "'r wn_op \<Rightarrow> 'r wn_op option" where
  "wn_inner_suspend s = (if wo_env s then Some (s\<lparr>wo_at := At_Inner\<rparr>) else None)"

definition wn_inner_resume :: "'r wn_op \<Rightarrow> 'r wn_op option" where
  "wn_inner_resume s = (if wo_env s then Some (s\<lparr>wo_at := In_Body\<rparr>) else None)"

definition wn_await_resume :: "'r wn_op \<Rightarrow> (cpp_exception + 'r option) \<times> 'r wn_op" where
  "wn_await_resume s = ((case wo_ep s of Some e \<Rightarrow> Inl e | None \<Rightarrow> Inr (wo_result s)), s\<lparr>wo_owner := False\<rparr>)"

definition wn_op_destroy :: "bool \<Rightarrow> 'r wn_op \<Rightarrow> 'r wn_op option" where
  "wn_op_destroy given_up s =
     (if wo_frame s
      then (if \<not> wo_done s \<and> wo_owner s \<and> \<not> given_up then None else Some (s\<lparr>wo_frame := False\<rparr>))
      else Some s)"

definition wn_op_move :: "'r wn_op \<Rightarrow> 'r wn_op \<times> 'r wn_op" where
  "wn_op_move s = (s, s\<lparr>wo_frame := False\<rparr>)"

section \<open>The life of an operation\<close>

text \<open>
  \<open>wl_seen\<close> is what awaiting it gave, \<open>wl_outcome\<close> what the body ended with. An operation may be dropped before it is awaited, when it was awaited, and in flight only
  while its chain is abandoned.
\<close>

datatype wl_phase = Called | Awaiting | Resumed | Gone

record 'r wn_life =
  wl_op :: "'r wn_op"
  wl_phase :: wl_phase
  wl_outcome :: "(cpp_exception + 'r) option"
  wl_seen :: "(cpp_exception + 'r option) option"

inductive wn_step :: "handle \<Rightarrow> 'r wn_life \<Rightarrow> 'r wn_life \<Rightarrow> bool" for k where
  ready: "\<lbrakk>wl_phase w = Called; wn_await_ready (wl_op w)\<rbrakk> \<Longrightarrow>
    wn_step k w (w\<lparr>wl_phase := Resumed, wl_op := snd (wn_await_resume (wl_op w)), wl_seen := Some (fst (wn_await_resume (wl_op w)))\<rparr>)"
| suspend: "\<lbrakk>wl_phase w = Called; \<not> wn_await_ready (wl_op w)\<rbrakk> \<Longrightarrow> wn_step k w (w\<lparr>wl_phase := Awaiting, wl_op := wn_await_suspend k (wl_op w)\<rparr>)"
| inner: "\<lbrakk>wl_phase w = Awaiting; wo_at (wl_op w) = In_Body; wn_inner_suspend (wl_op w) = Some s\<rbrakk> \<Longrightarrow> wn_step k w (w\<lparr>wl_op := s\<rparr>)"
| inner_done: "\<lbrakk>wl_phase w = Awaiting; wo_at (wl_op w) = At_Inner; wn_inner_resume (wl_op w) = Some s\<rbrakk> \<Longrightarrow> wn_step k w (w\<lparr>wl_op := s\<rparr>)"
| finish: "\<lbrakk>wl_phase w = Awaiting; wo_at (wl_op w) = In_Body\<rbrakk> \<Longrightarrow> wn_step k w (w\<lparr>wl_op := wn_finish o' (wl_op w), wl_outcome := Some o'\<rparr>)"
| resume: "\<lbrakk>wl_phase w = Awaiting; k \<in> set (wo_resumed (wl_op w))\<rbrakk> \<Longrightarrow>
    wn_step k w (w\<lparr>wl_phase := Resumed, wl_op := snd (wn_await_resume (wl_op w)), wl_seen := Some (fst (wn_await_resume (wl_op w)))\<rparr>)"
| drop: "\<lbrakk>wl_phase w \<in> {Called, Resumed}; wn_op_destroy False (wl_op w) = Some s\<rbrakk> \<Longrightarrow> wn_step k w (w\<lparr>wl_phase := Gone, wl_op := s\<rparr>)"
| unwind: "\<lbrakk>wl_phase w = Awaiting; wn_op_destroy True (wl_op w) = Some s\<rbrakk> \<Longrightarrow> wn_step k w (w\<lparr>wl_phase := Gone, wl_op := s\<rparr>)"

definition wn_start :: "bool \<Rightarrow> (cpp_exception + 'r) option \<Rightarrow> 'r wn_life" where
  "wn_start workaround fast = \<lparr>wl_op = wn_call workaround fast, wl_phase = Called, wl_outcome = (if workaround then None else fast), wl_seen = None\<rparr>"

fun seen_as :: "cpp_exception + 'r \<Rightarrow> cpp_exception + 'r option" where
  "seen_as (Inl e) = Inl e"
| "seen_as (Inr r) = Inr (Some r)"

section \<open>The invariant\<close>

definition wn_finished :: "'r wn_life \<Rightarrow> bool" where
  "wn_finished w \<longleftrightarrow> (\<exists>o'. wl_outcome w = Some o' \<and> fst (wn_await_resume (wl_op w)) = seen_as o') \<and> wo_done (wl_op w) \<and> wo_at (wl_op w) = At_Final_Suspend"

definition wn_unfinished :: "'r wn_life \<Rightarrow> bool" where
  "wn_unfinished w \<longleftrightarrow> wl_outcome w = None \<and> \<not> wo_done (wl_op w) \<and> wo_ep (wl_op w) = None \<and> wo_result (wl_op w) = None \<and> wo_resumed (wl_op w) = []
     \<and> wo_at (wl_op w) \<noteq> At_Final_Suspend"

fun life_inv :: "handle \<Rightarrow> wl_phase \<Rightarrow> 'r wn_life \<Rightarrow> bool" where
  "life_inv k Called w = ((wn_finished w \<or> wn_unfinished w \<and> wo_at (wl_op w) \<in> {At_Initial, At_Yield}) \<and> wo_resumed (wl_op w) = [] \<and> wo_cont (wl_op w) = None
     \<and> \<not> wo_owner (wl_op w) \<and> wo_frame (wl_op w) \<and> wl_seen w = None)"
| "life_inv k Awaiting w = ((wn_finished w \<and> wo_resumed (wl_op w) = [k] \<or> wn_unfinished w) \<and> wo_cont (wl_op w) = Some k \<and> wo_env (wl_op w) \<and> wo_frame (wl_op w) \<and> wl_seen w = None)"
| "life_inv k Resumed w = (wn_finished w \<and> wo_resumed (wl_op w) \<in> {[], [k]} \<and> \<not> wo_owner (wl_op w) \<and> wo_frame (wl_op w) \<and> wl_seen w = map_option seen_as (wl_outcome w))"
| "life_inv k Gone w = (wo_resumed (wl_op w) \<in> {[], [k]} \<and> \<not> wo_frame (wl_op w) \<and> (wl_seen w \<noteq> None \<longrightarrow> wl_seen w = map_option seen_as (wl_outcome w)))"

lemmas wn_defs = wn_await_resume_def wn_finish_def wn_final_suspend_def wn_return_value_def wn_unhandled_exception_def wn_await_suspend_def
  wn_inner_suspend_def wn_inner_resume_def wn_op_destroy_def wn_await_ready_def wn_finished_def wn_unfinished_def Let_def

lemma wn_start_inv: "life_inv k Called (wn_start wa fast)"
  by (cases wa; cases fast; cases "the fast") (auto simp: wn_start_def wn_call_def wn_promise_def wn_defs)

lemma wn_step_inv: "wn_step k w w' \<Longrightarrow> life_inv k (wl_phase w) w \<Longrightarrow> life_inv k (wl_phase w') w'"
proof (induction rule: wn_step.induct)
  case (finish w o')
  then show ?case by (cases o') (auto simp: wn_defs)
next
  case (drop w s)
  then show ?case by (cases "wl_phase w") (auto simp: wn_defs split: if_splits)
qed (auto simp: wn_defs split: if_splits option.splits)

text \<open>An operation that the synchronous writes finished is never awaited for; any other resumes the coroutine that awaited it.\<close>

definition how_awaited :: "bool \<Rightarrow> handle \<Rightarrow> 'r wn_life \<Rightarrow> bool" where
  "how_awaited sync k w \<longleftrightarrow>
     (if sync then wl_phase w \<noteq> Awaiting \<and> wo_done (wl_op w) \<and> wo_cont (wl_op w) = None \<and> wo_resumed (wl_op w) = []
      else (wl_phase w = Called \<longrightarrow> \<not> wo_done (wl_op w)) \<and> (wl_phase w = Resumed \<longrightarrow> wo_resumed (wl_op w) = [k]))"

lemma how_awaited_start: "how_awaited (\<not> wa \<and> fast \<noteq> None) k (wn_start wa fast)"
  by (cases wa; cases fast; cases "the fast") (auto simp: how_awaited_def wn_start_def wn_call_def wn_promise_def wn_defs)

lemma how_awaited_step: "wn_step k w w' \<Longrightarrow> life_inv k (wl_phase w) w \<Longrightarrow> how_awaited sync k w \<Longrightarrow> how_awaited sync k w'"
proof (induction rule: wn_step.induct)
  case (resume w)
  then show ?case by (auto simp: how_awaited_def wn_defs)
next
  case (drop w s)
  then show ?case by (auto simp: how_awaited_def wn_op_destroy_def split: if_splits)
qed (auto simp: how_awaited_def wn_defs split: if_splits)

lemma outcome_step: "wn_step k w w' \<Longrightarrow> how_awaited True k w \<Longrightarrow> wl_outcome w' = wl_outcome w"
  by (induction rule: wn_step.induct) (simp_all add: how_awaited_def)

lemma wn_reach:
  assumes "(wn_step k)\<^sup>*\<^sup>* (wn_start wa fast) w"
  shows "life_inv k (wl_phase w) w \<and> how_awaited (\<not> wa \<and> fast \<noteq> None) k w \<and> (\<not> wa \<and> fast \<noteq> None \<longrightarrow> wl_outcome w = fast)"
  using assms
proof (induction rule: rtranclp_induct)
  case base
  then show ?case using wn_start_inv [of k wa fast] how_awaited_start [of wa fast k] by (simp add: wn_start_def)
next
  case (step w w')
  then show ?case using wn_step_inv [OF step(2)] how_awaited_step [OF step(2)] outcome_step [OF step(2)] by (cases "\<not> wa \<and> fast \<noteq> None") auto
qed

text \<open>
  C32. An operation of \<^verbatim>\<open>write_now\<close> behaves like any other awaited operation although it runs before it is awaited. In every reachable state, with GCC or without: the coroutine that
  awaits it is resumed at most once and never before the body has ended; when the synchronous writes finished the operation it is not suspended and not resumed at all, and awaiting
  gives what they ended with; otherwise it goes on only after it was resumed. What awaiting gives is what the body ended with, result or
  exception; a write that has to be awaited finds the environment set; and the object can always be destroyed before it is awaited and after, and while its chain is abandoned, without
  terminating the program.
\<close>

theorem write_now_op_correct:
  assumes "(wn_step k)\<^sup>*\<^sup>* (wn_start wa fast) w"
  shows "wo_resumed (wl_op w) \<in> {[], [k]} \<and> (wl_phase w \<noteq> Gone \<and> wo_resumed (wl_op w) \<noteq> [] \<longrightarrow> wo_done (wl_op w))
    \<and> (\<forall>o'. \<not> wa \<and> fast = Some o' \<longrightarrow> wl_phase w \<noteq> Awaiting \<and> wo_resumed (wl_op w) = [] \<and> (wl_seen w \<noteq> None \<longrightarrow> wl_seen w = Some (seen_as o')))
    \<and> (wa \<or> fast = None \<longrightarrow> wl_phase w = Resumed \<longrightarrow> wo_resumed (wl_op w) = [k])
    \<and> (wl_seen w \<noteq> None \<longrightarrow> wl_seen w = map_option seen_as (wl_outcome w))
    \<and> (wl_phase w = Awaiting \<and> wo_at (wl_op w) \<in> {In_Body, At_Inner} \<longrightarrow> wn_inner_suspend (wl_op w) \<noteq> None \<and> wn_inner_resume (wl_op w) \<noteq> None)
    \<and> (wl_phase w \<in> {Called, Resumed} \<longrightarrow> wn_op_destroy False (wl_op w) \<noteq> None) \<and> wn_op_destroy True (wl_op w) \<noteq> None"
proof -
  have i: "life_inv k (wl_phase w) w" and a: "how_awaited (\<not> wa \<and> fast \<noteq> None) k w" "\<not> wa \<and> fast \<noteq> None \<longrightarrow> wl_outcome w = fast"
    using wn_reach [OF assms] by simp_all
  have seen: "wl_seen w \<noteq> None \<longrightarrow> wl_seen w = map_option seen_as (wl_outcome w)" using i by (cases "wl_phase w") auto
  have "\<forall>o'. \<not> wa \<and> fast = Some o' \<longrightarrow> wl_phase w \<noteq> Awaiting \<and> wo_resumed (wl_op w) = [] \<and> (wl_seen w \<noteq> None \<longrightarrow> wl_seen w = Some (seen_as o'))"
    using a seen by (auto simp: how_awaited_def)
  moreover have "wa \<or> fast = None \<longrightarrow> wl_phase w = Resumed \<longrightarrow> wo_resumed (wl_op w) = [k]" using a(1) by (auto simp: how_awaited_def)
  moreover have "wo_resumed (wl_op w) \<in> {[], [k]} \<and> (wl_phase w \<noteq> Gone \<and> wo_resumed (wl_op w) \<noteq> [] \<longrightarrow> wo_done (wl_op w))
    \<and> (wl_phase w = Awaiting \<and> wo_at (wl_op w) \<in> {In_Body, At_Inner} \<longrightarrow> wn_inner_suspend (wl_op w) \<noteq> None \<and> wn_inner_resume (wl_op w) \<noteq> None)
    \<and> (wl_phase w \<in> {Called, Resumed} \<longrightarrow> wn_op_destroy False (wl_op w) \<noteq> None) \<and> wn_op_destroy True (wl_op w) \<noteq> None"
    using i by (cases "wl_phase w") (auto simp: wn_defs)
  ultimately show ?thesis using seen by blast
qed

text \<open>One operation finishes on the way to its first write, the other after it was awaited.\<close>

lemma demo_sync_run:
  "(wn_step 5)\<^sup>*\<^sup>* (wn_start False (Some (Inr (3 :: nat)))) ((wn_start False (Some (Inr 3)))\<lparr>wl_phase := Resumed, wl_op := snd (wn_await_resume (wl_op (wn_start False (Some (Inr 3))))),
     wl_seen := Some (fst (wn_await_resume (wl_op (wn_start False (Some (Inr 3))))))\<rparr>)"
  by (rule r_into_rtranclp, rule wn_step.ready)
    (simp_all add: wn_start_def wn_call_def wn_await_ready_def wn_finish_def wn_final_suspend_def wn_return_value_def wn_promise_def Let_def)

theorem write_now_op_correct_witness:
  "wo_resumed (wn_finish (Inr 3) (wn_await_suspend 5 (wn_call False None))) = [5]
   \<and> wn_op_destroy True (wn_finish (Inr 3) (wn_await_suspend 5 (wn_call False (None :: (cpp_exception + nat) option)))) \<noteq> None
   \<and> wo_resumed (snd (wn_await_resume (wl_op (wn_start False (Some (Inr (3 :: nat))))))) = []"
proof -
  let ?a = "wn_start False (None :: (cpp_exception + nat) option)"
  let ?b = "?a\<lparr>wl_phase := Awaiting, wl_op := wn_await_suspend 5 (wl_op ?a)\<rparr>"
  let ?c = "?b\<lparr>wl_op := wn_finish (Inr 3) (wl_op ?b), wl_outcome := Some (Inr 3)\<rparr>"
  have "wn_step 5 ?a ?b" by (rule wn_step.suspend) (simp_all add: wn_start_def wn_await_ready_def wn_call_def wn_promise_def)
  moreover have "wn_step 5 ?b ?c" by (rule wn_step.finish) (simp_all add: wn_await_suspend_def)
  ultimately have "(wn_step 5)\<^sup>*\<^sup>* ?a ?c" by (meson converse_rtranclp_into_rtranclp rtranclp.rtrancl_refl)
  from write_now_op_correct [OF this] write_now_op_correct [OF demo_sync_run] show ?thesis
    by (simp add: wn_start_def wn_call_def wn_promise_def wn_finish_def wn_return_value_def wn_final_suspend_def wn_await_suspend_def Let_def)
qed

end
