(* ===== verification/Awaitable_Sender.thy ===== *)
theory Awaitable_Sender
  imports Await_Adapters
begin

text \<open>
  An awaitable as a sender: \<^verbatim>\<open>example/awaitable-sender/awaitable_sender_detail.hpp\<close>, whose operation state drives the awaitable through a
  synthetic coroutine frame and completes its receiver on one channel. The sender library itself is outside: a receiver is the list of
  completion functions called on it. Undefined behaviour and \<^verbatim>\<open>std::terminate\<close> are \<open>None\<close>.
\<close>

section \<open>Result types and completion signatures\<close>

datatype elem = El_ec | El_other

datatype result_type = T_void | T_ec | T_tuple "elem list" | T_other

fun has_tuple_protocol :: "result_type \<Rightarrow> bool" where
  "has_tuple_protocol (T_tuple es) = (length es > 0)"
| "has_tuple_protocol _ = False"

definition is_ec_outcome :: "result_type \<Rightarrow> bool" where
  "is_ec_outcome T = (if has_tuple_protocol T then T = T_tuple [El_ec] else T = T_ec)"

definition is_compound_ec_result :: "result_type \<Rightarrow> bool" where
  "is_compound_ec_result T = (if has_tuple_protocol T then (case T of T_tuple es \<Rightarrow> length es \<ge> 2 \<and> hd es = El_ec | _ \<Rightarrow> False) else False)"

datatype sig = Sig_value | Sig_value_R | Sig_error_ec | Sig_error_exn | Sig_stopped

text \<open>A compound result is refused at compile time.\<close>

definition make_sigs :: "result_type \<Rightarrow> bool \<Rightarrow> sig list option" where
  "make_sigs T nothrow_resume =
     (if is_compound_ec_result T then None
      else Some ((if T = T_void then [Sig_value]
                  else if is_ec_outcome T then [Sig_value, Sig_error_ec]
                  else [Sig_value_R])
                 @ (if nothrow_resume then [Sig_stopped] else [Sig_error_exn, Sig_stopped])))"

text \<open>What \<^verbatim>\<open>await_resume\<close> returns: nothing, an error code, the one-element tuple of one, or another value.\<close>

datatype 'v aw_value = V_void | V_ec error_code | V_ec_tuple error_code | V_other 'v

datatype 'v completion = Set_Value "'v option" | Set_Error_Ec error_code | Set_Error_Exn cpp_exception | Set_Stopped

fun value_type :: "result_type \<Rightarrow> 'v aw_value \<Rightarrow> bool" where
  "value_type T V_void = (T = T_void)"
| "value_type T (V_ec _) = (T = T_ec)"
| "value_type T (V_ec_tuple _) = (T = T_tuple [El_ec])"
| "value_type T (V_other _) = (T \<noteq> T_void \<and> \<not> is_ec_outcome T)"

fun resume_type :: "result_type \<Rightarrow> bool \<Rightarrow> cpp_exception + 'v aw_value \<Rightarrow> bool" where
  "resume_type T nothrow_resume (Inl e) = (\<not> nothrow_resume)"
| "resume_type T nothrow_resume (Inr v) = value_type T v"

fun completion_sig :: "'v completion \<Rightarrow> sig" where
  "completion_sig (Set_Value None) = Sig_value"
| "completion_sig (Set_Value (Some _)) = Sig_value_R"
| "completion_sig (Set_Error_Ec _) = Sig_error_ec"
| "completion_sig (Set_Error_Exn _) = Sig_error_exn"
| "completion_sig Set_Stopped = Sig_stopped"

section \<open>The operation state of an awaitable as a sender\<close>

text \<open>How the receiver's stop token reaches \<^verbatim>\<open>await_context\<close>: as it is, relayed into an owned source, or not at all.\<close>

datatype stop_kind = Passthrough | Bridged | Unstoppable

text \<open>
  \<open>os_aw\<close> is whether the optional holds the awaitable, \<open>os_rcvr\<close> the calls made on the receiver, \<open>os_cb\<close> whether the synthetic frame is filled in,
  \<open>os_rcvr_stop\<close> whether a stop was requested of the receiver's token.
\<close>

record 'v op_state =
  os_aw :: bool
  os_rcvr :: "'v completion list"
  os_cb :: bool
  os_owners :: owners
  os_stop_src :: bool
  os_stop_cb :: bool
  os_rcvr_stop :: bool

definition op_cb :: handle where "op_cb = 1"

definition op_owner :: nat where "op_owner = 0"

definition awaitable_op_state :: "bool \<Rightarrow> 'v op_state" where
  "awaitable_op_state stopped = \<lparr>os_aw = True, os_rcvr = [], os_cb = False, os_owners = \<lparr>o_self = (\<lambda>_. None), o_abandoned = (\<lambda>_. False)\<rparr>,
     os_stop_src = False, os_stop_cb = False, os_rcvr_stop = stopped\<rparr>"

definition on_stop :: "'v op_state \<Rightarrow> 'v op_state" where
  "on_stop s = s\<lparr>os_stop_src := True\<rparr>"

text \<open>\<^verbatim>\<open>env_.stop_token.stop_requested()\<close>; a default-constructed token never is.\<close>

fun stop_requested :: "stop_kind \<Rightarrow> 'v op_state \<Rightarrow> bool" where
  "stop_requested Passthrough s = os_rcvr_stop s"
| "stop_requested Bridged s = os_stop_src s"
| "stop_requested Unstoppable s = False"

definition op_deliver :: "'v completion \<Rightarrow> 'v op_state \<Rightarrow> 'v op_state" where
  "op_deliver c s = s\<lparr>os_rcvr := os_rcvr s @ [c]\<rparr>"

definition op_unwind :: "'v op_state \<Rightarrow> 'v op_state" where
  "op_unwind s = op_deliver Set_Stopped (s\<lparr>os_aw := False\<rparr>)"

definition ec_completion :: "error_code \<Rightarrow> 'v completion" where
  "ec_completion ec =
     (if \<not> failed ec then Set_Value None
      else if code_equals_condition ec errc_operation_canceled then Set_Stopped
      else Set_Error_Ec ec)"

text \<open>\<open>r\<close> is what \<^verbatim>\<open>await_resume\<close> does: it throws or returns.\<close>

definition do_complete :: "stop_kind \<Rightarrow> cpp_exception + 'v aw_value \<Rightarrow> 'v op_state \<Rightarrow> cpp_exception + 'v op_state" where
  "do_complete k r s =
     (case r of
        Inl e \<Rightarrow> Inl e
      | Inr V_void \<Rightarrow> Inr (if stop_requested k s then op_deliver Set_Stopped s else op_deliver (Set_Value None) s)
      | Inr (V_ec ec) \<Rightarrow> Inr (op_deliver (ec_completion ec) s)
      | Inr (V_ec_tuple ec) \<Rightarrow> Inr (op_deliver (ec_completion ec) s)
      | Inr (V_other v) \<Rightarrow> Inr (if stop_requested k s then op_deliver Set_Stopped s else op_deliver (Set_Value (Some v)) s))"

definition complete :: "stop_kind \<Rightarrow> bool \<Rightarrow> cpp_exception + 'v aw_value \<Rightarrow> 'v op_state \<Rightarrow> 'v op_state option" where
  "complete k nothrow_resume r s =
     (if \<not> os_aw s then None
      else case do_complete k r s of
        Inr s \<Rightarrow> Some s
      | Inl e \<Rightarrow> if nothrow_resume then None else Some (op_deliver (Set_Error_Exn e) s))"

definition on_resume :: "stop_kind \<Rightarrow> bool \<Rightarrow> cpp_exception + 'v aw_value \<Rightarrow> 'v op_state \<Rightarrow> 'v op_state option" where
  "on_resume k nothrow_resume r s =
     (if \<not> os_cb s then None
      else if abandoned op_owner (os_owners s) then Some (op_unwind s)
      else complete k nothrow_resume r s)"

definition on_destroy :: "'v op_state \<Rightarrow> 'v op_state option" where
  "on_destroy s = (if \<not> os_cb s then None else Some (op_unwind s))"

text \<open>Making the environment: a stop callback registered on a token with a request already made runs at once.\<close>

definition make_env :: "stop_kind \<Rightarrow> 'v op_state \<Rightarrow> 'v op_state" where
  "make_env k s =
     (if k = Bridged then (if os_rcvr_stop s then on_stop (s\<lparr>os_stop_cb := True\<rparr>) else s\<lparr>os_stop_cb := True\<rparr>) else s)"

text \<open>
  \<^verbatim>\<open>start\<close>: the state and the foreign handle that is resumed by hand, if any. Once \<^verbatim>\<open>await_suspend\<close> was called the function
  reads only the handle it returned.
\<close>

definition op_start :: "stop_kind \<Rightarrow> bool \<Rightarrow> 'v op_state awaitable \<Rightarrow> cpp_exception + 'v aw_value \<Rightarrow> 'v op_state \<Rightarrow> ('v op_state \<times> handle option) option" where
  "op_start k nothrow_resume a r s =
     (case noexcept (aw_ready a (make_env k s)) of
        Returned rdy s \<Rightarrow>
          (if rdy then map_option (\<lambda>s. (s, None)) (complete k nothrow_resume r s)
           else
             (case noexcept (call_await_suspend a op_cb (s\<lparr>os_cb := True, os_owners := bind op_owner op_cb (os_owners s)\<rparr>)) of
                Returned resumed s \<Rightarrow>
                  (if resumed \<noteq> noop
                   then (if resumed = op_cb then map_option (\<lambda>s. (s, None)) (on_resume k nothrow_resume r s) else Some (s, Some resumed))
                   else Some (s, None))
              | _ \<Rightarrow> None))
      | _ \<Rightarrow> None)"

definition receiver_stop :: "'v op_state \<Rightarrow> 'v op_state" where
  "receiver_stop s = (if os_stop_cb s then on_stop (s\<lparr>os_rcvr_stop := True\<rparr>) else s\<lparr>os_rcvr_stop := True\<rparr>)"

section \<open>What can happen to an operation\<close>

text \<open>
  Who has the one continuation of the segment: nobody yet, the awaitable, the executor the owner posted the unwind to, or nobody any more. An
  awaitable that has the handle resumes it once or gives it up once; the queue that has the posted unwind runs it, or destroys it when it
  is closed. A stop request can be made of the receiver's token at any time. \<open>w_events\<close> is the history of what was done to the operation:
  a stop request, the end of the awaitable's work with what its \<^verbatim>\<open>await_resume\<close> does, and giving the handle up.
\<close>

datatype 'v op_event = Stop_Asked | Reported "cpp_exception + 'v aw_value" | Given_Up

datatype op_place = Unstarted | With_Awaitable | Unwind_Posted | Settled

record 'v world =
  w_op :: "'v op_state"
  w_place :: op_place
  w_events :: "'v op_event list"

definition scripted :: "bool \<Rightarrow> suspend_result \<Rightarrow> 'v op_state awaitable" where
  "scripted rdy sr = \<lparr>aw_ready = (\<lambda>s. Returned rdy s), aw_suspend = (\<lambda>h s. Returned sr s)\<rparr>"

fun immediate_result :: "suspend_result \<Rightarrow> bool" where
  "immediate_result S_void = False"
| "immediate_result (S_bool b) = (\<not> b)"
| "immediate_result (S_handle g) = (g = op_cb)"

inductive op_step :: "result_type \<Rightarrow> stop_kind \<Rightarrow> bool \<Rightarrow> 'v world \<Rightarrow> 'v world \<Rightarrow> bool" for T k nt where
  start: "\<lbrakk>w_place w = Unstarted; resume_type T nt r; op_start k nt (scripted rdy sr) r (w_op w) = Some (s, g)\<rbrakk> \<Longrightarrow>
    op_step T k nt w \<lparr>w_op = s, w_place = (if rdy \<or> immediate_result sr then Settled else With_Awaitable),
      w_events = w_events w @ (if rdy \<or> immediate_result sr then [Reported r] else [])\<rparr>"
| resume: "\<lbrakk>w_place w = With_Awaitable; resume_type T nt r; on_resume k nt r (w_op w) = Some s\<rbrakk> \<Longrightarrow>
    op_step T k nt w \<lparr>w_op = s, w_place = Settled, w_events = w_events w @ [Reported r]\<rparr>"
| give_up: "\<lbrakk>w_place w = With_Awaitable; abandon \<lparr>c_h = Some op_cb, c_owner = Some op_owner\<rparr> (os_owners (w_op w)) = (ow, [Post_Self op_owner])\<rbrakk> \<Longrightarrow>
    op_step T k nt w \<lparr>w_op = (w_op w)\<lparr>os_owners := ow\<rparr>, w_place = Unwind_Posted, w_events = w_events w @ [Given_Up]\<rparr>"
| give_up_unowned: "\<lbrakk>w_place w = With_Awaitable; abandon \<lparr>c_h = Some op_cb, c_owner = None\<rparr> (os_owners (w_op w)) = (ow, [Destroy op_cb]);
    on_destroy ((w_op w)\<lparr>os_owners := ow\<rparr>) = Some s\<rbrakk> \<Longrightarrow> op_step T k nt w \<lparr>w_op = s, w_place = Settled, w_events = w_events w @ [Given_Up]\<rparr>"
| run_unwind: "\<lbrakk>w_place w = Unwind_Posted; on_resume k nt r (w_op w) = Some s\<rbrakk> \<Longrightarrow> op_step T k nt w \<lparr>w_op = s, w_place = Settled, w_events = w_events w\<rparr>"
| close_unwind: "\<lbrakk>w_place w = Unwind_Posted; on_destroy (w_op w) = Some s\<rbrakk> \<Longrightarrow> op_step T k nt w \<lparr>w_op = s, w_place = Settled, w_events = w_events w\<rparr>"
| stop: "op_step T k nt w (w\<lparr>w_op := receiver_stop (w_op w), w_events := w_events w @ [Stop_Asked]\<rparr>)"

inductive_cases op_stepE: "op_step T k nt w w'"

definition op_init :: "bool \<Rightarrow> 'v world" where
  "op_init stopped = \<lparr>w_op = awaitable_op_state stopped, w_place = Unstarted, w_events = []\<rparr>"

section \<open>A sender, abstractly\<close>

text \<open>
  What a receiver may rely on, as a machine that takes the same events: a stop request can be made at any time; until the one completion the awaitable
  reports its result, which completes the receiver on the channel the result selects, or the operation is given up, and only then is it
  unwound (without an event) and completes stopped. \<open>can\<close> is whether the receiver's token reaches the operation.
\<close>

record 'v asender =
  as_stop :: bool
  as_given_up :: bool
  as_done :: "'v completion option"

text \<open>
  The channels. An error code is a value when it is zero; it means cancellation when it is the library's own code 2 (\<^verbatim>\<open>error::canceled\<close>) or the generic
  code 125 (\<^verbatim>\<open>ECANCELED\<close>).
\<close>

definition means_canceled :: "error_code \<Rightarrow> bool" where
  "means_canceled ec \<longleftrightarrow> ec = \<lparr>ec_value = 2, ec_category = error_cat\<rparr> \<or> ec = \<lparr>ec_value = 125, ec_category = generic_cat\<rparr>"

definition code_channel :: "error_code \<Rightarrow> 'v completion" where
  "code_channel ec = (if ec_value ec = 0 then Set_Value None else if means_canceled ec then Set_Stopped else Set_Error_Ec ec)"

fun channel :: "bool \<Rightarrow> cpp_exception + 'v aw_value \<Rightarrow> 'v completion" where
  "channel stop (Inl e) = Set_Error_Exn e"
| "channel stop (Inr V_void) = (if stop then Set_Stopped else Set_Value None)"
| "channel stop (Inr (V_ec ec)) = code_channel ec"
| "channel stop (Inr (V_ec_tuple ec)) = code_channel ec"
| "channel stop (Inr (V_other v)) = (if stop then Set_Stopped else Set_Value (Some v))"

inductive sender_step :: "result_type \<Rightarrow> bool \<Rightarrow> bool \<Rightarrow> 'v asender \<Rightarrow> 'v op_event option \<Rightarrow> 'v asender \<Rightarrow> bool" for T nt can where
  request: "sender_step T nt can a (Some Stop_Asked) (a\<lparr>as_stop := as_stop a \<or> can\<rparr>)"
| finish: "\<lbrakk>as_done a = None; \<not> as_given_up a; resume_type T nt r\<rbrakk> \<Longrightarrow> sender_step T nt can a (Some (Reported r)) (a\<lparr>as_done := Some (channel (as_stop a) r)\<rparr>)"
| drop: "\<lbrakk>as_done a = None; \<not> as_given_up a\<rbrakk> \<Longrightarrow> sender_step T nt can a (Some Given_Up) (a\<lparr>as_given_up := True\<rparr>)"
| unwinds: "\<lbrakk>as_done a = None; as_given_up a\<rbrakk> \<Longrightarrow> sender_step T nt can a None (a\<lparr>as_done := Some Set_Stopped\<rparr>)"

text \<open>A run, with its events.\<close>

inductive sender_run :: "result_type \<Rightarrow> bool \<Rightarrow> bool \<Rightarrow> 'v asender \<Rightarrow> 'v op_event list \<Rightarrow> 'v asender \<Rightarrow> bool" for T nt can a where
  refl: "sender_run T nt can a [] a"
| step: "\<lbrakk>sender_run T nt can a es a'; sender_step T nt can a' l a''\<rbrakk> \<Longrightarrow> sender_run T nt can a (es @ (case l of None \<Rightarrow> [] | Some e \<Rightarrow> [e])) a''"

lemma run_event: "sender_run T nt can a es a' \<Longrightarrow> sender_step T nt can a' (Some e) a'' \<Longrightarrow> sender_run T nt can a (es @ [e]) a''"
  using sender_run.step [of T nt can a es a' "Some e" a''] by simp

lemma run_silent: "sender_run T nt can a es a' \<Longrightarrow> sender_step T nt can a' None a'' \<Longrightarrow> sender_run T nt can a es a''"
  using sender_run.step [of T nt can a es a' None a''] by simp

definition token_stopped :: "stop_kind \<Rightarrow> 'v op_state \<Rightarrow> bool" where
  "token_stopped k s \<longleftrightarrow> k \<noteq> Unstoppable \<and> os_rcvr_stop s"

definition abs_sender :: "stop_kind \<Rightarrow> 'v world \<Rightarrow> 'v asender" where
  "abs_sender k w = \<lparr>as_stop = token_stopped k (w_op w), as_given_up = (Given_Up \<in> set (w_events w)), as_done = (case os_rcvr (w_op w) of [] \<Rightarrow> None | c # _ \<Rightarrow> Some c)\<rparr>"

section \<open>The invariant\<close>

definition relay :: "stop_kind \<Rightarrow> 'v op_state \<Rightarrow> bool" where
  "relay k s \<longleftrightarrow> (k = Bridged \<longrightarrow> os_stop_cb s \<and> os_stop_src s = os_rcvr_stop s)"

fun place_inv :: "op_place \<Rightarrow> stop_kind \<Rightarrow> 'v op_state \<Rightarrow> bool" where
  "place_inv Unstarted k s = (os_aw s \<and> os_rcvr s = [] \<and> \<not> abandoned op_owner (os_owners s) \<and> \<not> os_stop_cb s \<and> \<not> os_stop_src s)"
| "place_inv With_Awaitable k s = (os_aw s \<and> os_rcvr s = [] \<and> \<not> abandoned op_owner (os_owners s) \<and> os_cb s \<and> relay k s)"
| "place_inv Unwind_Posted k s = (os_rcvr s = [] \<and> abandoned op_owner (os_owners s) \<and> os_cb s \<and> relay k s)"
| "place_inv Settled k s = (length (os_rcvr s) = 1 \<and> relay k s)"

definition op_inv :: "stop_kind \<Rightarrow> 'v world \<Rightarrow> bool" where
  "op_inv k w \<longleftrightarrow> place_inv (w_place w) k (w_op w) \<and> (w_place w \<noteq> Settled \<longrightarrow> (Given_Up \<in> set (w_events w) \<longleftrightarrow> w_place w = Unwind_Posted))"

lemma stop_requested_relay: "relay k s \<Longrightarrow> stop_requested k s = token_stopped k s"
  by (cases k) (auto simp: relay_def token_stopped_def)

lemma condition_canceled: "code_equals_condition ec errc_operation_canceled \<longleftrightarrow> means_canceled ec"
  by (cases ec; cases "ec_category ec") (auto simp: means_canceled_def error_code_defs)

lemma ec_completion_channel: "ec_completion ec = code_channel ec"
  by (simp add: ec_completion_def code_channel_def failed_def condition_canceled)

lemma complete_channel:
  "\<lbrakk>os_aw s; relay k s; resume_type T nt r\<rbrakk> \<Longrightarrow> complete k nt r s = Some (op_deliver (channel (token_stopped k s) r) s)"
  by (auto simp: complete_def do_complete_def stop_requested_relay ec_completion_channel split: sum.split aw_value.split)

lemma make_env_inv:
  assumes "place_inv Unstarted k s"
  shows "relay k (make_env k s)" "os_aw (make_env k s)" "os_rcvr (make_env k s) = []" "\<not> abandoned op_owner (os_owners (make_env k s))"
    "token_stopped k (make_env k s) = token_stopped k s"
  using assms by (auto simp: make_env_def relay_def on_stop_def token_stopped_def)

definition bound :: "stop_kind \<Rightarrow> 'v op_state \<Rightarrow> 'v op_state" where
  "bound k s = (make_env k s)\<lparr>os_cb := True, os_owners := bind op_owner op_cb (os_owners (make_env k s))\<rparr>"

lemma bound_inv:
  assumes "place_inv Unstarted k s"
  shows "place_inv With_Awaitable k (bound k s)" "token_stopped k (bound k s) = token_stopped k s"
  using make_env_inv [OF assms] by (auto simp: bound_def relay_def bind_def abandoned_def token_stopped_def)

lemma on_resume_channel:
  "\<lbrakk>place_inv With_Awaitable k s; resume_type T nt r\<rbrakk> \<Longrightarrow> on_resume k nt r s = Some (op_deliver (channel (token_stopped k s) r) s)"
  by (simp add: on_resume_def complete_channel)

lemma op_start_eq:
  assumes "place_inv Unstarted k s" "resume_type T nt r"
  shows "op_start k nt (scripted rdy sr) r s =
    (if rdy then Some (op_deliver (channel (token_stopped k s) r) (make_env k s), None)
     else if immediate_result sr then Some (op_deliver (channel (token_stopped k s) r) (bound k s), None)
     else Some (bound k s, (case sr of S_handle g \<Rightarrow> if g = noop then None else Some g | _ \<Rightarrow> None)))"
proof (cases rdy)
  case True
  then show ?thesis using complete_channel [OF make_env_inv(2,1) assms(2)] assms(1) make_env_inv(5) [OF assms(1)]
    by (simp add: op_start_def scripted_def)
next
  case False
  have b: "(make_env k s)\<lparr>os_cb := True, os_owners := bind op_owner op_cb (os_owners (make_env k s))\<rparr> = bound k s"
    by (simp add: bound_def)
  have n: "op_cb \<noteq> noop" by (simp add: op_cb_def noop_def)
  show ?thesis using False n on_resume_channel [OF bound_inv(1) [OF assms(1)] assms(2)] bound_inv(2) [OF assms(1)]
    by (cases sr) (auto simp: op_start_def scripted_def call_await_suspend_def b)
qed

lemma deliver_settles: "\<lbrakk>os_rcvr s = []; relay k s\<rbrakk> \<Longrightarrow> place_inv Settled k (op_deliver c s)"
  by (simp add: op_deliver_def relay_def)

lemma unwind_settles: "\<lbrakk>os_rcvr s = []; relay k s\<rbrakk> \<Longrightarrow> place_inv Settled k (op_unwind s)"
  by (simp add: op_unwind_def op_deliver_def relay_def)

lemma receiver_stop_inv: "place_inv p k s \<Longrightarrow> place_inv p k (receiver_stop s)"
  by (cases p) (auto simp: receiver_stop_def on_stop_def relay_def)

lemma abs_deliver:
  "os_rcvr s = [] \<Longrightarrow> abs_sender k \<lparr>w_op = op_deliver c s, w_place = p, w_events = es\<rparr>
     = \<lparr>as_stop = token_stopped k s, as_given_up = (Given_Up \<in> set es), as_done = Some c\<rparr>"
  by (simp add: abs_sender_def op_deliver_def token_stopped_def)

lemma abs_unwind:
  "os_rcvr s = [] \<Longrightarrow> abs_sender k \<lparr>w_op = op_unwind s, w_place = p, w_events = es\<rparr>
     = \<lparr>as_stop = token_stopped k s, as_given_up = (Given_Up \<in> set es), as_done = Some Set_Stopped\<rparr>"
  by (simp add: abs_sender_def op_unwind_def op_deliver_def token_stopped_def)

lemma abs_pending:
  "os_rcvr (w_op w) = [] \<Longrightarrow> abs_sender k w = \<lparr>as_stop = token_stopped k (w_op w), as_given_up = (Given_Up \<in> set (w_events w)), as_done = None\<rparr>"
  by (simp add: abs_sender_def)

text \<open>The three ways a run goes on.\<close>

lemma run_finish:
  "sender_run T nt can a es \<lparr>as_stop = b, as_given_up = False, as_done = None\<rparr> \<Longrightarrow> resume_type T nt r
   \<Longrightarrow> sender_run T nt can a (es @ [Reported r]) \<lparr>as_stop = b, as_given_up = False, as_done = Some (channel b r)\<rparr>"
  using run_event sender_step.finish [of "\<lparr>as_stop = b, as_given_up = False, as_done = None\<rparr>" T nt r can] by fastforce

lemma run_drop:
  "sender_run T nt can a es \<lparr>as_stop = b, as_given_up = False, as_done = None\<rparr>
   \<Longrightarrow> sender_run T nt can a (es @ [Given_Up]) \<lparr>as_stop = b, as_given_up = True, as_done = None\<rparr>"
  using run_event sender_step.drop [of "\<lparr>as_stop = b, as_given_up = False, as_done = None\<rparr>" T nt can] by fastforce

lemma run_unwinds:
  "sender_run T nt can a es \<lparr>as_stop = b, as_given_up = True, as_done = None\<rparr>
   \<Longrightarrow> sender_run T nt can a es \<lparr>as_stop = b, as_given_up = True, as_done = Some Set_Stopped\<rparr>"
  using run_silent sender_step.unwinds [of "\<lparr>as_stop = b, as_given_up = True, as_done = None\<rparr>" T nt can] by fastforce

lemma op_init_inv: "op_inv k (op_init b)"
  by (simp add: op_inv_def op_init_def awaitable_op_state_def abandoned_def)

text \<open>Every step keeps the invariant, and the abstract sender can follow it with the same events.\<close>

lemma op_step_sim:
  assumes "op_step T k nt w w'" "op_inv k w"
  shows "op_inv k w' \<and> (sender_run T nt (k \<noteq> Unstoppable) a (w_events w) (abs_sender k w) \<longrightarrow> sender_run T nt (k \<noteq> Unstoppable) a (w_events w') (abs_sender k w'))"
  using assms
proof (cases rule: op_step.cases)
  case (start r rdy sr s g)
  then have p: "place_inv Unstarted k (w_op w)" "Given_Up \<notin> set (w_events w)" using assms(2) by (simp_all add: op_inv_def)
  have a: "abs_sender k w = \<lparr>as_stop = token_stopped k (w_op w), as_given_up = False, as_done = None\<rparr>" using p by (simp add: abs_pending)
  note s = start(4) [unfolded op_start_eq [OF p(1) start(3)]]
  have e: "os_rcvr (make_env k (w_op w)) = []" "os_rcvr (bound k (w_op w)) = []" "relay k (make_env k (w_op w))" "relay k (bound k (w_op w))"
    using make_env_inv [OF p(1)] bound_inv(1) [OF p(1)] by auto
  show ?thesis
  proof (cases "rdy \<or> immediate_result sr")
    case True
    then obtain s0 where s0: "s = op_deliver (channel (token_stopped k (w_op w)) r) s0" "os_rcvr s0 = []" "relay k s0"
        "token_stopped k s0 = token_stopped k (w_op w)"
      using s e make_env_inv(5) [OF p(1)] bound_inv(2) [OF p(1)] by (auto split: if_splits)
    then show ?thesis using True start(1) a p(2) deliver_settles [OF s0(2,3)] run_finish [OF _ start(3)]
      by (simp add: op_inv_def abs_deliver)
  next
    case False
    then have "s = bound k (w_op w)" using s by (auto split: if_splits)
    then show ?thesis using False start(1) bound_inv [OF p(1)] a p(2) e by (simp add: op_inv_def abs_pending)
  qed
next
  case (resume r s)
  then have p: "place_inv With_Awaitable k (w_op w)" "Given_Up \<notin> set (w_events w)" using assms(2) by (simp_all add: op_inv_def)
  then have "s = op_deliver (channel (token_stopped k (w_op w)) r) (w_op w)" using resume on_resume_channel by fastforce
  then show ?thesis using resume(1) p deliver_settles run_finish [OF _ resume(3)] by (auto simp: op_inv_def abs_deliver abs_pending)
next
  case (give_up ow)
  then have p: "place_inv With_Awaitable k (w_op w)" "Given_Up \<notin> set (w_events w)" using assms(2) by (simp_all add: op_inv_def)
  have o: "abandoned op_owner ow" using give_up(3) by (auto simp: abandon_def owner_abandon_def abandoned_def split: if_splits)
  have i: "op_inv k w'" using p(1) o give_up(1) by (simp add: op_inv_def relay_def)
  have "abs_sender k w' = \<lparr>as_stop = token_stopped k (w_op w), as_given_up = True, as_done = None\<rparr>"
    using p(1) give_up(1) by (simp add: abs_sender_def token_stopped_def)
  then show ?thesis using i p run_drop give_up(1) by (auto simp: abs_pending)
next
  case (give_up_unowned ow s)
  then have p: "place_inv With_Awaitable k (w_op w)" "Given_Up \<notin> set (w_events w)" using assms(2) by (simp_all add: op_inv_def)
  then have s: "s = op_unwind (w_op w)" using give_up_unowned by (auto simp: abandon_def on_destroy_def)
  then show ?thesis using give_up_unowned(1) p unwind_settles run_unwinds [OF run_drop] by (auto simp: op_inv_def abs_unwind abs_pending)
next
  case (run_unwind r s)
  then have p: "place_inv Unwind_Posted k (w_op w)" "Given_Up \<in> set (w_events w)" using assms(2) by (simp_all add: op_inv_def)
  then have s: "s = op_unwind (w_op w)" using run_unwind by (auto simp: on_resume_def)
  then show ?thesis using run_unwind(1) p unwind_settles run_unwinds by (auto simp: op_inv_def abs_unwind abs_pending)
next
  case (close_unwind s)
  then have p: "place_inv Unwind_Posted k (w_op w)" "Given_Up \<in> set (w_events w)" using assms(2) by (simp_all add: op_inv_def)
  then have s: "s = op_unwind (w_op w)" using close_unwind by (auto simp: on_destroy_def)
  then show ?thesis using close_unwind(1) p unwind_settles run_unwinds by (auto simp: op_inv_def abs_unwind abs_pending)
next
  case stop
  have "abs_sender k w' = (abs_sender k w)\<lparr>as_stop := as_stop (abs_sender k w) \<or> k \<noteq> Unstoppable\<rparr>"
    using stop by (auto simp: abs_sender_def receiver_stop_def on_stop_def token_stopped_def)
  moreover have "op_inv k w'" using assms(2) stop receiver_stop_inv by (auto simp: op_inv_def)
  ultimately show ?thesis using run_event sender_step.request stop by fastforce
qed

section \<open>Reachable states\<close>

lemma op_inv_signals: "op_inv k w \<Longrightarrow> length (os_rcvr (w_op w)) = (if w_place w = Settled then 1 else 0)"
  by (cases "w_place w") (simp_all add: op_inv_def)

interpretation op_signal: one_shot "op_step T k nt" "op_inv k" "\<lambda>w. w_place w \<noteq> Settled" "\<lambda>w. length (os_rcvr (w_op w))"
proof
  fix w w' :: "'v world"
  assume s: "op_step T k nt w w'" and i: "op_inv k w"
  show i': "op_inv k w'" using op_step_sim [OF s i] by simp
  show waits: "w_place w \<noteq> Settled" if "w_place w' \<noteq> Settled" using s that by cases auto
  show "length (os_rcvr (w_op w')) = length (os_rcvr (w_op w)) + (if w_place w \<noteq> Settled \<and> \<not> w_place w' \<noteq> Settled then 1 else 0)"
    using op_inv_signals [OF i] op_inv_signals [OF i'] waits by auto
qed

lemma op_reach:
  assumes "(op_step T k nt)\<^sup>*\<^sup>* (op_init b) w"
  shows "op_inv k w" "length (os_rcvr (w_op w)) = (if w_place w = Settled then 1 else 0)"
  using op_signal.signalled_once [OF assms op_init_inv] by (simp_all add: op_init_def awaitable_op_state_def split: if_splits)

lemma op_refines:
  assumes "(op_step T k nt)\<^sup>*\<^sup>* (op_init b) w"
  shows "sender_run T nt (k \<noteq> Unstoppable) (abs_sender k (op_init b)) (w_events w) (abs_sender k w)"
  using assms
proof (induction rule: rtranclp_induct)
  case base
  show ?case using sender_run.refl [of T nt "k \<noteq> Unstoppable" "abs_sender k (op_init b)"] by (simp add: op_init_def)
next
  case (step w w')
  then show ?case using op_step_sim [OF step.hyps(2) op_reach(1) [OF step.hyps(1)]] by blast
qed

lemma channel_sig:
  assumes "make_sigs T nt = Some sg" "resume_type T nt r"
  shows "completion_sig (channel b r) \<in> set sg"
proof (cases r)
  case (Inl e)
  then show ?thesis using assms by (auto simp: make_sigs_def split: if_splits)
next
  case (Inr v)
  then show ?thesis using assms by (cases v) (auto simp: make_sigs_def code_channel_def is_ec_outcome_def split: if_splits)
qed

lemma as_reach_sig:
  assumes "sender_run T nt can a es a'" "make_sigs T nt = Some sg" "as_done a = None" "as_done a' = Some c"
  shows "completion_sig c \<in> set sg"
  using assms(1,4)
proof (induction arbitrary: c rule: sender_run.induct)
  case refl
  then show ?case using assms(3) by simp
next
  case (step es x l y)
  have "completion_sig Set_Stopped \<in> set sg" using assms(2) by (auto simp: make_sigs_def split: if_splits)
  then show ?case using step(2,3) step(4) channel_sig [OF assms(2)] by (auto elim!: sender_step.cases)
qed

section \<open>An operation of both protocols\<close>

text \<open>
  \<^verbatim>\<open>read_op\<close> of \<^verbatim>\<open>example/awaitable-sender/read_op.hpp\<close>, scripted to complete with a code, at once or through the executor, or to wait for a stop request in a task of its own
  (\<open>task_h\<close> is that task's coroutine, \<open>waker_ec\<close> what its waker ended with).
\<close>

record scripted_read_op =
  ro_ec :: error_code
  ro_immediate :: bool
  ro_stop_task :: bool

definition read_op_result :: "error_code \<Rightarrow> scripted_read_op" where
  "read_op_result ec = \<lparr>ro_ec = ec, ro_immediate = False, ro_stop_task = False\<rparr>"

definition read_op_immediate :: "error_code \<Rightarrow> scripted_read_op" where
  "read_op_immediate ec = (read_op_result ec)\<lparr>ro_immediate := True\<rparr>"

definition waits_for_stop :: scripted_read_op where
  "waits_for_stop = (read_op_result success)\<lparr>ro_stop_task := True\<rparr>"

definition read_op_ready :: "scripted_read_op \<Rightarrow> bool" where
  "read_op_ready op = ro_immediate op"

definition read_op_suspend :: "scripted_read_op \<Rightarrow> handle \<Rightarrow> suspend_result" where
  "read_op_suspend op task_h = (if ro_stop_task op then S_handle task_h else S_handle noop)"

definition read_op_resume :: "scripted_read_op \<Rightarrow> error_code \<Rightarrow> 'v aw_value" where
  "read_op_resume op waker_ec =
     (if ro_stop_task op then V_ec_tuple (if failed waker_ec then waker_ec else ro_ec op) else V_ec_tuple (ro_ec op))"

lemma waits_for_stop_stopped:
  "channel stop (Inr (read_op_resume waits_for_stop (make_error_code canceled))) = Set_Stopped"
  by (simp add: waits_for_stop_def read_op_result_def read_op_resume_def code_channel_def means_canceled_def make_error_code_def failed_def)

text \<open>
  Driven as a sender, a scripted \<^verbatim>\<open>read_op\<close> completes on the channel of its own code whatever the state of the stop token: inside \<^verbatim>\<open>start\<close> if it is immediate, and
  otherwise when the executor resumes it.
\<close>

lemma read_op_as_sender:
  assumes "place_inv Unstarted k s" "op = read_op_result ec \<or> op = read_op_immediate ec"
  shows "op_start k True (scripted (read_op_ready op) (read_op_suspend op th)) (Inr (read_op_resume op we)) s =
      (if ro_immediate op then Some (op_deliver (ec_completion ec) (make_env k s), None) else Some (bound k s, None))"
    and "on_resume k True (Inr (read_op_resume op we)) (bound k s) = Some (op_deliver (ec_completion ec) (bound k s))"
proof -
  have t: "resume_type (T_tuple [El_ec]) True (Inr (read_op_resume op we) :: cpp_exception + 'v aw_value)"
    using assms(2) by (auto simp: read_op_resume_def read_op_result_def read_op_immediate_def)
  have c: "channel b (Inr (read_op_resume op we)) = ec_completion ec" for b
    using assms(2) by (auto simp: ec_completion_channel read_op_resume_def read_op_result_def read_op_immediate_def)
  have n: "noop \<noteq> op_cb" by (simp add: op_cb_def noop_def)
  show "op_start k True (scripted (read_op_ready op) (read_op_suspend op th)) (Inr (read_op_resume op we)) s =
      (if ro_immediate op then Some (op_deliver (ec_completion ec) (make_env k s), None) else Some (bound k s, None))"
    using op_start_eq [OF assms(1) t] assms(2) n by (auto simp: c read_op_ready_def read_op_suspend_def read_op_result_def read_op_immediate_def)
  show "on_resume k True (Inr (read_op_resume op we)) (bound k s) = Some (op_deliver (ec_completion ec) (bound k s))"
    using on_resume_channel [OF bound_inv(1) [OF assms(1)] t] by (simp add: c)
qed

section \<open>Properties\<close>

text \<open>
  C22. An awaitable driven as a sender completes its receiver exactly once and never goes wrong. In every reachable state of an operation,
  under every behaviour of the awaitable (ready at once, completing inside \<^verbatim>\<open>await_suspend\<close> with any of its return types, resuming or giving up the
  handle later, with or without the owner), of the executor the unwind is posted to, and of the receiver's stop token, the receiver has been
  completed once if the segment is settled and not at all before; and whatever may happen next is handled: starting, resuming, destroying and
  unwinding the frame all find the awaitable and the frame they need, and giving the handle up posts the owner's unwind.
\<close>

theorem sender_completes_once:
  assumes "(op_step T k nt)\<^sup>*\<^sup>* (op_init b) w"
  shows "length (os_rcvr (w_op w)) = (if w_place w = Settled then 1 else 0)
    \<and> (w_place w = Unstarted \<longrightarrow> resume_type T nt r \<longrightarrow> op_start k nt (scripted rdy sr) r (w_op w) \<noteq> None)
    \<and> (w_place w = With_Awaitable \<longrightarrow> (resume_type T nt r \<longrightarrow> on_resume k nt r (w_op w) \<noteq> None) \<and> on_destroy (w_op w) \<noteq> None
        \<and> snd (abandon \<lparr>c_h = Some op_cb, c_owner = Some op_owner\<rparr> (os_owners (w_op w))) = [Post_Self op_owner])
    \<and> (w_place w = Unwind_Posted \<longrightarrow> on_resume k nt r (w_op w) \<noteq> None \<and> on_destroy (w_op w) \<noteq> None)"
proof -
  note i = op_reach [OF assms]
  have "w_place w = Unstarted \<Longrightarrow> resume_type T nt r \<Longrightarrow> op_start k nt (scripted rdy sr) r (w_op w) \<noteq> None"
    using i(1) op_start_eq [of k "w_op w" T nt r rdy sr] by (simp add: op_inv_def)
  moreover have "w_place w = With_Awaitable \<Longrightarrow> resume_type T nt r \<Longrightarrow> on_resume k nt r (w_op w) \<noteq> None"
    using i(1) on_resume_channel [of k "w_op w" T nt r] by (simp add: op_inv_def)
  moreover have "w_place w = With_Awaitable \<Longrightarrow> on_destroy (w_op w) \<noteq> None
      \<and> snd (abandon \<lparr>c_h = Some op_cb, c_owner = Some op_owner\<rparr> (os_owners (w_op w))) = [Post_Self op_owner]"
    using i(1) by (simp add: op_inv_def on_destroy_def abandon_def owner_abandon_def abandoned_def)
  moreover have "w_place w = Unwind_Posted \<Longrightarrow> on_resume k nt r (w_op w) \<noteq> None \<and> on_destroy (w_op w) \<noteq> None"
    using i(1) by (simp add: op_inv_def on_resume_def on_destroy_def)
  ultimately show ?thesis using i(2) by blast
qed

text \<open>A run in which the awaitable takes the handle, a stop is requested, and the handle is given up and unwound.\<close>

definition demo_bound :: "nat world" where
  "demo_bound = \<lparr>w_op = bound Bridged (awaitable_op_state False), w_place = With_Awaitable, w_events = []\<rparr>"

lemma demo_bound_reach: "(op_step T_other Bridged True)\<^sup>*\<^sup>* (op_init False) demo_bound"
proof -
  have "op_start Bridged True (scripted False S_void) (Inr (V_other 0)) (awaitable_op_state False) = Some (bound Bridged (awaitable_op_state False :: nat op_state), None)"
    using op_start_eq [of Bridged "awaitable_op_state False" T_other True "Inr (V_other (0::nat))" False S_void]
    by (simp add: awaitable_op_state_def abandoned_def is_ec_outcome_def)
  then have "op_step T_other Bridged True (op_init False) demo_bound"
    using op_step.start [of "op_init False" T_other True "Inr (V_other (0::nat))" Bridged False S_void]
    by (simp add: op_init_def demo_bound_def is_ec_outcome_def)
  then show ?thesis by blast
qed

theorem sender_completes_once_witness:
  "os_rcvr (w_op demo_bound) = [] \<and> on_resume Bridged True (Inr (V_other 7)) (w_op demo_bound) \<noteq> None \<and> on_destroy (w_op demo_bound) \<noteq> None"
  using sender_completes_once [OF demo_bound_reach, of "Inr (V_other 7)"] by (simp add: demo_bound_def is_ec_outcome_def)


text \<open>The awaitable takes the handle and then reports a value.\<close>

definition demo_reported :: "nat world" where
  "demo_reported = \<lparr>w_op = op_deliver (Set_Value (Some 7)) (w_op demo_bound), w_place = Settled, w_events = [Reported (Inr (V_other 7))]\<rparr>"

lemma demo_reported_reach: "(op_step T_other Bridged True)\<^sup>*\<^sup>* (op_init False) demo_reported"
proof -
  have "place_inv With_Awaitable Bridged (w_op demo_bound)" using op_reach(1) [OF demo_bound_reach] by (simp add: op_inv_def demo_bound_def)
  then have "on_resume Bridged True (Inr (V_other 7)) (w_op demo_bound) = Some (op_deliver (Set_Value (Some 7)) (w_op demo_bound))"
    using on_resume_channel [of Bridged "w_op demo_bound" T_other True "Inr (V_other 7)"]
    by (simp add: is_ec_outcome_def token_stopped_def demo_bound_def bound_def make_env_def awaitable_op_state_def)
  then have "op_step T_other Bridged True demo_bound demo_reported"
    using op_step.resume [of demo_bound T_other True "Inr (V_other 7)" Bridged] by (simp add: demo_bound_def demo_reported_def is_ec_outcome_def)
  then show ?thesis using demo_bound_reach by (rule rtranclp.rtrancl_into_rtrancl [rotated])
qed


end
