(* ===== verification/Sender_Awaitable.thy ===== *)
theory Sender_Awaitable
  imports Awaitable_Sender "HOL-Library.Multiset"
begin

text \<open>
  A sender as an awaitable: \<^verbatim>\<open>example/sender-bridge/sender_awaitable.hpp\<close>, whose receiver stores the completion in a variant and posts the
  coroutine, and the executor that \<^verbatim>\<open>awaitable_sender_detail.hpp\<close> makes from a scheduler. A sender is the completion it makes.
\<close>

section \<open>A sender as an awaitable\<close>

text \<open>
  The error a sender completes with, by its type; what the variant stores for it as an exception; the completion of a sender; and the variant,
  the index of its alternative with the value there. \<open>has_ec\<close> is whether the sender can complete with an error code.
\<close>

datatype sender_error = Er_code error_code | Er_exn cpp_exception | Er_other nat

datatype stored_exn = Stored cpp_exception | Made sender_error

datatype 'v sender_signal = Sg_value "'v list" | Sg_error sender_error | Sg_stopped

datatype 'v variant_slot = Sl_monostate | Sl_value "'v list" | Sl_ec error_code | Sl_exn stored_exn | Sl_stopped

type_synonym 'v result_variant = "nat \<times> 'v variant_slot"

definition has_error_code_completion :: "sig list \<Rightarrow> bool" where
  "has_error_code_completion sg = (Sig_error_ec \<in> set sg)"

definition emplace :: "nat \<Rightarrow> 'v variant_slot \<Rightarrow> 'v result_variant" where
  "emplace i x = (i, x)"

definition get_slot :: "nat \<Rightarrow> 'v result_variant \<Rightarrow> 'v variant_slot option" where
  "get_slot i r = (if fst r = i then Some (snd r) else None)"

record 'v sender_awaitable =
  sa_sender :: bool
  sa_result :: "'v result_variant"
  sa_op_constructed :: bool
  sa_op_live :: bool
  sa_posts :: "continuation list"

definition sender_awaitable_init :: "'v sender_awaitable" where
  "sender_awaitable_init = \<lparr>sa_sender = True, sa_result = (0, Sl_monostate), sa_op_constructed = False, sa_op_live = False, sa_posts = []\<rparr>"

text \<open>The bridge receiver: the result is stored, then the continuation posted.\<close>

definition bridge_set_value :: "continuation \<Rightarrow> 'v list \<Rightarrow> 'v sender_awaitable \<Rightarrow> 'v sender_awaitable" where
  "bridge_set_value c vs s = s\<lparr>sa_result := emplace 1 (Sl_value vs), sa_posts := sa_posts s @ [c]\<rparr>"

definition bridge_set_error :: "bool \<Rightarrow> continuation \<Rightarrow> sender_error \<Rightarrow> 'v sender_awaitable \<Rightarrow> 'v sender_awaitable" where
  "bridge_set_error has_ec c e s =
     (let r = (case e of
                 Er_code ec \<Rightarrow> if has_ec then emplace 2 (Sl_ec ec) else emplace 2 (Sl_exn (Made e))
               | Er_exn x \<Rightarrow> emplace (if has_ec then 3 else 2) (Sl_exn (Stored x))
               | Er_other _ \<Rightarrow> emplace (if has_ec then 3 else 2) (Sl_exn (Made e)))
      in s\<lparr>sa_result := r, sa_posts := sa_posts s @ [c]\<rparr>)"

definition bridge_set_stopped :: "bool \<Rightarrow> continuation \<Rightarrow> 'v sender_awaitable \<Rightarrow> 'v sender_awaitable" where
  "bridge_set_stopped has_ec c s = s\<lparr>sa_result := emplace (if has_ec then 4 else 3) Sl_stopped, sa_posts := sa_posts s @ [c]\<rparr>"

fun bridge_receive :: "bool \<Rightarrow> continuation \<Rightarrow> 'v sender_signal \<Rightarrow> 'v sender_awaitable \<Rightarrow> 'v sender_awaitable" where
  "bridge_receive has_ec c (Sg_value vs) s = bridge_set_value c vs s"
| "bridge_receive has_ec c (Sg_error e) s = bridge_set_error has_ec c e s"
| "bridge_receive has_ec c Sg_stopped s = bridge_set_stopped has_ec c s"

text \<open>
  \<^verbatim>\<open>await_suspend\<close>: connecting moves the sender and makes the operation state in the buffer, unless it throws; starting it may already
  complete it. \<open>sa_op_live\<close> is whether there is an operation state in the buffer.
\<close>

definition sa_await_suspend :: "bool \<Rightarrow> handle \<Rightarrow> nat option \<Rightarrow> cpp_exception option \<Rightarrow> 'v sender_signal option \<Rightarrow> 'v sender_awaitable \<Rightarrow>
    (cpp_exception + handle) \<times> 'v sender_awaitable" where
  "sa_await_suspend has_ec h owner connect_throws inline s =
     (case connect_throws of
        Some e \<Rightarrow> (Inl e, s\<lparr>sa_sender := False\<rparr>)
      | None \<Rightarrow>
          (let s = s\<lparr>sa_sender := False, sa_op_live := True, sa_op_constructed := True\<rparr>
           in (Inr noop, case inline of
                 None \<Rightarrow> s
               | Some g \<Rightarrow> bridge_receive has_ec \<lparr>c_h = Some h, c_owner = owner\<rparr> g s)))"

text \<open>The destructor destroys what is in the buffer; without an operation state there that is undefined.\<close>

definition sa_destroy :: "'v sender_awaitable \<Rightarrow> 'v sender_awaitable option" where
  "sa_destroy s = (if sa_op_constructed s then (if sa_op_live s then Some (s\<lparr>sa_op_live := False\<rparr>) else None) else Some s)"

definition sa_move :: "'v sender_awaitable \<Rightarrow> 'v sender_awaitable \<times> 'v sender_awaitable" where
  "sa_move s = (sender_awaitable_init\<lparr>sa_sender := sa_sender s\<rparr>, s\<lparr>sa_sender := False\<rparr>)"

text \<open>
  \<^verbatim>\<open>await_resume\<close>, with \<open>n\<close> the number of values the sender completes with. A \<^verbatim>\<open>results\<close> made from an error code alone has
  value-initialised elements, \<open>None\<close>.
\<close>

datatype 'v resumed = Rethrows stored_exn | Operation_Cancelled | Bad_Variant_Access | Results error_code "'v payload option" | Value "'v payload"

definition variant_value :: "nat \<Rightarrow> 'v result_variant \<Rightarrow> 'v payload option" where
  "variant_value n r =
     (case get_slot 1 r of
        Some (Sl_value vs) \<Rightarrow> Some (if n = 1 then P_one (hd vs) else P_tuple vs)
      | _ \<Rightarrow> None)"

definition await_resume_ec :: "nat \<Rightarrow> 'v result_variant \<Rightarrow> 'v resumed" where
  "await_resume_ec n r =
     (case get_slot 3 r of
        Some (Sl_exn x) \<Rightarrow> Rethrows x
      | _ \<Rightarrow>
         if fst r = 4 then Results (make_error_code canceled) None
         else if fst r = 2 then (case get_slot 2 r of Some (Sl_ec ec) \<Rightarrow> Results ec None | _ \<Rightarrow> Bad_Variant_Access)
         else if n = 0 then Results success (Some (P_tuple []))
         else (case variant_value n r of Some p \<Rightarrow> Results success (Some p) | None \<Rightarrow> Bad_Variant_Access))"

definition await_resume_no_ec :: "nat \<Rightarrow> 'v result_variant \<Rightarrow> 'v resumed" where
  "await_resume_no_ec n r =
     (case get_slot 2 r of
        Some (Sl_exn x) \<Rightarrow> Rethrows x
      | _ \<Rightarrow>
         if fst r = 3 then Operation_Cancelled
         else if n = 0 then Value (P_tuple [])
         else (case variant_value n r of Some p \<Rightarrow> Value p | None \<Rightarrow> Bad_Variant_Access))"

definition sa_await_resume :: "bool \<Rightarrow> nat \<Rightarrow> 'v sender_awaitable \<Rightarrow> 'v resumed" where
  "sa_await_resume has_ec n s = (if has_ec then await_resume_ec n (sa_result s) else await_resume_no_ec n (sa_result s))"

section \<open>The life of an awaited sender\<close>

text \<open>
  A sender makes one completion after it was started, inside \<^verbatim>\<open>start\<close> or later, of the types it announces. The awaitable is moved only before it is awaited,
  and destroyed when it was never awaited, when connecting threw, or when its coroutine is resumed or given up after the post.
\<close>

fun signal_ok :: "bool \<Rightarrow> nat \<Rightarrow> 'v sender_signal \<Rightarrow> bool" where
  "signal_ok has_ec n (Sg_value vs) = (length vs = n)"
| "signal_ok has_ec n (Sg_error (Er_code _)) = has_ec"
| "signal_ok has_ec n _ = True"

datatype sa_phase = Sa_Idle | Sa_Failed | Sa_Running | Sa_Posted | Sa_Resumed | Sa_Dead

record 'v sa_world =
  sw_aw :: "'v sender_awaitable"
  sw_phase :: sa_phase
  sw_made :: "'v sender_signal option"
  sw_seen :: "'v resumed option"

definition sw_init :: "'v sa_world" where
  "sw_init = \<lparr>sw_aw = sender_awaitable_init, sw_phase = Sa_Idle, sw_made = None, sw_seen = None\<rparr>"

inductive sa_step :: "bool \<Rightarrow> nat \<Rightarrow> handle \<Rightarrow> nat option \<Rightarrow> 'v sa_world \<Rightarrow> 'v sa_world \<Rightarrow> bool" for has_ec n h ow where
  move: "sw_phase w = Sa_Idle \<Longrightarrow> sa_step has_ec n h ow w (w\<lparr>sw_aw := fst (sa_move (sw_aw w))\<rparr>)"
| suspend: "\<lbrakk>sw_phase w = Sa_Idle; \<forall>g. inline = Some g \<longrightarrow> signal_ok has_ec n g;
    sa_await_suspend has_ec h ow None inline (sw_aw w) = (r, s)\<rbrakk> \<Longrightarrow>
    sa_step has_ec n h ow w (w\<lparr>sw_aw := s, sw_phase := (if inline = None then Sa_Running else Sa_Posted), sw_made := inline\<rparr>)"
| suspend_throws: "\<lbrakk>sw_phase w = Sa_Idle; sa_await_suspend has_ec h ow (Some e) inline (sw_aw w) = (r, s)\<rbrakk> \<Longrightarrow>
    sa_step has_ec n h ow w (w\<lparr>sw_aw := s, sw_phase := Sa_Failed\<rparr>)"
| signal: "\<lbrakk>sw_phase w = Sa_Running; signal_ok has_ec n g\<rbrakk> \<Longrightarrow>
    sa_step has_ec n h ow w (w\<lparr>sw_aw := bridge_receive has_ec \<lparr>c_h = Some h, c_owner = ow\<rparr> g (sw_aw w), sw_phase := Sa_Posted, sw_made := Some g\<rparr>)"
| resume: "sw_phase w = Sa_Posted \<Longrightarrow>
    sa_step has_ec n h ow w (w\<lparr>sw_phase := Sa_Resumed, sw_seen := Some (sa_await_resume has_ec n (sw_aw w))\<rparr>)"
| destroy: "\<lbrakk>sw_phase w \<in> {Sa_Idle, Sa_Failed, Sa_Posted, Sa_Resumed}; sa_destroy (sw_aw w) = Some s\<rbrakk> \<Longrightarrow>
    sa_step has_ec n h ow w (w\<lparr>sw_aw := s, sw_phase := Sa_Dead\<rparr>)"

text \<open>What the coroutine should see of each completion.\<close>

definition payload_of :: "nat \<Rightarrow> 'v list \<Rightarrow> 'v payload" where
  "payload_of n vs = (if n = 1 then P_one (hd vs) else P_tuple vs)"

fun awaited :: "bool \<Rightarrow> nat \<Rightarrow> 'v sender_signal \<Rightarrow> 'v resumed" where
  "awaited has_ec n (Sg_value vs) = (if has_ec then Results success (Some (payload_of n vs)) else Value (payload_of n vs))"
| "awaited has_ec n (Sg_error (Er_code ec)) = (if has_ec then Results ec None else Rethrows (Made (Er_code ec)))"
| "awaited has_ec n (Sg_error (Er_exn x)) = Rethrows (Stored x)"
| "awaited has_ec n (Sg_error (Er_other e)) = Rethrows (Made (Er_other e))"
| "awaited has_ec n Sg_stopped = (if has_ec then Results (make_error_code canceled) None else Operation_Cancelled)"

lemmas bridge_defs = bridge_set_value_def bridge_set_error_def bridge_set_stopped_def emplace_def get_slot_def variant_value_def
  sa_await_resume_def await_resume_ec_def await_resume_no_ec_def payload_of_def

lemma bridge_receive_awaited:
  "signal_ok has_ec n g \<Longrightarrow> sa_await_resume has_ec n (bridge_receive has_ec c g s) = awaited has_ec n g"
  by (cases "(has_ec, n, g)" rule: signal_ok.cases) (auto simp: bridge_defs)

lemma bridge_receive_frame:
  "sa_posts (bridge_receive has_ec c g s) = sa_posts s @ [c]"
  "sa_op_constructed (bridge_receive has_ec c g s) = sa_op_constructed s"
  "sa_op_live (bridge_receive has_ec c g s) = sa_op_live s"
  by (cases g; simp add: bridge_defs Let_def)+

fun phase_inv :: "bool \<Rightarrow> nat \<Rightarrow> continuation \<Rightarrow> sa_phase \<Rightarrow> 'v sa_world \<Rightarrow> bool" where
  "phase_inv he n c Sa_Running w = (sa_op_constructed (sw_aw w) \<and> sa_op_live (sw_aw w) \<and> sa_posts (sw_aw w) = [] \<and> sw_seen w = None)"
| "phase_inv he n c Sa_Posted w = (sa_op_constructed (sw_aw w) \<and> sa_op_live (sw_aw w) \<and> sa_posts (sw_aw w) = [c] \<and> sw_seen w = None
     \<and> (\<exists>g. sw_made w = Some g \<and> signal_ok he n g \<and> sa_await_resume he n (sw_aw w) = awaited he n g))"
| "phase_inv he n c Sa_Resumed w = (sa_op_constructed (sw_aw w) \<and> sa_op_live (sw_aw w) \<and> sa_posts (sw_aw w) = [c]
     \<and> (\<exists>g. sw_made w = Some g \<and> sw_seen w = Some (awaited he n g)))"
| "phase_inv he n c Sa_Dead w = (\<not> sa_op_live (sw_aw w) \<and> sa_posts (sw_aw w) \<in> {[], [c]}
     \<and> (\<forall>x. sw_seen w = Some x \<longrightarrow> (\<exists>g. sw_made w = Some g \<and> x = awaited he n g)))"
| "phase_inv he n c _ w = (\<not> sa_op_constructed (sw_aw w) \<and> \<not> sa_op_live (sw_aw w) \<and> sa_posts (sw_aw w) = [] \<and> sw_seen w = None)"

definition sw_inv :: "bool \<Rightarrow> nat \<Rightarrow> handle \<Rightarrow> nat option \<Rightarrow> 'v sa_world \<Rightarrow> bool" where
  "sw_inv he n h ow w = phase_inv he n \<lparr>c_h = Some h, c_owner = ow\<rparr> (sw_phase w) w"

lemma sa_step_inv: "\<lbrakk>sa_step he n h ow w w'; sw_inv he n h ow w\<rbrakk> \<Longrightarrow> sw_inv he n h ow w'"
proof (induction rule: sa_step.induct)
  case (move w)
  then show ?case by (simp add: sw_inv_def sa_move_def sender_awaitable_init_def)
next
  case (suspend w inline r s)
  then show ?case
    by (cases inline) (auto simp: sw_inv_def sa_await_suspend_def bridge_receive_frame bridge_receive_awaited)
next
  case (suspend_throws w e inline r s)
  then show ?case by (auto simp: sw_inv_def sa_await_suspend_def)
next
  case (signal w g)
  then show ?case by (auto simp: sw_inv_def bridge_receive_frame bridge_receive_awaited)
next
  case (resume w)
  then show ?case by (auto simp: sw_inv_def)
next
  case (destroy w s)
  then show ?case by (auto simp: sw_inv_def sa_destroy_def split: if_splits)
qed

lemma sa_step_posts:
  assumes "sa_step he n h ow w w'" "sw_inv he n h ow w"
  shows "sa_posts (sw_aw w') = sa_posts (sw_aw w) \<or> sa_posts (sw_aw w) = [] \<and> sa_posts (sw_aw w') = [\<lparr>c_h = Some h, c_owner = ow\<rparr>]"
  using assms
  by (cases rule: sa_step.cases)
    (auto simp: sw_inv_def sa_move_def sender_awaitable_init_def sa_await_suspend_def bridge_receive_frame sa_destroy_def
      split: if_splits option.splits)

interpretation sa_signal: one_shot "sa_step he n h ow" "sw_inv he n h ow" "\<lambda>w. sa_posts (sw_aw w) = []" "\<lambda>w. length (sa_posts (sw_aw w))"
proof
  fix w w' :: "'v sa_world"
  assume s: "sa_step he n h ow w w'" and i: "sw_inv he n h ow w"
  show "sw_inv he n h ow w'" using sa_step_inv [OF s i] .
  show "length (sa_posts (sw_aw w')) = length (sa_posts (sw_aw w)) + (if sa_posts (sw_aw w) = [] \<and> sa_posts (sw_aw w') \<noteq> [] then 1 else 0)"
    using sa_step_posts [OF s i] by auto
  show "sa_posts (sw_aw w) = []" if "sa_posts (sw_aw w') = []" using sa_step_posts [OF s i] that by auto
qed

lemma sw_init_inv: "sw_inv he n h ow sw_init"
  by (simp add: sw_inv_def sw_init_def sender_awaitable_init_def)

lemma sa_reach:
  assumes "(sa_step he n h ow)\<^sup>*\<^sup>* sw_init w"
  shows "sw_inv he n h ow w" "length (sa_posts (sw_aw w)) = (if sa_posts (sw_aw w) = [] then 0 else 1)"
  using sa_signal.signalled_once [OF assms sw_init_inv] by (simp_all add: sw_init_def sender_awaitable_init_def)

text \<open>
  Awaiting a sender resumes the coroutine once and gives it the sender's completion. In every reachable state of a \<^verbatim>\<open>sender_awaitable\<close>, whether the sender
  completes inside \<^verbatim>\<open>start\<close> or later, connects or throws, and is awaited or not: at most one continuation has been posted, the coroutine's own; what
  \<^verbatim>\<open>await_resume\<close> returned or threw is what the completion means (values, an error code as a value if the sender can complete with one,
  exceptions and other errors rethrown, stopped as the code \<^verbatim>\<open>canceled\<close> or as the exception), never a wrong alternative of the variant; the destructor
  finds an operation state exactly when one was made, and leaves none behind.
\<close>

theorem sender_await_correct:
  assumes "(sa_step has_ec n h ow)\<^sup>*\<^sup>* sw_init w"
  shows "sa_posts (sw_aw w) \<in> {[], [\<lparr>c_h = Some h, c_owner = ow\<rparr>]}
    \<and> (sw_phase w \<in> {Sa_Posted, Sa_Resumed} \<longrightarrow> sa_posts (sw_aw w) \<noteq> [])
    \<and> (\<forall>x. sw_seen w = Some x \<longrightarrow> (\<exists>g. sw_made w = Some g \<and> x = awaited has_ec n g))
    \<and> (sw_phase w \<noteq> Sa_Running \<longrightarrow> sw_phase w \<noteq> Sa_Dead \<longrightarrow> sa_destroy (sw_aw w) \<noteq> None)
    \<and> (sw_phase w = Sa_Dead \<longrightarrow> \<not> sa_op_live (sw_aw w))"
  using sa_reach(1) [OF assms] by (cases "sw_phase w") (auto simp: sw_inv_def sa_destroy_def)

definition demo_posted :: "nat sa_world" where
  "demo_posted = sw_init\<lparr>sw_aw := snd (sa_await_suspend True 5 None None (Some (Sg_value [7])) sender_awaitable_init),
     sw_phase := Sa_Posted, sw_made := Some (Sg_value [7])\<rparr>"

definition demo_resumed :: "nat sa_world" where
  "demo_resumed = demo_posted\<lparr>sw_phase := Sa_Resumed, sw_seen := Some (sa_await_resume True 1 (sw_aw demo_posted))\<rparr>"

lemma demo_resumed_reach: "(sa_step True 1 5 None)\<^sup>*\<^sup>* sw_init demo_resumed"
proof -
  have "sa_step True 1 5 None sw_init demo_posted"
    using sa_step.suspend [of sw_init "Some (Sg_value [7::nat])" True 1 5 None]
    by (simp add: demo_posted_def sw_init_def sa_await_suspend_def Let_def)
  moreover have "sa_step True 1 5 None demo_posted demo_resumed"
    using sa_step.resume [of demo_posted True 1 5 None] by (simp add: demo_resumed_def demo_posted_def)
  ultimately show ?thesis by (meson converse_rtranclp_into_rtranclp rtranclp.rtrancl_refl)
qed

theorem sender_await_correct_witness:
  "sw_seen demo_resumed = Some (Results success (Some (P_one 7)))
   \<and> sa_posts (sw_aw demo_resumed) \<noteq> [] \<and> sa_destroy (sw_aw demo_resumed) \<noteq> None"
  using sender_await_correct [OF demo_resumed_reach]
  by (simp add: demo_resumed_def demo_posted_def sw_init_def sa_await_suspend_def sender_awaitable_init_def bridge_defs Let_def)

section \<open>There and back\<close>

fun signal_of :: "'v completion \<Rightarrow> 'v sender_signal" where
  "signal_of (Set_Value None) = Sg_value []"
| "signal_of (Set_Value (Some v)) = Sg_value [v]"
| "signal_of (Set_Error_Ec ec) = Sg_error (Er_code ec)"
| "signal_of (Set_Error_Exn e) = Sg_error (Er_exn e)"
| "signal_of Set_Stopped = Sg_stopped"

definition value_arity :: "sig list \<Rightarrow> nat" where
  "value_arity sg = (if Sig_value_R \<in> set sg then 1 else 0)"

text \<open>
  The result of awaiting an awaitable through both bridges: an exception is the same exception; a plain result is the same result, and an exception for cancellation
  if a stop was requested; an error code comes back as an error code, cancellation of any category as the library's own \<^verbatim>\<open>canceled\<close>.
\<close>

definition ec_back :: "error_code \<Rightarrow> 'v resumed" where
  "ec_back ec =
     (if ec_value ec = 0 then Results success (Some (P_tuple []))
      else Results (if means_canceled ec then make_error_code canceled else ec) None)"

fun there_and_back :: "bool \<Rightarrow> cpp_exception + 'v aw_value \<Rightarrow> 'v resumed" where
  "there_and_back stop (Inl e) = Rethrows (Stored e)"
| "there_and_back stop (Inr V_void) = (if stop then Operation_Cancelled else Value (P_tuple []))"
| "there_and_back stop (Inr (V_ec ec)) = ec_back ec"
| "there_and_back stop (Inr (V_ec_tuple ec)) = ec_back ec"
| "there_and_back stop (Inr (V_other v)) = (if stop then Operation_Cancelled else Value (P_one v))"

lemma signal_of_ok: "completion_sig c \<in> set sg \<Longrightarrow> make_sigs T nt = Some sg \<Longrightarrow>
    signal_ok (has_error_code_completion sg) (value_arity sg) (signal_of c)"
  by (cases c rule: signal_of.cases)
    (auto simp: make_sigs_def has_error_code_completion_def value_arity_def split: if_splits)

lemma awaited_channel:
  assumes "make_sigs T nt = Some sg" "resume_type T nt r"
  shows "awaited (has_error_code_completion sg) (value_arity sg) (signal_of (channel stop r)) = there_and_back stop r"
proof (cases r)
  case (Inl e)
  then show ?thesis by simp
next
  case (Inr v)
  then show ?thesis using assms
    by (cases v)
      (auto simp: make_sigs_def has_error_code_completion_def value_arity_def payload_of_def code_channel_def ec_back_def is_ec_outcome_def
        split: if_splits)
qed

lemma ec_back_canceled:
  assumes "code_equals_condition ec errc_operation_canceled"
  shows "ec_back ec = Results (make_error_code canceled) None"
    "code_equals_condition (make_error_code canceled) errc_operation_canceled"
    "code_equals_condition (make_error_code canceled) (make_error_condition cond_canceled)"
  using assms by (auto simp: ec_back_def condition_canceled means_canceled_def) (simp_all add: error_code_defs)



section \<open>An executor made from a scheduler\<close>

text \<open>
  \<^verbatim>\<open>scheduler_executor\<close>: each post allocates a holder with a copy of the continuation and starts a schedule operation on it. The operation completes once, with a value or by
  refusing; using a holder that was freed is \<open>None\<close>. \<open>sx_log\<close> is what was done to coroutines and chain owners.
\<close>

record sched_executor =
  sx_holders :: "(nat \<times> continuation) list"
  sx_next :: nat
  sx_owners :: owners
  sx_log :: "effect list"

definition sx_post :: "continuation \<Rightarrow> sched_executor \<Rightarrow> sched_executor" where
  "sx_post c s = s\<lparr>sx_holders := sx_holders s @ [(sx_next s, c)], sx_next := Suc (sx_next s)\<rparr>"

definition sx_dispatch :: "continuation \<Rightarrow> sched_executor \<Rightarrow> handle \<times> sched_executor" where
  "sx_dispatch c s = (noop, sx_post c s)"

definition delete_holder :: "nat \<Rightarrow> sched_executor \<Rightarrow> sched_executor" where
  "delete_holder i s = s\<lparr>sx_holders := filter (\<lambda>p. fst p \<noteq> i) (sx_holders s)\<rparr>"

definition sx_set_value :: "nat \<Rightarrow> sched_executor \<Rightarrow> sched_executor option" where
  "sx_set_value i s =
     (case map_of (sx_holders s) i of
        None \<Rightarrow> None
      | Some c \<Rightarrow> (case c_h c of
                    None \<Rightarrow> None
                  | Some h \<Rightarrow> Some ((delete_holder i s)\<lparr>sx_log := sx_log s @ [Resume h]\<rparr>)))"

definition sx_refuse :: "nat \<Rightarrow> sched_executor \<Rightarrow> sched_executor option" where
  "sx_refuse i s =
     (case map_of (sx_holders s) i of
        None \<Rightarrow> None
      | Some c \<Rightarrow> (case abandon c (sx_owners s) of (ow, es) \<Rightarrow> Some ((delete_holder i s)\<lparr>sx_owners := ow, sx_log := sx_log s @ es\<rparr>)))"

text \<open>A run, with the continuations posted, resumed and refused so far.\<close>

inductive sx_run :: "sched_executor \<Rightarrow> continuation list \<Rightarrow> continuation list \<Rightarrow> continuation list \<Rightarrow> bool" where
  init: "sx_run \<lparr>sx_holders = [], sx_next = 0, sx_owners = ow, sx_log = []\<rparr> [] [] []"
| post: "\<lbrakk>sx_run s ps vs rs; c_h c = Some h\<rbrakk> \<Longrightarrow> sx_run (sx_post c s) (ps @ [c]) vs rs"
| valued: "\<lbrakk>sx_run s ps vs rs; (i, c) \<in> set (sx_holders s); sx_set_value i s = Some s'\<rbrakk> \<Longrightarrow> sx_run s' ps (vs @ [c]) rs"
| refused: "\<lbrakk>sx_run s ps vs rs; (i, c) \<in> set (sx_holders s); sx_refuse i s = Some s'\<rbrakk> \<Longrightarrow> sx_run s' ps vs (rs @ [c])"

definition resumes :: "effect list \<Rightarrow> effect list" where
  "resumes es = filter (\<lambda>e. case e of Resume _ \<Rightarrow> True | _ \<Rightarrow> False) es"

lemma abandon_no_resume: "abandon c ow = (ow', es) \<Longrightarrow> resumes es = []"
  by (auto simp: abandon_def owner_abandon_def resumes_def split: option.splits if_splits)

lemma mset_delete_holder:
  assumes "distinct (map fst hs)" "(i, c) \<in> set hs"
  shows "mset (map snd hs) = add_mset c (mset (map snd (filter (\<lambda>p. fst p \<noteq> i) hs)))"
  using assms
proof (induction hs)
  case (Cons p hs)
  show ?case
  proof (cases "p = (i, c)")
    case True
    have "filter (\<lambda>p. fst p \<noteq> i) hs = hs" using Cons.prems(1) True by (intro filter_True) force
    then show ?thesis using True by simp
  next
    case False
    then have i: "(i, c) \<in> set hs" using Cons.prems(2) by simp
    moreover have "fst p \<noteq> i" using Cons.prems(1) imageI [OF i, of fst] by auto
    ultimately show ?thesis using Cons by simp
  qed
qed simp

definition sx_inv :: "sched_executor \<Rightarrow> continuation list \<Rightarrow> continuation list \<Rightarrow> continuation list \<Rightarrow> bool" where
  "sx_inv s ps vs rs \<longleftrightarrow> distinct (map fst (sx_holders s)) \<and> (\<forall>(i, c) \<in> set (sx_holders s). i < sx_next s \<and> c_h c \<noteq> None)
     \<and> mset ps = mset (map snd (sx_holders s)) + mset vs + mset rs \<and> resumes (sx_log s) = map (\<lambda>c. Resume (the (c_h c))) vs"

lemma distinct_filter_fst: "distinct (map fst hs) \<Longrightarrow> distinct (map fst (filter P hs))"
  by (induction hs) auto

lemma sx_run_inv: "sx_run s ps vs rs \<Longrightarrow> sx_inv s ps vs rs"
proof (induction rule: sx_run.induct)
  case (post s ps vs rs c h)
  then show ?case by (auto simp: sx_inv_def sx_post_def less_Suc_eq)
next
  case (valued s ps vs rs i c s')
  then have m: "map_of (sx_holders s) i = Some c" by (simp add: sx_inv_def)
  then show ?case using valued mset_delete_holder [of "sx_holders s" i c]
    by (auto simp: sx_inv_def sx_set_value_def delete_holder_def resumes_def distinct_filter_fst split: option.splits)
next
  case (refused s ps vs rs i c s')
  obtain ow es where a: "abandon c (sx_owners s) = (ow, es)" by fastforce
  from refused have m: "map_of (sx_holders s) i = Some c" by (simp add: sx_inv_def)
  then show ?case using refused mset_delete_holder [of "sx_holders s" i c] a abandon_no_resume [OF a]
    by (auto simp: sx_inv_def sx_refuse_def delete_holder_def resumes_def distinct_filter_fst)
qed (simp add: sx_inv_def resumes_def)

text \<open>
  Nothing posted through a scheduler is lost, run twice or leaked: in every run the posted continuations are those in live holders, those resumed and those refused; the
  coroutines resumed are those of the operations that completed with a value, in that order; and completing any live operation finds its holder.
\<close>

theorem scheduler_post_settled:
  assumes "sx_run s ps vs rs"
  shows "mset ps = mset (map snd (sx_holders s)) + mset vs + mset rs
    \<and> resumes (sx_log s) = map (\<lambda>c. Resume (the (c_h c))) vs
    \<and> (\<forall>p \<in> set (sx_holders s). sx_set_value (fst p) s \<noteq> None \<and> sx_refuse (fst p) s \<noteq> None)"
proof -
  have "sx_set_value i s \<noteq> None \<and> sx_refuse i s \<noteq> None" if "(i, c) \<in> set (sx_holders s)" for i c
  proof -
    have "map_of (sx_holders s) i = Some c" "c_h c \<noteq> None" using that sx_run_inv [OF assms] by (auto simp: sx_inv_def)
    then show ?thesis by (auto simp: sx_set_value_def sx_refuse_def split: prod.split)
  qed
  then show ?thesis using sx_run_inv [OF assms] by (auto simp: sx_inv_def)
qed

end
