(* ===== verification/Sender_Exchange.thy ===== *)
theory Sender_Exchange
  imports Sender_Awaitable
begin

text \<open>
  The second form of \<^verbatim>\<open>sender_awaitable\<close>, of \<^verbatim>\<open>bench/beman/sender_awaitable.hpp\<close> (and the copies of \<^verbatim>\<open>bench/stdexec\<close> and \<^verbatim>\<open>example/cuda/pipeline\<close>): the coroutine is
  not posted. The receiver, on whatever thread the sender completes, and \<^verbatim>\<open>await_suspend\<close>, after starting the operation, both exchange one atomic flag;
  whoever comes second lets the coroutine go on. Each step below is one access to memory the two threads share.
\<close>

section \<open>The two sides\<close>

datatype suspend_pc = Before_Start | After_Start | Suspend_Returned handle

datatype receiver_pc = Incomplete | Result_Stored | Receiver_Returned

text \<open>\<open>xc_goes_on\<close> counts how often the coroutine is resumed, by \<^verbatim>\<open>cont_.resume()\<close> or by \<^verbatim>\<open>await_suspend\<close> returning its own handle.\<close>

record 'v exchange =
  xc_done :: bool
  xc_result :: "'v result_variant"
  xc_suspend :: suspend_pc
  xc_receiver :: receiver_pc
  xc_goes_on :: nat
  xc_made :: "'v sender_signal option"

definition exchange_init :: "'v exchange" where
  "exchange_init = \<lparr>xc_done = False, xc_result = (0, Sl_monostate), xc_suspend = Before_Start, xc_receiver = Incomplete, xc_goes_on = 0, xc_made = None\<rparr>"

text \<open>Connecting and starting the operation: from here on the sender can complete.\<close>

definition exchange_start :: "'v exchange \<Rightarrow> 'v exchange" where
  "exchange_start s = s\<lparr>xc_suspend := After_Start\<rparr>"

text \<open>The receiver stores the result exactly as the posting one does.\<close>

definition exchange_store :: "bool \<Rightarrow> 'v sender_signal \<Rightarrow> 'v exchange \<Rightarrow> 'v exchange" where
  "exchange_store has_ec g s =
     s\<lparr>xc_result := sa_result (bridge_receive has_ec \<lparr>c_h = None, c_owner = None\<rparr> g sender_awaitable_init), xc_receiver := Result_Stored, xc_made := Some g\<rparr>"

definition resume_if_ready :: "'v exchange \<Rightarrow> 'v exchange" where
  "resume_if_ready s =
     (let old = xc_done s; s = s\<lparr>xc_done := True, xc_receiver := Receiver_Returned\<rparr>
      in if old then s\<lparr>xc_goes_on := Suc (xc_goes_on s)\<rparr> else s)"

definition suspend_exchange :: "handle \<Rightarrow> 'v exchange \<Rightarrow> 'v exchange" where
  "suspend_exchange h s =
     (let old = xc_done s; s = s\<lparr>xc_done := True\<rparr>
      in if old then s\<lparr>xc_suspend := Suspend_Returned h, xc_goes_on := Suc (xc_goes_on s)\<rparr> else s\<lparr>xc_suspend := Suspend_Returned noop\<rparr>)"

definition exchange_await_resume :: "bool \<Rightarrow> nat \<Rightarrow> 'v exchange \<Rightarrow> 'v resumed" where
  "exchange_await_resume has_ec n s = (if has_ec then await_resume_ec n (xc_result s) else await_resume_no_ec n (xc_result s))"

inductive xc_step :: "bool \<Rightarrow> nat \<Rightarrow> handle \<Rightarrow> 'v exchange \<Rightarrow> 'v exchange \<Rightarrow> bool" for has_ec n h where
  start: "xc_suspend s = Before_Start \<Longrightarrow> xc_step has_ec n h s (exchange_start s)"
| store: "\<lbrakk>xc_suspend s \<noteq> Before_Start; xc_receiver s = Incomplete; signal_ok has_ec n g\<rbrakk> \<Longrightarrow> xc_step has_ec n h s (exchange_store has_ec g s)"
| receiver: "xc_receiver s = Result_Stored \<Longrightarrow> xc_step has_ec n h s (resume_if_ready s)"
| suspender: "xc_suspend s = After_Start \<Longrightarrow> xc_step has_ec n h s (suspend_exchange h s)"

section \<open>The coroutine goes on once\<close>

definition suspend_returned :: "'v exchange \<Rightarrow> bool" where
  "suspend_returned s \<longleftrightarrow> (case xc_suspend s of Suspend_Returned _ \<Rightarrow> True | _ \<Rightarrow> False)"

definition both_sides :: "'v exchange \<Rightarrow> bool" where
  "both_sides s \<longleftrightarrow> suspend_returned s \<and> xc_receiver s = Receiver_Returned"

definition xc_inv :: "bool \<Rightarrow> nat \<Rightarrow> 'v exchange \<Rightarrow> bool" where
  "xc_inv has_ec n s \<longleftrightarrow> (xc_done s \<longleftrightarrow> suspend_returned s \<or> xc_receiver s = Receiver_Returned) \<and> xc_goes_on s = (if both_sides s then 1 else 0)
     \<and> (xc_receiver s = Incomplete \<or> (\<exists>g. xc_made s = Some g \<and> exchange_await_resume has_ec n s = awaited has_ec n g))"

lemma exchange_store_awaited:
  "signal_ok has_ec n g \<Longrightarrow> exchange_await_resume has_ec n (exchange_store has_ec g s) = awaited has_ec n g"
  using bridge_receive_awaited [of has_ec n g "\<lparr>c_h = None, c_owner = None\<rparr>" sender_awaitable_init]
  by (cases has_ec) (simp_all add: exchange_await_resume_def exchange_store_def sa_await_resume_def)

lemma xc_step_inv: "xc_step has_ec n h s s' \<Longrightarrow> xc_inv has_ec n s \<Longrightarrow> xc_inv has_ec n s'"
proof (induction rule: xc_step.induct)
  case (store s g)
  then show ?case using exchange_store_awaited [OF store(3), of s]
    by (auto simp: xc_inv_def exchange_store_def both_sides_def suspend_returned_def split: suspend_pc.splits if_splits)
qed (auto simp: xc_inv_def exchange_start_def resume_if_ready_def suspend_exchange_def both_sides_def suspend_returned_def exchange_await_resume_def Let_def
    split: suspend_pc.splits if_splits)

interpretation exchange_signal: one_shot "xc_step has_ec n h" "xc_inv has_ec n" "\<lambda>s. \<not> both_sides s" xc_goes_on
proof
  fix s s' :: "'v exchange"
  assume s: "xc_step has_ec n h s s'" and i: "xc_inv has_ec n s"
  show i': "xc_inv has_ec n s'" using xc_step_inv [OF s i] .
  show w: "\<not> both_sides s" if "\<not> both_sides s'"
    using s that by cases (auto simp: both_sides_def suspend_returned_def exchange_start_def exchange_store_def resume_if_ready_def suspend_exchange_def Let_def)
  show "xc_goes_on s' = xc_goes_on s + (if \<not> both_sides s \<and> \<not> \<not> both_sides s' then 1 else 0)" using i i' w by (auto simp: xc_inv_def)
qed

lemma exchange_init_inv: "xc_inv has_ec n exchange_init"
  by (simp add: xc_inv_def exchange_init_def both_sides_def suspend_returned_def)

text \<open>
  C25. Whoever comes second resumes. Under every interleaving of the thread that starts the operation with the one the sender completes on, also when the sender completes inside
  \<^verbatim>\<open>start\<close>, the coroutine goes on exactly once, when both sides have exchanged the flag, and not before; the result is stored by then and means what the
  sender's completion does; a side that has not exchanged yet finds the coroutine still suspended, so that the flag it is about to touch exists; and a state in which the coroutine is
  not resumed has a step left, unless the sender has not completed.
\<close>

theorem exchange_resumes_once:
  assumes "(xc_step has_ec n h)\<^sup>*\<^sup>* exchange_init s"
  shows "xc_goes_on s = (if both_sides s then 1 else 0)
    \<and> (0 < xc_goes_on s \<longrightarrow> (\<exists>g. xc_made s = Some g \<and> exchange_await_resume has_ec n s = awaited has_ec n g))
    \<and> (xc_suspend s = After_Start \<or> xc_receiver s = Result_Stored \<longrightarrow> xc_goes_on s = 0)
    \<and> (xc_goes_on s = 0 \<longrightarrow> xc_receiver s = Incomplete \<or> (\<exists>s'. xc_step has_ec n h s s'))"
proof -
  have i: "xc_inv has_ec n s" using exchange_signal.signalled_once [OF assms exchange_init_inv]
    by (simp add: exchange_init_def both_sides_def suspend_returned_def)
  have "xc_suspend s = Before_Start \<or> xc_suspend s = After_Start \<or> suspend_returned s" by (cases "xc_suspend s") (simp_all add: suspend_returned_def)
  then have step: "xc_goes_on s = 0 \<longrightarrow> xc_receiver s = Incomplete \<or> (\<exists>s'. xc_step has_ec n h s s')"
    using i xc_step.start [of s has_ec n h] xc_step.receiver [of s has_ec n h] xc_step.suspender [of s has_ec n h]
    by (cases "xc_receiver s"; cases "suspend_returned s") (auto simp: xc_inv_def both_sides_def)
  have "xc_goes_on s = (if both_sides s then 1 else 0)" "0 < xc_goes_on s \<longrightarrow> (\<exists>g. xc_made s = Some g \<and> exchange_await_resume has_ec n s = awaited has_ec n g)"
    "xc_suspend s = After_Start \<or> xc_receiver s = Result_Stored \<longrightarrow> xc_goes_on s = 0"
    using i by (auto simp: xc_inv_def both_sides_def suspend_returned_def)
  with step show ?thesis by blast
qed

definition demo_inline :: "nat exchange" where
  "demo_inline = suspend_exchange 5 (resume_if_ready (exchange_store False (Sg_value [7]) (exchange_start exchange_init)))"

lemma demo_inline_reach: "(xc_step False 1 5)\<^sup>*\<^sup>* exchange_init demo_inline"
proof -
  let ?a = "exchange_start exchange_init :: nat exchange"
  let ?b = "exchange_store False (Sg_value [7]) ?a" let ?c = "resume_if_ready ?b"
  have "xc_step False 1 5 exchange_init ?a" by (rule xc_step.start) (simp add: exchange_init_def)
  moreover have "xc_step False 1 5 ?a ?b" by (rule xc_step.store) (simp_all add: exchange_start_def exchange_init_def)
  moreover have "xc_step False 1 5 ?b ?c" by (rule xc_step.receiver) (simp add: exchange_store_def)
  moreover have "xc_step False 1 5 ?c demo_inline" unfolding demo_inline_def
    by (rule xc_step.suspender) (simp add: resume_if_ready_def exchange_store_def exchange_start_def exchange_init_def Let_def)
  ultimately show ?thesis by (meson converse_rtranclp_into_rtranclp rtranclp.rtrancl_refl)
qed

theorem exchange_resumes_once_witness:
  "xc_goes_on demo_inline = 1 \<and> xc_suspend demo_inline = Suspend_Returned 5 \<and> (\<exists>g. xc_made demo_inline = Some g \<and> exchange_await_resume False 1 demo_inline = awaited False 1 g)"
  using exchange_resumes_once [OF demo_inline_reach]
  by (simp add: demo_inline_def suspend_exchange_def resume_if_ready_def exchange_store_def exchange_start_def exchange_init_def both_sides_def suspend_returned_def Let_def)

end
