(* ===== verification/Asio_Adapters.thy ===== *)
theory Asio_Adapters
  imports Buffers Await_Adapters
begin

text \<open>
  The bridges to Asio: the buffer sequence adaptor of \<^verbatim>\<open>buffers/asio.hpp\<close>, and the awaitables and executors of \<^verbatim>\<open>example/asio/api\<close>
  (\<^verbatim>\<open>abandon_guard.hpp\<close>, \<^verbatim>\<open>capy_streams.cpp\<close>, \<^verbatim>\<open>use_capy.hpp\<close>). Asio itself is outside: its buffers are a type with a constructor and two
  accessors, its cancellation signals a type with operations, both arguments here; and what it does with a handler (take it and run or destroy it
  later, or throw before or after taking it) is a case of each operation.
\<close>

section \<open>Buffer sequences\<close>

text \<open>A position in the adapted sequence. Reading outside it is \<open>None\<close>. \<open>conv\<close> makes the buffer of the other library from a source buffer.\<close>

record 'b adaptor_iterator =
  ai_seq :: "'b list"
  ai_it :: int

definition adaptor_begin :: "'b list \<Rightarrow> 'b adaptor_iterator" where
  "adaptor_begin bs = \<lparr>ai_seq = bs, ai_it = 0\<rparr>"

definition adaptor_end :: "'b list \<Rightarrow> 'b adaptor_iterator" where
  "adaptor_end bs = \<lparr>ai_seq = bs, ai_it = int (length bs)\<rparr>"

definition adaptor_deref :: "('b \<Rightarrow> 'c) \<Rightarrow> 'b adaptor_iterator \<Rightarrow> 'c option" where
  "adaptor_deref conv i = (if 0 \<le> ai_it i \<and> ai_it i < int (length (ai_seq i)) then Some (conv (ai_seq i ! nat (ai_it i))) else None)"

definition adaptor_inc :: "'b adaptor_iterator \<Rightarrow> 'b adaptor_iterator" where
  "adaptor_inc i = i\<lparr>ai_it := ai_it i + 1\<rparr>"

definition adaptor_dec :: "'b adaptor_iterator \<Rightarrow> 'b adaptor_iterator" where
  "adaptor_dec i = i\<lparr>ai_it := ai_it i - 1\<rparr>"

definition adaptor_post_inc :: "'b adaptor_iterator \<Rightarrow> 'b adaptor_iterator \<times> 'b adaptor_iterator" where
  "adaptor_post_inc i = (let tmp = i in (tmp, adaptor_inc i))"

definition adaptor_post_dec :: "'b adaptor_iterator \<Rightarrow> 'b adaptor_iterator \<times> 'b adaptor_iterator" where
  "adaptor_post_dec i = (let tmp = i in (tmp, adaptor_dec i))"

definition adaptor_eq :: "'b adaptor_iterator \<Rightarrow> 'b adaptor_iterator \<Rightarrow> bool" where
  "adaptor_eq i j \<longleftrightarrow> ai_it i = ai_it j"

definition adaptor_plus_assign :: "int \<Rightarrow> 'b adaptor_iterator \<Rightarrow> 'b adaptor_iterator" where
  "adaptor_plus_assign n i = i\<lparr>ai_it := ai_it i + n\<rparr>"

definition adaptor_minus_assign :: "int \<Rightarrow> 'b adaptor_iterator \<Rightarrow> 'b adaptor_iterator" where
  "adaptor_minus_assign n i = i\<lparr>ai_it := ai_it i - n\<rparr>"

definition adaptor_index :: "('b \<Rightarrow> 'c) \<Rightarrow> 'b adaptor_iterator \<Rightarrow> int \<Rightarrow> 'c option" where
  "adaptor_index conv i n = adaptor_deref conv (adaptor_plus_assign n i)"

definition adaptor_diff :: "'b adaptor_iterator \<Rightarrow> 'b adaptor_iterator \<Rightarrow> int" where
  "adaptor_diff i j = ai_it i - ai_it j"

definition adaptor_less :: "'b adaptor_iterator \<Rightarrow> 'b adaptor_iterator \<Rightarrow> bool" where
  "adaptor_less i j \<longleftrightarrow> ai_it i < ai_it j"

text \<open>What each direction makes of a source buffer, with Asio's constructor and accessors as arguments.\<close>

definition to_asio_buffer :: "(addr \<Rightarrow> nat \<Rightarrow> 'a) \<Rightarrow> mutable_buffer \<Rightarrow> 'a" where
  "to_asio_buffer mk b = mk (buf_p b) (buf_n b)"

definition from_asio_buffer :: "('a \<Rightarrow> addr) \<Rightarrow> ('a \<Rightarrow> nat) \<Rightarrow> 'a \<Rightarrow> mutable_buffer" where
  "from_asio_buffer data sz a = mk_buffer (data a) (sz a)"

text \<open>The loop over an adapted sequence that every algorithm runs: from \<^verbatim>\<open>begin()\<close>, while not \<^verbatim>\<open>end()\<close>, dereference and increment.\<close>

function adaptor_walk :: "('b \<Rightarrow> 'c) \<Rightarrow> 'b adaptor_iterator \<Rightarrow> 'c list" where
  "adaptor_walk conv i =
     (if adaptor_eq i (adaptor_end (ai_seq i)) then []
      else case adaptor_deref conv i of
        None \<Rightarrow> []
      | Some c \<Rightarrow> c # adaptor_walk conv (adaptor_inc i))"
  by pat_completeness auto
termination
  by (relation "measure (\<lambda>(conv, i). nat (int (length (ai_seq i)) - ai_it i))") (auto simp: adaptor_deref_def adaptor_inc_def split: if_splits)

declare adaptor_walk.simps [simp del]

definition to_asio :: "(addr \<Rightarrow> nat \<Rightarrow> 'a) \<Rightarrow> mutable_buffer list \<Rightarrow> 'a list" where
  "to_asio mk bs = adaptor_walk (to_asio_buffer mk) (adaptor_begin bs)"

definition from_asio :: "('a \<Rightarrow> addr) \<Rightarrow> ('a \<Rightarrow> nat) \<Rightarrow> 'a list \<Rightarrow> mutable_buffer list" where
  "from_asio data sz as = adaptor_walk (from_asio_buffer data sz) (adaptor_begin as)"

text \<open>Whether the adapted sequence is mutable: of Asio, a single buffer of either type or a range of them.\<close>

datatype asio_elem = Asio_Mutable | Asio_Const

datatype asio_seq_type = Asio_Single asio_elem | Asio_Range asio_elem

fun from_asio_is_mutable :: "asio_seq_type \<Rightarrow> bool" where
  "from_asio_is_mutable (Asio_Single Asio_Mutable) = True"
| "from_asio_is_mutable (Asio_Single Asio_Const) = False"
| "from_asio_is_mutable (Asio_Range e) = (e = Asio_Mutable)"

lemma adaptor_walk_drop:
  "n \<le> length bs \<Longrightarrow> adaptor_walk conv \<lparr>ai_seq = bs, ai_it = int n\<rparr> = map conv (drop n bs)"
proof (induction "length bs - n" arbitrary: n)
  case 0
  then show ?case by (simp add: adaptor_walk.simps [of conv "\<lparr>ai_seq = bs, ai_it = int n\<rparr>"] adaptor_eq_def adaptor_end_def)
next
  case (Suc k)
  then have l: "n < length bs" by simp
  have "adaptor_walk conv \<lparr>ai_seq = bs, ai_it = int (Suc n)\<rparr> = map conv (drop (Suc n) bs)"
    using Suc(1) [of "Suc n"] Suc(2) l by linarith
  then show ?case using l
    by (simp add: adaptor_walk.simps [of conv "\<lparr>ai_seq = bs, ai_it = int n\<rparr>"] adaptor_eq_def adaptor_end_def adaptor_deref_def adaptor_inc_def
        Cons_nth_drop_Suc [symmetric] add.commute)
qed

lemma adaptor_walk_begin: "adaptor_walk conv (adaptor_begin bs) = map conv bs"
  using adaptor_walk_drop [of 0 bs conv] by (simp add: adaptor_begin_def)

lemma adaptor_index_begin: "n < length bs \<Longrightarrow> adaptor_index conv (adaptor_begin bs) (int n) = Some (conv (bs ! n))"
  by (simp add: adaptor_index_def adaptor_deref_def adaptor_plus_assign_def adaptor_begin_def)

lemma adaptor_index_end:
  assumes "n < length bs"
  shows "adaptor_index conv (adaptor_end bs) (- int (Suc n)) = Some (conv (rev bs ! n))"
proof -
  have p: "int (length bs) + - int (Suc n) = int (length bs - Suc n)" using assms by simp
  have "adaptor_index conv (adaptor_end bs) (- int (Suc n)) = Some (conv (bs ! nat (int (length bs - Suc n))))"
    unfolding adaptor_index_def adaptor_deref_def adaptor_plus_assign_def adaptor_end_def using assms
    by (simp only: adaptor_iterator.simps p) simp
  also have "nat (int (length bs - Suc n)) = length bs - Suc n" by (rule nat_int)
  also have "bs ! (length bs - Suc n) = rev bs ! n" using assms by (simp add: rev_nth)
  finally show ?thesis .
qed

lemma adaptor_steps:
  "adaptor_diff (adaptor_end bs) (adaptor_begin bs) = int (length bs)" "adaptor_dec (adaptor_inc i) = i"
  "adaptor_minus_assign n (adaptor_plus_assign n i) = i" "adaptor_less i (adaptor_inc i)"
  by (simp_all add: adaptor_diff_def adaptor_end_def adaptor_begin_def adaptor_inc_def adaptor_dec_def adaptor_minus_assign_def
      adaptor_plus_assign_def adaptor_less_def)

text \<open>
  Buffer sequences survive the conversion to Asio and back: walking the adaptor that \<^verbatim>\<open>to_asio\<close> returns gives, in order, one Asio buffer for each buffer of
  the sequence, over the same bytes, and adapting those back with \<^verbatim>\<open>from_asio\<close> gives the original sequence; Asio's buffers are only assumed to return the
  address and the size they were made from.
\<close>

theorem asio_buffers_roundtrip:
  assumes "\<And>p n. data (mk p n) = p" and "\<And>p n. sz (mk p n) = n"
  shows "from_asio data sz (to_asio mk bs) = bs
    \<and> concat (map (\<lambda>a. [data a..<data a + sz a]) (to_asio mk bs)) = addrs bs
    \<and> length (to_asio mk bs) = length bs"
proof -
  have "from_asio_buffer data sz \<circ> to_asio_buffer mk = id"
    by (auto simp: from_asio_buffer_def to_asio_buffer_def mk_buffer_def assms)
  then have "from_asio data sz (to_asio mk bs) = bs" by (simp add: from_asio_def to_asio_def adaptor_walk_begin)
  moreover have "concat (map (\<lambda>a. [data a..<data a + sz a]) (to_asio mk bs)) = addrs bs"
    by (simp add: to_asio_def adaptor_walk_begin addrs_def baddrs_def [abs_def] to_asio_buffer_def comp_def assms)
  ultimately show ?thesis by (simp add: to_asio_def adaptor_walk_begin)
qed

theorem asio_buffers_roundtrip_witness:
  "from_asio fst snd (to_asio Pair [mk_buffer 10 3, mk_buffer 40 0]) = [mk_buffer 10 3, mk_buffer 40 0]"
  using asio_buffers_roundtrip [of fst Pair snd "[mk_buffer 10 3, mk_buffer 40 0]"] by simp

section \<open>Handlers that hold a coroutine\<close>

text \<open>\<^verbatim>\<open>abandon_guard\<close>: the continuation it points to, if any. Each operation returns the guard as it leaves it.\<close>

type_synonym asio_guard = "continuation option"

definition asio_guard_destroy :: "asio_guard \<Rightarrow> owners \<Rightarrow> owners \<times> effect list" where
  "asio_guard_destroy g ow = (case g of None \<Rightarrow> (ow, []) | Some c \<Rightarrow> abandon c ow)"

definition asio_guard_move :: "asio_guard \<Rightarrow> asio_guard \<times> asio_guard" where
  "asio_guard_move g = (g, None)"

definition asio_guard_get :: "asio_guard \<Rightarrow> continuation option" where
  "asio_guard_get g = g"

definition asio_guard_release :: "asio_guard \<Rightarrow> continuation option \<times> asio_guard" where
  "asio_guard_release g = (g, None)"

definition handler_release :: "asio_guard \<Rightarrow> bool \<times> asio_guard" where
  "handler_release g = (case asio_guard_release g of (c, g) \<Rightarrow> (c \<noteq> None, g))"

text \<open>Running \<^verbatim>\<open>resume_or_abandon\<close>; a moved-from one is not run.\<close>

definition handler_call :: "asio_guard \<Rightarrow> (effect list \<times> asio_guard) option" where
  "handler_call g = (case asio_guard_release g of (None, _) \<Rightarrow> None | (Some c, g) \<Rightarrow> Some ([Resume (the (c_h c))], g))"

datatype asio_post_outcome = Post_Takes | Post_Throws_Before | Post_Throws_After

text \<open>
  \<^verbatim>\<open>post\<close> of the Asio executors: whether it throws, the handler that Asio has, and what happened. A handler Asio took and then destroyed has given the
  continuation up; the local handler is destroyed at the end.
\<close>

definition asio_post :: "asio_post_outcome \<Rightarrow> continuation \<Rightarrow> owners \<Rightarrow> bool \<times> asio_guard \<times> owners \<times> effect list" where
  "asio_post po c ow =
     (let r = Some c in
      case po of
        Post_Takes \<Rightarrow> (case asio_guard_move r of (q, r) \<Rightarrow> case asio_guard_destroy r ow of (ow, es) \<Rightarrow> (False, q, ow, es))
      | Post_Throws_Before \<Rightarrow>
          (case handler_release r of (held, r) \<Rightarrow> case asio_guard_destroy r ow of (ow, es) \<Rightarrow> (held, None, ow, es))
      | Post_Throws_After \<Rightarrow>
          (case asio_guard_move r of (q, r) \<Rightarrow> case asio_guard_destroy q ow of (ow, es) \<Rightarrow>
             case handler_release r of (held, r) \<Rightarrow> case asio_guard_destroy r ow of (ow, es') \<Rightarrow> (held, None, ow, es @ es')))"

definition asio_dispatch :: "asio_post_outcome \<Rightarrow> continuation \<Rightarrow> owners \<Rightarrow> handle \<times> bool \<times> asio_guard \<times> owners \<times> effect list" where
  "asio_dispatch po c ow = (noop, asio_post po c ow)"

text \<open>What Asio does with a handler it has: run it, or destroy it unrun with its context.\<close>

datatype fate = Runs | Destroyed

fun posted_fate :: "fate \<Rightarrow> asio_guard \<Rightarrow> owners \<Rightarrow> owners \<times> effect list" where
  "posted_fate Runs q ow = (case handler_call q of None \<Rightarrow> (ow, []) | Some (es, g) \<Rightarrow> (case asio_guard_destroy g ow of (ow, es') \<Rightarrow> (ow, es @ es')))"
| "posted_fate Destroyed q ow = asio_guard_destroy q ow"

section \<open>An Asio operation as an awaitable\<close>

text \<open>
  The awaitable of a read or write (\<^verbatim>\<open>capy_streams.cpp\<close>) or of any operation (\<^verbatim>\<open>use_capy.hpp\<close>): its result, and what happened. The completion handler stores the result,
  posts the continuation through the caller's executor and releases its guard; if the post throws, the exception leaves the handler, whose guard is
  destroyed with it.
\<close>

record 'v asio_op =
  op_result :: "'v results option"
  op_cont :: continuation

definition store_result :: "error_code \<Rightarrow> 'v list \<Rightarrow> 'v asio_op \<Rightarrow> 'v asio_op" where
  "store_result ec vs s = s\<lparr>op_result := Some \<lparr>res_ec = ec, res_values = vs\<rparr>\<rparr>"

definition completion_handler :: "asio_post_outcome \<Rightarrow> error_code \<Rightarrow> 'v list \<Rightarrow> asio_guard \<Rightarrow> 'v asio_op \<Rightarrow> owners \<Rightarrow> 'v asio_op \<times> asio_guard \<times> owners \<times> effect list" where
  "completion_handler po ec vs g s ow =
     (let s = store_result ec vs s in
      case asio_post po (the (asio_guard_get g)) ow of (throws, q, ow, es) \<Rightarrow>
        let g = (if throws then g else snd (asio_guard_release g)) in
        case asio_guard_destroy g ow of (ow, es') \<Rightarrow> (s, q, ow, es @ es'))"

text \<open>
  How the operation goes. Making the cancellation state may throw, which is outside the \<^verbatim>\<open>try\<close>. Inside it copying the buffers may throw, and the order of arguments is
  unspecified, so the handler with its guard may have been built by then or not. Then initiating it may throw, which destroys the handler; and otherwise the
  handler is destroyed or run, and then the post and what was posted.
\<close>

datatype course = Cancel_State_Throws | Arguments_Throw (handler_built: bool) | Init_Throws | Handler_Destroyed | Handler_Runs asio_post_outcome fate

definition op_await_suspend :: "course \<Rightarrow> error_code \<Rightarrow> 'v list \<Rightarrow> handle \<Rightarrow> nat option \<Rightarrow> 'v asio_op \<Rightarrow> owners
    \<Rightarrow> (handle, 'v asio_op \<times> owners \<times> effect list) call" where
  "op_await_suspend co ec vs h owner s ow =
     (let s = s\<lparr>op_cont := \<lparr>c_h = Some h, c_owner = owner\<rparr>\<rparr>; g = Some (op_cont s) in
      case co of
        Cancel_State_Throws \<Rightarrow> Threw (s, ow, [])
      | Arguments_Throw built \<Rightarrow>
          Returned noop (if built then case asio_guard_destroy g ow of (ow, es) \<Rightarrow> (s, ow, es) else (s, ow, []))
      | Init_Throws \<Rightarrow> Returned noop (case asio_guard_destroy g ow of (ow, es) \<Rightarrow> (s, ow, es))
      | Handler_Destroyed \<Rightarrow> Returned noop (case asio_guard_destroy g ow of (ow, es) \<Rightarrow> (s, ow, es))
      | Handler_Runs po f \<Rightarrow>
          Returned noop (case completion_handler po ec vs g s ow of (s, q, ow, es) \<Rightarrow> case posted_fate f q ow of (ow, es') \<Rightarrow> (s, ow, es @ es')))"

definition op_await_resume :: "'v asio_op \<Rightarrow> 'v results option" where
  "op_await_resume s = op_result s"

lemmas asio_defs = asio_guard_destroy_def asio_guard_move_def asio_guard_get_def asio_guard_release_def handler_release_def handler_call_def asio_post_def store_result_def
  completion_handler_def op_await_suspend_def op_await_resume_def

text \<open>
  C33. An Asio operation settles its coroutine exactly once. However initiating it, its completion handler, the post through the executor and the posted
  handler turn out (each may throw or be destroyed unrun, the post before or after Asio took the handler), the coroutine is resumed or given up, never both, never
  twice and never neither: it is resumed exactly if all of them run, and then \<^verbatim>\<open>await_resume\<close> returns the operation's result, and otherwise its chain is
  abandoned as one \<^verbatim>\<open>abandon\<close> of its continuation does. What throws before the handler and its guard exist is the exception. If making the cancellation state throws, the
  exception leaves \<^verbatim>\<open>await_suspend\<close> with nothing resumed or given up; if copying the buffers throws, \<^verbatim>\<open>await_suspend\<close> swallows it and returns, and the coroutine stays
  suspended, neither resumed nor given up.
\<close>

theorem asio_operation_settles_once:
  shows "(co = Handler_Runs Post_Takes Runs \<longrightarrow>
      (\<exists>s'. op_await_suspend co ec vs h owner s ow = Returned noop (s', ow, [Resume h]) \<and> op_await_resume s' = Some \<lparr>res_ec = ec, res_values = vs\<rparr>))
    \<and> (co \<notin> {Handler_Runs Post_Takes Runs, Cancel_State_Throws, Arguments_Throw False} \<longrightarrow>
      (\<exists>s'. op_await_suspend co ec vs h owner s ow = Returned noop (s', abandon \<lparr>c_h = Some h, c_owner = owner\<rparr> ow)))
    \<and> (co = Cancel_State_Throws \<longrightarrow> (\<exists>s'. op_await_suspend co ec vs h owner s ow = Threw (s', ow, [])))
    \<and> (co = Arguments_Throw False \<longrightarrow> (\<exists>s'. op_await_suspend co ec vs h owner s ow = Returned noop (s', ow, [])))"
proof -
  obtain ow' es where ab: "abandon \<lparr>c_h = Some h, c_owner = owner\<rparr> ow = (ow', es)" by force
  show ?thesis
  proof (cases co)
    case (Handler_Runs po f)
    then show ?thesis by (cases po; cases f) (simp_all add: asio_defs ab)
  qed (auto simp: asio_defs ab)
qed

definition no_owners :: owners where
  "no_owners = \<lparr>o_self = (\<lambda>_. None), o_abandoned = (\<lambda>_. False)\<rparr>"

definition fresh_op :: "nat asio_op" where
  "fresh_op = \<lparr>op_result = None, op_cont = \<lparr>c_h = None, c_owner = None\<rparr>\<rparr>"

theorem asio_operation_settles_once_witness:
  "(\<exists>s'. op_await_suspend (Handler_Runs Post_Takes Runs) success [7] 5 None fresh_op no_owners = Returned noop (s', no_owners, [Resume 5])
      \<and> op_await_resume s' = Some \<lparr>res_ec = success, res_values = [7]\<rparr>)
    \<and> (\<exists>s'. op_await_suspend (Handler_Runs Post_Throws_Before Runs) success [7] 5 None fresh_op no_owners = Returned noop (s', no_owners, [Destroy 5]))
    \<and> (\<exists>s'. op_await_suspend (Arguments_Throw False) success [7] 5 None fresh_op no_owners = Returned noop (s', no_owners, []))"
  using asio_operation_settles_once [of "Handler_Runs Post_Takes Runs" success "[7]" 5 None fresh_op no_owners]
    asio_operation_settles_once [of "Handler_Runs Post_Throws_Before Runs" success "[7]" 5 None fresh_op no_owners]
    asio_operation_settles_once [of "Arguments_Throw False" success "[7]" 5 None fresh_op no_owners]
  by (simp add: abandon_def no_owners_def)

section \<open>Cancelling an Asio operation\<close>

text \<open>
  \<^verbatim>\<open>cancel_state\<close> registers a stop callback that emits on a cancellation signal; registering on a token with a request already made runs the callback at once. Only
  afterwards is the operation started with the signal's slot. The signal is Asio's: \<open>emit\<close> and \<open>connect\<close> (what initiating an operation on its slot does) change
  it, \<open>cancels\<close> says whether the operation was told to cancel.
\<close>

definition cancel_state :: "('g \<Rightarrow> 'g) \<Rightarrow> bool \<Rightarrow> 'g \<Rightarrow> 'g" where
  "cancel_state emit stop_requested signal = (if stop_requested then emit signal else signal)"

definition cancel_bridge :: "('g \<Rightarrow> 'g) \<Rightarrow> bool \<Rightarrow> bool \<Rightarrow> 'g \<Rightarrow> 'g" where
  "cancel_bridge emit stop_possible stop_requested signal = (if stop_possible then (if stop_requested then emit signal else signal) else signal)"

definition start_with_slot :: "('g \<Rightarrow> 'g) \<Rightarrow> ('g \<Rightarrow> 'g) \<Rightarrow> bool \<Rightarrow> 'g \<Rightarrow> 'g" where
  "start_with_slot emit connect stop_requested signal = connect (cancel_state emit stop_requested signal)"

text \<open>
  A stop request made before an Asio operation is awaited does not cancel it. Emitting on a signal whose slot has no handler does nothing, by Asio's
  documentation, and the callback of a token with a request already made emits before the operation is started on the slot: the operation is left in the state of one whose token has no
  request, and so runs to its end, while the same request made once it is started cancels it.
\<close>

theorem asio_early_stop_lost:
  assumes "emit fresh = fresh" and "\<not> cancels (connect fresh)" and "cancels (emit (connect fresh))"
  shows "start_with_slot emit connect True fresh = start_with_slot emit connect False fresh
    \<and> \<not> cancels (start_with_slot emit connect True fresh) \<and> \<not> cancels (connect (cancel_bridge emit True True fresh))
    \<and> cancels (emit (start_with_slot emit connect False fresh))"
  using assms by (simp add: start_with_slot_def cancel_state_def cancel_bridge_def)

end
