(* ===== verification/Teardown.thy ===== *)
theory Teardown
  imports Await_Adapters "HOL-Library.Multiset"
begin

text \<open>
  Destroying an execution context with work in its queue. The destructors of \<^verbatim>\<open>src/ex/thread_pool.cpp\<close> and of the contexts of the examples have one shape: shut the
  services down, drain the queue by giving up what is in it, destroy the services, and drain again. Giving up a continuation can post the unwind of a chain to the very queue that is drained, and
  destroying a frame can post more. What the contexts share is proved here once, in the locale \<open>draining\<close>.
\<close>

section \<open>A context with a queue\<close>

text \<open>
  \<open>lc_queue\<close> is the queue of the context and \<open>lc_thread\<close> the thread on which it resumes inline, if it has one. \<open>lc_chains\<close> are the
  chain owners that exist, \<open>lc_here\<close> those bound to this context; \<open>lc_frames\<close> the coroutine frames that exist, each with what its destruction posts
  to this context; \<open>lc_destroyed\<close> and \<open>lc_away\<close> record destroyed frames and unwinds posted to other contexts.
\<close>

record loop_ctx =
  lc_queue :: "continuation list"
  lc_thread :: "nat option"
  lc_owners :: owners
  lc_chains :: "nat list"
  lc_here :: "nat \<Rightarrow> bool"
  lc_frames :: "(handle \<times> continuation list) list"
  lc_destroyed :: "handle list"
  lc_away :: "nat list"

definition loop_enqueue :: "continuation \<Rightarrow> loop_ctx \<Rightarrow> loop_ctx" where
  "loop_enqueue c s = s\<lparr>lc_queue := lc_queue s @ [c]\<rparr>"


section \<open>Giving up the queue\<close>

text \<open>What giving up a continuation does here. Destroying a frame that does not exist, or using an owner that does not, is \<open>None\<close>; destroying \<^verbatim>\<open>std::noop_coroutine()\<close> does nothing.\<close>

fun loop_effect :: "effect \<Rightarrow> loop_ctx \<Rightarrow> loop_ctx option" where
  "loop_effect (Post_Self k) s =
     (case o_self (lc_owners s) k of
        None \<Rightarrow> None
      | Some h \<Rightarrow> Some (if lc_here s k then loop_enqueue \<lparr>c_h = Some h, c_owner = None\<rparr> s else s\<lparr>lc_away := lc_away s @ [k]\<rparr>))"
| "loop_effect (Destroy h) s =
     (if h = noop then Some s else case map_of (lc_frames s) h of
        None \<Rightarrow> None
      | Some ps \<Rightarrow> Some (s\<lparr>lc_frames := filter (\<lambda>f. fst f \<noteq> h) (lc_frames s), lc_destroyed := lc_destroyed s @ [h], lc_queue := lc_queue s @ ps\<rparr>))"
| "loop_effect (Resume h) s = Some s"

definition give_up :: "continuation \<Rightarrow> loop_ctx \<Rightarrow> loop_ctx option" where
  "give_up c s =
     (if (\<exists>k \<in> set_option (c_owner c). k \<notin> set (lc_chains s)) then None
      else case abandon c (lc_owners s) of
        (ow, []) \<Rightarrow> Some (s\<lparr>lc_owners := ow\<rparr>)
      | (ow, e # _) \<Rightarrow> loop_effect e (s\<lparr>lc_owners := ow\<rparr>))"

definition live_chains :: "loop_ctx \<Rightarrow> nat list" where
  "live_chains s = filter (\<lambda>k. \<not> abandoned k (lc_owners s)) (lc_chains s)"

definition drain_size :: "loop_ctx \<Rightarrow> nat" where
  "drain_size s = length (lc_queue s) + (\<Sum>f \<leftarrow> lc_frames s. Suc (length (snd f))) + length (live_chains s)"

lemma frames_size_remove:
  "map_of fs h = Some ps \<Longrightarrow> length ps < (\<Sum>f \<leftarrow> fs. Suc (length (snd f))) - (\<Sum>f \<leftarrow> filter (\<lambda>f. fst f \<noteq> h) fs. Suc (length (snd f)))
     \<and> (\<Sum>f \<leftarrow> filter (\<lambda>f. fst f \<noteq> h) fs. Suc (length (snd f))) \<le> (\<Sum>f \<leftarrow> fs. Suc (length (snd f)))"
proof (induction fs)
  case (Cons f fs)
  have le: "(\<Sum>f \<leftarrow> filter (\<lambda>f. fst f \<noteq> h) fs. Suc (length (snd f))) \<le> (\<Sum>f \<leftarrow> fs. Suc (length (snd f)))"
    by (induction fs) auto
  show ?case using Cons le by (auto split: if_splits)
qed simp

lemma live_chains_flip:
  assumes "k \<in> set ks" "\<not> P k"
  shows "length (filter (\<lambda>j. \<not> (P(k := True)) j) ks) < length (filter (\<lambda>j. \<not> P j) ks)"
proof -
  have "filter (\<lambda>j. \<not> (P(k := True)) j) ks = filter (\<lambda>j. j \<noteq> k) (filter (\<lambda>j. \<not> P j) ks)"
    by (auto intro: filter_cong)
  moreover have "k \<in> set (filter (\<lambda>j. \<not> P j) ks)" using assms by simp
  ultimately show ?thesis by (metis (mono_tags, lifting) length_filter_less)
qed

text \<open>
  Every continuation given up makes the work that is left smaller, although it can grow the queue: a chain's unwind is posted once, and a
  frame is destroyed once.
\<close>

lemma give_up_size: "give_up c (s\<lparr>lc_queue := q\<rparr>) = Some s' \<Longrightarrow> drain_size s' < drain_size (s\<lparr>lc_queue := c # q\<rparr>)"
proof (cases "c_owner c")
  case None
  assume g: "give_up c (s\<lparr>lc_queue := q\<rparr>) = Some s'"
  show ?thesis
  proof (cases "c_h c")
    case hn: None
    then show ?thesis using g None by (auto simp: give_up_def abandon_def drain_size_def live_chains_def)
  next
    case (Some h)
    show ?thesis
    proof (cases "h = noop")
      case True
      then show ?thesis using g None Some by (auto simp: give_up_def abandon_def drain_size_def live_chains_def)
    next
      case False
      then obtain ps where ps: "map_of (lc_frames s) h = Some ps" using g None Some by (auto simp: give_up_def abandon_def split: option.splits)
      then show ?thesis using g None Some False frames_size_remove [OF ps]
        by (auto simp: give_up_def abandon_def drain_size_def live_chains_def)
    qed
  qed
next
  case (Some k)
  assume g: "give_up c (s\<lparr>lc_queue := q\<rparr>) = Some s'"
  then have k: "k \<in> set (lc_chains s)" using Some by (auto simp: give_up_def split: if_splits)
  show ?thesis
  proof (cases "o_abandoned (lc_owners s) k")
    case True
    then show ?thesis using g Some k by (auto simp: give_up_def abandon_def owner_abandon_def drain_size_def live_chains_def)
  next
    case False
    then show ?thesis using g Some k live_chains_flip [where P = "o_abandoned (lc_owners s)", OF k False]
      by (auto simp: give_up_def abandon_def owner_abandon_def drain_size_def live_chains_def abandoned_def loop_enqueue_def
          simp del: fun_upd_apply split: option.splits if_splits)
  qed
qed

lemma turn_size:
  assumes "lc_queue s = c # q" and "(if k then give_up c (s\<lparr>lc_queue := q\<rparr>) else Some (s\<lparr>lc_queue := q\<rparr>)) = Some s'"
  shows "drain_size s' < drain_size s"
proof -
  have "s\<lparr>lc_queue := c # q\<rparr> = s" using assms(1) by simp
  then show ?thesis using assms give_up_size [of c q s s'] by (cases k) (auto simp: drain_size_def live_chains_def)
qed

text \<open>The drain. A context may look at a continuation before it gives it up: \<open>keep\<close>.\<close>

function drain_if :: "(continuation \<Rightarrow> bool) \<Rightarrow> loop_ctx \<Rightarrow> loop_ctx option" where
  "drain_if keep s =
     (case lc_queue s of
        [] \<Rightarrow> Some s
      | c # q \<Rightarrow> (case (if keep c then give_up c (s\<lparr>lc_queue := q\<rparr>) else Some (s\<lparr>lc_queue := q\<rparr>)) of None \<Rightarrow> None | Some s' \<Rightarrow> drain_if keep s'))"
  by pat_completeness auto
termination by (relation "measure (\<lambda>(keep, s). drain_size s)") (use turn_size in auto)

declare drain_if.simps [simp del]

text \<open>The shape of the destructors; \<open>shutdown\<close> and \<open>destroy\<close> are what the services of the context do.\<close>

definition teardown :: "(continuation \<Rightarrow> bool) \<Rightarrow> (loop_ctx \<Rightarrow> loop_ctx) \<Rightarrow> (loop_ctx \<Rightarrow> loop_ctx) \<Rightarrow> loop_ctx \<Rightarrow> loop_ctx option" where
  "teardown keep shutdown destroy s =
     (case drain_if keep (shutdown s) of
        None \<Rightarrow> None
      | Some s \<Rightarrow> drain_if keep (destroy s))"

section \<open>Each frame has one destroyer\<close>

text \<open>
  Who is to destroy which frame: a queued continuation without an owner its own frame, a chain of this context that is not yet abandoned the frame of its segment,
  and a frame the frames its destruction posts. A well-formed state gives each frame at most one destroyer.
\<close>

fun tok :: "continuation \<Rightarrow> handle multiset" where
  "tok c = (case c_owner c of None \<Rightarrow> (case c_h c of None \<Rightarrow> {#} | Some h \<Rightarrow> if h = noop then {#} else {#h#}) | Some _ \<Rightarrow> {#})"

declare tok.simps [simp del]

definition toks :: "continuation list \<Rightarrow> handle multiset" where
  "toks cs = (\<Sum>c \<leftarrow> cs. tok c)"

definition frame_toks :: "(handle \<times> continuation list) list \<Rightarrow> handle multiset" where
  "frame_toks fs = (\<Sum>f \<leftarrow> fs. toks (snd f))"

definition chain_toks :: "loop_ctx \<Rightarrow> handle multiset" where
  "chain_toks s = image_mset (\<lambda>k. the (o_self (lc_owners s) k)) {#k \<in># mset (lc_chains s). lc_here s k \<and> \<not> o_abandoned (lc_owners s) k#}"

definition tokens :: "loop_ctx \<Rightarrow> handle multiset" where
  "tokens s = toks (lc_queue s) + frame_toks (lc_frames s) + chain_toks s"

definition known :: "loop_ctx \<Rightarrow> continuation list \<Rightarrow> bool" where
  "known s cs \<longleftrightarrow> (\<forall>c \<in> set cs. \<forall>k. c_owner c = Some k \<longrightarrow> k \<in> set (lc_chains s))"

definition wf_loop :: "loop_ctx \<Rightarrow> bool" where
  "wf_loop s \<longleftrightarrow> tokens s \<subseteq># mset (map fst (lc_frames s))
     \<and> distinct (map fst (lc_frames s)) \<and> distinct (lc_chains s) \<and> (\<forall>k \<in> set (lc_chains s). o_self (lc_owners s) k \<notin> {None, Some noop})
     \<and> known s (lc_queue s) \<and> (\<forall>f \<in> set (lc_frames s). known s (snd f))
     \<and> distinct (lc_destroyed s) \<and> set (lc_destroyed s) \<inter> fst ` set (lc_frames s) = {}"

lemma toks_simps [simp]: "toks [] = {#}" "toks (c # cs) = tok c + toks cs" "toks (cs @ ds) = toks cs + toks ds"
  by (simp_all add: toks_def)

lemma frame_remove:
  "\<lbrakk>distinct (map fst fs); map_of fs h = Some ps\<rbrakk> \<Longrightarrow>
     frame_toks fs = toks ps + frame_toks (filter (\<lambda>f. fst f \<noteq> h) fs) \<and> mset (map fst fs) = add_mset h (mset (map fst (filter (\<lambda>f. fst f \<noteq> h) fs)))"
proof (induction fs)
  case (Cons f fs)
  show ?case
  proof (cases "fst f = h")
    case True
    then have "filter (\<lambda>g. fst g \<noteq> h) fs = fs" using Cons.prems(1) by (intro filter_True ballI) (metis distinct.simps(2) image_eqI list.set_map list.simps(9))
    then show ?thesis using Cons.prems True by (simp add: frame_toks_def)
  next
    case False
    then show ?thesis using Cons by (simp add: frame_toks_def ac_simps)
  qed
qed simp

lemma chain_toks_flip:
  assumes "distinct ks" "k \<in> set ks" "H k" "\<not> P k"
  shows "image_mset f {#j \<in># mset ks. H j \<and> \<not> P j#} = add_mset (f k) (image_mset f {#j \<in># mset ks. H j \<and> \<not> (P(k := True)) j#})"
proof -
  obtain M where M: "mset ks = add_mset k M" using assms(2) by (meson in_multiset_in_set multi_member_split)
  have "count (mset ks) k = 1" using assms(1,2) by (simp add: distinct_count_atmost_1)
  then have "k \<notin># M" using M by (simp add: not_in_iff)
  then have "{#j \<in># M. H j \<and> \<not> (P(k := True)) j#} = {#j \<in># M. H j \<and> \<not> P j#}" by (intro filter_mset_cong) auto
  then show ?thesis using M assms(3,4) by simp
qed

lemma chain_toks_flip_away:
  assumes "\<not> H k"
  shows "{#j \<in># A. H j \<and> \<not> (P(k := True)) j#} = {#j \<in># A. H j \<and> \<not> P j#}"
  using assms by (intro filter_mset_cong) auto

definition settled :: "loop_ctx \<Rightarrow> continuation \<Rightarrow> bool" where
  "settled s c \<longleftrightarrow> (case c_owner c of Some k \<Rightarrow> abandoned k (lc_owners s) | None \<Rightarrow> (\<forall>h. c_h c = Some h \<longrightarrow> h = noop \<or> h \<in> set (lc_destroyed s)))"

text \<open>The unwind of a chain is done here, was handed to the context it is bound to, or is queued.\<close>

definition unwound :: "loop_ctx \<Rightarrow> nat \<Rightarrow> bool" where
  "unwound s k \<longleftrightarrow> (if lc_here s k then the (o_self (lc_owners s) k) \<in> set (lc_destroyed s) else k \<in> set (lc_away s))"

definition later :: "loop_ctx \<Rightarrow> loop_ctx \<Rightarrow> bool" where
  "later s s' \<longleftrightarrow> lc_chains s' = lc_chains s \<and> lc_here s' = lc_here s \<and> o_self (lc_owners s') = o_self (lc_owners s)
     \<and> (\<forall>k. abandoned k (lc_owners s) \<longrightarrow> abandoned k (lc_owners s')) \<and> set (lc_destroyed s) \<subseteq> set (lc_destroyed s') \<and> set (lc_away s) \<subseteq> set (lc_away s')"

lemma later_trans: "later s s' \<Longrightarrow> later s' s'' \<Longrightarrow> later s s''"
  by (auto simp: later_def)

lemma settled_later: "settled s c \<Longrightarrow> later s s' \<Longrightarrow> settled s' c"
  by (auto simp: settled_def later_def split: option.splits)

lemma give_up_destroys:
  assumes wf: "wf_loop (s\<lparr>lc_queue := c # q\<rparr>)" and c: "c_owner c = None" "c_h c = Some h" "h \<noteq> noop"
  shows "\<exists>ps. give_up c (s\<lparr>lc_queue := q\<rparr>) = Some (s\<lparr>lc_frames := filter (\<lambda>f. fst f \<noteq> h) (lc_frames s), lc_destroyed := lc_destroyed s @ [h], lc_queue := q @ ps\<rparr>)
     \<and> wf_loop (s\<lparr>lc_frames := filter (\<lambda>f. fst f \<noteq> h) (lc_frames s), lc_destroyed := lc_destroyed s @ [h], lc_queue := q @ ps\<rparr>)"
proof -
  have tc: "tok c = {#h#}" using c by (simp add: tok.simps)
  have d: "distinct (map fst (lc_frames s))" using wf by (simp add: wf_loop_def)
  have w: "tokens (s\<lparr>lc_queue := c # q\<rparr>) \<subseteq># mset (map fst (lc_frames s))" using wf by (simp add: wf_loop_def)
  have "h \<in># tokens (s\<lparr>lc_queue := c # q\<rparr>)" using tc by (simp add: tokens_def)
  with w have "h \<in># mset (map fst (lc_frames s))" by (rule mset_subset_eqD)
  then obtain ps where ps: "map_of (lc_frames s) h = Some ps" by (metis list.set_map map_of_eq_None_iff not_None_eq set_mset_mset)
  let ?fs = "filter (\<lambda>f. fst f \<noteq> h) (lc_frames s)"
  let ?s = "s\<lparr>lc_frames := ?fs, lc_destroyed := lc_destroyed s @ [h], lc_queue := q @ ps\<rparr>"
  note fr = frame_remove [OF d ps]
  have g: "give_up c (s\<lparr>lc_queue := q\<rparr>) = Some ?s" using c ps by (simp add: give_up_def abandon_def)
  have t: "tokens (s\<lparr>lc_queue := c # q\<rparr>) = add_mset h (tokens ?s)" using fr tc by (simp add: tokens_def chain_toks_def ac_simps)
  have "tokens ?s \<subseteq># mset (map fst ?fs)"
  proof -
    have "add_mset h (tokens ?s) \<subseteq># add_mset h (mset (map fst ?fs))" using wf fr t by (simp add: wf_loop_def)
    then show ?thesis by simp
  qed
  moreover have "distinct (map fst ?fs)" using d by (simp add: distinct_map_filter)
  moreover have "known s ps" using wf map_of_SomeD [OF ps] by (auto simp: wf_loop_def known_def)
  moreover have "h \<notin> set (lc_destroyed s)" "set (lc_destroyed s) \<inter> fst ` set ?fs = {}"
    using wf map_of_SomeD [OF ps] by (auto simp: wf_loop_def) force
  ultimately have "wf_loop ?s" using wf by (auto simp: wf_loop_def known_def)
  then show ?thesis using g by blast
qed

lemma give_up_flags:
  assumes wf: "wf_loop (s\<lparr>lc_queue := c # q\<rparr>)" and c: "c_owner c = Some k" and n: "\<not> abandoned k (lc_owners s)"
  shows "\<exists>h s'. o_self (lc_owners s) k = Some h \<and> h \<noteq> noop \<and> give_up c (s\<lparr>lc_queue := q\<rparr>) = Some s' \<and> wf_loop s'
     \<and> s' = s\<lparr>lc_owners := (lc_owners s)\<lparr>o_abandoned := (o_abandoned (lc_owners s))(k := True)\<rparr>,
              lc_queue := (if lc_here s k then q @ [\<lparr>c_h = Some h, c_owner = None\<rparr>] else q),
              lc_away := (if lc_here s k then lc_away s else lc_away s @ [k])\<rparr>"
proof -
  have k: "k \<in> set (lc_chains s)" using wf c by (auto simp: wf_loop_def known_def)
  then obtain h where h: "o_self (lc_owners s) k = Some h" "h \<noteq> noop" using wf by (auto simp: wf_loop_def)
  let ?s = "s\<lparr>lc_owners := (lc_owners s)\<lparr>o_abandoned := (o_abandoned (lc_owners s))(k := True)\<rparr>,
              lc_queue := (if lc_here s k then q @ [\<lparr>c_h = Some h, c_owner = None\<rparr>] else q),
              lc_away := (if lc_here s k then lc_away s else lc_away s @ [k])\<rparr>"
  have g: "give_up c (s\<lparr>lc_queue := q\<rparr>) = Some ?s"
    using c k h n by (simp add: give_up_def abandon_def owner_abandon_def abandoned_def loop_enqueue_def)
  have d: "distinct (lc_chains s)" using wf by (simp add: wf_loop_def)
  have n': "\<not> o_abandoned (lc_owners s) k" using n by (simp add: abandoned_def)
  have "tokens ?s = tokens (s\<lparr>lc_queue := c # q\<rparr>)"
  proof (cases "lc_here s k")
    case True
    then show ?thesis using c h chain_toks_flip [where P = "o_abandoned (lc_owners s)" and H = "lc_here s" and f = "\<lambda>k. the (o_self (lc_owners s) k)", OF d k True n']
      by (simp add: tokens_def chain_toks_def tok.simps del: fun_upd_apply)
  next
    case False
    then show ?thesis using c chain_toks_flip_away [where P = "o_abandoned (lc_owners s)" and H = "lc_here s", OF False]
      by (simp add: tokens_def chain_toks_def tok.simps del: fun_upd_apply)
  qed
  then have "wf_loop ?s" using wf by (auto simp: wf_loop_def known_def)
  then show ?thesis using g h by blast
qed

text \<open>One step of the drain: the continuation at the front is given up without fault, and a chain abandoned by it has its unwind queued or handed on.\<close>

lemma give_up_step:
  assumes wf: "wf_loop s" and q: "lc_queue s = c # q"
  shows "\<exists>s'. give_up c (s\<lparr>lc_queue := q\<rparr>) = Some s' \<and> wf_loop s' \<and> later s s' \<and> settled s' c \<and> set q \<subseteq> set (lc_queue s')
     \<and> (\<forall>k. abandoned k (lc_owners s') \<longrightarrow> abandoned k (lc_owners s) \<or>
          (if lc_here s k then \<lparr>c_h = o_self (lc_owners s) k, c_owner = None\<rparr> \<in> set (lc_queue s') else k \<in> set (lc_away s')))"
proof -
  have wf': "wf_loop (s\<lparr>lc_queue := c # q\<rparr>)" using wf q by (metis (no_types, lifting) loop_ctx.surjective loop_ctx.update_convs(1))
  have same: ?thesis if g: "give_up c (s\<lparr>lc_queue := q\<rparr>) = Some (s\<lparr>lc_queue := q\<rparr>)" and st: "settled s c" and tc: "tok c = {#}"
  proof -
    have "tokens (s\<lparr>lc_queue := q\<rparr>) = tokens s" using q tc by (simp add: tokens_def chain_toks_def)
    then have "wf_loop (s\<lparr>lc_queue := q\<rparr>)" using wf q by (auto simp: wf_loop_def known_def)
    moreover have "settled (s\<lparr>lc_queue := q\<rparr>) c" using st by (auto simp: settled_def split: option.splits)
    ultimately show ?thesis using g by (auto simp: later_def)
  qed
  show ?thesis
  proof (cases "c_owner c")
    case None
    show ?thesis
    proof (cases "c_h c")
      case hn: None
      show ?thesis using None hn by (intro same) (simp_all add: give_up_def abandon_def settled_def tok.simps)
    next
      case (Some h)
      show ?thesis
      proof (cases "h = noop")
        case True
        then show ?thesis using None Some by (intro same) (simp_all add: give_up_def abandon_def settled_def tok.simps)
      next
        case False
        then show ?thesis using give_up_destroys [OF wf' None Some] None Some by (auto simp: later_def settled_def)
      qed
    qed
  next
    case (Some k)
    show ?thesis
    proof (cases "abandoned k (lc_owners s)")
      case True
      have "k \<in> set (lc_chains s)" using wf q Some by (auto simp: wf_loop_def known_def)
      then show ?thesis using Some True
        by (intro same) (simp_all add: give_up_def abandon_def owner_abandon_def abandoned_def settled_def tok.simps)
    next
      case False
      then show ?thesis using give_up_flags [OF wf' Some False] Some by (auto simp: later_def settled_def abandoned_def)
    qed
  qed
qed

section \<open>The contract of a context that drains\<close>

text \<open>What the services of a context may do when it is torn down: give up or post, with every frame still having one destroyer.\<close>

definition service_ok :: "(loop_ctx \<Rightarrow> loop_ctx) \<Rightarrow> bool" where
  "service_ok f \<longleftrightarrow> (\<forall>s. wf_loop s \<longrightarrow> wf_loop (f s) \<and> later s (f s) \<and> set (lc_queue s) \<subseteq> set (lc_queue (f s)) \<and> lc_thread (f s) = lc_thread s)"

lemma drop_step:
  assumes "wf_loop s" and "lc_queue s = c # q" and "tok c = {#}"
  shows "wf_loop (s\<lparr>lc_queue := q\<rparr>) \<and> later s (s\<lparr>lc_queue := q\<rparr>)"
proof -
  have "tokens (s\<lparr>lc_queue := q\<rparr>) = tokens s" using assms(2,3) by (simp add: tokens_def chain_toks_def)
  then show ?thesis using assms(1,2) by (auto simp: wf_loop_def known_def later_def)
qed

text \<open>A context may skip only continuations without a coroutine.\<close>

locale draining =
  fixes keep :: "continuation \<Rightarrow> bool"
  assumes keep_real: "c_h c = Some h \<Longrightarrow> h \<noteq> noop \<Longrightarrow> keep c"
begin

lemma skipped_tok: "\<not> keep c \<Longrightarrow> tok c = {#}"
  using keep_real [of c] by (auto simp: tok.simps split: option.split)

text \<open>One turn of the drain.\<close>

lemma drain_turn:
  assumes wf: "wf_loop s" and q: "lc_queue s = c # q"
  shows "\<exists>s'. (if keep c then give_up c (s\<lparr>lc_queue := q\<rparr>) else Some (s\<lparr>lc_queue := q\<rparr>)) = Some s'
     \<and> wf_loop s' \<and> later s s' \<and> (keep c \<longrightarrow> settled s' c) \<and> set q \<subseteq> set (lc_queue s')
     \<and> (\<forall>k. abandoned k (lc_owners s') \<longrightarrow> abandoned k (lc_owners s) \<or>
          (if lc_here s k then \<lparr>c_h = o_self (lc_owners s) k, c_owner = None\<rparr> \<in> set (lc_queue s') else k \<in> set (lc_away s')))"
  using give_up_step [OF wf q] drop_step [OF wf q skipped_tok] by (cases "keep c") auto

lemma drain_correct:
  assumes "wf_loop s"
  shows "\<exists>s'. drain_if keep s = Some s' \<and> wf_loop s' \<and> lc_queue s' = [] \<and> later s s' \<and> (\<forall>c \<in> set (lc_queue s). keep c \<longrightarrow> settled s' c)
     \<and> (\<forall>k. abandoned k (lc_owners s') \<longrightarrow> abandoned k (lc_owners s) \<or> (k \<in> set (lc_chains s) \<longrightarrow> unwound s' k))"
  using assms
proof (induction "drain_size s" arbitrary: s rule: less_induct)
  case (less s)
  note 1 = less.hyps [OF turn_size] less.prems
  show ?case
  proof (cases "lc_queue s")
    case Nil
    then show ?thesis using 1(2) by (simp add: drain_if.simps [of keep s] later_def)
  next
    case (Cons c q)
    obtain s1 where s1: "(if keep c then give_up c (s\<lparr>lc_queue := q\<rparr>) else Some (s\<lparr>lc_queue := q\<rparr>)) = Some s1" "wf_loop s1" "later s s1"
        "keep c \<longrightarrow> settled s1 c" "set q \<subseteq> set (lc_queue s1)"
        "\<And>k. abandoned k (lc_owners s1) \<Longrightarrow> abandoned k (lc_owners s) \<or>
          (if lc_here s k then \<lparr>c_h = o_self (lc_owners s) k, c_owner = None\<rparr> \<in> set (lc_queue s1) else k \<in> set (lc_away s1))"
      using drain_turn [OF 1(2) Cons] by blast
    obtain s' where s': "drain_if keep s1 = Some s'" "wf_loop s'" "lc_queue s' = []" "later s1 s'" "\<forall>c \<in> set (lc_queue s1). keep c \<longrightarrow> settled s' c"
        "\<forall>k. abandoned k (lc_owners s') \<longrightarrow> abandoned k (lc_owners s1) \<or> (k \<in> set (lc_chains s1) \<longrightarrow> unwound s' k)"
      using 1(1) [OF Cons s1(1,2)] by blast
    have "unwound s' k" if k: "abandoned k (lc_owners s1)" "\<not> abandoned k (lc_owners s)" "k \<in> set (lc_chains s)" for k
    proof -
      obtain h where h: "o_self (lc_owners s) k = Some h" "h \<noteq> noop" using k(3) 1(2) by (auto simp: wf_loop_def)
      show ?thesis
      proof (cases "lc_here s k")
        case True
        then have "settled s' \<lparr>c_h = Some h, c_owner = None\<rparr>" using s1(6) [OF k(1)] k(2) s'(5) h keep_real [of _ h] by auto
        then show ?thesis using True h s1(3) s'(4) by (simp add: settled_def unwound_def later_def)
      next
        case False
        then show ?thesis using s1(6) [OF k(1)] k(2) s1(3) s'(4) by (auto simp: unwound_def later_def)
      qed
    qed
    then have "\<forall>k. abandoned k (lc_owners s') \<longrightarrow> abandoned k (lc_owners s) \<or> (k \<in> set (lc_chains s) \<longrightarrow> unwound s' k)"
      using s'(6) s1(3) by (auto simp: later_def)
    moreover have "drain_if keep s = Some s'" using Cons s1(1) s'(1) by (simp add: drain_if.simps [of keep s])
    moreover have "\<forall>d \<in> set (lc_queue s). keep d \<longrightarrow> settled s' d" using Cons s1(4,5) s'(4,5) settled_later by auto
    ultimately show ?thesis using s' later_trans [OF s1(3) s'(4)] by blast
  qed
qed

lemma teardown_complete:
  assumes w: "wf_loop s" and "service_ok shutdown" and "service_ok destroy"
  shows "\<exists>s1 s'. drain_if keep (shutdown s) = Some s1 \<and> teardown keep shutdown destroy s = Some s' \<and> lc_queue s' = []
    \<and> distinct (lc_destroyed s') \<and> (\<forall>c \<in> set (lc_queue s). keep c \<longrightarrow> settled s' c)
    \<and> (\<forall>k \<in> set (lc_chains s). abandoned k (lc_owners s1) \<longrightarrow> abandoned k (lc_owners (shutdown s)) \<or> unwound s1 k)"
proof -
  have sh: "wf_loop (shutdown s)" "later s (shutdown s)" "set (lc_queue s) \<subseteq> set (lc_queue (shutdown s))"
    using assms(2) [unfolded service_ok_def, rule_format, OF w] by simp_all
  obtain s1 where s1: "drain_if keep (shutdown s) = Some s1" "wf_loop s1" "lc_queue s1 = []" "\<forall>c \<in> set (lc_queue (shutdown s)). keep c \<longrightarrow> settled s1 c"
      "\<forall>k. abandoned k (lc_owners s1) \<longrightarrow> abandoned k (lc_owners (shutdown s)) \<or> (k \<in> set (lc_chains (shutdown s)) \<longrightarrow> unwound s1 k)"
    using drain_correct [OF sh(1)] by blast
  have de: "wf_loop (destroy s1)" "later s1 (destroy s1)" using assms(3) s1(2) by (auto simp: service_ok_def)
  obtain s' where s': "drain_if keep (destroy s1) = Some s'" "wf_loop s'" "lc_queue s' = []" "later (destroy s1) s'"
    using drain_correct [OF de(1)] by blast
  have "settled s' c" if "c \<in> set (lc_queue s)" "keep c" for c
    using that sh(3) s1(4) later_trans [OF de(2) s'(4)] settled_later by blast
  moreover have "lc_chains (shutdown s) = lc_chains s" using sh(2) by (simp add: later_def)
  moreover have "distinct (lc_destroyed s')" using s'(2) by (simp add: wf_loop_def)
  moreover have "teardown keep shutdown destroy s = Some s'" using s1(1) s'(1) by (simp add: teardown_def)
  ultimately show ?thesis using s1 s'(3) by auto
qed

end

end
