(* ===== verification/Pool_Teardown.thy ===== *)
theory Pool_Teardown
  imports Thread_Pool Teardown
begin

text \<open>
  The rest of \<^verbatim>\<open>src/ex/thread_pool.cpp\<close>: \<^verbatim>\<open>dispatch\<close> with the thread-local mark of the workers, and the destructor. The destructor stops and joins the workers, of which \<open>Thread_Pool\<close> has the steps, and then
  gives up what is left in the queue, twice, around the destruction of the services (\<open>Teardown\<close>).
\<close>

section \<open>Dispatch\<close>

text \<open>
  \<^verbatim>\<open>current_\<close>: each thread has the pool it works for. A worker sets it when it enters \<^verbatim>\<open>run\<close> and clears it when it leaves.
\<close>

type_synonym thread_marks = "tid \<Rightarrow> nat option"

definition scoped_pool_enter :: "nat \<Rightarrow> tid \<Rightarrow> thread_marks \<Rightarrow> thread_marks" where
  "scoped_pool_enter me t cur = cur(t := Some me)"

definition scoped_pool_leave :: "tid \<Rightarrow> thread_marks \<Rightarrow> thread_marks" where
  "scoped_pool_leave t cur = cur(t := None)"

definition pool_running_in_this_thread :: "nat \<Rightarrow> tid \<Rightarrow> thread_marks \<Rightarrow> bool" where
  "pool_running_in_this_thread me t cur \<longleftrightarrow> cur t = Some me"

text \<open>The handle to resume and whether the continuation is posted.\<close>

definition pool_dispatch :: "nat \<Rightarrow> tid \<Rightarrow> thread_marks \<Rightarrow> continuation \<Rightarrow> handle \<times> bool" where
  "pool_dispatch me t cur c = (if pool_running_in_this_thread me t cur then (the (c_h c), False) else (noop, True))"

text \<open>
  The workers of several pools, on threads of their own: \<open>serves t\<close> is the pool whose \<^verbatim>\<open>run\<close> is on the stack of thread \<open>t\<close>.
\<close>

record marked_threads =
  mt_marks :: thread_marks
  mt_serves :: thread_marks

inductive mark_step :: "marked_threads \<Rightarrow> marked_threads \<Rightarrow> bool" where
  enter: "mt_serves m t = None \<Longrightarrow> mark_step m (m\<lparr>mt_marks := scoped_pool_enter p t (mt_marks m), mt_serves := (mt_serves m)(t := Some p)\<rparr>)"
| leave: "mt_serves m t = Some p \<Longrightarrow> mark_step m (m\<lparr>mt_marks := scoped_pool_leave t (mt_marks m), mt_serves := (mt_serves m)(t := None)\<rparr>)"

lemma marks_exact: "mark_step\<^sup>*\<^sup>* \<lparr>mt_marks = (\<lambda>_. None), mt_serves = (\<lambda>_. None)\<rparr> m \<Longrightarrow> mt_marks m = mt_serves m"
proof (induction rule: rtranclp_induct)
  case (step m m')
  from step(2,3) show ?case by (induction rule: mark_step.induct) (simp_all add: scoped_pool_enter_def scoped_pool_leave_def)
qed simp

text \<open>Dispatching resumes inline on the threads of the pool and on no others, where it posts.\<close>

theorem dispatch_inline_iff_worker:
  assumes "mark_step\<^sup>*\<^sup>* \<lparr>mt_marks = (\<lambda>_. None), mt_serves = (\<lambda>_. None)\<rparr> m"
  shows "pool_dispatch me t (mt_marks m) c = (if mt_serves m t = Some me then (the (c_h c), False) else (noop, True))"
  by (simp add: pool_dispatch_def pool_running_in_this_thread_def marks_exact [OF assms])

section \<open>After stop and join\<close>

text \<open>A pool that was joined is being joined by some thread, or its workers are gone.\<close>

definition gone :: "pool \<Rightarrow> bool" where
  "gone p \<longleftrightarrow> p_stop p \<and> (\<forall>w < p_threads p. p_worker p w = W_Exit)"

definition joining :: "pool \<Rightarrow> bool" where
  "joining p \<longleftrightarrow> (\<exists>t. p_client p t \<in> {C_Join_Blocked, C_Join_Wait, C_Join_Threads})"

lemma gone_worker: "gone p \<Longrightarrow> threads_inv p \<Longrightarrow> p_worker p w \<in> {W_Exit, W_Off}"
  by (cases "w < p_threads p") (auto simp: gone_def threads_inv_def)

lemma gone_step:
  "pool_step p p' \<Longrightarrow> threads_inv p \<Longrightarrow> gone p \<Longrightarrow> gone p' \<and> p_popped p' = p_popped p \<and> (\<exists>xs. p_queue p' = p_queue p @ xs)"
proof (induction rule: pool_step.induct)
  case (post_push_notify p t c w)
  then show ?case using gone_worker [of p w] by simp
next
  case (worker_blocks p w)
  then show ?case using gone_worker [of p w] by simp
next
  case (worker_exits p w)
  then show ?case using gone_worker [of p w] by simp
next
  case (worker_pops p w c cs)
  then show ?case using gone_worker [of p w] by simp
next
  case (worker_done p w c)
  then show ?case using gone_worker [of p w] by simp
next
  case (worker_spurious p w)
  then show ?case using gone_worker [of p w] by simp
qed (auto simp: gone_def op_defs)

lemma join_goes_on:
  "pool_step p p' \<Longrightarrow> join_inv p \<Longrightarrow> p_client p u \<in> {C_Join_Blocked, C_Join_Wait, C_Join_Threads} \<Longrightarrow> p_client p' u \<in> {C_Join_Blocked, C_Join_Wait, C_Join_Threads} \<or> gone p'"
proof (induction rule: pool_step.induct)
  case (join_returns p t)
  then show ?case by (cases "u = t") (auto simp: gone_def join_inv_def client_go_def)
qed (auto simp: op_defs split: if_splits)

lemma join_begins: "pool_step p p' \<Longrightarrow> \<not> p_joined p \<Longrightarrow> p_joined p' \<Longrightarrow> joining p'"
  by (induction rule: pool_step.induct) (auto simp: joining_def op_defs split: if_splits)

lemma joined_step:
  assumes "pool_step p p'" "threads_inv p" "join_inv p" "p_joined p \<longrightarrow> joining p \<or> gone p"
  shows "p_joined p' \<longrightarrow> joining p' \<or> gone p'"
  using gone_step [OF assms(1,2)] join_goes_on [OF assms(1,3)] join_begins [OF assms(1)] assms(4) unfolding joining_def by blast

lemma joined_gone: "pool_reach p \<Longrightarrow> p_joined p \<Longrightarrow> \<not> joining p \<Longrightarrow> gone p"
proof -
  assume "pool_reach p"
  then have "p_joined p \<longrightarrow> joining p \<or> gone p"
  proof (induction rule: pool_reach.induct)
    case (step p p')
    then show ?case using joined_step [OF step(2)] pool_inv_reach [OF step(1)] by (simp add: pool_inv_def)
  qed (simp add: pool_init_def)
  then show "p_joined p \<Longrightarrow> \<not> joining p \<Longrightarrow> gone p" by blast
qed

lemma gone_forever:
  assumes "pool_step\<^sup>*\<^sup>* p p'" "pool_reach p" "gone p"
  shows "gone p' \<and> p_popped p' = p_popped p \<and> (\<exists>xs. p_queue p' = p_queue p @ xs)"
proof -
  from assms have "pool_reach p' \<and> gone p' \<and> p_popped p' = p_popped p \<and> (\<exists>xs. p_queue p' = p_queue p @ xs)"
  proof (induction rule: rtranclp_induct)
    case (step q q')
    then have q: "pool_reach q" "gone q" "p_popped q = p_popped p" "\<exists>xs. p_queue q = p_queue p @ xs" by auto
    have "threads_inv q" using pool_inv_reach [OF q(1)] by (simp add: pool_inv_def)
    from gone_step [OF step(2) this q(2)] q pool_reach.step [OF q(1) step(2)] show ?case by auto
  qed simp
  then show ?thesis by blast
qed

section \<open>The destructor\<close>

text \<open>\<^verbatim>\<open>drain_abandoned\<close> skips a continuation without a coroutine; what the unwinds post to the pool is taken too.\<close>

definition has_coroutine :: "continuation \<Rightarrow> bool" where
  "has_coroutine c \<longleftrightarrow> c_h c \<noteq> None \<and> c_h c \<noteq> Some noop"

definition pool_drain :: "loop_ctx \<Rightarrow> loop_ctx option" where
  "pool_drain s = drain_if has_coroutine s"

text \<open>\<^verbatim>\<open>~thread_pool\<close> once \<^verbatim>\<open>stop()\<close> and \<^verbatim>\<open>join()\<close> have returned.\<close>

definition pool_dtor :: "(loop_ctx \<Rightarrow> loop_ctx) \<Rightarrow> (loop_ctx \<Rightarrow> loop_ctx) \<Rightarrow> loop_ctx \<Rightarrow> loop_ctx option" where
  "pool_dtor shutdown destroy s =
     (case pool_drain (shutdown s) of
        None \<Rightarrow> None
      | Some s \<Rightarrow> pool_drain (destroy s))"

interpretation pool_draining: draining has_coroutine
  by unfold_locales (simp add: has_coroutine_def)

text \<open>
  C6. Destroying a thread pool leaves nothing behind. When the pool was joined and no thread is still in \<^verbatim>\<open>join\<close>, every worker has left for good: whatever happens later, none of them takes
  another continuation. The rest of the destructor then ends, for every behaviour of the services within their contract, although giving up a continuation can post the unwind of its chain to the
  queue that is drained and destroying a frame can post more; no frame is destroyed twice, the queue is empty at the end, every continuation with a coroutine that the pool had queued is
  settled (its chain abandoned, or its frame destroyed), and a chain that the first drain abandons has its segment destroyed or its unwind posted to the context it belongs to.
\<close>

theorem pool_teardown_complete:
  assumes "pool_reach p" and "p_joined p" and "\<not> joining p"
    and "wf_loop s" and "lc_queue s = map at (p_queue p)" and "service_ok shutdown" and "service_ok destroy"
  shows "(pool_step\<^sup>*\<^sup>* p p' \<longrightarrow> p_popped p' = p_popped p \<and> (\<forall>w c. p_worker p' w \<noteq> W_Run c))
    \<and> (\<exists>s1 s'. pool_drain (shutdown s) = Some s1 \<and> pool_dtor shutdown destroy s = Some s' \<and> lc_queue s' = [] \<and> distinct (lc_destroyed s')
         \<and> (\<forall>x \<in> set (p_queue p). has_coroutine (at x) \<longrightarrow> settled s' (at x))
         \<and> (\<forall>k \<in> set (lc_chains s). abandoned k (lc_owners s1) \<longrightarrow> abandoned k (lc_owners (shutdown s)) \<or> unwound s1 k))"
proof (intro conjI impI)
  have g: "gone p" using joined_gone [OF assms(1-3)] .
  assume r: "pool_step\<^sup>*\<^sup>* p p'"
  then have "pool_reach p'" using assms(1) by (induction rule: rtranclp_induct) (auto intro: pool_reach.step)
  then have "threads_inv p'" using pool_inv_reach by (simp add: pool_inv_def)
  then have "p_worker p' w \<noteq> W_Run c" for w c using gone_forever [OF r assms(1) g] gone_worker [of p' w] by auto
  then show "p_popped p' = p_popped p" "\<forall>w c. p_worker p' w \<noteq> W_Run c" using gone_forever [OF r assms(1) g] by auto
next
  show "\<exists>s1 s'. pool_drain (shutdown s) = Some s1 \<and> pool_dtor shutdown destroy s = Some s' \<and> lc_queue s' = [] \<and> distinct (lc_destroyed s')
         \<and> (\<forall>x \<in> set (p_queue p). has_coroutine (at x) \<longrightarrow> settled s' (at x))
         \<and> (\<forall>k \<in> set (lc_chains s). abandoned k (lc_owners s1) \<longrightarrow> abandoned k (lc_owners (shutdown s)) \<or> unwound s1 k)"
    using pool_draining.teardown_complete [OF assms(4,6,7)] unfolding pool_drain_def pool_dtor_def teardown_def assms(5) by simp
qed

text \<open>A pool stopped before its first post: the continuation posted afterwards stays queued for the destructor.\<close>

definition demo_closed :: pool where
  "demo_closed = pool_push 0 (client_go 1 C_Idle (client_go 1 C_Join_Threads (notify_all (pool_init 2 0\<lparr>p_joined := True, p_stop := True\<rparr>))))"

definition demo_work :: loop_ctx where
  "demo_work = \<lparr>lc_queue = [\<lparr>c_h = Some 4, c_owner = Some 1\<rparr>], lc_thread = None,
     lc_owners = \<lparr>o_self = (\<lambda>_. Some 7), o_abandoned = (\<lambda>_. False)\<rparr>, lc_chains = [1], lc_here = (\<lambda>_. True),
     lc_frames = [(7, [\<lparr>c_h = Some 6, c_owner = None\<rparr>]), (6, [])], lc_destroyed = [], lc_away = []\<rparr>"

lemma demo_closed_reach: "pool_reach demo_closed"
proof -
  have "pool_step demo_joined (client_go 1 C_Idle demo_joined)" by (rule join_returns) (simp_all add: demo_defs)
  moreover have "pool_step (client_go 1 C_Idle demo_joined) demo_closed"
    unfolding demo_closed_def demo_joined_def by (rule post_check_stopped [where t = 1]) (simp_all add: demo_defs)
  ultimately show ?thesis using demo_joined_reach pool_reach.step by blast
qed

lemma demo_work_wf: "wf_loop demo_work"
  by (auto simp: demo_work_def wf_loop_def tokens_def chain_toks_def frame_toks_def toks_def tok.simps known_def noop_def)

theorem pool_teardown_complete_witness:
  "\<exists>s'. pool_dtor id id demo_work = Some s' \<and> lc_queue s' = [] \<and> abandoned 1 (lc_owners s')"
proof -
  have sv: "service_ok id" by (simp add: service_ok_def later_def)
  have q: "lc_queue demo_work = map (\<lambda>_. \<lparr>c_h = Some 4, c_owner = Some 1\<rparr>) (p_queue demo_closed)" by (simp add: demo_work_def demo_closed_def demo_defs)
  have j: "p_joined demo_closed" "\<not> joining demo_closed" "p_queue demo_closed = [0]" by (simp_all add: demo_closed_def joining_def demo_defs)
  from pool_teardown_complete [OF demo_closed_reach j(1,2) demo_work_wf q sv sv, of demo_closed]
  show ?thesis by (auto simp: j(3) settled_def has_coroutine_def noop_def)
qed

end
