(* ===== verification/Loop_Contexts.thy ===== *)
theory Loop_Contexts
  imports Teardown
begin

text \<open>
  Execution contexts written on top of the library: the run loop of \<^verbatim>\<open>example/custom-executor/custom_executor.cpp\<close> and the GUI event loop of
  \<^verbatim>\<open>example/gui-integration/gui_integration.cpp\<close>. Their queues hold continuations; \<open>lc_thread\<close> is \<^verbatim>\<open>owner_\<close> of the run loop.
\<close>

section \<open>The run loop\<close>

definition is_running_on_this_thread :: "nat \<Rightarrow> loop_ctx \<Rightarrow> bool" where
  "is_running_on_this_thread t s \<longleftrightarrow> lc_thread s = Some t"

definition loop_post :: "continuation \<Rightarrow> loop_ctx \<Rightarrow> loop_ctx" where
  "loop_post c s = loop_enqueue c s"

definition loop_dispatch :: "nat \<Rightarrow> continuation \<Rightarrow> loop_ctx \<Rightarrow> handle \<times> loop_ctx" where
  "loop_dispatch t c s = (if is_running_on_this_thread t s then (the (c_h c), s) else (noop, loop_enqueue c s))"

text \<open>The loop: \<open>resume\<close> runs a coroutine, which may post.\<close>

partial_function (option) loop_run :: "(handle \<Rightarrow> loop_ctx \<Rightarrow> loop_ctx) \<Rightarrow> loop_ctx \<Rightarrow> loop_ctx option" where
  "loop_run resume s =
     (case lc_queue s of
        [] \<Rightarrow> Some s
      | c # q \<Rightarrow> loop_run resume (resume (the (c_h c)) (s\<lparr>lc_queue := q\<rparr>)))"

definition run :: "nat \<Rightarrow> (handle \<Rightarrow> loop_ctx \<Rightarrow> loop_ctx) \<Rightarrow> loop_ctx \<Rightarrow> loop_ctx option" where
  "run t resume s = loop_run resume (s\<lparr>lc_thread := Some t\<rparr>)"

section \<open>Teardown\<close>

text \<open>The run loop gives up whatever is queued.\<close>

definition drain :: "loop_ctx \<Rightarrow> loop_ctx option" where
  "drain s = drain_if (\<lambda>_. True) s"

definition loop_dtor :: "(loop_ctx \<Rightarrow> loop_ctx) \<Rightarrow> (loop_ctx \<Rightarrow> loop_ctx) \<Rightarrow> loop_ctx \<Rightarrow> loop_ctx option" where
  "loop_dtor shutdown destroy s =
     (case drain (shutdown (s\<lparr>lc_thread := None\<rparr>)) of
        None \<Rightarrow> None
      | Some s \<Rightarrow> drain (destroy s))"

interpretation loop_drain: draining "\<lambda>_. True"
  by unfold_locales simp

text \<open>
  Destroying a run loop always ends and leaves nothing behind: the destructor of the loop returns from every well-formed state (each frame has at most one
  destroyer), for every behaviour of the services within their contract, without destroying a frame twice; then the queue is empty, and every continuation
  that was queued is settled: its chain is abandoned, or the frame of a continuation without an owner is destroyed. A chain that the first drain
  abandons has its segment destroyed, or its unwind posted to the context it belongs to.
\<close>

theorem loop_teardown_complete:
  assumes "wf_loop s" and "service_ok shutdown" and "service_ok destroy"
  shows "\<exists>s1 s'. drain (shutdown (s\<lparr>lc_thread := None\<rparr>)) = Some s1 \<and> loop_dtor shutdown destroy s = Some s' \<and> lc_queue s' = []
    \<and> distinct (lc_destroyed s') \<and> (\<forall>c \<in> set (lc_queue s). settled s' c)
    \<and> (\<forall>k \<in> set (lc_chains s). abandoned k (lc_owners s1) \<longrightarrow> abandoned k (lc_owners (shutdown (s\<lparr>lc_thread := None\<rparr>))) \<or> unwound s1 k)"
proof -
  have "wf_loop (s\<lparr>lc_thread := None\<rparr>)" using assms(1) by (simp add: wf_loop_def tokens_def chain_toks_def known_def)
  from loop_drain.teardown_complete [OF this assms(2,3)] show ?thesis unfolding drain_def loop_dtor_def teardown_def by simp
qed

definition demo_loop :: loop_ctx where
  "demo_loop = \<lparr>lc_queue = [\<lparr>c_h = Some 4, c_owner = Some 1\<rparr>, \<lparr>c_h = Some 5, c_owner = None\<rparr>], lc_thread = Some 0,
     lc_owners = \<lparr>o_self = (\<lambda>_. Some 7), o_abandoned = (\<lambda>_. False)\<rparr>, lc_chains = [1], lc_here = (\<lambda>_. True),
     lc_frames = [(5, []), (7, [\<lparr>c_h = Some 6, c_owner = None\<rparr>]), (6, [])], lc_destroyed = [], lc_away = []\<rparr>"

lemma demo_loop_wf: "wf_loop demo_loop"
  by (auto simp: demo_loop_def wf_loop_def tokens_def chain_toks_def frame_toks_def toks_def tok.simps known_def noop_def)

theorem loop_teardown_complete_witness:
  "\<exists>s'. loop_dtor id id demo_loop = Some s' \<and> lc_queue s' = [] \<and> abandoned 1 (lc_owners s') \<and> 5 \<in> set (lc_destroyed s')"
proof -
  have "service_ok id" by (simp add: service_ok_def later_def)
  from loop_teardown_complete [OF demo_loop_wf this this] show ?thesis by (auto simp: demo_loop_def settled_def noop_def)
qed

section \<open>Running the loop\<close>

text \<open>
  The loop returns when the queue is empty; it does return if what is left to do shrinks with every coroutine resumed, whatever each of them posts.
\<close>

lemma loop_run_returns:
  assumes "\<And>h s c q. lc_queue s = c # q \<Longrightarrow> (left (resume (the (c_h c)) (s\<lparr>lc_queue := q\<rparr>)) :: nat) < left s"
  shows "\<exists>s'. loop_run resume s = Some s' \<and> lc_queue s' = []"
proof (induction "left s" arbitrary: s rule: less_induct)
  case less
  show ?case
  proof (cases "lc_queue s")
    case Nil
    then show ?thesis by (simp add: loop_run.simps [of resume s])
  next
    case (Cons c q)
    from less [OF assms [OF Cons]] Cons show ?thesis by (simp add: loop_run.simps [of resume s])
  qed
qed

section \<open>The GUI event loop\<close>

text \<open>\<open>ga_resumed\<close> is which thread resumed which coroutine; \<open>ga_posted\<close> and \<open>ga_taken\<close> what was queued and what was taken from the queue.\<close>

record gui_app =
  ga_thread :: nat
  ga_queue :: "continuation list"
  ga_quit :: bool
  ga_closed :: bool
  ga_resumed :: "(nat \<times> handle) list"
  ga_posted :: "continuation list"
  ga_taken :: "continuation list"

definition gui_init :: "nat \<Rightarrow> gui_app" where
  "gui_init t = \<lparr>ga_thread = t, ga_queue = [], ga_quit = False, ga_closed = False, ga_resumed = [], ga_posted = [], ga_taken = []\<rparr>"

definition post_to_gui_thread :: "continuation \<Rightarrow> gui_app \<Rightarrow> gui_app" where
  "post_to_gui_thread c g = g\<lparr>ga_queue := ga_queue g @ [c], ga_posted := ga_posted g @ [c]\<rparr>"

definition gui_quit :: "gui_app \<Rightarrow> gui_app" where
  "gui_quit g = g\<lparr>ga_quit := True\<rparr>"

definition on_gui_thread :: "nat \<Rightarrow> gui_app \<Rightarrow> bool" where
  "on_gui_thread t g \<longleftrightarrow> t = ga_thread g"

definition runs_inline :: "nat \<Rightarrow> gui_app \<Rightarrow> bool" where
  "runs_inline t g \<longleftrightarrow> on_gui_thread t g \<and> \<not> ga_closed g"

definition resume_on :: "nat \<Rightarrow> handle \<Rightarrow> gui_app \<Rightarrow> gui_app" where
  "resume_on t h g = (if h = noop then g else g\<lparr>ga_resumed := ga_resumed g @ [(t, h)]\<rparr>)"

definition gui_dispatch :: "nat \<Rightarrow> continuation \<Rightarrow> gui_app \<Rightarrow> handle \<times> gui_app" where
  "gui_dispatch t c g = (if runs_inline t g then (the (c_h c), g) else (noop, post_to_gui_thread c g))"

text \<open>One turn of \<^verbatim>\<open>run()\<close>: the check aborts off the GUI thread, the wait lasts while there is nothing to do and no request to quit.\<close>

datatype turn = Aborts | Waits | Returns | Resumes handle gui_app

definition gui_turn :: "nat \<Rightarrow> gui_app \<Rightarrow> turn" where
  "gui_turn t g =
     (if \<not> on_gui_thread t g then Aborts
      else case ga_queue g of
        [] \<Rightarrow> if ga_quit g then Returns else Waits
      | c # q \<Rightarrow> Resumes (the (c_h c)) (g\<lparr>ga_queue := q, ga_taken := ga_taken g @ [c]\<rparr>))"

text \<open>The drain of the destructor, which only the thread that destroys the application runs, once it is closed.\<close>

definition gui_drain_one :: "gui_app \<Rightarrow> (continuation \<times> gui_app) option" where
  "gui_drain_one g = (case ga_queue g of [] \<Rightarrow> None | c # q \<Rightarrow> Some (c, g\<lparr>ga_queue := q, ga_taken := ga_taken g @ [c]\<rparr>))"

inductive gui_step :: "gui_app \<Rightarrow> gui_app \<Rightarrow> bool" where
  post: "gui_step g (post_to_gui_thread c g)"
| dispatch: "gui_dispatch t c g = (h, g') \<Longrightarrow> gui_step g (resume_on t h g')"
| turn: "\<lbrakk>\<not> ga_closed g; gui_turn t g = Resumes h g'\<rbrakk> \<Longrightarrow> gui_step g (resume_on t h g')"
| quit: "gui_step g (gui_quit g)"
| close: "gui_step g (g\<lparr>ga_closed := True\<rparr>)"
| drain: "\<lbrakk>ga_closed g; gui_drain_one g = Some (c, g')\<rbrakk> \<Longrightarrow> gui_step g g'"

definition gui_inv :: "nat \<Rightarrow> gui_app \<Rightarrow> bool" where
  "gui_inv t g \<longleftrightarrow> ga_thread g = t \<and> (\<forall>p \<in> set (ga_resumed g). fst p = t) \<and> ga_posted g = ga_taken g @ ga_queue g"

lemma gui_step_inv: "gui_step g g' \<Longrightarrow> gui_inv t g \<Longrightarrow> gui_inv t g'"
  by (induction rule: gui_step.induct)
    (auto simp: gui_inv_def post_to_gui_thread_def gui_dispatch_def runs_inline_def on_gui_thread_def resume_on_def gui_turn_def gui_quit_def
      gui_drain_one_def split: if_splits list.splits)

lemma gui_step_closed: "gui_step g g' \<Longrightarrow> ga_closed g \<Longrightarrow> ga_closed g' \<and> ga_resumed g' = ga_resumed g"
  by (induction rule: gui_step.induct)
    (auto simp: post_to_gui_thread_def gui_dispatch_def runs_inline_def resume_on_def gui_quit_def gui_drain_one_def split: if_splits list.splits)

lemma gui_reach_inv: "gui_step\<^sup>*\<^sup>* (gui_init t) g \<Longrightarrow> gui_inv t g"
  by (induction rule: rtranclp_induct) (auto intro: gui_step_inv, simp add: gui_inv_def gui_init_def)

lemma gui_resumed_on: "gui_step\<^sup>*\<^sup>* (gui_init t) g \<Longrightarrow> fst ` set (ga_resumed g) \<subseteq> {t}"
  using gui_reach_inv [of t g] by (auto simp: gui_inv_def)

text \<open>
  Thread affinity of the GUI executor. Whatever threads post and dispatch, and whenever the application quits or is closed, every coroutine resumed
  through its executor, inline or by the event loop, is resumed on the GUI thread; the queue is served first in, first out, nothing lost and nothing
  taken twice; and once the application is closed it resumes nothing any more.
\<close>

theorem gui_thread_affinity:
  assumes "gui_step\<^sup>*\<^sup>* (gui_init t) g"
  shows "fst ` set (ga_resumed g) \<subseteq> {t} \<and> ga_posted g = ga_taken g @ ga_queue g
    \<and> (ga_closed g \<longrightarrow> gui_step\<^sup>*\<^sup>* g g' \<longrightarrow> ga_resumed g' = ga_resumed g)"
proof -
  have "gui_inv t g" using gui_reach_inv [OF assms] .
  moreover have "ga_closed g' \<and> ga_resumed g' = ga_resumed g" if "ga_closed g" "gui_step\<^sup>*\<^sup>* g g'"
    using that(2,1) by (induction rule: rtranclp_induct) (auto dest: gui_step_closed)
  ultimately show ?thesis by (auto simp: gui_inv_def)
qed

theorem gui_thread_affinity_witness:
  "gui_dispatch 3 \<lparr>c_h = Some 5, c_owner = None\<rparr> (gui_init 3) = (5, gui_init 3)
   \<and> fst ` set (ga_resumed (resume_on 3 5 (gui_init 3))) \<subseteq> {3}"
proof -
  have d: "gui_dispatch 3 \<lparr>c_h = Some 5, c_owner = None\<rparr> (gui_init 3) = (5, gui_init 3)"
    by (simp add: gui_dispatch_def runs_inline_def on_gui_thread_def gui_init_def)
  then have "gui_step\<^sup>*\<^sup>* (gui_init 3) (resume_on 3 5 (gui_init 3))" using gui_step.dispatch by blast
  then show ?thesis using d gui_thread_affinity by blast
qed

section \<open>Closing the application\<close>

text \<open>The destructor: closing the application, it has no thread any more on which it resumes inline (\<open>lc_thread\<close>).\<close>

definition gui_dtor :: "(loop_ctx \<Rightarrow> loop_ctx) \<Rightarrow> (loop_ctx \<Rightarrow> loop_ctx) \<Rightarrow> loop_ctx \<Rightarrow> loop_ctx option" where
  "gui_dtor shutdown destroy s = teardown (\<lambda>_. True) shutdown destroy (s\<lparr>lc_thread := None\<rparr>)"

lemma gui_teardown_complete:
  assumes "wf_loop s" and "service_ok shutdown" and "service_ok destroy"
  shows "\<exists>s'. gui_dtor shutdown destroy s = Some s' \<and> lc_queue s' = [] \<and> distinct (lc_destroyed s') \<and> (\<forall>c \<in> set (lc_queue s). settled s' c)"
proof -
  have "wf_loop (s\<lparr>lc_thread := None\<rparr>)" using assms(1) by (simp add: wf_loop_def tokens_def chain_toks_def known_def)
  from loop_drain.teardown_complete [OF this assms(2,3)] show ?thesis by (auto simp: gui_dtor_def)
qed

section \<open>Widgets and dialogs\<close>

text \<open>A label checks the thread that uses it and aborts the program (\<open>None\<close>) off the GUI thread.\<close>

record label =
  lb_text :: string

definition set_text :: "nat \<Rightarrow> gui_app \<Rightarrow> string \<Rightarrow> label \<Rightarrow> label option" where
  "set_text t g txt l = (if on_gui_thread t g then Some (l\<lparr>lb_text := txt\<rparr>) else None)"

definition label_text :: "nat \<Rightarrow> gui_app \<Rightarrow> label \<Rightarrow> string option" where
  "label_text t g l = (if on_gui_thread t g then Some (lb_text l) else None)"

text \<open>
  \<^verbatim>\<open>show_dialog\<close>: suspending stores the continuation; the toolkit answers on a thread of its own, where the answer is stored and the continuation handed to the executor.
\<close>

record show_dialog =
  sd_cont :: continuation
  sd_answer :: string

definition dialog_suspend :: "handle \<Rightarrow> nat option \<Rightarrow> show_dialog \<Rightarrow> handle \<times> show_dialog" where
  "dialog_suspend h owner d = (noop, d\<lparr>sd_cont := \<lparr>c_h = Some h, c_owner = owner\<rparr>\<rparr>)"

definition dialog_answer :: "nat \<Rightarrow> string \<Rightarrow> show_dialog \<Rightarrow> gui_app \<Rightarrow> (show_dialog \<times> gui_app) option" where
  "dialog_answer t answer d g = (if on_gui_thread t g then None else Some (d\<lparr>sd_answer := answer\<rparr>, post_to_gui_thread (sd_cont d) g))"

definition dialog_resume :: "show_dialog \<Rightarrow> string" where
  "dialog_resume d = sd_answer d"

text \<open>
  What the program checks at run time holds: a coroutine on the GUI executor may touch a widget whenever it was resumed, inline or by the event loop, after work on other threads or after a dialog; and the answer
  to a dialog reaches the coroutine that asked on the GUI thread, once the event loop gets to it.
\<close>

theorem widget_access_safe:
  assumes "gui_step\<^sup>*\<^sup>* (gui_init t) g" and "(u, h) \<in> set (ga_resumed g)"
  shows "set_text u g txt l \<noteq> None \<and> label_text u g l \<noteq> None"
proof -
  have "u = t" using gui_resumed_on [OF assms(1)] assms(2) by auto
  moreover have "ga_thread g = t" using gui_reach_inv [OF assms(1)] by (simp add: gui_inv_def)
  ultimately show ?thesis by (simp add: set_text_def label_text_def on_gui_thread_def)
qed

lemma dialog_reaches_gui_thread:
  assumes "dialog_suspend h owner d = (x, d1)" and "dialog_answer u a d1 g = Some (d2, g')" and "\<not> ga_closed g" and "ga_queue g = []"
  shows "dialog_resume d2 = a \<and> (\<exists>g''. gui_turn (ga_thread g') g' = Resumes h g'')"
  using assms by (auto simp: dialog_suspend_def dialog_answer_def dialog_resume_def post_to_gui_thread_def gui_turn_def on_gui_thread_def split: if_splits)

end
