(* ===== verification/Notification.thy ===== *)
theory Notification
  imports Abandon Errors "HOL-Library.Multiset"
begin

text \<open>
  Waiting for a device: \<^verbatim>\<open>example/cuda/notification-strategies/notification_strategies.hpp\<close>. A service thread polls events and posts the coroutines of those that are ready; another runs
  blocking jobs in order; a third way registers a callback. The device is outside: what it answers to a query, to a registration and to a synchronisation are arguments.
\<close>

section \<open>Polling\<close>

datatype device_status = Dev_Success | Dev_Not_Ready | Dev_Error int

text \<open>\<open>pe_ec\<close> is the address of the error code in the awaitable.\<close>

record poll_entry =
  pe_event :: nat
  pe_cont :: continuation
  pe_ec :: nat

fun status_code :: "device_status \<Rightarrow> error_code" where
  "status_code (Dev_Error e) = \<lparr>ec_value = e, ec_category = other_cat 0\<rparr>"
| "status_code _ = success"

text \<open>
  One pass over the entries under the lock: the entry of an event that is done is told its code, copied to the ready list, and replaced by the last one. \<open>query t ev\<close> is
  the answer to the \<open>t\<close>-th query.
\<close>

function poll_pass :: "(nat \<Rightarrow> nat \<Rightarrow> device_status) \<Rightarrow> nat \<Rightarrow> nat \<Rightarrow> poll_entry list \<Rightarrow> poll_entry list \<Rightarrow> (nat \<Rightarrow> error_code) \<Rightarrow>
    nat \<times> poll_entry list \<times> poll_entry list \<times> (nat \<Rightarrow> error_code)" where
  "poll_pass query t i entries ready ecs =
     (if i < length entries then
        (let e = entries ! i; st = query t (pe_event e) in
         if st = Dev_Not_Ready then poll_pass query (Suc t) (Suc i) entries ready ecs
         else poll_pass query (Suc t) i (butlast (entries[i := last entries])) (ready @ [e]) (ecs(pe_ec e := status_code st)))
      else (t, entries, ready, ecs))"
  by pat_completeness auto
termination by (relation "measure (\<lambda>(query, t, i, entries, ready, ecs). length entries - i)") auto

declare poll_pass.simps [simp del]

definition register_wait :: "poll_entry \<Rightarrow> poll_entry list \<Rightarrow> poll_entry list" where
  "register_wait e entries = entries @ [e]"

definition poll_round :: "(nat \<Rightarrow> nat \<Rightarrow> device_status) \<Rightarrow> nat \<Rightarrow> poll_entry list \<Rightarrow> (nat \<Rightarrow> error_code) \<Rightarrow>
    nat \<times> poll_entry list \<times> continuation list \<times> (nat \<Rightarrow> error_code)" where
  "poll_round query t entries ecs =
     (case poll_pass query t 0 entries [] ecs of (t, entries, ready, ecs) \<Rightarrow> (t, entries, map pe_cont ready, ecs))"

section \<open>Jobs\<close>

text \<open>\<^verbatim>\<open>sync_service\<close>: \<open>sy_ran\<close> are the jobs that ran; the destructor asks to stop and joins.\<close>

record sync_service =
  sy_jobs :: "nat list"
  sy_stop :: bool
  sy_ran :: "nat list"

definition sync_post :: "nat \<Rightarrow> sync_service \<Rightarrow> sync_service" where
  "sync_post j s = s\<lparr>sy_jobs := sy_jobs s @ [j]\<rparr>"

definition sync_stop :: "sync_service \<Rightarrow> sync_service" where
  "sync_stop s = s\<lparr>sy_stop := True\<rparr>"

datatype sync_turn = Sync_Waits | Sync_Returns | Sync_Runs sync_service

definition sync_run_turn :: "sync_service \<Rightarrow> sync_turn" where
  "sync_run_turn s =
     (case sy_jobs s of
        [] \<Rightarrow> if sy_stop s then Sync_Returns else Sync_Waits
      | j # js \<Rightarrow> Sync_Runs (s\<lparr>sy_jobs := js, sy_ran := sy_ran s @ [j]\<rparr>))"

function sync_join :: "sync_service \<Rightarrow> sync_service option" where
  "sync_join s = (case sync_run_turn s of Sync_Waits \<Rightarrow> None | Sync_Returns \<Rightarrow> Some s | Sync_Runs s' \<Rightarrow> sync_join s')"
  by pat_completeness auto
termination by (relation "measure (\<lambda>s. length (sy_jobs s))") (auto simp: sync_run_turn_def split: list.splits if_splits)

declare sync_join.simps [simp del]

definition sync_destroy :: "sync_service \<Rightarrow> sync_service option" where
  "sync_destroy s = sync_join (sync_stop s)"

section \<open>A callback\<close>

text \<open>\<^verbatim>\<open>callback_awaitable\<close>: registering can fail, and then the coroutine goes on at once with the error; otherwise the callback posts it. The stream is queried for its sticky error.\<close>

definition callback_suspend :: "device_status \<Rightarrow> handle \<Rightarrow> handle \<times> error_code" where
  "callback_suspend launch h = (if launch \<noteq> Dev_Success then (h, status_code launch) else (noop, success))"

definition callback_resume :: "error_code \<Rightarrow> device_status \<Rightarrow> error_code" where
  "callback_resume ec stream = (if failed ec then ec else if stream = Dev_Success \<or> stream = Dev_Not_Ready then success else status_code stream)"

lemma callback_reports:
  "\<lbrakk>e \<noteq> 0; callback_suspend (Dev_Error e) h = (g, ec)\<rbrakk> \<Longrightarrow> g = h \<and> callback_resume ec st = \<lparr>ec_value = e, ec_category = other_cat 0\<rparr>"
  "callback_suspend Dev_Success h = (g, ec) \<Longrightarrow> g = noop \<and> callback_resume ec st = status_code st"
  by (cases st; auto simp: callback_suspend_def callback_resume_def failed_def success_def)+

section \<open>What a pass does\<close>

lemma mset_swap_pop:
  assumes "i < length es"
  shows "mset es = add_mset (es ! i) (mset (butlast (es[i := last es])))"
proof -
  obtain xs y where es: "es = xs @ [y]" using assms by (metis list.size(3) not_less_zero rev_exhaust)
  show ?thesis
  proof (cases "i < length xs")
    case True
    then show ?thesis by (simp add: es list_update_append nth_append mset_update)
  next
    case False
    then have "i = length xs" using assms es by simp
    then show ?thesis by (simp add: es list_update_append)
  qed
qed

lemma nth_swap_pop: "\<lbrakk>j < i; i < length es\<rbrakk> \<Longrightarrow> butlast (es[i := last es]) ! j = es ! j"
  by (simp add: nth_butlast)

lemma set_swap_pop: "i < length es \<Longrightarrow> set (butlast (es[i := last es])) \<subseteq> set es"
  using mset_swap_pop [of i es] by (metis set_mset_mset set_mset_add_mset_insert subset_insertI)

definition pass_inv :: "(nat \<Rightarrow> nat \<Rightarrow> device_status) \<Rightarrow> nat \<Rightarrow> (nat \<Rightarrow> error_code) \<Rightarrow> nat \<Rightarrow> nat \<Rightarrow> poll_entry list \<Rightarrow> poll_entry list \<Rightarrow> (nat \<Rightarrow> error_code) \<Rightarrow> bool" where
  "pass_inv q t0 ecs0 t i es rdy ecs \<longleftrightarrow> i \<le> length es \<and> t = t0 + i + length rdy \<and> distinct (map pe_ec (es @ rdy))
     \<and> (\<forall>e \<in> set es. ecs (pe_ec e) = ecs0 (pe_ec e)) \<and> (\<forall>j < i. \<exists>u \<in> {t0..<t}. q u (pe_event (es ! j)) = Dev_Not_Ready)
     \<and> (\<forall>e \<in> set rdy. \<exists>u \<in> {t0..<t}. q u (pe_event e) \<noteq> Dev_Not_Ready \<and> ecs (pe_ec e) = status_code (q u (pe_event e)))"

lemma pass_inv_skip:
  assumes "pass_inv q t0 ecs0 t i es rdy ecs" "i < length es" "q t (pe_event (es ! i)) = Dev_Not_Ready"
  shows "pass_inv q t0 ecs0 (Suc t) (Suc i) es rdy ecs"
  using assms unfolding pass_inv_def less_Suc_eq by (auto intro: less_imp_le_nat simp: Bex_def) (metis less_Suc_eq)+

lemma pass_inv_take:
  assumes "pass_inv q t0 ecs0 t i es rdy ecs" "i < length es" "q t (pe_event (es ! i)) \<noteq> Dev_Not_Ready"
  shows "pass_inv q t0 ecs0 (Suc t) i (butlast (es[i := last es])) (rdy @ [es ! i]) (ecs(pe_ec (es ! i) := status_code (q t (pe_event (es ! i)))))"
proof -
  let ?es = "butlast (es[i := last es])" and ?e = "es ! i"
  note a = assms(1) [unfolded pass_inv_def]
  have t: "t0 \<le> t" using a by simp
  have "mset (map pe_ec (es @ rdy)) = mset (map pe_ec (?es @ rdy @ [?e]))" using mset_swap_pop [OF assms(2)] by simp
  then have d: "distinct (map pe_ec (?es @ rdy @ [?e]))" using a by (metis mset_eq_imp_distinct_iff)
  have sub: "set ?es \<subseteq> set es" using set_swap_pop [OF assms(2)] .
  have n: "pe_ec e \<noteq> pe_ec ?e" if "e \<in> set ?es \<or> e \<in> set rdy" for e using d that by (force simp: rev_image_eqI)
  have len: "length ?es = length es - 1" by simp
  have "\<exists>u \<in> {t0..<Suc t}. q u (pe_event (?es ! j)) = Dev_Not_Ready" if "j < i" for j
    using a that nth_swap_pop [OF that assms(2)] by (metis atLeastLessThan_iff less_SucI)
  moreover have "\<exists>u \<in> {t0..<Suc t}. q u (pe_event e) \<noteq> Dev_Not_Ready \<and> (ecs(pe_ec ?e := status_code (q t (pe_event ?e)))) (pe_ec e) = status_code (q u (pe_event e))"
    if "e \<in> set (rdy @ [?e])" for e
  proof (cases "e = ?e")
    case True
    then show ?thesis using assms(3) t by (intro bexI [of _ t]) auto
  next
    case False
    then have r: "e \<in> set rdy" using that by auto
    then show ?thesis using a n [of e] by (metis atLeastLessThan_iff fun_upd_other less_SucI)
  qed
  moreover have "\<forall>e \<in> set ?es. (ecs(pe_ec ?e := status_code (q t (pe_event ?e)))) (pe_ec e) = ecs0 (pe_ec e)" using a n sub by auto
  ultimately show ?thesis using a d assms(2) len unfolding pass_inv_def by auto
qed

lemma poll_pass_inv:
  assumes "pass_inv q t0 ecs0 t i es rdy ecs" "poll_pass q t i es rdy ecs = (t', es', rdy', ecs')"
  shows "pass_inv q t0 ecs0 t' (length es') es' rdy' ecs' \<and> mset es + mset rdy = mset es' + mset rdy'"
  using assms
proof (induction q t i es rdy ecs rule: poll_pass.induct)
  case (1 q t i es rdy ecs)
  show ?case
  proof (cases "i < length es")
    case False
    then have e: "i = length es" using 1(3) by (simp add: pass_inv_def)
    have "poll_pass q t i es rdy ecs = (t, es, rdy, ecs)" using False by (subst poll_pass.simps) simp
    then show ?thesis using 1(3,4) e by simp
  next
    case True
    show ?thesis
    proof (cases "q t (pe_event (es ! i)) = Dev_Not_Ready")
      case nr: True
      then have "poll_pass q (Suc t) (Suc i) es rdy ecs = (t', es', rdy', ecs')" using 1(4) True by (simp add: poll_pass.simps [of q t i] Let_def)
      then show ?thesis using 1(1) [OF True refl refl nr pass_inv_skip [OF 1(3) True nr]] by blast
    next
      case r: False
      let ?es = "butlast (es[i := last es])"
      have "poll_pass q (Suc t) i ?es (rdy @ [es ! i]) (ecs(pe_ec (es ! i) := status_code (q t (pe_event (es ! i))))) = (t', es', rdy', ecs')"
        using 1(4) True r by (simp add: poll_pass.simps [of q t i] Let_def)
      then have "pass_inv q t0 ecs0 t' (length es') es' rdy' ecs' \<and> mset ?es + mset (rdy @ [es ! i]) = mset es' + mset rdy'"
        using 1(2) [OF True refl refl r pass_inv_take [OF 1(3) True r]] by blast
      then show ?thesis using mset_swap_pop [OF True] by simp
    qed
  qed
qed

text \<open>
  A pass of the polling thread asks for each registered event exactly once and loses nobody: the registered entries are those that stay and those that are ready; the continuations posted
  are exactly those of the ready ones, each told the code of an answer its event gave in this pass; those that stay were answered not ready in this pass and their codes are
  untouched, although removing an entry moves another into its place.
\<close>

theorem poll_round_correct:
  assumes "poll_round query t entries ecs = (t', entries', posted, ecs')" and "distinct (map pe_ec entries)"
  shows "\<exists>ready. mset entries = mset entries' + mset ready \<and> posted = map pe_cont ready \<and> t' = t + length entries
    \<and> (\<forall>e \<in> set ready. \<exists>u \<in> {t..<t'}. query u (pe_event e) \<noteq> Dev_Not_Ready \<and> ecs' (pe_ec e) = status_code (query u (pe_event e)))
    \<and> (\<forall>e \<in> set entries'. (\<exists>u \<in> {t..<t'}. query u (pe_event e) = Dev_Not_Ready) \<and> ecs' (pe_ec e) = ecs (pe_ec e))"
proof -
  obtain ready where p: "poll_pass query t 0 entries [] ecs = (t', entries', ready, ecs')" and posted: "posted = map pe_cont ready"
    using assms(1) by (auto simp: poll_round_def split: prod.splits)
  have "pass_inv query t ecs t 0 entries [] ecs" using assms(2) by (simp add: pass_inv_def)
  then have i: "pass_inv query t ecs t' (length entries') entries' ready ecs'" and m: "mset entries = mset entries' + mset ready"
    using poll_pass_inv [OF _ p] by auto
  have "length entries = length entries' + length ready" using arg_cong [OF m, of size] by simp
  then show ?thesis using i m posted unfolding pass_inv_def
    by (intro exI [of _ ready]) (auto simp: in_set_conv_nth)
qed

theorem poll_round_correct_witness:
  "\<exists>ready. mset [\<lparr>pe_event = 1, pe_cont = \<lparr>c_h = Some 4, c_owner = None\<rparr>, pe_ec = 0\<rparr>, \<lparr>pe_event = 2, pe_cont = \<lparr>c_h = Some 5, c_owner = None\<rparr>, pe_ec = 1\<rparr>] =
     mset [\<lparr>pe_event = 2, pe_cont = \<lparr>c_h = Some 5, c_owner = None\<rparr>, pe_ec = 1\<rparr>] + mset ready \<and> [\<lparr>c_h = Some 4, c_owner = None\<rparr>] = map pe_cont ready"
proof -
  let ?es = "[\<lparr>pe_event = 1, pe_cont = \<lparr>c_h = Some 4, c_owner = None\<rparr>, pe_ec = 0\<rparr>, \<lparr>pe_event = 2, pe_cont = \<lparr>c_h = Some 5, c_owner = None\<rparr>, pe_ec = 1\<rparr>]"
    and ?q = "\<lambda>t ev. if ev = 1 then Dev_Success else Dev_Not_Ready"
  have r: "poll_round ?q 0 ?es (\<lambda>_. success) = (2, [\<lparr>pe_event = 2, pe_cont = \<lparr>c_h = Some 5, c_owner = None\<rparr>, pe_ec = 1\<rparr>], [\<lparr>c_h = Some 4, c_owner = None\<rparr>], (\<lambda>_. success)(0 := success))"
    by (simp add: poll_round_def poll_pass.simps Let_def)
  from poll_round_correct [OF r] show ?thesis by auto
qed

text \<open>Destroying the job service runs every job that was posted, once and in order, and then returns.\<close>

lemma sync_join_all: "sy_stop s \<Longrightarrow> sync_join s = Some (s\<lparr>sy_jobs := [], sy_ran := sy_ran s @ sy_jobs s\<rparr>)"
proof (induction s rule: sync_join.induct)
  case (1 s)
  then show ?case by (cases "sy_jobs s") (simp_all add: sync_join.simps [of s] sync_run_turn_def)
qed

theorem sync_destroy_runs_all: "\<exists>s'. sync_destroy (sync_post j s) = Some s' \<and> sy_jobs s' = [] \<and> sy_ran s' = sy_ran s @ sy_jobs s @ [j]"
  by (simp add: sync_destroy_def sync_stop_def sync_post_def sync_join_all)

section \<open>The awaitables\<close>

text \<open>\<^verbatim>\<open>on_complete\<close>, the host function of the callback: it clears the code and posts.\<close>

definition on_complete :: "continuation \<Rightarrow> error_code \<times> continuation list" where
  "on_complete c = (success, [c])"

text \<open>\<^verbatim>\<open>poll_awaitable\<close> and \<^verbatim>\<open>deferred_sync_awaitable\<close>: suspending registers an entry, or a job that synchronises with the stream, stores the code and posts.\<close>

definition poll_suspend :: "nat \<Rightarrow> nat \<Rightarrow> handle \<Rightarrow> nat option \<Rightarrow> poll_entry list \<Rightarrow> handle \<times> poll_entry list" where
  "poll_suspend event ec h owner entries =
     (noop, register_wait \<lparr>pe_event = event, pe_cont = \<lparr>c_h = Some h, c_owner = owner\<rparr>, pe_ec = ec\<rparr> entries)"

definition deferred_suspend :: "nat \<Rightarrow> sync_service \<Rightarrow> handle \<times> sync_service" where
  "deferred_suspend job svc = (noop, sync_post job svc)"

definition deferred_job :: "device_status \<Rightarrow> handle \<Rightarrow> nat option \<Rightarrow> error_code \<times> continuation" where
  "deferred_job st h owner = (status_code st, \<lparr>c_h = Some h, c_owner = owner\<rparr>)"

text \<open>A wait that was registered is posted by a round of the service whose query finds its event done, with the code of the answer.\<close>

lemma poll_awaited:
  assumes "poll_suspend ev a h owner [] = (x, es)" and "query t ev \<noteq> Dev_Not_Ready"
  shows "poll_round query t es ecs = (Suc t, [], [\<lparr>c_h = Some h, c_owner = owner\<rparr>], ecs(a := status_code (query t ev)))"
  using assms by (auto simp: poll_suspend_def register_wait_def poll_round_def poll_pass.simps)

section \<open>Owners of device objects\<close>

text \<open>
  \<^verbatim>\<open>cuda_stream\<close> and \<^verbatim>\<open>cuda_event\<close> own a handle of the device, or none when moved from. The objects of a program, the handles the device made and those it was asked to destroy.
\<close>

record device_world =
  dw_objs :: "nat \<rightharpoonup> nat option"
  dw_made :: "nat set"
  dw_destroyed :: "nat list"

definition own_destroy :: "nat option \<Rightarrow> device_world \<Rightarrow> device_world" where
  "own_destroy h w = (case h of None \<Rightarrow> w | Some h \<Rightarrow> w\<lparr>dw_destroyed := dw_destroyed w @ [h]\<rparr>)"

text \<open>Making an object fails with the device's code, and then there is none.\<close>

definition own_make :: "device_status \<Rightarrow> nat \<Rightarrow> nat \<Rightarrow> device_world \<Rightarrow> cpp_exception + device_world" where
  "own_make st h x w = (if st \<noteq> Dev_Success then Inl (system_error (status_code st)) else Inr (w\<lparr>dw_objs := (dw_objs w)(x \<mapsto> Some h), dw_made := insert h (dw_made w)\<rparr>))"

definition own_dtor :: "nat \<Rightarrow> nat option \<Rightarrow> device_world \<Rightarrow> device_world" where
  "own_dtor x h w = (own_destroy h w)\<lparr>dw_objs := (dw_objs w)(x := None)\<rparr>"

definition own_move :: "nat \<Rightarrow> nat \<Rightarrow> nat option \<Rightarrow> device_world \<Rightarrow> device_world" where
  "own_move x y h w = w\<lparr>dw_objs := (dw_objs w)(y \<mapsto> None, x \<mapsto> h)\<rparr>"

definition own_assign :: "nat \<Rightarrow> nat option \<Rightarrow> nat \<Rightarrow> nat option \<Rightarrow> device_world \<Rightarrow> device_world" where
  "own_assign x g y h w = (if x = y then w else (own_destroy g w)\<lparr>dw_objs := (dw_objs w)(y \<mapsto> None, x \<mapsto> h)\<rparr>)"

text \<open>\<^verbatim>\<open>record\<close> throws the device's code.\<close>

definition event_record :: "device_status \<Rightarrow> cpp_exception + unit" where
  "event_record st = (if st \<noteq> Dev_Success then Inl (system_error (status_code st)) else Inr ())"

inductive own_step :: "device_world \<Rightarrow> device_world \<Rightarrow> bool" where
  makes: "\<lbrakk>dw_objs w x = None; h \<notin> dw_made w; own_make st h x w = Inr w'\<rbrakk> \<Longrightarrow> own_step w w'"
| dies: "dw_objs w x = Some h \<Longrightarrow> own_step w (own_dtor x h w)"
| moves: "\<lbrakk>dw_objs w x = None; dw_objs w y = Some h\<rbrakk> \<Longrightarrow> own_step w (own_move x y h w)"
| assigns: "\<lbrakk>dw_objs w x = Some g; dw_objs w y = Some h\<rbrakk> \<Longrightarrow> own_step w (own_assign x g y h w)"

definition own_init :: device_world where
  "own_init = \<lparr>dw_objs = (\<lambda>_. None), dw_made = {}, dw_destroyed = []\<rparr>"

definition held :: "device_world \<Rightarrow> nat set" where
  "held w = {h. \<exists>x. dw_objs w x = Some (Some h)}"

definition own_inv :: "device_world \<Rightarrow> bool" where
  "own_inv w \<longleftrightarrow> (\<forall>x y h. dw_objs w x = Some (Some h) \<longrightarrow> dw_objs w y = Some (Some h) \<longrightarrow> x = y)
     \<and> dw_made w = held w \<union> set (dw_destroyed w) \<and> held w \<inter> set (dw_destroyed w) = {} \<and> distinct (dw_destroyed w)"

lemma held_ran: "held w = {h. Some h \<in> ran (dw_objs w)}"
  by (auto simp: held_def ran_def)

lemma own_dtor_inv:
  assumes "dw_objs w x = Some h" "own_inv w"
  shows "own_inv (own_dtor x h w)"
proof -
  have "held (own_dtor x h w) = held w - set_option h"
    using assms by (cases h) (auto simp: held_def own_inv_def own_dtor_def own_destroy_def, (metis option.distinct(1) option.inject)+)
  moreover have "set_option h \<subseteq> held w" using assms(1) by (auto simp: held_def)
  ultimately show ?thesis using assms by (cases h) (auto simp: own_inv_def own_dtor_def own_destroy_def)
qed

lemma own_move_inv:
  assumes "dw_objs w x = None" "dw_objs w y = Some h" "own_inv w"
  shows "own_inv (own_move x y h w)"
proof -
  have "held (own_move x y h w) = held w" using assms(1,2) by (auto simp: held_def own_move_def split: if_splits) (metis option.distinct(1) option.inject)
  then show ?thesis using assms by (auto simp: own_inv_def own_move_def)
qed

lemma own_assign_eq: "x \<noteq> y \<Longrightarrow> own_assign x g y h w = own_move x y h (own_dtor x g w)"
  by (cases g) (auto simp: own_assign_def own_move_def own_dtor_def own_destroy_def)

lemma own_step_inv: "own_step w w' \<Longrightarrow> own_inv w \<Longrightarrow> own_inv w'"
proof (induction rule: own_step.induct)
  case (makes w x h st w')
  then have w': "w' = w\<lparr>dw_objs := (dw_objs w)(x \<mapsto> Some h), dw_made := insert h (dw_made w)\<rparr>" by (simp add: own_make_def split: if_splits)
  have "held w' = insert h (held w)" using ran_map_upd [of "dw_objs w" x "Some h"] makes(1) by (auto simp: held_ran w')
  moreover have "dw_objs w u \<noteq> Some (Some h)" for u using makes(2,4) by (auto simp: own_inv_def held_def)
  ultimately show ?case using makes(2,4) by (auto simp: own_inv_def w')
next
  case (assigns w x g y h)
  then show ?case using own_dtor_inv [of w x g] own_move_inv [of "own_dtor x g w" x y h]
    by (cases "x = y") (auto simp: own_assign_eq own_assign_def [of y g y] own_dtor_def own_destroy_def split: option.splits)
qed (auto intro: own_dtor_inv own_move_inv)

text \<open>
  A handle of the device is destroyed once, by its last owner: through any constructions, failures, moves, assignments and destructions of its owners, no handle is destroyed twice or while an object still holds
  it, and when all objects are gone every handle that the device made was destroyed.
\<close>

theorem device_handles_once:
  assumes "own_step\<^sup>*\<^sup>* own_init w"
  shows "distinct (dw_destroyed w) \<and> set (dw_destroyed w) \<inter> held w = {} \<and> (dw_objs w = (\<lambda>_. None) \<longrightarrow> set (dw_destroyed w) = dw_made w)"
proof -
  have "own_inv w" using assms by (induction rule: rtranclp_induct) (auto intro: own_step_inv, simp add: own_inv_def own_init_def held_def)
  then show ?thesis by (auto simp: own_inv_def held_def)
qed

end
