(* ===== verification/Type_Id.thy ===== *)
theory Type_Id
  imports Prelude
begin

text \<open>
  Type identity without RTTI: \<^verbatim>\<open>detail/type_id.hpp\<close>. A type is identified by the address of a variable of its own, and named by a piece of the
  text the compiler gives for the signature of a function template. That text is the compiler's, and an argument here: characters up to a null.
\<close>

section \<open>The name\<close>

function strlen_loop :: "char list \<Rightarrow> nat \<Rightarrow> nat" where
  "strlen_loop s n = (if n < length s \<and> s ! n \<noteq> CHR 0x00 then strlen_loop s (Suc n) else n)"
  by pat_completeness auto
termination by (relation "measure (\<lambda>(s, n). length s - n)") auto

definition strlen_ce :: "char list \<Rightarrow> nat" where
  "strlen_ce s = strlen_loop s 0"

function find_loop :: "char list \<Rightarrow> nat \<Rightarrow> char \<Rightarrow> nat \<Rightarrow> nat" where
  "find_loop s len c i = (if i < len then (if s ! i = c then i else find_loop s len c (Suc i)) else len)"
  by pat_completeness auto
termination by (relation "measure (\<lambda>(s, len, c, i). len - i)") auto

fun rfind_loop :: "char list \<Rightarrow> nat \<Rightarrow> char \<Rightarrow> nat \<Rightarrow> nat" where
  "rfind_loop s len c 0 = len"
| "rfind_loop s len c (Suc i) = (if s ! i = c then i else rfind_loop s len c i)"

declare strlen_loop.simps [simp del] find_loop.simps [simp del]

definition substr :: "char list \<Rightarrow> nat \<Rightarrow> nat \<Rightarrow> char list" where
  "substr s start n = take n (drop start s)"

text \<open>\<^verbatim>\<open>type_name_impl\<close> for GCC and Clang (between the first \<^verbatim>\<open>=\<close> and a blank, and the last bracket), and for MSVC (between the first and the last angle).\<close>

definition type_name_gnu :: "char list \<Rightarrow> char list" where
  "type_name_gnu s =
     (let len = strlen_ce s; start = find_loop s len CHR ''='' 0 + 2; e = rfind_loop s len CHR '']'' len
      in substr s start (size_sub e start))"

definition type_name_msvc :: "char list \<Rightarrow> char list" where
  "type_name_msvc s =
     (let len = strlen_ce s; start = find_loop s len CHR ''<'' 0 + 1; e = rfind_loop s len CHR ''>'' len
      in substr s start (size_sub e start))"

section \<open>Type information\<close>

record type_info =
  ti_id :: addr
  ti_name :: "char list"

definition ti_eq :: "type_info \<Rightarrow> type_info \<Rightarrow> bool" where
  "ti_eq a b \<longleftrightarrow> ti_id a = ti_id b"

definition ti_before :: "type_info \<Rightarrow> type_info \<Rightarrow> bool" where
  "ti_before a b \<longleftrightarrow> ti_id a < ti_id b"

definition ti_hash_code :: "type_info \<Rightarrow> nat" where
  "ti_hash_code a = ti_id a"

text \<open>
  \<^verbatim>\<open>type_id<T>()\<close> and \<^verbatim>\<open>type_index\<close>: \<open>tag\<close> and \<open>info\<close> are where the variables of the template for each type are; top-level qualifiers are removed first. An index
  is the address of the information, which is compared, ordered and hashed.
\<close>

definition type_id_impl :: "('t \<Rightarrow> addr) \<Rightarrow> ('t \<Rightarrow> char list) \<Rightarrow> 't \<Rightarrow> type_info" where
  "type_id_impl tag name T = \<lparr>ti_id = tag T, ti_name = name T\<rparr>"

definition type_id_of :: "('t \<Rightarrow> 't) \<Rightarrow> ('t \<Rightarrow> addr) \<Rightarrow> ('t \<Rightarrow> char list) \<Rightarrow> 't \<Rightarrow> type_info" where
  "type_id_of remove_cv tag name T = type_id_impl tag name (remove_cv T)"

definition type_index_of :: "('t \<Rightarrow> 't) \<Rightarrow> ('t \<Rightarrow> addr) \<Rightarrow> 't \<Rightarrow> addr" where
  "type_index_of remove_cv info T = info (remove_cv T)"

section \<open>Properties\<close>

lemma strlen_loop_all: "CHR 0x00 \<notin> set s \<Longrightarrow> n \<le> length s \<Longrightarrow> strlen_loop (s @ CHR 0x00 # r) n = length s"
  by (induction "s @ CHR 0x00 # r" n rule: strlen_loop.induct)
    (subst strlen_loop.simps, auto simp: nth_append less_Suc_eq_le dest: nth_mem)

lemma strlen_ce_correct: "CHR 0x00 \<notin> set s \<Longrightarrow> strlen_ce (s @ CHR 0x00 # r) = length s"
  by (simp add: strlen_ce_def strlen_loop_all)

lemma find_loop_first:
  assumes "i \<le> k" "k < len" "s ! k = c" "\<forall>j. i \<le> j \<and> j < k \<longrightarrow> s ! j \<noteq> c"
  shows "find_loop s len c i = k"
  using assms
proof (induction s len c i rule: find_loop.induct)
  case (1 s len c i)
  then show ?case by (cases "i = k") (subst find_loop.simps, auto)+
qed

lemma rfind_loop_last:
  assumes "k < i" "s ! k = c" "\<forall>j. k < j \<and> j < i \<longrightarrow> s ! j \<noteq> c"
  shows "rfind_loop s len c i = k"
  using assms by (induction i) (auto simp: less_Suc_eq)

lemma find_prefix: "c \<notin> set p \<Longrightarrow> length p < len \<Longrightarrow> find_loop (p @ c # r) len c 0 = length p"
  by (intro find_loop_first) (auto simp: nth_append dest: nth_mem)

lemma rfind_suffix:
  assumes "c \<notin> set q"
  shows "rfind_loop (p @ c # q @ r) len c (length p + Suc (length q)) = length p"
proof (intro rfind_loop_last allI impI)
  fix j assume j: "length p < j \<and> j < length p + Suc (length q)"
  then obtain m where m: "j = length p + Suc m" "m < length q"
    by (metis add_Suc_right less_imp_Suc_add nat_add_left_cancel_less not_less_eq)
  then show "(p @ c # q @ r) ! j \<noteq> c" using assms by (auto simp: nth_append dest: nth_mem)
qed auto

text \<open>Both variants cut out what is between the first opening and the last closing character.\<close>

lemma cut_between:
  assumes "a \<notin> set p" "b \<notin> set q" "length (p @ a # m @ x @ b # q) \<le> size_max" "CHR 0x00 \<notin> set (p @ a # m @ x @ b # q)"
  shows "(let s = p @ a # m @ x @ b # q @ [CHR 0x00]; len = strlen_ce s; start = find_loop s len a 0 + Suc (length m); e = rfind_loop s len b len
          in substr s start (size_sub e start)) = x"
proof -
  let ?s = "p @ a # m @ x @ b # q @ [CHR 0x00]"
  have len: "strlen_ce ?s = length (p @ a # m @ x @ b # q)" using strlen_ce_correct [OF assms(4), of "[]"] by simp
  have f: "find_loop ?s (strlen_ce ?s) a 0 = length p" using find_prefix [OF assms(1)] len by simp
  have "rfind_loop ((p @ a # m @ x) @ b # q @ [CHR 0x00]) (strlen_ce ?s) b (length (p @ a # m @ x) + Suc (length q)) = length (p @ a # m @ x)"
    using rfind_suffix [OF assms(2)] .
  moreover have "length (p @ a # m @ x) + Suc (length q) = strlen_ce ?s" using len by simp
  ultimately have r: "rfind_loop ?s (strlen_ce ?s) b (strlen_ce ?s) = length p + Suc (length m) + length x" by (simp del: rfind_loop.simps)
  have "size_sub (length p + Suc (length m) + length x) (length p + Suc (length m)) = length x"
    using assms(3) by (subst size_sub_exact) auto
  then show ?thesis by (simp add: Let_def f r substr_def)
qed

text \<open>
  The name of a type is the text between the equals sign with its blank and the closing bracket for GCC and Clang, and between the angles for MSVC, where
  the compiler's text has no such character before, respectively after. Equality and order of type information do not look at names: equal exactly for types that
  agree up to top-level qualifiers, where each type has a variable of its own.
\<close>

theorem type_name_correct:
  assumes "CHR 0x00 \<notin> set (p @ x @ q)" and "length (p @ x @ q) + 3 \<le> size_max"
  shows "CHR ''='' \<notin> set p \<Longrightarrow> CHR '']'' \<notin> set q \<Longrightarrow> type_name_gnu (p @ ''= '' @ x @ '']'' @ q @ [CHR 0x00]) = x"
    and "CHR ''<'' \<notin> set p \<Longrightarrow> CHR ''>'' \<notin> set q \<Longrightarrow> type_name_msvc (p @ ''<'' @ x @ ''>'' @ q @ [CHR 0x00]) = x"
  using cut_between [of "CHR ''=''" p "CHR '']''" q "'' ''" x] cut_between [of "CHR ''<''" p "CHR ''>''" q "[]" x] assms
  by (simp_all add: type_name_gnu_def type_name_msvc_def Let_def numeral_2_eq_2)

text \<open>
  With MSVC the signature begins with the return type, which is itself a specialisation of a template: the name then begins inside the return type.
\<close>

theorem msvc_name_from_return_type:
  assumes "CHR ''<'' \<notin> set p" "CHR ''>'' \<notin> set q" "CHR 0x00 \<notin> set (p @ r @ x @ q)" "length (p @ r @ x @ q) + 4 \<le> size_max"
  shows "type_name_msvc (p @ ''<'' @ r @ ''<'' @ x @ ''>'' @ q @ [CHR 0x00]) = r @ ''<'' @ x"
  using type_name_correct(2) [of p "r @ ''<'' @ x" q] assms by simp

theorem type_id_identity:
  assumes "inj tag"
  shows "ti_eq (type_id_of cv tag name T) (type_id_of cv tag name U) \<longleftrightarrow> cv T = cv U"
    and "ti_hash_code (type_id_of cv tag name T) = ti_hash_code (type_id_of cv tag name U) \<longleftrightarrow> cv T = cv U"
    and "cv T \<noteq> cv U \<Longrightarrow> ti_before (type_id_of cv tag name T) (type_id_of cv tag name U) \<noteq> ti_before (type_id_of cv tag name U) (type_id_of cv tag name T)"
  using assms by (auto simp: ti_eq_def ti_hash_code_def ti_before_def type_id_of_def type_id_impl_def dest: injD)
    (metis injD linorder_neqE_nat)+

end
