(* ===== verification/Promise_Storage.thy ===== *)
theory Promise_Storage
  imports Task_Chain
begin

text \<open>
  How the promises of \<^verbatim>\<open>task.hpp\<close> and \<^verbatim>\<open>quitter.hpp\<close> store what a body ended with. The exception lives in a union, so that its lifetime is the promise's own affair: a flag
  (task) or an enumeration (quitter) says whether it was constructed. \<open>Task_Chain\<close> has the outcome as plain fields; here the storage is shown to implement them.
\<close>

section \<open>The two promises\<close>

text \<open>\<open>tp_ep\<close> and \<open>qp_ep\<close> are the union member: \<open>None\<close> is raw memory.\<close>

record 'v task_promise =
  tp_result :: "'v option"
  tp_ep :: "cpp_exception option"
  tp_has_ep :: bool

datatype completion = Q_running | Q_value | Q_exception | Q_stopped

record 'v quitter_promise =
  qp_result :: "'v option"
  qp_ep :: "cpp_exception option"
  qp_state :: completion

definition tp_init :: "'v task_promise" where
  "tp_init = \<lparr>tp_result = None, tp_ep = None, tp_has_ep = False\<rparr>"

definition qp_init :: "'v quitter_promise" where
  "qp_init = \<lparr>qp_result = None, qp_ep = None, qp_state = Q_running\<rparr>"

definition tp_return_value :: "'v \<Rightarrow> 'v task_promise \<Rightarrow> 'v task_promise" where
  "tp_return_value v p = p\<lparr>tp_result := Some v\<rparr>"

definition qp_return_value :: "'v \<Rightarrow> 'v quitter_promise \<Rightarrow> 'v quitter_promise" where
  "qp_return_value v p = p\<lparr>qp_result := Some v\<rparr>"

text \<open>Constructing the member over one that is alive would leak it: \<open>None\<close>.\<close>

definition tp_unhandled_exception :: "cpp_exception \<Rightarrow> 'v task_promise \<Rightarrow> 'v task_promise option" where
  "tp_unhandled_exception e p = (if tp_ep p = None then Some (p\<lparr>tp_ep := Some e, tp_has_ep := True\<rparr>) else None)"

definition qp_unhandled_exception :: "cpp_exception \<Rightarrow> 'v quitter_promise \<Rightarrow> 'v quitter_promise option" where
  "qp_unhandled_exception e p =
     (if qp_ep p \<noteq> None then None
      else if e = stop_requested_exception then Some (p\<lparr>qp_ep := Some e, qp_state := Q_stopped\<rparr>)
      else Some (p\<lparr>qp_ep := Some e, qp_state := Q_exception\<rparr>))"

text \<open>\<^verbatim>\<open>exception()\<close>: a null pointer is \<open>Some None\<close>; reading raw memory is \<open>None\<close>.\<close>

definition tp_exception :: "'v task_promise \<Rightarrow> cpp_exception option option" where
  "tp_exception p = (if tp_has_ep p then map_option Some (tp_ep p) else Some None)"

definition qp_exception :: "'v quitter_promise \<Rightarrow> cpp_exception option option" where
  "qp_exception p = (if qp_state p = Q_exception \<or> qp_state p = Q_stopped then map_option Some (qp_ep p) else Some None)"

definition qp_stopped :: "'v quitter_promise \<Rightarrow> bool" where
  "qp_stopped p \<longleftrightarrow> qp_state p = Q_stopped"

text \<open>\<^verbatim>\<open>await_resume\<close>: rethrows, or moves the result out; \<open>None\<close> is an empty optional or raw memory that is read.\<close>

definition tp_await_resume :: "'v task_promise \<Rightarrow> (cpp_exception + 'v) option" where
  "tp_await_resume p = (if tp_has_ep p then map_option Inl (tp_ep p) else map_option Inr (tp_result p))"

definition qp_await_resume :: "'v quitter_promise \<Rightarrow> (cpp_exception + 'v) option" where
  "qp_await_resume p =
     (if qp_stopped p then Some (Inl stop_requested_exception)
      else if qp_state p = Q_exception then map_option Inl (qp_ep p)
      else map_option Inr (qp_result p))"

text \<open>The destructors: what is left of the member. Destroying raw memory is \<open>None\<close>.\<close>

definition tp_destroy :: "'v task_promise \<Rightarrow> cpp_exception option option" where
  "tp_destroy p = (if tp_has_ep p then (case tp_ep p of None \<Rightarrow> None | Some _ \<Rightarrow> Some None) else Some (tp_ep p))"

definition qp_destroy :: "'v quitter_promise \<Rightarrow> cpp_exception option option" where
  "qp_destroy p =
     (if qp_state p = Q_exception \<or> qp_state p = Q_stopped then (case qp_ep p of None \<Rightarrow> None | Some _ \<Rightarrow> Some None) else Some (qp_ep p))"

section \<open>A body ends\<close>

text \<open>
  What a body does to its promise: nothing yet, return a value, throw, or return a value and then throw, from the destructor of a local variable.
\<close>

datatype 'v body_end = Unended | Returned 'v | Threw cpp_exception | Returned_Then_Threw 'v cpp_exception

fun tp_run :: "'v body_end \<Rightarrow> 'v task_promise \<Rightarrow> 'v task_promise option" where
  "tp_run Unended p = Some p"
| "tp_run (Returned v) p = Some (tp_return_value v p)"
| "tp_run (Threw e) p = tp_unhandled_exception e p"
| "tp_run (Returned_Then_Threw v e) p = tp_unhandled_exception e (tp_return_value v p)"

fun qp_run :: "'v body_end \<Rightarrow> 'v quitter_promise \<Rightarrow> 'v quitter_promise option" where
  "qp_run Unended p = Some p"
| "qp_run (Returned v) p = Some (qp_return_value v p)"
| "qp_run (Threw e) p = qp_unhandled_exception e p"
| "qp_run (Returned_Then_Threw v e) p = qp_unhandled_exception e (qp_return_value v p)"

fun frame_run :: "'v body_end \<Rightarrow> 'v frame \<Rightarrow> 'v frame" where
  "frame_run Unended f = f"
| "frame_run (Returned v) f = return_value v f"
| "frame_run (Threw e) f = task_unhandled_exception e f"
| "frame_run (Returned_Then_Threw v e) f = task_unhandled_exception e (return_value v f)"

lemmas store_defs = tp_init_def qp_init_def tp_return_value_def qp_return_value_def tp_unhandled_exception_def qp_unhandled_exception_def
  tp_exception_def qp_exception_def qp_stopped_def tp_await_resume_def qp_await_resume_def tp_destroy_def qp_destroy_def
  new_frame_def return_value_def task_unhandled_exception_def task_await_resume_def

text \<open>
  The storage of both promises implements the outcome of a frame. However the body ends, and whether it ended at all: storing the outcome constructs the exception once
  and leaks none; \<^verbatim>\<open>await_resume\<close>, \<^verbatim>\<open>exception\<close> and \<^verbatim>\<open>stopped\<close> report what the frame of the machine does, without reading the member while it is raw memory; and the destructor
  destroys the exception exactly if there is one, so that nothing is left.
\<close>

theorem promise_storage_refines:
  "(\<exists>p. tp_run b tp_init = Some p \<and> tp_await_resume p = task_await_resume (frame_run b (new_frame Task body mr))
      \<and> tp_exception p = Some (fr_ep (frame_run b (new_frame Task body mr))) \<and> tp_destroy p = Some None)
   \<and> (\<exists>p. qp_run b qp_init = Some p \<and> qp_await_resume p = task_await_resume (frame_run b (new_frame Quitter body mr))
      \<and> qp_exception p = Some (fr_ep (frame_run b (new_frame Quitter body mr))) \<and> qp_stopped p = fr_stopped (frame_run b (new_frame Quitter body mr))
      \<and> qp_destroy p = Some None)"
  by (cases b) (simp_all add: store_defs)

end
