(* ===== verification/Make_Buffer.thy ===== *)
theory Make_Buffer
  imports Buffers
begin

text \<open>
  The overloads of \<^verbatim>\<open>make_buffer\<close> (\<^verbatim>\<open>buffers/make_buffer.hpp\<close>) beside those for a pointer and a size: for buffers, string views and
  contiguous ranges, each with and without a limit. The byte count of a range is a product of \<^verbatim>\<open>std::size_t\<close>, which wraps around.
\<close>

section \<open>Overloads\<close>

definition size_mult :: "nat \<Rightarrow> nat \<Rightarrow> nat" where
  "size_mult a b = a * b mod 2 ^ 64"

text \<open>A string view or a contiguous range: where its elements are, how many there are, and the size of one.\<close>

record elements =
  el_data :: addr
  el_size :: nat
  el_sizeof :: nat

definition make_buffer_mutable :: "mutable_buffer \<Rightarrow> mutable_buffer" where
  "make_buffer_mutable b = b"

definition make_buffer_mutable_max :: "mutable_buffer \<Rightarrow> nat \<Rightarrow> mutable_buffer" where
  "make_buffer_mutable_max b max_size = mk_buffer (buf_p b) (if buf_n b < max_size then buf_n b else max_size)"

definition make_buffer_const :: "const_buffer \<Rightarrow> const_buffer" where
  "make_buffer_const b = b"

definition make_buffer_const_max :: "const_buffer \<Rightarrow> nat \<Rightarrow> const_buffer" where
  "make_buffer_const_max b max_size = mk_buffer (buf_p b) (if buf_n b < max_size then buf_n b else max_size)"

definition make_buffer_ptr :: "addr \<Rightarrow> nat \<Rightarrow> const_buffer" where
  "make_buffer_ptr data sz = mk_buffer data sz"

definition make_buffer_ptr_max :: "addr \<Rightarrow> nat \<Rightarrow> nat \<Rightarrow> const_buffer" where
  "make_buffer_ptr_max data sz max_size = mk_buffer data (if sz < max_size then sz else max_size)"

definition make_buffer_view :: "elements \<Rightarrow> const_buffer" where
  "make_buffer_view d = mk_buffer (if el_size d \<noteq> 0 then el_data d else 0) (size_mult (el_size d) (el_sizeof d))"

definition make_buffer_view_max :: "elements \<Rightarrow> nat \<Rightarrow> const_buffer" where
  "make_buffer_view_max d max_size =
     mk_buffer (if el_size d \<noteq> 0 then el_data d else 0)
       (if size_mult (el_size d) (el_sizeof d) < max_size then size_mult (el_size d) (el_sizeof d) else max_size)"

definition make_buffer_range :: "elements \<Rightarrow> mutable_buffer" where
  "make_buffer_range d = mk_buffer (if el_size d \<noteq> 0 then el_data d else 0) (size_mult (el_size d) (el_sizeof d))"

definition make_buffer_range_max :: "elements \<Rightarrow> nat \<Rightarrow> mutable_buffer" where
  "make_buffer_range_max d max_size =
     (let n = size_mult (el_size d) (el_sizeof d)
      in mk_buffer (if el_size d \<noteq> 0 then el_data d else 0) (if n < max_size then n else max_size))"

definition make_buffer_const_range :: "elements \<Rightarrow> const_buffer" where
  "make_buffer_const_range d = mk_buffer (if el_size d \<noteq> 0 then el_data d else 0) (size_mult (el_size d) (el_sizeof d))"

definition make_buffer_const_range_max :: "elements \<Rightarrow> nat \<Rightarrow> const_buffer" where
  "make_buffer_const_range_max d max_size =
     (let n = size_mult (el_size d) (el_sizeof d)
      in mk_buffer (if el_size d \<noteq> 0 then el_data d else 0) (if n < max_size then n else max_size))"

section \<open>The bytes they denote\<close>

text \<open>The bytes of a range, element by element.\<close>

definition element_bytes :: "elements \<Rightarrow> addr list" where
  "element_bytes d = concat (map (\<lambda>i. [el_data d + i * el_sizeof d..<el_data d + i * el_sizeof d + el_sizeof d]) [0..<el_size d])"

text \<open>An object that exists in memory is not larger than the address space.\<close>

definition in_memory :: "elements \<Rightarrow> bool" where
  "in_memory d \<longleftrightarrow> el_size d * el_sizeof d \<le> size_max"

lemma element_bytes_upt: "element_bytes d = [el_data d..<el_data d + el_size d * el_sizeof d]"
proof -
  have "concat (map (\<lambda>i. [a + i * z..<a + i * z + z]) [0..<n]) = [a..<a + n * z]" for a n z :: nat
  proof (induction n)
    case (Suc n)
    then show ?case using upt_add_eq_append [of a "a + n * z" z] by (simp add: add.commute add.left_commute)
  qed simp
  then show ?thesis by (simp add: element_bytes_def)
qed

lemma size_mult_exact: "in_memory d \<Longrightarrow> size_mult (el_size d) (el_sizeof d) = el_size d * el_sizeof d"
  by (simp add: in_memory_def size_mult_def size_max_def)

lemma baddrs_upto: "n \<le> m \<Longrightarrow> baddrs (mk_buffer a n) = take n [a..<a + m]"
  by (simp add: baddrs_def mk_buffer_def)

lemma limited_bytes:
  assumes "in_memory d"
  shows "baddrs (mk_buffer (if el_size d \<noteq> 0 then el_data d else 0)
      (if size_mult (el_size d) (el_sizeof d) < n then size_mult (el_size d) (el_sizeof d) else n)) = take n (element_bytes d)"
  by (simp add: size_mult_exact [OF assms] element_bytes_upt) (auto simp: baddrs_def mk_buffer_def)

text \<open>
  Every overload of \<^verbatim>\<open>make_buffer\<close> denotes the bytes of what it was given, in order, up to the limit: those of a buffer, of a string view, or of every element of a
  contiguous range that exists in memory. An empty range gives a null pointer.
\<close>

theorem make_buffer_correct:
  assumes "in_memory d"
  shows "baddrs (make_buffer_mutable b) = baddrs b \<and> baddrs (make_buffer_mutable_max b n) = take n (baddrs b)
    \<and> baddrs (make_buffer_const b) = baddrs b \<and> baddrs (make_buffer_const_max b n) = take n (baddrs b)
    \<and> baddrs (make_buffer_ptr a m) = [a..<a + m] \<and> baddrs (make_buffer_ptr_max a m n) = take n [a..<a + m]
    \<and> baddrs (make_buffer_view d) = element_bytes d \<and> baddrs (make_buffer_view_max d n) = take n (element_bytes d)
    \<and> baddrs (make_buffer_range d) = element_bytes d \<and> baddrs (make_buffer_range_max d n) = take n (element_bytes d)
    \<and> baddrs (make_buffer_const_range d) = element_bytes d \<and> baddrs (make_buffer_const_range_max d n) = take n (element_bytes d)
    \<and> (el_size d = 0 \<longrightarrow> make_buffer_view d = empty_buffer \<and> make_buffer_range d = empty_buffer \<and> make_buffer_const_range d = empty_buffer)"
proof -
  have all: "baddrs (mk_buffer (if el_size d \<noteq> 0 then el_data d else 0) (size_mult (el_size d) (el_sizeof d))) = element_bytes d"
    by (simp add: size_mult_exact [OF assms] element_bytes_upt) (simp add: baddrs_def mk_buffer_def)
  show ?thesis
    by (simp only: make_buffer_view_def make_buffer_view_max_def make_buffer_range_def make_buffer_range_max_def make_buffer_const_range_def
        make_buffer_const_range_max_def Let_def all limited_bytes [OF assms])
      (auto simp: make_buffer_mutable_def make_buffer_mutable_max_def make_buffer_const_def make_buffer_const_max_def make_buffer_ptr_def make_buffer_ptr_max_def
        baddrs_def mk_buffer_def empty_buffer_def size_mult_def)
qed

theorem make_buffer_correct_witness:
  "baddrs (make_buffer_range_max \<lparr>el_data = 100, el_size = 3, el_sizeof = 4\<rparr> 10) = take 10 (element_bytes \<lparr>el_data = 100, el_size = 3, el_sizeof = 4\<rparr>)
   \<and> element_bytes \<lparr>el_data = 100, el_size = 3, el_sizeof = 4\<rparr> = [100..<112]"
proof -
  have "in_memory \<lparr>el_data = 100, el_size = 3, el_sizeof = 4\<rparr>" by (simp add: in_memory_def size_max_def)
  from make_buffer_correct [OF this] show ?thesis by (simp add: element_bytes_upt)
qed

end
