(* ===== verification/Sender_Adaptors.thy ===== *)
theory Sender_Adaptors
  imports Awaitable_Sender
begin

text \<open>
  The small parts around the operation state of \<open>Awaitable_Sender\<close>: the sender object and its two ways to be connected, \<^verbatim>\<open>ensure_sender\<close>, the adaptor \<^verbatim>\<open>split_ec\<close>
  (\<^verbatim>\<open>example/awaitable-sender/awaitable_sender.hpp\<close>) and the operation that reports a count beside its code (\<^verbatim>\<open>read_op.hpp\<close>).
\<close>

section \<open>Senders of awaitables\<close>

text \<open>A sender holds its awaitable until it is connected as an rvalue; connecting an lvalue copies it.\<close>

record 'a awaitable_sender =
  sn_aw :: "'a option"

definition as_sender :: "result_type \<Rightarrow> 'a \<Rightarrow> 'a awaitable_sender option" where
  "as_sender T aw = (if is_compound_ec_result T then None else Some \<lparr>sn_aw = Some aw\<rparr>)"

definition connect_rvalue :: "bool \<Rightarrow> 'a awaitable_sender \<Rightarrow> ('a \<times> 'v op_state \<times> 'a awaitable_sender) option" where
  "connect_rvalue rcvr_stop s = (case sn_aw s of None \<Rightarrow> None | Some a \<Rightarrow> Some (a, awaitable_op_state rcvr_stop, s\<lparr>sn_aw := None\<rparr>))"

definition connect_lvalue :: "bool \<Rightarrow> 'a awaitable_sender \<Rightarrow> ('a \<times> 'v op_state \<times> 'a awaitable_sender) option" where
  "connect_lvalue rcvr_stop s = (case sn_aw s of None \<Rightarrow> None | Some a \<Rightarrow> Some (a, awaitable_op_state rcvr_stop, s))"

text \<open>An awaitable that is a sender already is passed through (\<open>Inl\<close>).\<close>

definition ensure_sender :: "bool \<Rightarrow> result_type \<Rightarrow> 'a \<Rightarrow> ('a + 'a awaitable_sender) option" where
  "ensure_sender is_sender T a = (if is_sender then Some (Inl a) else map_option Inr (as_sender T a))"

section \<open>Splitting an error code\<close>

text \<open>What the receiver of \<^verbatim>\<open>split_ec\<close> is told and what it tells the outer one.\<close>

datatype inner_signal = In_Value_Ec error_code | In_Value | In_Error_Ec error_code | In_Error_Exn cpp_exception | In_Stopped

fun ec_receiver :: "inner_signal \<Rightarrow> 'v completion" where
  "ec_receiver (In_Value_Ec ec) = (if \<not> failed ec then Set_Value None else Set_Error_Ec ec)"
| "ec_receiver In_Value = Set_Value None"
| "ec_receiver (In_Error_Ec e) = Set_Error_Ec e"
| "ec_receiver (In_Error_Exn e) = Set_Error_Exn e"
| "ec_receiver In_Stopped = Set_Stopped"

definition split_ec_sigs :: "sig list" where
  "split_ec_sigs = [Sig_value, Sig_error_ec, Sig_error_exn, Sig_stopped]"

text \<open>The signal by which the sender of an error code that was not split arrives, and by which one that was split does.\<close>

fun inner_of :: "'v completion \<Rightarrow> inner_signal option" where
  "inner_of (Set_Value None) = Some In_Value"
| "inner_of (Set_Value (Some _)) = None"
| "inner_of (Set_Error_Ec ec) = Some (In_Error_Ec ec)"
| "inner_of (Set_Error_Exn e) = Some (In_Error_Exn e)"
| "inner_of Set_Stopped = Some In_Stopped"

text \<open>
  \<^verbatim>\<open>split_ec\<close> completes only as it announces, puts an error code on the channel it belongs to, and changes nothing on a sender that is split already. Compared with an operation state, which looks at the code's
  condition, it leaves a code that means cancellation on the error channel.
\<close>

theorem split_ec_correct:
  "completion_sig (ec_receiver g :: 'v completion) \<in> set split_ec_sigs
   \<and> (inner_of (ec_receiver g :: 'v completion) = Some g' \<longrightarrow> ec_receiver g' = (ec_receiver g :: 'v completion))
   \<and> ((ec_receiver (In_Value_Ec ec) :: 'v completion) = ec_completion ec \<longleftrightarrow> \<not> failed ec \<or> \<not> code_equals_condition ec errc_operation_canceled)"
proof -
  have "inner_of (ec_receiver g :: 'v completion) = Some g' \<longrightarrow> ec_receiver g' = (ec_receiver g :: 'v completion)" by (cases g) (auto split: if_splits)
  moreover have "completion_sig (ec_receiver g :: 'v completion) \<in> set split_ec_sigs" by (cases g) (auto simp: split_ec_sigs_def)
  ultimately show ?thesis by (simp add: ec_completion_def)
qed

section \<open>A count beside the code\<close>

text \<open>\<^verbatim>\<open>counted_read_op\<close>: \<open>cr_n_out\<close> is where the count goes.\<close>

record counted_read_op =
  cr_ec :: error_code
  cr_n :: nat
  cr_n_out :: nat

definition counted_result :: "error_code \<Rightarrow> nat \<Rightarrow> nat \<Rightarrow> counted_read_op" where
  "counted_result ec n out = \<lparr>cr_ec = ec, cr_n = n, cr_n_out = out\<rparr>"

definition counted_ready :: "counted_read_op \<Rightarrow> bool" where
  "counted_ready op = False"

text \<open>It posts the handle and stays suspended.\<close>

definition counted_suspend :: "counted_read_op \<Rightarrow> handle \<Rightarrow> nat option \<Rightarrow> suspend_result \<times> continuation" where
  "counted_suspend op h owner = (S_handle noop, \<lparr>c_h = Some h, c_owner = owner\<rparr>)"

definition counted_resume :: "counted_read_op \<Rightarrow> (nat \<Rightarrow> nat) \<Rightarrow> 'v aw_value \<times> (nat \<Rightarrow> nat)" where
  "counted_resume op counts = (V_ec_tuple (cr_ec op), counts(cr_n_out op := cr_n op))"

text \<open>
  The count is written before the receiver is completed, and so it is valid on every channel, the stopped one included: driven by an operation state the counted operation starts without completing, and when the
  executor resumes it, it has written its count and delivers the completion of its code.
\<close>

theorem count_valid_on_every_channel:
  assumes "place_inv Unstarted k s" and "op = counted_result ec n out" and "counted_resume op counts = (v, counts')"
  shows "op_start k True (scripted (counted_ready op) (fst (counted_suspend op op_cb ow))) (Inr v) s = Some (bound k s, None)
    \<and> on_resume k True (Inr v) (bound k s) = Some (op_deliver (ec_completion ec) (bound k s)) \<and> counts' out = n"
proof -
  have v: "v = V_ec_tuple ec" and c: "counts' out = n" using assms(2,3) by (auto simp: counted_resume_def counted_result_def)
  have t: "resume_type (T_tuple [El_ec]) True (Inr v)" by (simp add: v)
  have "noop \<noteq> op_cb" by (simp add: op_cb_def noop_def)
  then have "op_start k True (scripted (counted_ready op) (fst (counted_suspend op op_cb ow))) (Inr v) s = Some (bound k s, None)"
    using op_start_eq [OF assms(1) t] by (simp add: counted_ready_def counted_suspend_def)
  moreover have "on_resume k True (Inr v) (bound k s) = Some (op_deliver (ec_completion ec) (bound k s))"
    using on_resume_channel [OF bound_inv(1) [OF assms(1)] t] by (simp add: v ec_completion_channel)
  ultimately show ?thesis using c by simp
qed

end
