(* ===== verification/Spec2Isabelle.thy ===== *)
theory Spec2Isabelle
  imports Buffers Slices Buffer_Array Errors Stream_IO Fuse Mock_Streams Intrusive Strand Thread_Pool Abandon
    Exec_Context Recycling Async_Mutex Async_Event Async_Waker Work_Guard When_All When_Any
    Task_Chain Run_Boundary Frame_Caches Any_Stream Any_Stream_Memory Any_Stream_Pair
    Task_Objects Launch Executors Blocking Stream_Pair Stream_Expect Write_Now_Op Await_Adapters Awaitable_Sender
    Sender_Awaitable Sender_Exchange Asio_Adapters Teardown Pool_Teardown Loop_Contexts Notification Type_Id
    Promise_Storage Make_Buffer Sender_Adaptors
begin

text \<open>
  A verification development for Boost.Capy, a C++20 library of coroutine building blocks: coroutine types and what starts them, executors, synchronisation
  between coroutines, buffer sequences and byte streams. Paths below are relative to \<^verbatim>\<open>include/boost/capy/\<close>, those that start with \<^verbatim>\<open>src/\<close> to the repository.

  \<^bold>\<open>How the program is put together.\<close> A coroutine (\<^verbatim>\<open>task.hpp\<close>, \<^verbatim>\<open>quitter.hpp\<close>) is started by \<^verbatim>\<open>run_async\<close> on an executor and awaits other coroutines and operations;
  the environment it hands down (executor, stop token, frame allocator, owner) is \<^verbatim>\<open>await_context\<close>. Executors take continuations: the thread pool keeps them in an intrusive queue, a strand
  serialises them on top of another executor, and one that closes gives them up through their owners (\<^verbatim>\<open>ex/abandon.hpp\<close>). An execution context keeps the services of an executor.
  Frames come from the recycling memory resource. Coroutines synchronise through \<^verbatim>\<open>async_mutex\<close>, \<^verbatim>\<open>async_event\<close>, \<^verbatim>\<open>async_waker\<close>, \<^verbatim>\<open>when_all\<close> and \<^verbatim>\<open>when_any\<close>. Streams move bytes
  between buffer sequences; \<^verbatim>\<open>read\<close>, \<^verbatim>\<open>write\<close> and \<^verbatim>\<open>write_now\<close> are loops over the partial operations of any stream. \<^verbatim>\<open>test/\<close> has in-memory streams and the injection of failures.

  \<^bold>\<open>How it is modelled.\<close> State is a record, enumerations are datatypes, errors are values: an error code is a value with its category, a call that may throw has a sum type. Sequential code is a
  function on the state. Code that threads share is a step relation whose rules are the critical sections or the single accesses to an atomic, under sequential
  consistency; what a client, a stop request, a posted continuation or a closing executor can do at any moment are rules too, so that a theorem about reachable states is one about every interleaving.
  A callback into code of the user (a factory, a handler, the reaction to a post) is an argument. Names with the prefix of a record that the code has no member for are ghosts;
  the theories say which. \<^verbatim>\<open>std::size_t\<close> is a number below \<open>2 ^ 64\<close> with the wrap-around written out (\<open>Prelude\<close>).

  \<^bold>\<open>Theories.\<close>

  \<^item> \<open>Prelude\<close>: sizes, addresses, shared lemmas on lists.

  \<^item> \<open>Buffers\<close> (\<^verbatim>\<open>buffers.hpp\<close>, \<^verbatim>\<open>buffers/buffer_copy.hpp\<close>, \<^verbatim>\<open>buffers/front.hpp\<close>), \<open>Make_Buffer\<close> (\<^verbatim>\<open>buffers/make_buffer.hpp\<close>), \<open>Slices\<close> (\<^verbatim>\<open>detail/slice_of.hpp\<close>, \<^verbatim>\<open>buffers/buffer_slice.hpp\<close>, \<^verbatim>\<open>buffers/consuming_buffers.hpp\<close>) and
    \<open>Buffer_Array\<close> (\<^verbatim>\<open>detail/buffer_array.hpp\<close>, \<^verbatim>\<open>buffers/buffer_param.hpp\<close>). A sequence is abstracted to the list of addresses it denotes (\<open>addrs\<close>). Copying writes the bytes the
    lists say and no other; slices, consumed sequences and bounded windows denote the \<open>take\<close> and \<open>drop\<close> their documentation promises.

  \<^item> \<open>Errors\<close> (\<^verbatim>\<open>error.hpp\<close>, \<^verbatim>\<open>cond.hpp\<close>, \<^verbatim>\<open>src/error.cpp\<close>, \<^verbatim>\<open>src/cond.cpp\<close>, \<^verbatim>\<open>src/detail/except.cpp\<close>): codes, conditions and which code matches which condition.

  \<^item> \<open>Stream_IO\<close> (\<^verbatim>\<open>read.hpp\<close>, \<^verbatim>\<open>write.hpp\<close>, \<^verbatim>\<open>read_at_least.hpp\<close>, \<^verbatim>\<open>write_at_least.hpp\<close>, \<^verbatim>\<open>io/write_now.hpp\<close>): the transfer loops over any stream, in locales that state the semantic requirements
    of \<^verbatim>\<open>concept/read_stream.hpp\<close> and \<^verbatim>\<open>concept/write_stream.hpp\<close>. The loops are partial functions, since a stream may stall for ever; that they return on a stream that makes progress is part of the properties.
    \<open>Write_Now_Op\<close>: the operation of \<^verbatim>\<open>write_now\<close> as a coroutine that starts before it is awaited.

  \<^item> \<open>Fuse\<close> (\<^verbatim>\<open>test/fuse.hpp\<close>) and \<open>Mock_Streams\<close> (\<^verbatim>\<open>test/read_stream.hpp\<close>, \<^verbatim>\<open>test/write_stream.hpp\<close>, \<^verbatim>\<open>test/bufgrind.hpp\<close>, \<^verbatim>\<open>test/buffer_to_string.hpp\<close>): injected failures, with the exact sequence of rounds, and the streams
    that interpret the stream locales. What \<^verbatim>\<open>read\<close>, \<^verbatim>\<open>write\<close> and \<^verbatim>\<open>write_now\<close> do on them is stated over all failures the fuse can inject.

  \<^item> \<open>Any_Stream\<close> (\<^verbatim>\<open>io/any_read_stream.hpp\<close>, \<^verbatim>\<open>io/any_write_stream.hpp\<close>): a type-erased stream keeps the contract of the stream it wraps. \<open>Any_Stream_Memory\<close>: its storage, with wrappers and awaitables moved and
    destroyed while operations are in flight. \<open>Any_Stream_Pair\<close> (\<^verbatim>\<open>io/any_stream.hpp\<close>): the wrapper of both directions over the two, with every failure of its constructor.

  \<^item> \<open>Stream_Pair\<close> (\<^verbatim>\<open>test/stream.hpp\<close>): two connected ends, whose reads park until data arrives, are cancelled or destroyed. Bytes arrive in order and once, and a parked read with data to take has been woken.
    \<open>Stream_Expect\<close>: \<^verbatim>\<open>expect\<close>, a transfer over an end of the pair.
    \<open>Blocking\<close> (\<^verbatim>\<open>test/run_blocking.hpp\<close>, \<^verbatim>\<open>src/test/run_blocking.cpp\<close>): the event loop of the test driver, and with the machine of \<open>Task_Chain\<close> what \<^verbatim>\<open>run_blocking\<close> returns or throws.

  \<^item> \<open>Intrusive\<close> (\<^verbatim>\<open>detail/intrusive.hpp\<close>, the queues of \<^verbatim>\<open>src/ex/thread_pool.cpp\<close> and \<^verbatim>\<open>src/ex/detail/strand_queue.hpp\<close>): pointers as a store of fields, refining lists.

  \<^item> \<open>Strand\<close> (\<^verbatim>\<open>src/ex/detail/strand_service.cpp\<close>, \<^verbatim>\<open>src/ex/detail/strand_impl.hpp\<close>, \<^verbatim>\<open>ex/strand.hpp\<close>): mutual exclusion, order, no lost work, shutdown. \<open>Thread_Pool\<close> (\<^verbatim>\<open>src/ex/thread_pool.cpp\<close>): no lost wake-up,
    order, \<^verbatim>\<open>join\<close>, with the threads blocked on each of the two condition variables until they are notified. \<open>Teardown\<close> and \<open>Pool_Teardown\<close>: the destructor of the pool, which drains a queue that giving up work fills again, and \<^verbatim>\<open>dispatch\<close>. \<open>Abandon\<close> (\<^verbatim>\<open>ex/abandon.hpp\<close>, \<^verbatim>\<open>continuation.hpp\<close>): each segment is given up once. \<open>Work_Guard\<close> (\<^verbatim>\<open>ex/work_guard.hpp\<close>): guards and the count of work.
    \<open>Exec_Context\<close> (\<^verbatim>\<open>src/ex/execution_context.cpp\<close>, \<^verbatim>\<open>ex/execution_context.hpp\<close>): the service registry and the order of its destruction.

  \<^item> \<open>Recycling\<close> (\<^verbatim>\<open>ex/recycling_memory_resource.hpp\<close> with its \<^verbatim>\<open>.cpp\<close>, \<^verbatim>\<open>ex/frame_alloc_mixin.hpp\<close>): no block is handed out twice, none is too small, none is lost. \<open>Frame_Caches\<close>: the
    one-frame caches of the strand invoker (lock-free) and of \<^verbatim>\<open>write_now\<close>.

  \<^item> \<open>Async_Mutex\<close>, \<open>Async_Event\<close>, \<open>Async_Waker\<close> (the headers of the same names in \<^verbatim>\<open>ex/\<close>): waiters, stop requests, executors that destroy what they are given, destruction of the object with waiters in place and of the frames of waiters.
    Destroying the frame of a waiter of \<^verbatim>\<open>async_waker\<close> between its claim and its post is left out: the comments of the header take it to be pinned there.

  \<^item> \<open>When_Join\<close>, \<open>When_All\<close>, \<open>When_Any\<close> (\<^verbatim>\<open>when_all.hpp\<close>, \<^verbatim>\<open>when_any.hpp\<close>): the shared join core as a step relation, and the results of all overloads for any order of completion.

  \<^item> \<open>Task_Chain\<close> (\<^verbatim>\<open>task.hpp\<close>, \<^verbatim>\<open>quitter.hpp\<close>, \<^verbatim>\<open>ex/run_async.hpp\<close>, \<^verbatim>\<open>ex/run.hpp\<close>, \<^verbatim>\<open>detail/run_callbacks.hpp\<close>): a machine of frames, promises and continuations. It refines a stack of bodies, which computes what the
    body means in direct style; every run ends. \<open>Task_Objects\<close>: tasks as owners of their frames, through moves, releases and awaits. \<open>Promise_Storage\<close>: the unions and flags of the promises implement the outcome the machine has. \<open>Run_Boundary\<close>: \<^verbatim>\<open>run\<close> on another executor, with the two ways in which it terminates the program. \<open>Launch\<close> (\<^verbatim>\<open>ex/run_async.hpp\<close>, \<^verbatim>\<open>ex/run.hpp\<close>, \<^verbatim>\<open>detail/frame_memory_resource.hpp\<close>): all overloads, the wrappers
    and the thread-local frame allocator on every path, the footer of the trampoline's frame on 64-bit words, and when an unhandled exception ends the program.

  \<^item> \<open>Executors\<close> (\<^verbatim>\<open>ex/any_executor.hpp\<close>, \<^verbatim>\<open>ex/executor_ref.hpp\<close>): wrapped executors as values in a heap with static types. Equality is that of what the wrappers stand for, calls reach the executor at the end,
    \<^verbatim>\<open>target\<close> never yields a pointer of a wrong type, and shared executors live exactly as long as they are held.

  \<^item> \<open>Await_Adapters\<close> (\<^verbatim>\<open>detail/await_suspend_helper.hpp\<close>, \<^verbatim>\<open>ex/context_awaitable_promise_base.hpp\<close>, \<^verbatim>\<open>ex/this_coro.hpp\<close>, \<^verbatim>\<open>ex/immediate.hpp\<close>, \<^verbatim>\<open>ex/frame_allocator.hpp\<close>, \<^verbatim>\<open>results.hpp\<close>): what the language
    does with an awaitable, that every helper which drives one by hand, or without symmetric transfer, does the same when nothing throws, and where the \<^verbatim>\<open>noexcept\<close> of a helper ends the program instead. \<open>Type_Id\<close> (\<^verbatim>\<open>detail/type_id.hpp\<close>): types without RTTI.

  \<^item> Bridges to other frameworks, whose code is outside and an argument. \<open>Awaitable_Sender\<close> (\<^verbatim>\<open>example/awaitable-sender/\<close>): an awaitable as a sender completes once, and refines an abstract sender whose events are the stop requests, the reported result and giving up; \<open>Sender_Adaptors\<close> has the adaptors around it.
    \<open>Sender_Awaitable\<close> (\<^verbatim>\<open>example/sender-bridge/sender_awaitable.hpp\<close>): a sender as an awaitable, and the round trip through both. \<open>Sender_Exchange\<close> (\<^verbatim>\<open>bench/beman/sender_awaitable.hpp\<close>): the form in which the
    receiver and \<^verbatim>\<open>await_suspend\<close> race for a flag. \<open>Asio_Adapters\<close> (\<^verbatim>\<open>buffers/asio.hpp\<close>, \<^verbatim>\<open>example/asio/api/\<close>): buffers in both directions, handlers that settle their coroutine once, and the two throws before a handler exists that do not.

  \<^item> Contexts of the examples: \<open>Loop_Contexts\<close> (\<^verbatim>\<open>example/custom-executor/\<close>, \<^verbatim>\<open>example/gui-integration/\<close>), a run loop with its destructor and a loop bound to one thread; \<open>Notification\<close>
    (\<^verbatim>\<open>example/cuda/notification-strategies/\<close>), services that wait for a device.

  \<^bold>\<open>Interfaces.\<close> \<open>read_stream_contract\<close> and \<open>write_stream_contract\<close> (interpreted on the mock streams, both ends of a stream pair, a stream whose writes fail after one byte and, through a lemma that erasure keeps a contract, the erased ones), \<open>fifo\<close> (the intrusive queue, the queue
  of the pool, the queue of the strand), \<open>fuse_body\<close>, \<open>work_counter\<close> (the thread pool), \<open>join_body\<close> with its extensions \<open>all_runner\<close> and \<open>any_runner\<close> (the three bodies each of \<^verbatim>\<open>when_all\<close> and \<^verbatim>\<open>when_any\<close>), \<open>one_shot\<close> (a signal
  made exactly once: the two sender bridges and the exchange), \<open>draining\<close> (the destructors of the pool and of the run loop).
  This theory composes them: \<open>work_counter\<close> holds for every executor that wraps a thread pool, so guards balance through any wrappers, and \<open>write_stream_contract\<close> is interpreted on an erased end of a stream
  pair, so that \<^verbatim>\<open>write\<close> through the erasure delivers to the other end.

  \<^bold>\<open>Loops and fuel.\<close> Loops over a sequence are structural recursions. The transfer loops and the rounds of the fuse are partial functions into \<open>option\<close>, where \<open>None\<close> is a loop that does not end. So are the draining of a closed blocking context and the calls through wrapped executors,
  which are shown to return where the unwinding posts finitely much and where no executor refers to itself. The destruction
  of a chain of frames recurses with the number of frames ever made, which bounds the length of the chain.

  \<^bold>\<open>What the modelling showed.\<close> \<open>write_now_fast_undercounts\<close>, \<open>armed_again_skips_error_codes\<close>, \<open>running_mark_can_be_lost\<close>, \<open>callback_outlives_waker\<close>, \<open>any_stream_leaks_storage\<close>,
  \<open>provide_empty_wakes\<close>, \<open>moved_task_loses_guard\<close>, \<open>trampoline_allocator_misaligned\<close>, \<open>asio_early_stop_lost\<close> and \<open>msvc_name_from_return_type\<close>
  are behaviours of the code that its documentation excludes or that it does not mean.

  \<^bold>\<open>Not modelled.\<close> Concepts and type traits have no behaviour. Weak memory orders are read as sequentially consistent. The compiler's coroutine transformation is taken as given: the machine of
  \<open>Task_Chain\<close> is what it makes of the promise types. \<^verbatim>\<open>thread_local\<close> storage, thread names and the process-wide
  \<^verbatim>\<open>system_context\<close> are those of the platform. The sender and Asio frameworks, the device library and compilers' texts are parameters. The measuring loops of \<^verbatim>\<open>bench/\<close>, the examples that only use the library, and the tools of the documentation add no operations of their own.
\<close>

section \<open>Guards over wrapped executors\<close>

text \<open>
  The pools of a program by their names, and what a work notification does to them when it is sent through an
  executor of any shape.
\<close>

definition notify_work :: "ex_objs \<Rightarrow> ex_op \<Rightarrow> ex_val \<Rightarrow> (nat \<Rightarrow> pool) \<Rightarrow> (nat \<Rightarrow> pool)" where
  "notify_work h o' x ps =
     (case ex_call h o' x of
        Some (Inr (On_Pool p Op_Started)) \<Rightarrow> ps(p := on_work_started (ps p))
      | Some (Inr (On_Pool p Op_Finished)) \<Rightarrow> ps(p := pool_work_finished (ps p))
      | _ \<Rightarrow> ps)"

lemma wrapped_work_counter:
  assumes "backed_by h x p"
  shows "work_counter (notify_work h Op_Started x) (notify_work h Op_Finished x) (\<lambda>ps. p_outstanding (ps p)) (\<lambda>ps. p_stop (ps p))"
  by unfold_locales
    (simp_all add: notify_work_def backed_by_call [OF assms] pool_work.started pool_work.finished
      pool_work.started_keeps pool_work.finished_keeps)

lemma notify_other_pools: "backed_by h x p \<Longrightarrow> q \<noteq> p \<Longrightarrow> notify_work h Op_Started x ps q = ps q \<and> notify_work h Op_Finished x ps q = ps q"
  by (simp add: notify_work_def backed_by_call)

text \<open>
  C14. Guards keep the count of outstanding work balanced, whatever executor they hold: a thread pool's own, or one
  wrapped in any number of \<^verbatim>\<open>any_executor\<close>s, \<^verbatim>\<open>executor_ref\<close>s and strands over it. After any run of making, copying,
  moving, resetting and destroying guards, moved-from and reset guards included, the outstanding work of the pool at the
  end of the wrappers has grown by exactly the number of living guards that own work; and while there is other
  outstanding work, none of these operations stops the pool.
\<close>

theorem wrapped_guards_balance:
  assumes "backed_by h x p"
    and "guard_run (notify_work h Op_Started x) (notify_work h Op_Finished x) cs ([], ps) = (gs, ps')"
  shows "p_outstanding (ps' p) = p_outstanding (ps p) + length (filter wg_owns_work gs)
    \<and> (0 < p_outstanding (ps p) \<longrightarrow> p_stop (ps' p) = p_stop (ps p))"
  using work_counter.guard_balance [OF wrapped_work_counter [OF assms(1)] assms(2), of "p_outstanding (ps p)"]
  by (simp add: owning_def)

theorem wrapped_guards_balance_witness:
  "p_outstanding (snd (guard_run (notify_work demo_heap Op_Started (Ref_Ex (Some (4, Strand_T Any_T))))
       (notify_work demo_heap Op_Finished (Ref_Ex (Some (4, Strand_T Any_T))))
       [Make, Move 0, Copy 1, Reset 1, guard_cmd.Destroy 0] ([], \<lambda>_. pool_init 2 8)) 7)
     = p_outstanding (pool_init 2 8) + 1"
proof -
  let ?x = "Ref_Ex (Some (4, Strand_T Any_T))"
  let ?r = "guard_run (notify_work demo_heap Op_Started ?x) (notify_work demo_heap Op_Finished ?x)
      [Make, Move 0, Copy 1, Reset 1, guard_cmd.Destroy 0] ([], \<lambda>_. pool_init 2 8)"
  have b: "backed_by demo_heap ?x 7"
    by (rule backed_by.ref [where v = "Strand_Ex 9 (Any_Ex (Some 0))"], simp_all add: demo_heap_def,
        rule backed_by.strand, rule backed_by.any [where v = "Pool_Ex 7"], simp, rule backed_by.pool)
  have "length (filter wg_owns_work (fst ?r)) = 1"
    by (simp add: wg_make_def wg_move_def wg_copy_def wg_reset_def wg_destroy_def wg_owns_work_def)
  then show ?thesis
    using wrapped_guards_balance [OF b, of "[Make, Move 0, Copy 1, Reset 1, guard_cmd.Destroy 0]" "\<lambda>_. pool_init 2 8" "fst ?r" "snd ?r"]
    by simp
qed

section \<open>Writing through a type-erased end of a stream pair\<close>

lemma pair_write_reaches:
  "write_stream_contract (sp_write_some loc stop i) (\<lambda>s. sp_reach P s \<and> hf_ptr (sp_half s (\<not> i)) = ptr) {ptr..} (\<lambda>s. sp_in s (\<not> i))"
proof
  fix s bs m ec n s'
  assume a: "sp_reach P s \<and> hf_ptr (sp_half s (\<not> i)) = ptr" and r: "sp_write_some loc stop i s bs m = Inr (ec, n, s')"
  have "sp_reach P (write_state (sp_write_some loc stop i s bs m))" using a sp_reach.step sp_step.writes by blast
  then show "sp_reach P s' \<and> hf_ptr (sp_half s' (\<not> i)) = ptr"
    using r a pair_write.ok_kept [of s i ptr loc stop bs m ec n s'] by simp
next
  fix s bs m ec n s'
  assume a: "sp_reach P s \<and> hf_ptr (sp_half s (\<not> i)) = ptr" "addrs bs \<noteq> []" "wf_buffers bs" "set (addrs bs) \<inter> {ptr..} = {}"
    and r: "sp_write_some loc stop i s bs m = Inr (ec, n, s')"
  show "n \<le> length (addrs bs) \<and> (if failed ec then n < length (addrs bs) else 1 \<le> n)"
    using pair_write.count [OF conjunct2 [OF a(1)] a(2-4) r] .
  show "sp_in s' (\<not> i) = sp_in s (\<not> i) @ map m (take n (addrs bs))"
    using pair_write.sent [OF conjunct2 [OF a(1)] a(2-4) r] .
qed

interpretation erased_pair_write: write_stream_contract "any_write_some (sp_write_some loc stop i)"
    "\<lambda>s. sp_reach P s \<and> hf_ptr (sp_half s (\<not> i)) = ptr" "{ptr..}" "\<lambda>s. sp_in s (\<not> i)"
  for loc stop i P ptr
  by (rule any_write_contract) (rule pair_write_reaches)

lemma pair_bytes: "sp_reach P s \<Longrightarrow> sp_in s i = sp_out s i @ sp_data i s"
  using sp_weakD(3) [OF sp_invD(1) [OF sp_reach_inv]] by (simp add: sp_data_def)

text \<open>
  C19. Streams composed: \<^verbatim>\<open>write\<close> on an \<^verbatim>\<open>any_write_stream\<close> over one end of a stream pair, for buffer sequences of any
  length and with any failures injected. It returns; unless the fuse threw, it reports an error exactly when it wrote
  less than the whole, and what the other end has read and has still to read is what it was before, followed by
  exactly the bytes the count says, in order. The pair is left in a state it could reach by itself, so its own
  guarantees go on holding.
\<close>

theorem erased_write_reaches_peer:
  assumes "sp_reach P s" and "hf_ptr (sp_half s (\<not> i)) = ptr" and "wf_buffers bs" and "set (addrs bs) \<inter> {ptr..} = {}"
  shows "\<exists>r. capy_write (any_write_some (sp_write_some loc stop i)) s bs m = Some r \<and>
    (case r of Inl e \<Rightarrow> True
     | Inr (ec, n, s') \<Rightarrow> n \<le> length (addrs bs) \<and> (failed ec \<longleftrightarrow> n < length (addrs bs)) \<and> sp_reach P s'
         \<and> sp_out s' (\<not> i) @ sp_data (\<not> i) s' = sp_out s (\<not> i) @ sp_data (\<not> i) s @ map m (take n (addrs bs)))"
proof -
  obtain r where r: "capy_write (any_write_some (sp_write_some loc stop i)) s bs m = Some r"
    and w: "erased_pair_write.written P i ptr m (addrs bs) (length (addrs bs)) 0 s r"
    using erased_pair_write.capy_write_written [OF conjI [OF assms(1,2)] assms(3,4)] by blast
  have "sp_out s' (\<not> i) @ sp_data (\<not> i) s' = sp_out s (\<not> i) @ sp_data (\<not> i) s @ map m (take n (addrs bs))"
    if "sp_reach P s'" and "sp_in s' (\<not> i) = sp_in s (\<not> i) @ map m (take n (addrs bs))" for s' n
    using that pair_bytes [OF that(1), of "\<not> i"] pair_bytes [OF assms(1), of "\<not> i"] by simp
  then show ?thesis
    using r w by (auto simp: erased_pair_write.written_start split: sum.split)
qed

theorem erased_write_reaches_peer_witness:
  "\<exists>r. capy_write (any_write_some (sp_write_some 0 False False)) (make_stream_pair (\<lambda>_. 100) fuse_default) demo_bufs of_nat = Some r \<and>
    (case r of Inl e \<Rightarrow> True
     | Inr (ec, n, s') \<Rightarrow> n \<le> 5 \<and> (failed ec \<longleftrightarrow> n < 5) \<and> sp_reach (\<lambda>_. 100) s'
         \<and> sp_out s' True @ sp_data True s' = map of_nat (take n [10, 20, 21, 22, 23]))"
proof -
  let ?s = "make_stream_pair (\<lambda>_. 100) fuse_default"
  have s: "hf_ptr (sp_half ?s (\<not> False)) = 100" "sp_out ?s True = []" "sp_data True ?s = []"
    by (simp_all add: make_stream_pair_def sp_data_def)
  have five: "length [10, 20, 21, 22, 23 :: addr] = 5" by simp
  show ?thesis
    using erased_write_reaches_peer [OF sp_reach.start s(1) demo_bufs_wf(1,4), of 0 False of_nat]
    unfolding demo_bufs_addrs not_False_eq_True s(2,3) five append_Nil .
qed

end
